(* ===== verification/Gem5_Prelude.thy ===== *)
theory Gem5_Prelude
  imports Main "HOL-Library.Word"
begin

text \<open>
  Shared vocabulary of the development: the machine integer types of the simulator
  (\<^verbatim>\<open>src/gem5/src/base/types.hh\<close>), the way an aborting check of the code
  (\<^verbatim>\<open>assert\<close>, \<^verbatim>\<open>fatal\<close>, \<^verbatim>\<open>panic\<close>, an out-of-range \<^verbatim>\<open>at()\<close>) is
  represented as a value, the theorem collections the component theories feed, and generic
  lemmas on lists, results and words.
\<close>

unbundle bit_operations_syntax

section \<open>Machine integers\<close>

type_synonym u8 = "8 word"
type_synonym u16 = "16 word"
type_synonym u32 = "32 word"
type_synonym u64 = "64 word"
type_synonym addr = u64
type_synonym tick = u64

section \<open>Aborting checks as values\<close>

datatype sim_error = Assert_Failed | Fatal_Error | Panic_Error | Out_Of_Range

type_synonym 'a result = "sim_error + 'a"

definition bindR :: "'a result \<Rightarrow> ('a \<Rightarrow> 'b result) \<Rightarrow> 'b result" where
  "bindR r k = (case r of Inl e \<Rightarrow> Inl e | Inr x \<Rightarrow> k x)"

definition guardR :: "bool \<Rightarrow> sim_error \<Rightarrow> 'a result \<Rightarrow> 'a result" where
  "guardR c e k = (if c then k else Inl e)"

named_theorems gem5_defs "definitions the component proofs unfold"
named_theorems gem5_inv "preservation lemmas of component invariants"
named_theorems gem5_bits "bit-level characterisations of word operations"

lemma bindR_simps [simp]:
  "bindR (Inl e) k = Inl e"
  "bindR (Inr x) k = k x"
  by (simp_all add: bindR_def)

lemma bindR_Inr_iff: "bindR r k = Inr y \<longleftrightarrow> (\<exists>x. r = Inr x \<and> k x = Inr y)"
  by (cases r) auto

lemma guardR_simps [simp]:
  "guardR True e k = k"
  "guardR False e k = Inl e"
  by (simp_all add: guardR_def)

lemma guardR_Inr_iff [simp]: "guardR c e k = Inr y \<longleftrightarrow> c \<and> k = Inr y"
  by (simp add: guardR_def)

lemma guardR_Inl_iff: "guardR c e k = Inl e' \<longleftrightarrow> (\<not> c \<and> e = e') \<or> (c \<and> k = Inl e')"
  by (auto simp: guardR_def)

text \<open>A computation that passes all its checks, with a result as described.\<close>

definition succeeds :: "'a result \<Rightarrow> ('a \<Rightarrow> bool) \<Rightarrow> bool" where
  "succeeds r P \<longleftrightarrow> (case r of Inl e \<Rightarrow> False | Inr x \<Rightarrow> P x)"

lemma succeeds_simps [simp]: "succeeds (Inr x) P = P x" "\<not> succeeds (Inl e) P"
  by (simp_all add: succeeds_def)

lemma succeedsE: "succeeds r P \<Longrightarrow> (\<And>x. r = Inr x \<Longrightarrow> P x \<Longrightarrow> thesis) \<Longrightarrow> thesis"
  by (cases r) simp_all

lemma succeeds_bind: "succeeds r P \<Longrightarrow> (\<And>x. P x \<Longrightarrow> succeeds (k x) Q) \<Longrightarrow> succeeds (bindR r k) Q"
  by (cases r) simp_all

lemma succeeds_mono: "succeeds r P \<Longrightarrow> (\<And>x. P x \<Longrightarrow> Q x) \<Longrightarrow> succeeds r Q"
  by (cases r) simp_all

text \<open>A computation with a loop that may not end: \<^const>\<open>None\<close> is non-termination.\<close>

type_synonym 'a run = "'a result option"

definition bindO :: "'a run \<Rightarrow> ('a \<Rightarrow> 'b run) \<Rightarrow> 'b run" where
  "bindO m k = (case m of None \<Rightarrow> None | Some (Inl e) \<Rightarrow> Some (Inl e) | Some (Inr x) \<Rightarrow> k x)"

definition guardO :: "bool \<Rightarrow> sim_error \<Rightarrow> 'a run \<Rightarrow> 'a run" where
  "guardO c e k = (if c then k else Some (Inl e))"

definition retO :: "'a \<Rightarrow> 'a run" where
  "retO x = Some (Inr x)"

lemma bindO_simps [simp]:
  "bindO None k = None"
  "bindO (Some (Inl e)) k = Some (Inl e)"
  "bindO (Some (Inr x)) k = k x"
  "bindO (retO x) k = k x"
  by (simp_all add: bindO_def retO_def)

lemma bindO_Inr_iff: "bindO m k = Some (Inr y) \<longleftrightarrow> (\<exists>x. m = Some (Inr x) \<and> k x = Some (Inr y))"
  by (auto simp: bindO_def split: option.splits sum.splits)

lemma guardO_simps [simp]:
  "guardO True e k = k"
  "guardO False e k = Some (Inl e)"
  by (simp_all add: guardO_def)

lemma guardO_Inr_iff [simp]: "guardO c e k = Some (Inr y) \<longleftrightarrow> c \<and> k = Some (Inr y)"
  by (simp add: guardO_def)

lemma retO_Inr_iff [simp]: "retO x = Some (Inr y) \<longleftrightarrow> x = y"
  by (simp add: retO_def)

section \<open>Limits\<close>

text \<open>The largest number of hardware threads of a core (\<^verbatim>\<open>src/gem5/src/cpu/o3/limits.hh\<close>).\<close>

definition MaxThreads :: nat where "MaxThreads = 4"

section \<open>Lists\<close>

lemma nth_list_update_eq_if: "xs[i := v] ! j = (if i = j \<and> j < length xs then v else xs ! j)"
proof (cases "i < length xs")
  case True
  then show ?thesis by (auto simp: nth_list_update_neq)
next
  case False
  then show ?thesis by (auto simp: list_update_beyond)
qed

lemma sum_list_update_add:
  fixes xs :: "'a::comm_monoid_add list"
  assumes "i < length xs"
  shows "sum_list (xs[i := v]) + xs ! i = sum_list xs + v"
  using assms
proof (induction xs arbitrary: i)
  case (Cons x xs)
  then show ?case by (cases i) (auto simp: ac_simps)
qed simp

lemmas sum_list_update_nat = sum_list_update_add [where 'a = nat]

lemma set_update_subset_insert': "y \<in> set (xs[i := v]) \<Longrightarrow> y = v \<or> y \<in> set xs"
  using set_update_subset_insert [of xs i v] by auto

lemma find_SomeD: "find P xs = Some x \<Longrightarrow> x \<in> set xs \<and> P x"
  by (induction xs) (auto split: if_splits)

section \<open>Words\<close>

lemma unat_u64_less [simp]: "unat (w :: u64) < 18446744073709551616"
  using unsigned_less [of w, where 'a = nat] by simp

lemma uint_u64_less [simp]: "uint (w :: u64) < 18446744073709551616"
  using unsigned_less [of w, where 'a = int] by simp

lemma unat_div_shift: "unat (drop_bit n (w :: 'a::len word)) = unat w div 2 ^ n"
  by (simp add: unat_drop_bit_eq flip: drop_bit_eq_div)

lemma word_eq_bitI: "(\<And>i. i < 64 \<Longrightarrow> bit v i = bit w i) \<Longrightarrow> v = (w :: u64)"
  by (rule bit_word_eqI) simp

lemma unat_take_bit_mod: "unat (take_bit n (w :: 'a::len word)) = unat w mod 2 ^ n"
  by (simp add: unsigned_take_bit_eq flip: take_bit_eq_mod)

lemma bit_u64_lessD: "bit (w :: u64) i \<Longrightarrow> i < 64"
  using bit_imp_le_length [of w i] by simp

lemma unat_ucast_u32 [simp]: "unat (ucast (w :: u32) :: u64) = unat w"
proof -
  have "unat w < 2 ^ 64" using unsigned_less [of w, where 'a = nat] by simp
  then show ?thesis by (simp add: unsigned_ucast_eq take_bit_nat_eq_self)
qed

end
