(* ===== verification/Bitfield.thy ===== *)
theory Bitfield
  imports Gem5_Prelude
begin

text \<open>
  \<^verbatim>\<open>src/gem5/src/base/bitfield.hh\<close>: bit field extraction and insertion, bit
  searches and power-of-two rounding. The templates are modelled at \<^verbatim>\<open>uint64_t\<close>.
  A position (\<^verbatim>\<open>unsigned\<close>) is a \<^typ>\<open>nat\<close> below \<open>2\<^sup>3\<^sup>2\<close>; C++ leaves a shift by 64 or more
  undefined and the model gives it the value of the mathematical shift, so the theorems
  bound positions by 64 where it matters. The compiler builtins
  \<^verbatim>\<open>__builtin_popcountl\<close> and \<^verbatim>\<open>__builtin_ctzll\<close> are modelled by their definition.
\<close>

section \<open>Definitions\<close>

definition mask_u64 :: "nat \<Rightarrow> u64" where
  "mask_u64 nbits = (if nbits \<ge> 64 then -1 else push_bit nbits 1 - 1)"

definition bits_val :: "u64 \<Rightarrow> nat \<Rightarrow> nat \<Rightarrow> u64" where
  "bits_val val hi lo = drop_bit lo val AND mask_u64 (hi - lo + 1)"

definition bits_u64 :: "u64 \<Rightarrow> nat \<Rightarrow> nat \<Rightarrow> u64 result" where
  "bits_u64 val hi lo = guardR (hi \<ge> lo) Assert_Failed (Inr (bits_val val hi lo))"

definition bits1 :: "u64 \<Rightarrow> nat \<Rightarrow> u64" where
  "bits1 val b = bits_val val b b"

definition mbits :: "u64 \<Rightarrow> nat \<Rightarrow> nat \<Rightarrow> u64" where
  "mbits val hi lo = val AND (mask_u64 ((hi + 1) mod 2 ^ 32) AND NOT (mask_u64 lo))"

definition mask_range :: "nat \<Rightarrow> nat \<Rightarrow> u64" where
  "mask_range hi lo = mbits (-1) hi lo"

definition sext :: "nat \<Rightarrow> u64 \<Rightarrow> u64" where
  "sext N val = (if bits1 val (N - 1) \<noteq> 0 then val OR NOT (mask_u64 N) else val)"

definition szext :: "nat \<Rightarrow> u64 \<Rightarrow> u64" where
  "szext N val =
     (if bits1 val (N - 1) \<noteq> 0 then val OR NOT (mask_u64 N) else val AND mask_u64 N)"

definition insertBits_val :: "u64 \<Rightarrow> nat \<Rightarrow> nat \<Rightarrow> u64 \<Rightarrow> u64" where
  "insertBits_val val hi lo bit_val =
     (let bmask = mask_range hi lo
      in (val AND NOT bmask) OR (push_bit lo bit_val AND bmask))"

definition insertBits :: "u64 \<Rightarrow> nat \<Rightarrow> nat \<Rightarrow> u64 \<Rightarrow> u64 result" where
  "insertBits val hi lo bit_val =
     guardR (hi \<ge> lo) Assert_Failed (Inr (insertBits_val val hi lo bit_val))"

definition insertBits1 :: "u64 \<Rightarrow> nat \<Rightarrow> u64 \<Rightarrow> u64" where
  "insertBits1 val b bit_val = insertBits_val val b b bit_val"

definition findMsbSet :: "u64 \<Rightarrow> nat" where
  "findMsbSet val =
     (if val = 0 then 0 else
      let (msb, val) = (if bits_val val 63 32 \<noteq> 0 then (32, drop_bit 32 val) else (0, val));
          (msb, val) = (if bits_val val 31 16 \<noteq> 0 then (msb + 16, drop_bit 16 val) else (msb, val));
          (msb, val) = (if bits_val val 15 8 \<noteq> 0 then (msb + 8, drop_bit 8 val) else (msb, val));
          (msb, val) = (if bits_val val 7 4 \<noteq> 0 then (msb + 4, drop_bit 4 val) else (msb, val));
          (msb, val) = (if bits_val val 3 2 \<noteq> 0 then (msb + 2, drop_bit 2 val) else (msb, val))
      in if bits_val val 1 1 \<noteq> 0 then msb + 1 else msb)"

definition findLsbSet :: "u64 \<Rightarrow> nat" where
  "findLsbSet val =
     (if val = 0 then 64 else
      let (lsb, val) = (if bits_val val 31 0 = 0 then (32, drop_bit 32 val) else (0, val));
          (lsb, val) = (if bits_val val 15 0 = 0 then (lsb + 16, drop_bit 16 val) else (lsb, val));
          (lsb, val) = (if bits_val val 7 0 = 0 then (lsb + 8, drop_bit 8 val) else (lsb, val));
          (lsb, val) = (if bits_val val 3 0 = 0 then (lsb + 4, drop_bit 4 val) else (lsb, val));
          (lsb, val) = (if bits_val val 1 0 = 0 then (lsb + 2, drop_bit 2 val) else (lsb, val))
      in if bits_val val 0 0 = 0 then lsb + 1 else lsb)"

definition popCount :: "u64 \<Rightarrow> nat" where
  "popCount val = length (filter (bit val) [0..<64])"

definition alignToPowerOfTwo :: "u64 \<Rightarrow> u64" where
  "alignToPowerOfTwo val =
     (let val = val - 1;
          val = val OR drop_bit 1 val;
          val = val OR drop_bit 2 val;
          val = val OR drop_bit 4 val;
          val = val OR drop_bit 8 val;
          val = val OR drop_bit 16 val;
          val = val OR drop_bit 32 val
      in val + 1)"

fun ctz_from :: "nat \<Rightarrow> u64 \<Rightarrow> nat" where
  "ctz_from 0 val = 0"
| "ctz_from (Suc n) val = (if bit val 0 then 0 else Suc (ctz_from n (drop_bit 1 val)))"

definition ctz64 :: "u64 \<Rightarrow> nat" where
  "ctz64 val = (if val \<noteq> 0 then ctz_from 64 val else 64)"

section \<open>Bit-level characterisations\<close>

lemma mask_u64_eq: "mask_u64 n = mask n"
proof (cases "n \<ge> 64")
  case True
  then show ?thesis
    by (intro word_eq_bitI) (simp add: mask_u64_def bit_simps)
next
  case False
  then show ?thesis by (simp add: mask_u64_def mask_eq_exp_minus_1)
qed

lemma bit_mask_u64 [gem5_bits]: "bit (mask_u64 n) i \<longleftrightarrow> i < n \<and> i < 64"
  by (auto simp: mask_u64_eq bit_simps)

lemma bit_bits_val [gem5_bits]:
  "bit (bits_val v f l) i \<longleftrightarrow> i < f - l + 1 \<and> i < 64 \<and> bit v (l + i)"
  by (auto simp: bits_val_def bit_simps gem5_bits)

lemma bits_val_take: "bits_val v f l = take_bit (f - l + 1) (drop_bit l v)"
  by (rule bit_word_eqI) (auto simp: bit_simps gem5_bits)

lemma bit_mask_range [gem5_bits]:
  "f < 64 \<Longrightarrow> bit (mask_range f l) i \<longleftrightarrow> l \<le> i \<and> i \<le> f \<and> i < 64"
  by (auto simp: mask_range_def mbits_def bit_simps gem5_bits)

lemma bit_insertBits_val [gem5_bits]:
  assumes "f < 64"
  shows "bit (insertBits_val v f l b) i \<longleftrightarrow>
     (if l \<le> i \<and> i \<le> f \<and> i < 64 then bit b (i - l) else bit v i)"
proof (cases "i < 64")
  case True
  with assms show ?thesis
    by (auto simp: insertBits_val_def Let_def bit_simps gem5_bits)
next
  case False
  then have "\<not> bit v i" and "\<not> bit (insertBits_val v f l b) i"
    using bit_u64_lessD by blast+
  with False show ?thesis by simp
qed

lemma bits1_ne_0_iff: "bits1 v n \<noteq> 0 \<longleftrightarrow> bit v n"
proof -
  have "bits1 v n = of_bool (bit v n)"
    by (rule bit_word_eqI) (auto simp: bits1_def bit_simps gem5_bits)
  then show ?thesis by simp
qed

section \<open>Bit searches\<close>

text \<open>
  The binary searches of \<^const>\<open>findMsbSet\<close> and \<^const>\<open>findLsbSet\<close> are six runs
  of one halving step. \<open>msb_inv k\<close> and \<open>lsb_inv k\<close> say what is known when \<open>k\<close>
  candidate positions are left.
\<close>

definition msb_step :: "nat \<Rightarrow> nat \<times> u64 \<Rightarrow> nat \<times> u64" where
  "msb_step k s = (if bits_val (snd s) (2 * k - 1) k \<noteq> 0
                   then (fst s + k, drop_bit k (snd s)) else s)"

definition msb_inv :: "u64 \<Rightarrow> nat \<Rightarrow> nat \<times> u64 \<Rightarrow> bool" where
  "msb_inv v0 k s \<longleftrightarrow> snd s = drop_bit (fst s) v0 \<and> 0 < unat (snd s) \<and> unat (snd s) < 2 ^ k"

lemma unat_bits_val: "unat (bits_val v f l) = unat v div 2 ^ l mod 2 ^ (f - l + 1)"
  by (simp add: bits_val_take unat_take_bit_mod unat_div_shift del: power_Suc)

lemma word_ne_0_iff_unat: "(w :: 'a::len word) \<noteq> 0 \<longleftrightarrow> 0 < unat w"
  by (simp add: unat_gt_0)

lemma bits_val_ne_0_high:
  assumes "0 < k" "unat v < 2 ^ (2 * k)"
  shows "bits_val v (2 * k - 1) k \<noteq> 0 \<longleftrightarrow> 2 ^ k \<le> unat v"
proof -
  have "unat v div 2 ^ k < 2 ^ k"
    using assms(2) by (simp add: less_mult_imp_div_less mult_2 power_add)
  then have "unat (bits_val v (2 * k - 1) k) = unat v div 2 ^ k"
    using assms(1) by (simp add: unat_bits_val mult_2)
  then show ?thesis
    by (simp add: word_ne_0_iff_unat div_greater_zero_iff)
qed

lemma msb_step_inv:
  assumes "0 < k" "msb_inv v0 (2 * k) s"
  shows "msb_inv v0 k (msb_step k s)"
proof -
  obtain m v where s: "s = (m, v)" by force
  have v: "v = drop_bit m v0" "0 < unat v" "unat v < 2 ^ (2 * k)"
    using assms(2) unfolding msb_inv_def s by auto
  show ?thesis
  proof (cases "2 ^ k \<le> unat v")
    case True
    then have "msb_step k s = (m + k, drop_bit k v)"
      using bits_val_ne_0_high [OF assms(1) v(3)] by (simp add: msb_step_def s)
    moreover have "drop_bit k v = drop_bit (m + k) v0"
      by (simp add: v(1) add.commute)
    moreover have "0 < unat (drop_bit k v)"
      using True by (simp add: unat_div_shift div_greater_zero_iff)
    moreover have "unat (drop_bit k v) < 2 ^ k"
      using v(3) by (simp add: unat_div_shift less_mult_imp_div_less mult_2 power_add)
    ultimately show ?thesis by (simp add: msb_inv_def)
  next
    case False
    then have "msb_step k s = s"
      using bits_val_ne_0_high [OF assms(1) v(3)] by (simp add: msb_step_def s)
    with False v show ?thesis by (simp add: msb_inv_def s)
  qed
qed

lemma findMsbSet_steps:
  "val \<noteq> 0 \<Longrightarrow> findMsbSet val =
     fst (msb_step 1 (msb_step 2 (msb_step 4 (msb_step 8 (msb_step 16 (msb_step 32 (0, val)))))))"
  by (simp add: findMsbSet_def msb_step_def Let_def)

lemma findMsbSet_bounds:
  assumes "val \<noteq> 0"
  shows "2 ^ findMsbSet val \<le> unat val" "unat val < 2 ^ (findMsbSet val + 1)"
proof -
  have "msb_inv val (2 * 32) (0, val)"
    using assms by (simp add: msb_inv_def unat_gt_0)
  from msb_step_inv [OF _ this] have "msb_inv val (2 * 16) (msb_step 32 (0, val))" by simp
  from msb_step_inv [OF _ this] have "msb_inv val (2 * 8) (msb_step 16 (msb_step 32 (0, val)))" by simp
  from msb_step_inv [OF _ this]
  have "msb_inv val (2 * 4) (msb_step 8 (msb_step 16 (msb_step 32 (0, val))))" by simp
  from msb_step_inv [OF _ this]
  have "msb_inv val (2 * 2) (msb_step 4 (msb_step 8 (msb_step 16 (msb_step 32 (0, val)))))" by simp
  from msb_step_inv [OF _ this]
  have "msb_inv val (2 * 1) (msb_step 2 (msb_step 4 (msb_step 8 (msb_step 16 (msb_step 32 (0, val))))))"
    by simp
  from msb_step_inv [OF _ this] obtain s where inv: "msb_inv val 1 s" and "fst s = findMsbSet val"
    by (simp add: findMsbSet_steps [OF assms])
  then have "unat (drop_bit (findMsbSet val) val) = 1"
    unfolding msb_inv_def by auto
  then have one: "unat val div 2 ^ findMsbSet val = 1"
    by (simp add: unat_div_shift)
  then show "2 ^ findMsbSet val \<le> unat val"
    using div_greater_zero_iff [of "unat val" "2 ^ findMsbSet val"] by simp
  have "unat val < (unat val div 2 ^ findMsbSet val + 1) * 2 ^ findMsbSet val"
    by (simp add: less_mult_imp_div_less dividend_less_div_times)
  with one show "unat val < 2 ^ (findMsbSet val + 1)" by simp
qed

lemma log_unique:
  fixes x :: nat
  assumes "2 ^ a \<le> x" "x < 2 ^ (a + 1)" "2 ^ b \<le> x" "x < 2 ^ (b + 1)"
  shows "a = b"
proof -
  have "(2::nat) ^ a < 2 ^ (b + 1)" "(2::nat) ^ b < 2 ^ (a + 1)"
    using assms by linarith+
  then show ?thesis by (simp add: power_strict_increasing_iff less_Suc_eq_le del: power_Suc)
qed

definition lsb_step :: "nat \<Rightarrow> nat \<times> u64 \<Rightarrow> nat \<times> u64" where
  "lsb_step k s = (if bits_val (snd s) (k - 1) 0 = 0
                   then (fst s + k, drop_bit k (snd s)) else s)"

definition lsb_inv :: "u64 \<Rightarrow> nat \<Rightarrow> nat \<times> u64 \<Rightarrow> bool" where
  "lsb_inv v0 k s \<longleftrightarrow> snd s = drop_bit (fst s) v0 \<and> (\<forall>i < fst s. \<not> bit v0 i) \<and>
     (\<exists>i < k. bit (snd s) i)"

lemma bits_val_low_eq_0:
  "0 < k \<Longrightarrow> k \<le> 64 \<Longrightarrow> bits_val v (k - Suc 0) 0 = 0 \<longleftrightarrow> (\<forall>i < k. \<not> bit v i)"
  by (auto simp: bit_eq_iff gem5_bits)

lemma lsb_step_inv:
  assumes "0 < k" "k \<le> 64" "lsb_inv v0 (2 * k) s"
  shows "lsb_inv v0 k (lsb_step k s)"
proof -
  obtain m v where s: "s = (m, v)" by force
  have v: "v = drop_bit m v0" "\<forall>i < m. \<not> bit v0 i" "\<exists>i < 2 * k. bit v i"
    using assms(3) unfolding lsb_inv_def s by auto
  show ?thesis
  proof (cases "\<forall>i < k. \<not> bit v i")
    case True
    have "\<not> bit v0 i" if "i < m + k" for i
      using that v(1,2) True [rule_format, of "i - m"]
      by (cases "i < m") (auto simp: bit_simps)
    moreover have "\<exists>i < k. bit (drop_bit k v) i"
    proof -
      obtain i where i: "i < 2 * k" "bit v i" using v(3) by blast
      with True have "k \<le> i" by (meson not_le)
      with i show ?thesis by (intro exI [of _ "i - k"]) (auto simp: bit_simps)
    qed
    ultimately show ?thesis
      using True assms(1,2) v(1)
      by (simp add: lsb_step_def lsb_inv_def s bits_val_low_eq_0 add.commute)
  next
    case False
    then have "lsb_step k s = s"
      using assms(1,2) by (auto simp: lsb_step_def s bits_val_low_eq_0)
    with False v show ?thesis by (auto simp: lsb_inv_def s)
  qed
qed

lemma findLsbSet_steps:
  "val \<noteq> 0 \<Longrightarrow> findLsbSet val =
     fst (lsb_step 1 (lsb_step 2 (lsb_step 4 (lsb_step 8 (lsb_step 16 (lsb_step 32 (0, val)))))))"
  by (simp add: findLsbSet_def lsb_step_def Let_def)

lemma findLsbSet_least:
  assumes "val \<noteq> 0"
  shows "bit val (findLsbSet val)" "i < findLsbSet val \<Longrightarrow> \<not> bit val i"
proof -
  have "\<exists>i < 64. bit val i"
    using assms by (auto simp: bit_eq_iff dest: bit_u64_lessD)
  then have "lsb_inv val (2 * 32) (0, val)"
    by (simp add: lsb_inv_def)
  from lsb_step_inv [OF _ _ this] have "lsb_inv val (2 * 16) (lsb_step 32 (0, val))" by simp
  from lsb_step_inv [OF _ _ this] have "lsb_inv val (2 * 8) (lsb_step 16 (lsb_step 32 (0, val)))" by simp
  from lsb_step_inv [OF _ _ this]
  have "lsb_inv val (2 * 4) (lsb_step 8 (lsb_step 16 (lsb_step 32 (0, val))))" by simp
  from lsb_step_inv [OF _ _ this]
  have "lsb_inv val (2 * 2) (lsb_step 4 (lsb_step 8 (lsb_step 16 (lsb_step 32 (0, val)))))" by simp
  from lsb_step_inv [OF _ _ this]
  have "lsb_inv val (2 * 1) (lsb_step 2 (lsb_step 4 (lsb_step 8 (lsb_step 16 (lsb_step 32 (0, val))))))"
    by simp
  from lsb_step_inv [OF _ _ this] have "lsb_inv val 1
      (lsb_step 1 (lsb_step 2 (lsb_step 4 (lsb_step 8 (lsb_step 16 (lsb_step 32 (0, val)))))))"
    by simp
  then have "bit (drop_bit (findLsbSet val) val) 0" "\<forall>i < findLsbSet val. \<not> bit val i"
    using assms by (auto simp: lsb_inv_def findLsbSet_steps)
  then show "bit val (findLsbSet val)" "i < findLsbSet val \<Longrightarrow> \<not> bit val i"
    by (simp_all add: bit_simps)
qed

lemma ctz_from_least:
  "\<exists>i < n. bit v i \<Longrightarrow> bit v (ctz_from n v) \<and> (\<forall>j < ctz_from n v. \<not> bit v j)"
proof (induction n arbitrary: v)
  case 0
  then show ?case by simp
next
  case (Suc n)
  show ?case
  proof (cases "bit v 0")
    case True
    then show ?thesis by simp
  next
    case False
    obtain i where i: "i < Suc n" "bit v i" using Suc.prems by blast
    with False obtain j where "i = Suc j" by (cases i) auto
    with i have "\<exists>i < n. bit (drop_bit 1 v) i" by (auto simp: bit_simps)
    from Suc.IH [OF this] False show ?thesis
      by (auto simp: bit_simps less_Suc_eq_0_disj)
  qed
qed

lemma ctz64_least:
  assumes "val \<noteq> 0"
  shows "bit val (ctz64 val)" "j < ctz64 val \<Longrightarrow> \<not> bit val j"
proof -
  have "\<exists>i < 64. bit val i"
    using findLsbSet_least(1) [OF assms] bit_u64_lessD by blast
  from ctz_from_least [OF this] assms
  show "bit val (ctz64 val)" "j < ctz64 val \<Longrightarrow> \<not> bit val j"
    by (auto simp: ctz64_def simp del: ctz_from.simps)
qed

lemma ctz64_eqI:
  assumes "bit v n" "\<And>j. j < n \<Longrightarrow> \<not> bit v j"
  shows "ctz64 v = n"
proof -
  have "v \<noteq> 0" using assms(1) by auto
  from ctz64_least [OF this] assms show ?thesis
    by (metis linorder_neqE_nat)
qed

lemma ctz64_less: "val \<noteq> 0 \<Longrightarrow> ctz64 val < 64"
  using ctz64_least(1) bit_u64_lessD by blast

lemma findLsbSet_eq_ctz64: "findLsbSet val = ctz64 val"
proof (cases "val = 0")
  case True
  then show ?thesis by (simp add: findLsbSet_def ctz64_def)
next
  case False
  from findLsbSet_least [OF this] show ?thesis
    by (intro ctz64_eqI [symmetric]) auto
qed

end
