(* ===== verification/Intmath.thy ===== *)
theory Intmath
  imports Bitfield
begin

text \<open>
  \<^verbatim>\<open>src/gem5/src/base/intmath.hh\<close>: logarithms, power-of-two tests, alignment and
  wide multiplication. \<open>floorLog2\<close> keeps the template's \<^verbatim>\<open>sizeof(T)\<close> as an argument;
  the two wide multiplications are the portable 64-bit routines used where the compiler has
  no 128-bit type, at \<^verbatim>\<open>uint64_t\<close> and \<^verbatim>\<open>int64_t\<close>.
\<close>

section \<open>Definitions\<close>

definition floorLog2 :: "nat \<Rightarrow> u64 \<Rightarrow> nat result" where
  "floorLog2 ts x = guardR (x > 0) Assert_Failed (Inr
     (let (y, ux) = (if ts \<ge> 8 \<and> x AND 0xffffffff00000000 \<noteq> 0 then (32, drop_bit 32 x) else (0, x));
          (y, ux) = (if ts \<ge> 4 \<and> ux AND 0x00000000ffff0000 \<noteq> 0 then (y + 16, drop_bit 16 ux) else (y, ux));
          (y, ux) = (if ts \<ge> 2 \<and> ux AND 0x000000000000ff00 \<noteq> 0 then (y + 8, drop_bit 8 ux) else (y, ux));
          (y, ux) = (if ux AND 0x00000000000000f0 \<noteq> 0 then (y + 4, drop_bit 4 ux) else (y, ux));
          (y, ux) = (if ux AND 0x000000000000000c \<noteq> 0 then (y + 2, drop_bit 2 ux) else (y, ux))
      in if ux AND 0x0000000000000002 \<noteq> 0 then y + 1 else y))"

definition ceilLog2 :: "nat \<Rightarrow> u64 \<Rightarrow> nat result" where
  "ceilLog2 ts n = guardR (n > 0) Assert_Failed
     (if n = 1 then Inr 0 else bindR (floorLog2 ts (n - 1)) (\<lambda>y. Inr (y + 1)))"

definition isPowerOf2 :: "u64 \<Rightarrow> bool" where
  "isPowerOf2 n \<longleftrightarrow> n \<noteq> 0 \<and> n AND (n - 1) = 0"

definition divCeil :: "u64 \<Rightarrow> u64 \<Rightarrow> u64" where
  "divCeil a b = (a + b - 1) div b"

definition mulUnsignedManual :: "u64 \<Rightarrow> u64 \<Rightarrow> u64 \<times> u64" where
  "mulUnsignedManual val_a val_b =
     (let low = val_a * val_b;
          A = take_bit 32 (drop_bit 32 val_a);
          a = take_bit 32 val_a;
          B = take_bit 32 (drop_bit 32 val_b);
          b = take_bit 32 val_b;
          ab = a * b; Ab = A * b; aB = a * B; AB = A * B;
          c1 = take_bit 32 (drop_bit 32 ab);
          c2 = drop_bit 1 c1 + drop_bit 1 Ab + drop_bit 1 aB;
          c2 = c2 + drop_bit 1 ((c1 AND 1) + (Ab AND 1) + (aB AND 1));
          c2 = drop_bit 31 c2
      in (AB + c2, low))"

definition mulSignedManual :: "u64 \<Rightarrow> u64 \<Rightarrow> u64 \<times> u64" where
  "mulSignedManual val_a val_b =
     (let (u_high, u_low) = mulUnsignedManual val_a val_b;
          u_high = (if sint val_a < 0 then u_high - val_b else u_high);
          u_high = (if sint val_b < 0 then u_high - val_a else u_high)
      in (u_high, u_low))"

definition roundUp :: "u64 \<Rightarrow> u64 \<Rightarrow> u64 result" where
  "roundUp val align = guardR (isPowerOf2 align) Assert_Failed
     (let mask = align - 1 in Inr ((val + mask) AND NOT mask))"

definition roundDown :: "u64 \<Rightarrow> u64 \<Rightarrow> u64 result" where
  "roundDown val align = guardR (isPowerOf2 align) Assert_Failed
     (let mask = align - 1 in Inr (val AND NOT mask))"

section \<open>Logarithms\<close>

text \<open>The literal masks of \<^const>\<open>floorLog2\<close> test the same fields as \<^const>\<open>bits_val\<close>.\<close>

lemma floorLog2_field:
  "x AND 0xffffffff00000000 \<noteq> 0 \<longleftrightarrow> bits_val x 63 32 \<noteq> 0"
  "x AND 0x00000000ffff0000 \<noteq> 0 \<longleftrightarrow> bits_val x 31 16 \<noteq> 0"
  "x AND 0x000000000000ff00 \<noteq> 0 \<longleftrightarrow> bits_val x 15 8 \<noteq> 0"
  "x AND 0x00000000000000f0 \<noteq> 0 \<longleftrightarrow> bits_val x 7 4 \<noteq> 0"
  "x AND 0x000000000000000c \<noteq> 0 \<longleftrightarrow> bits_val x 3 2 \<noteq> 0"
  "x AND 0x0000000000000002 \<noteq> 0 \<longleftrightarrow> bits_val x 1 1 \<noteq> 0"
proof -
  have *: "x AND push_bit l (mask n) \<noteq> 0 \<longleftrightarrow> bits_val x (l + n - 1) l \<noteq> 0"
    if "0 < n" "l + n \<le> 64" for l n
  proof -
    have "x AND push_bit l (mask n) = push_bit l (bits_val x (l + n - 1) l)"
      using that by (intro word_eq_bitI) (auto simp: bit_simps gem5_bits)
    moreover have "push_bit l (bits_val x (l + n - 1) l) = 0 \<longleftrightarrow> bits_val x (l + n - 1) l = 0"
    proof
      assume z: "push_bit l (bits_val x (l + n - 1) l) = 0"
      show "bits_val x (l + n - 1) l = 0"
      proof (rule word_eq_bitI)
        fix i :: nat
        have "\<not> bit (push_bit l (bits_val x (l + n - 1) l)) (l + i)" using z by simp
        then show "bit (bits_val x (l + n - 1) l) i = bit (0 :: u64) i"
          using that by (auto simp: bit_simps gem5_bits)
      qed
    qed simp
    ultimately show ?thesis by simp
  qed
  show "x AND 0xffffffff00000000 \<noteq> 0 \<longleftrightarrow> bits_val x 63 32 \<noteq> 0"
    using * [of 32 32] by (simp add: mask_eq_exp_minus_1 push_bit_eq_mult)
  show "x AND 0x00000000ffff0000 \<noteq> 0 \<longleftrightarrow> bits_val x 31 16 \<noteq> 0"
    using * [of 16 16] by (simp add: mask_eq_exp_minus_1 push_bit_eq_mult)
  show "x AND 0x000000000000ff00 \<noteq> 0 \<longleftrightarrow> bits_val x 15 8 \<noteq> 0"
    using * [of 8 8] by (simp add: mask_eq_exp_minus_1 push_bit_eq_mult)
  show "x AND 0x00000000000000f0 \<noteq> 0 \<longleftrightarrow> bits_val x 7 4 \<noteq> 0"
    using * [of 4 4] by (simp add: mask_eq_exp_minus_1 push_bit_eq_mult)
  show "x AND 0x000000000000000c \<noteq> 0 \<longleftrightarrow> bits_val x 3 2 \<noteq> 0"
    using * [of 2 2] by (simp add: mask_eq_exp_minus_1 push_bit_eq_mult)
  show "x AND 0x0000000000000002 \<noteq> 0 \<longleftrightarrow> bits_val x 1 1 \<noteq> 0"
    using * [of 1 1] by (simp add: mask_eq_exp_minus_1 push_bit_eq_mult)
qed

lemma floorLog2_8_eq: "x \<noteq> 0 \<Longrightarrow> floorLog2 8 x = Inr (findMsbSet x)"
  by (simp add: floorLog2_def findMsbSet_def floorLog2_field word_gt_0 Let_def)


lemma floorLog2_8_bounds:
  assumes "floorLog2 8 x = Inr y"
  shows "2 ^ y \<le> unat x \<and> unat x < 2 ^ (y + 1)"
proof -
  have "x \<noteq> 0" using assms by (auto simp: floorLog2_def)
  with assms findMsbSet_bounds [of x] show ?thesis by (simp add: floorLog2_8_eq)
qed

section \<open>Powers of two\<close>

lemma unat_power2: "n < 64 \<Longrightarrow> unat (2 ^ n :: u64) = 2 ^ n"
  using unat_of_nat [of "2 ^ n", where 'a = 64] power_strict_increasing [of n 64 "2 :: nat"]
  by simp

lemma power2_ne_0: "n < 64 \<Longrightarrow> (2 ^ n :: u64) \<noteq> 0"
  by (simp add: unat_power2 word_ne_0_iff_unat)

lemma isPowerOf2_power2: "n < 64 \<Longrightarrow> isPowerOf2 (2 ^ n)"
proof -
  assume n: "n < 64"
  have "(2 ^ n :: u64) AND (2 ^ n - 1) = 0"
    by (rule word_eq_bitI) (auto simp: bit_simps bit_exp_iff simp flip: mask_eq_exp_minus_1)
  with n show ?thesis by (simp add: isPowerOf2_def power2_ne_0)
qed

lemma isPowerOf2_imp:
  assumes "isPowerOf2 n"
  obtains k where "k < 64" "n = 2 ^ k"
proof -
  have n0: "n \<noteq> 0" and z: "n AND (n - 1) = 0"
    using assms by (simp_all add: isPowerOf2_def)
  define k where "k = findMsbSet n"
  have b: "2 ^ k \<le> unat n" "unat n < 2 ^ (k + 1)"
    using findMsbSet_bounds [OF n0] by (simp_all add: k_def)
  have k64: "k < 64"
  proof (rule ccontr)
    assume "\<not> k < 64"
    then have "(2::nat) ^ 64 \<le> 2 ^ k" by (intro power_increasing) auto
    with b(1) have "(18446744073709551616 :: nat) \<le> unat n" by simp
    then show False using unat_u64_less [of n] by linarith
  qed
  show thesis
  proof (cases "unat n = 2 ^ k")
    case True
    then have "n = 2 ^ k" using k64 by (simp add: word_unat_eq_iff unat_power2)
    with k64 show thesis using that by blast
  next
    case False
    have bitk: "bit w k" if "2 ^ k \<le> unat w" "unat w < 2 ^ (k + 1)" for w :: u64
    proof -
      have "unat w div 2 ^ k = 1"
        using that by (simp add: div_nat_eqI)
      then have "bit (unat w) k" by (simp add: bit_iff_odd)
      then show ?thesis by (simp add: bit_unsigned_iff)
    qed
    have "unat (n - 1) = unat n - 1" using n0 by (simp add: unat_minus_one)
    with False b have "2 ^ k \<le> unat (n - 1)" "unat (n - 1) < 2 ^ (k + 1)" by auto
    from bitk [OF this] bitk [OF b] have "bit (n AND (n - 1)) k" by (simp add: bit_and_iff)
    with z show thesis by simp
  qed
qed


section \<open>Rounding\<close>

lemma unat_push_drop: "unat (push_bit k (drop_bit k (v :: u64))) = unat v div 2 ^ k * 2 ^ k"
proof -
  have "unat v div 2 ^ k * 2 ^ k < 2 ^ 64"
    using le_less_trans [OF div_times_less_eq_dividend unat_u64_less] by simp
  then show ?thesis
    by (simp add: unsigned_push_bit_eq unat_div_shift take_bit_nat_eq_self
        push_bit_eq_mult [where 'a = nat])
qed

lemma and_not_mask_unat: "unat (v AND NOT (2 ^ k - 1 :: u64)) = unat v div 2 ^ k * 2 ^ k"
proof -
  have "v AND NOT (2 ^ k - 1) = push_bit k (drop_bit k v)"
    by (rule word_eq_bitI) (auto simp: bit_simps simp flip: mask_eq_exp_minus_1)
  then show ?thesis by (simp add: unat_push_drop)
qed

lemma roundDown_exact:
  "k < 64 \<Longrightarrow> \<exists>r. roundDown v (2 ^ k) = Inr r \<and> unat r = unat v div 2 ^ k * 2 ^ k"
  by (simp add: roundDown_def isPowerOf2_power2 and_not_mask_unat)

lemma roundUp_exact:
  assumes "k < 64" "unat v + 2 ^ k - 1 < 2 ^ 64"
  shows "\<exists>r. roundUp v (2 ^ k) = Inr r \<and> unat r = (unat v + 2 ^ k - 1) div 2 ^ k * 2 ^ k"
proof -
  have "unat (2 ^ k - 1 :: u64) = 2 ^ k - 1"
    using assms(1) by (simp add: unat_minus_one power2_ne_0 unat_power2)
  then have "unat (v + (2 ^ k - 1)) = unat v + (2 ^ k - 1)"
    using assms(2) by (subst unat_add_lem [THEN iffD1]) auto
  then have "unat (v + (2 ^ k - 1)) = unat v + 2 ^ k - 1" by simp
  then show ?thesis
    using assms(1) by (simp add: roundUp_def isPowerOf2_power2 and_not_mask_unat Let_def)
qed

section \<open>Wide multiplication\<close>

lemma unat_mult_u32:
  assumes "unat (a :: u64) < 2 ^ 32" "unat (b :: u64) < 2 ^ 32"
  shows "unat (a * b) = unat a * unat b"
proof -
  have "unat a * unat b < 2 ^ 32 * 2 ^ 32"
    using assms by (intro mult_strict_mono) auto
  then show ?thesis by (simp add: unat_word_ariths)
qed

lemma carry_halves:
  fixes c x y :: nat
  shows "c div 2 + x div 2 + y div 2 + (c mod 2 + x mod 2 + y mod 2) div 2 = (c + x + y) div 2"
proof -
  have "c + x + y = (c mod 2 + x mod 2 + y mod 2) + 2 * (c div 2 + x div 2 + y div 2)"
    by simp
  also have "\<dots> div 2 = (c mod 2 + x mod 2 + y mod 2) div 2 + (c div 2 + x div 2 + y div 2)"
    by (subst div_mult_self2) simp_all
  finally show ?thesis by (simp only: add.commute)
qed

lemma high_product:
  fixes A a B b :: nat
  assumes "a < p" "b < p" "0 < p"
  shows "((A * p + a) * (B * p + b)) div (p * p) =
         A * B + ((a * b) div p + A * b + a * B) div p"
proof -
  have "(A * p + a) * (B * p + b) = (A * B) * (p * p) + ((A * b + a * B) * p + a * b)"
    by (simp add: algebra_simps)
  then have "((A * p + a) * (B * p + b)) div (p * p) = A * B + ((A * b + a * B) * p + a * b) div (p * p)"
    using assms(3) by simp
  also have "((A * b + a * B) * p + a * b) div (p * p) = ((A * b + a * B) * p + a * b) div p div p"
    by (simp add: div_mult2_eq)
  also have "((A * b + a * B) * p + a * b) div p = (a * b) div p + A * b + a * B"
    using assms(3) by simp
  finally show ?thesis .
qed


lemma mulUnsignedManual_high:
  "unat (fst (mulUnsignedManual x y)) = (unat x * unat y) div 2 ^ 64"
proof -
  define A a B b where defs: "A = unat x div 2 ^ 32" "a = unat x mod 2 ^ 32"
    "B = unat y div 2 ^ 32" "b = unat y mod 2 ^ 32"
  have xy: "unat x = A * 2 ^ 32 + a" "unat y = B * 2 ^ 32 + b"
    by (simp_all add: defs)
  have lt: "a < 2 ^ 32" "b < 2 ^ 32" "A < 2 ^ 32" "B < 2 ^ 32"
    by (simp_all add: defs less_mult_imp_div_less)
  define wA wa wB wb where wdefs: "wA = take_bit 32 (drop_bit 32 x)" "wa = take_bit 32 x"
    "wB = take_bit 32 (drop_bit 32 y)" "wb = take_bit 32 y"
  have u: "unat wA = A" "unat wa = a" "unat wB = B" "unat wb = b"
    using lt by (simp_all add: wdefs defs unat_take_bit_mod unat_div_shift)
  have prods: "unat (wa * wb) = a * b" "unat (wA * wb) = A * b"
    "unat (wa * wB) = a * B" "unat (wA * wB) = A * B"
    using lt by (simp_all add: unat_mult_u32 u)
  have le: "p * q \<le> (2 ^ 32 - 1) * (2 ^ 32 - 1)" if "p < 2 ^ 32" "q < 2 ^ 32" for p q :: nat
    using that by (intro mult_le_mono) auto
  note bnd = le [OF lt(3) lt(2)] le [OF lt(1) lt(4)] le [OF lt(1) lt(2)] le [OF lt(3) lt(4)]
  define c1 where "c1 = take_bit 32 (drop_bit 32 (wa * wb))"
  have c1: "unat c1 = a * b div 2 ^ 32"
    using bnd(3) by (simp add: c1_def unat_take_bit_mod unat_div_shift prods)
  then have c1_lt: "unat c1 < 2 ^ 32" using bnd(3) by simp
  define s1 where "s1 = drop_bit 1 c1 + drop_bit 1 (wA * wb) + drop_bit 1 (wa * wB)"
  have d: "unat (drop_bit (Suc 0) w) = unat w div 2" for w :: u64
    using unat_div_shift [of 1 w] by simp
  have s1: "unat s1 = unat c1 div 2 + A * b div 2 + a * B div 2"
    using c1_lt bnd(1,2) by (simp add: s1_def unat_word_ariths(1) d prods)
  define s2 where "s2 = (c1 AND 1) + (wA * wb AND 1) + (wa * wB AND 1)"
  have m: "unat (w AND 1) = unat w mod 2" for w :: u64
    using unat_take_bit_mod [of 1 w] by (simp add: take_bit_eq_mask)
  have s2: "unat s2 = unat c1 mod 2 + A * b mod 2 + a * B mod 2"
    by (simp add: s2_def unat_word_ariths(1) m prods)
  define s3 where "s3 = s1 + drop_bit 1 s2"
  have c2: "unat s3 = (unat c1 + A * b + a * B) div 2"
  proof -
    have "unat s1 + unat s2 div 2 = (unat c1 + A * b + a * B) div 2"
      by (simp add: s1 s2 carry_halves)
    moreover have "(unat c1 + A * b + a * B) div 2 < 2 ^ 64"
      using c1_lt bnd(1,2) by simp
    ultimately show ?thesis by (simp add: s3_def unat_word_ariths(1) d)
  qed
  have sh: "unat (drop_bit 31 s3) = (unat c1 + A * b + a * B) div 2 ^ 32"
  proof -
    have "unat (drop_bit 31 s3) = (unat c1 + A * b + a * B) div 2 div 2 ^ 31"
      by (simp only: unat_div_shift c2)
    then show ?thesis by (simp add: div_mult2_eq [symmetric])
  qed
  have "(unat x * unat y) div 2 ^ 64 = A * B + (unat c1 + A * b + a * B) div 2 ^ 32"
    using high_product [of a "2 ^ 32" b A B] lt by (simp add: xy c1)
  moreover have "(unat x * unat y) div 2 ^ 64 < 2 ^ 64"
  proof -
    have "unat x * unat y < 2 ^ 64 * 2 ^ 64" by (intro mult_strict_mono) auto
    then show ?thesis by (simp add: less_mult_imp_div_less)
  qed
  moreover have "fst (mulUnsignedManual x y) = wA * wB + drop_bit 31 s3"
    by (simp add: mulUnsignedManual_def Let_def wdefs c1_def s1_def s2_def s3_def)
  ultimately show ?thesis by (simp add: unat_word_ariths(1) prods sh)
qed

lemma mulUnsignedManual_low: "snd (mulUnsignedManual x y) = x * y"
  by (simp add: mulUnsignedManual_def Let_def)


text \<open>
  The signed routine corrects the unsigned high half: reading both halves together as a
  two's complement 128-bit number gives the exact signed product.
\<close>

lemma sint_u64_cases:
  "sint (w :: u64) = (if sint w < 0 then int (unat w) - 2 ^ 64 else int (unat w))"
proof (cases "bit w 63")
  case True
  then have "sint w = int (unat w) - 2 ^ 64"
    by (simp add: sint_uint signed_take_bit_eq_take_bit_minus bit_simps take_bit_word_eq_self
        flip: unsigned_take_bit_eq)
  moreover have "int (unat w) < 2 ^ 64" using unat_u64_less [of w] by simp
  ultimately show ?thesis by simp
next
  case False
  then have "sint w = int (unat w)"
    by (simp add: sint_uint signed_take_bit_eq_take_bit_minus bit_simps take_bit_word_eq_self
        flip: unsigned_take_bit_eq)
  then show ?thesis by simp
qed


lemma mulSignedManual_high_int:
  "uint (fst (mulSignedManual x y)) =
     (int ((unat x * unat y) div 2 ^ 64) - (if sint x < 0 then uint y else 0)
       - (if sint y < 0 then uint x else 0)) mod 2 ^ 64"
proof -
  obtain h l where hl: "mulUnsignedManual x y = (h, l)" by force
  have "uint h = int ((unat x * unat y) div 2 ^ 64)"
    using mulUnsignedManual_high [of x y] hl by (metis fst_conv of_nat_unat)
  moreover have "uint (fst (mulSignedManual x y)) =
     (uint h - (if sint x < 0 then uint y else 0) - (if sint y < 0 then uint x else 0)) mod 2 ^ 64"
    by (simp add: mulSignedManual_def hl Let_def uint_word_ariths mod_simps mod_pos_pos_trivial)
  ultimately show ?thesis by simp
qed

lemma signed_high_correction:
  fixes a b :: nat and sa sb :: int
  assumes "sa = (if sa < 0 then int a - 2 ^ 64 else int a)"
    and "sb = (if sb < 0 then int b - 2 ^ 64 else int b)"
  shows "(int (a * b div 2 ^ 64) - (if sa < 0 then int b else 0) - (if sb < 0 then int a else 0))
           mod 2 ^ 64 = (sa * sb) div 2 ^ 64 mod 2 ^ 64"
proof -
  define na nb :: int where "na = of_bool (sa < 0)" and "nb = of_bool (sb < 0)"
  have eqs: "sa = int a - na * 2 ^ 64" "sb = int b - nb * 2 ^ 64"
    using assms by (auto simp: na_def nb_def)
  have "sa * sb = int a * int b + (na * nb * 2 ^ 64 - na * int b - nb * int a) * 2 ^ 64"
    by (simp only: eqs) (simp add: algebra_simps)
  then have E1: "(sa * sb) div 2 ^ 64 =
      int a * int b div 2 ^ 64 + (na * nb * 2 ^ 64 - na * int b - nb * int a)"
    by simp
  have E2: "(if sa < 0 then int b else 0) = na * int b" "(if sb < 0 then int a else 0) = nb * int a"
    by (simp_all add: na_def nb_def)
  have E3: "int (a * b div 2 ^ 64) = int a * int b div 2 ^ 64"
    by (simp add: zdiv_int)
  have E4: "(p + (q * 2 ^ 64 - r - s)) mod 2 ^ 64 = (p - r - s) mod 2 ^ 64" for p q r s :: int
  proof -
    have "p + (q * 2 ^ 64 - r - s) = (p - r - s) + q * 2 ^ 64" by simp
    then show ?thesis by (metis mod_mult_self1)
  qed
  show ?thesis by (simp only: E1 E2 E3 E4)
qed

lemma mulSignedManual_exact:
  "uint (fst (mulSignedManual x y)) = (sint x * sint y) div 2 ^ 64 mod 2 ^ 64"
proof -
  have "uint (fst (mulSignedManual x y)) =
      (int (unat x * unat y div 2 ^ 64) - (if sint x < 0 then int (unat y) else 0)
        - (if sint y < 0 then int (unat x) else 0)) mod 2 ^ 64"
    by (simp add: mulSignedManual_high_int)
  also have "\<dots> = (sint x * sint y) div 2 ^ 64 mod 2 ^ 64"
    by (intro signed_high_correction sint_u64_cases)
  finally show ?thesis .
qed

section \<open>Rounding up to a power of two\<close>

lemma bit_or_shift: "bit (v OR drop_bit k v) i \<longleftrightarrow> bit v i \<or> bit v (i + k)" for v :: u64
  by (simp add: bit_simps add.commute)

definition smear :: "u64 \<Rightarrow> nat \<Rightarrow> u64 \<Rightarrow> bool" where
  "smear x n w \<longleftrightarrow> (\<forall>i. bit w i \<longleftrightarrow> (\<exists>j < n. bit x (i + j)))"

lemma smear_double: "smear x k w \<Longrightarrow> smear x (2 * k) (w OR drop_bit k w)"
proof -
  assume s: "smear x k w"
  have "(\<exists>j < k. bit x (i + j)) \<or> (\<exists>j < k. bit x (i + k + j)) \<longleftrightarrow> (\<exists>j < 2 * k. bit x (i + j))" for i
  proof
    assume "(\<exists>j < k. bit x (i + j)) \<or> (\<exists>j < k. bit x (i + k + j))"
    then show "\<exists>j < 2 * k. bit x (i + j)"
      by (metis add.assoc add_less_cancel_left mult_2 trans_less_add1)
  next
    assume "\<exists>j < 2 * k. bit x (i + j)"
    then obtain j where j: "j < 2 * k" "bit x (i + j)" by blast
    show "(\<exists>j < k. bit x (i + j)) \<or> (\<exists>j < k. bit x (i + k + j))"
    proof (cases "j < k")
      case False
      with j show ?thesis by (intro disjI2 exI [of _ "j - k"]) auto
    qed (use j in blast)
  qed
  with s show ?thesis by (simp add: smear_def bit_or_shift)
qed


lemma smear_all:
  assumes "smear x 64 w" "x \<noteq> 0"
  shows "w = mask (findMsbSet x + 1)"
proof (rule word_eq_bitI)
  fix i :: nat
  assume "i < 64"
  let ?m = "findMsbSet x"
  have "bit w i \<longleftrightarrow> (\<exists>j. bit x (i + j))"
    using assms(1) bit_u64_lessD by (fastforce simp: smear_def)
  also have "\<dots> \<longleftrightarrow> 2 ^ i \<le> unat x"
  proof
    assume "\<exists>j. bit x (i + j)"
    then obtain j where "bit (unat x) (i + j)" by (auto simp: bit_unsigned_iff)
    then have "0 < unat x div 2 ^ (i + j)" by (simp add: bit_iff_odd odd_pos)
    then have "(2::nat) ^ (i + j) \<le> unat x" by (simp add: div_greater_zero_iff)
    moreover have "(2::nat) ^ i \<le> 2 ^ (i + j)" by (intro power_increasing) auto
    ultimately show "2 ^ i \<le> unat x" by linarith
  next
    assume "2 ^ i \<le> unat x"
    then have "unat (drop_bit i x) \<noteq> 0" by (simp add: unat_div_shift div_eq_0_iff)
    then have "drop_bit i x \<noteq> 0" by auto
    then show "\<exists>j. bit x (i + j)" by (auto simp: bit_eq_iff bit_simps)
  qed
  also have "\<dots> \<longleftrightarrow> i \<le> ?m"
  proof
    assume "2 ^ i \<le> unat x"
    then have "(2::nat) ^ i < 2 ^ (?m + 1)" using findMsbSet_bounds(2) [OF assms(2)] by linarith
    then show "i \<le> ?m" by (simp del: power_Suc)
  next
    assume "i \<le> ?m"
    then have "(2::nat) ^ i \<le> 2 ^ ?m" by (simp add: power_increasing)
    then show "2 ^ i \<le> unat x" using findMsbSet_bounds(1) [OF assms(2)] by linarith
  qed
  finally show "bit w i \<longleftrightarrow> bit (mask (?m + 1) :: u64) i"
    using \<open>i < 64\<close> by (auto simp: bit_simps)
qed

lemma alignToPowerOfTwo_msb:
  assumes "1 < val"
  shows "alignToPowerOfTwo val = 2 ^ (findMsbSet (val - 1) + 1)"
proof -
  let ?x = "val - 1"
  have x0: "?x \<noteq> 0" using assms by auto
  have "smear ?x 1 ?x" by (simp add: smear_def)
  from smear_double [OF this] have "smear ?x 2 (?x OR drop_bit 1 ?x)" by simp
  from smear_double [OF this] obtain w4 where
    w4: "smear ?x 4 w4" "w4 = (let v = ?x OR drop_bit 1 ?x in v OR drop_bit 2 v)" by simp
  from smear_double [OF w4(1)] have "smear ?x 8 (w4 OR drop_bit 4 w4)" by simp
  from smear_double [OF this] obtain w16 where
    w16: "smear ?x 16 w16" "w16 = (let v = w4 OR drop_bit 4 w4 in v OR drop_bit 8 v)" by simp
  from smear_double [OF w16(1)] have "smear ?x 32 (w16 OR drop_bit 16 w16)" by simp
  from smear_double [OF this] obtain w64 where
    w64: "smear ?x 64 w64" "w64 = (let v = w16 OR drop_bit 16 w16 in v OR drop_bit 32 v)" by simp
  have "alignToPowerOfTwo val = w64 + 1"
    by (simp add: alignToPowerOfTwo_def w4(2) w16(2) w64(2) Let_def)
  also have "w64 = mask (findMsbSet ?x + 1)"
    by (rule smear_all [OF w64(1) x0])
  finally show ?thesis by (simp add: mask_eq_exp_minus_1)
qed


lemma ceilLog2_8_eq:
  "ceilLog2 8 n = (if n = 0 then Inl Assert_Failed
     else Inr (if n = 1 then 0 else findMsbSet (n - 1) + 1))"
  by (auto simp: ceilLog2_def floorLog2_8_eq word_gt_0)

lemma ceilLog2_least:
  assumes "ceilLog2 8 n = Inr k"
  shows "unat n \<le> 2 ^ k" "unat n \<le> 2 ^ j \<Longrightarrow> k \<le> j"
proof -
  have n0: "n \<noteq> 0" using assms by (auto simp: ceilLog2_8_eq)
  have *: "unat n \<le> 2 ^ k \<and> (unat n \<le> 2 ^ j \<longrightarrow> k \<le> j)" for j
  proof (cases "n = 1")
    case True
    with assms show ?thesis by (simp add: ceilLog2_8_eq)
  next
    case False
    with n0 have x0: "n - 1 \<noteq> 0" by auto
    have k: "k = findMsbSet (n - 1) + 1" using assms n0 False by (simp add: ceilLog2_8_eq)
    have u: "unat (n - 1) = unat n - 1" "0 < unat n"
      using n0 by (simp_all add: unat_minus_one unat_gt_0)
    have "unat n \<le> 2 ^ k"
      using findMsbSet_bounds(2) [OF x0] u by (simp add: k)
    moreover have "k \<le> j" if "unat n \<le> 2 ^ j"
    proof -
      have "2 ^ findMsbSet (n - 1) < (2::nat) ^ j"
        using findMsbSet_bounds(1) [OF x0] u that by linarith
      then have "findMsbSet (n - 1) < j" by simp
      then show ?thesis by (simp add: k)
    qed
    ultimately show ?thesis by simp
  qed
  from * show "unat n \<le> 2 ^ k" "unat n \<le> 2 ^ j \<Longrightarrow> k \<le> j" by blast+
qed

section \<open>Properties\<close>

text \<open>For every non-zero 64-bit value the three bit searches of the base library agree with
  their specification: \<^const>\<open>floorLog2\<close> and \<^const>\<open>findMsbSet\<close> return the same position,
  the one \<open>y\<close> with \<open>2\<^sup>y \<le> x < 2\<^sup>y\<^sup>+\<^sup>1\<close>, and \<^const>\<open>findLsbSet\<close> returns the lowest set
  bit, the value \<^const>\<open>ctz64\<close> computes.
\<close>
lemma bit_search_correct:
  assumes "x \<noteq> 0"
  shows "floorLog2 8 x = Inr (findMsbSet x) \<and>
    2 ^ findMsbSet x \<le> unat x \<and> unat x < 2 ^ (findMsbSet x + 1) \<and>
    bit x (findLsbSet x) \<and> (\<forall>i < findLsbSet x. \<not> bit x i) \<and> findLsbSet x = ctz64 x"
  using assms findMsbSet_bounds [OF assms] findLsbSet_least [OF assms]
  by (simp add: floorLog2_8_eq findLsbSet_eq_ctz64)

lemma bit_search_correct_example:
  "(0x8010 :: u64) \<noteq> 0 \<and> floorLog2 8 (0x8010 :: u64) = Inr (findMsbSet 0x8010) \<and>
   findMsbSet 0x8010 = 15 \<and> findLsbSet 0x8010 = 4"
proof -
  have "findMsbSet 0x8010 = 15" "findLsbSet 0x8010 = 4"
    by (simp_all add: findMsbSet_def findLsbSet_def bits_val_def mask_u64_def)
  then show ?thesis using bit_search_correct [of "0x8010"] by simp
qed

text \<open>\<^const>\<open>alignToPowerOfTwo\<close> returns the least power of two that is not below its
  argument (the exponent is \<^const>\<open>ceilLog2\<close>), for every argument that has one in 64 bits.
\<close>
lemma alignToPowerOfTwo_least:
  assumes "val \<noteq> 0" "unat val \<le> 2 ^ 63"
  shows "\<exists>k. ceilLog2 8 val = Inr k \<and> unat (alignToPowerOfTwo val) = 2 ^ k \<and>
    unat val \<le> 2 ^ k \<and> (\<forall>j. unat val \<le> 2 ^ j \<longrightarrow> k \<le> j)"
proof -
  obtain k where k: "ceilLog2 8 val = Inr k" using assms(1) by (simp add: ceilLog2_8_eq)
  note least = ceilLog2_least [OF k]
  have "k \<le> 63" using least(2) assms(2) by simp
  moreover have "alignToPowerOfTwo val = 2 ^ k"
  proof (cases "val = 1")
    case True
    then show ?thesis using k by (simp add: ceilLog2_8_eq alignToPowerOfTwo_def)
  next
    case False
    with assms(1) have "unat val \<noteq> 0" "unat val \<noteq> 1" by (simp_all add: word_unat_eq_iff)
    then have "1 < val" by (simp add: word_less_nat_alt)
    with k show ?thesis by (simp add: alignToPowerOfTwo_msb ceilLog2_8_eq False assms(1))
  qed
  ultimately have "unat (alignToPowerOfTwo val) = 2 ^ k" by (simp add: unat_power2)
  with k least show ?thesis by blast
qed

lemma alignToPowerOfTwo_example:
  "unat (alignToPowerOfTwo 33) = 64 \<and>
   (\<exists>k. ceilLog2 8 33 = Inr k \<and> unat (alignToPowerOfTwo 33) = 2 ^ k \<and>
      unat (33 :: u64) \<le> 2 ^ k \<and> (\<forall>j. unat (33 :: u64) \<le> 2 ^ j \<longrightarrow> k \<le> j))"
  using alignToPowerOfTwo_least [of 33] by (simp add: alignToPowerOfTwo_def)

text \<open>C40: the portable 64-bit multiplications lose nothing: the halves of
  \<^const>\<open>mulUnsignedManual\<close> are the exact unsigned product, and those of
  \<^const>\<open>mulSignedManual\<close>, with the high half read as two's complement, the exact signed
  product.
\<close>
theorem wide_mul_exact:
  "unat (fst (mulUnsignedManual x y)) * 2 ^ 64 + unat (snd (mulUnsignedManual x y)) = unat x * unat y \<and>
   sint (fst (mulSignedManual x y)) * 2 ^ 64 + uint (snd (mulSignedManual x y)) = sint x * sint y"
proof
  have "unat (x * y) = unat x * unat y mod 2 ^ 64" by (simp add: unat_word_ariths)
  then show "unat (fst (mulUnsignedManual x y)) * 2 ^ 64 + unat (snd (mulUnsignedManual x y)) =
      unat x * unat y"
    by (simp only: mulUnsignedManual_high mulUnsignedManual_low div_mult_mod_eq)
  let ?P = "sint x * sint y"
  have r: "\<bar>sint w\<bar> \<le> 2 ^ 63" for w :: u64
    using sint_ge [of w] sint_lt [of w] by auto
  have "\<bar>?P\<bar> \<le> 2 ^ 63 * 2 ^ 63" unfolding abs_mult by (intro mult_mono r) auto
  then have Q: "- (2 ^ 63) \<le> ?P div 2 ^ 64" "?P div 2 ^ 64 < 2 ^ 63" by auto
  have "fst (mulSignedManual x y) = word_of_int (?P div 2 ^ 64)"
    by (rule word_uint_eqI) (simp add: mulSignedManual_exact take_bit_eq_mod unsigned_of_int)
  then have hi: "sint (fst (mulSignedManual x y)) = ?P div 2 ^ 64"
    using Q by (simp add: sint_sbintrunc' signed_take_bit_int_eq_self signed_of_int)
  have "snd (mulSignedManual x y) = word_of_int ?P"
    by (simp add: mulSignedManual_def mulUnsignedManual_low Let_def split_beta)
  then have lo: "uint (snd (mulSignedManual x y)) = ?P mod 2 ^ 64"
    using uint_word_of_int [of ?P, where 'a = 64] by (simp only:) simp
  show "sint (fst (mulSignedManual x y)) * 2 ^ 64 + uint (snd (mulSignedManual x y)) = ?P"
    by (simp only: hi lo div_mult_mod_eq)
qed

end
