(* ===== verification/Addr_Range.thy ===== *)
theory Addr_Range
  imports Intmath
begin

text \<open>
  \<^verbatim>\<open>src/gem5/src/base/addr_range.hh\<close>: the class \<^verbatim>\<open>AddrRange\<close>, a half-open address
  interval, optionally striped by XOR masks. Every constructor, query and address
  translation is a definition; \<^verbatim>\<open>fatal\<close> and \<^verbatim>\<open>panic\<close> are error results. Two of the
  code's intermediate values are C++ \<^verbatim>\<open>int\<close>s (\<^verbatim>\<open>combined_mask\<close> in
  \<^verbatim>\<open>granularity\<close> and \<^verbatim>\<open>1 << lsb\<close> in \<^verbatim>\<open>addIntlvBits\<close>) and are kept at 32 bits.
\<close>

section \<open>Definitions\<close>

record addr_range =
  ar_start :: addr
  ar_end :: addr
  ar_masks :: "addr list"
  ar_match :: u8

definition AddrRange_default :: addr_range where
  "AddrRange_default = \<lparr>ar_start = 1, ar_end = 0, ar_masks = [], ar_match = 0\<rparr>"

definition AddrRange_masked :: "addr \<Rightarrow> addr \<Rightarrow> addr list \<Rightarrow> u8 \<Rightarrow> addr_range result" where
  "AddrRange_masked s e ms m =
     guardR (\<not> (ms \<noteq> [] \<and> unat m \<ge> 2 ^ length ms)) Fatal_Error
       (Inr \<lparr>ar_start = s, ar_end = e, ar_masks = ms, ar_match = m\<rparr>)"

definition legacy_mask :: "u8 \<Rightarrow> u8 \<Rightarrow> nat \<Rightarrow> addr" where
  "legacy_mask intlv_high_bit xor_high_bit i =
     (let bit1 = intlv_high_bit - of_nat i;
          mask = push_bit (unat bit1) 1
      in if xor_high_bit \<noteq> 0
         then let bit2 = xor_high_bit - of_nat i in mask OR push_bit (unat bit2) 1
         else mask)"

definition AddrRange_legacy ::
    "addr \<Rightarrow> addr \<Rightarrow> u8 \<Rightarrow> u8 \<Rightarrow> u8 \<Rightarrow> u8 \<Rightarrow> addr_range result" where
  "AddrRange_legacy s e intlv_high_bit xor_high_bit intlv_bits m =
     (let ihb = unat intlv_high_bit; xhb = unat xor_high_bit; n = unat intlv_bits in
      guardR (\<not> (n \<noteq> 0 \<and> unat m \<ge> 2 ^ n)) Fatal_Error
      (guardR (\<not> (n \<noteq> 0 \<and> xhb \<noteq> 0 \<and>
          (if xhb = ihb then True
           else if xhb > ihb then xhb - ihb < n
           else ihb - xhb < n))) Fatal_Error
       (Inr \<lparr>ar_start = s, ar_end = e,
             ar_masks = fold (\<lambda>i ms. ms[n - i - 1 := legacy_mask intlv_high_bit xor_high_bit i])
                          [0..<n] (replicate n 0),
             ar_match = m\<rparr>)))"

definition AddrRange_plain :: "addr \<Rightarrow> addr \<Rightarrow> addr_range" where
  "AddrRange_plain s e = \<lparr>ar_start = s, ar_end = e, ar_masks = [], ar_match = 0\<rparr>"

definition interleaved :: "addr_range \<Rightarrow> bool" where
  "interleaved r \<longleftrightarrow> length (ar_masks r) > 0"

definition stripes :: "addr_range \<Rightarrow> u32" where
  "stripes r = ucast (push_bit (length (ar_masks r)) 1 :: u64)"

definition ar_size :: "addr_range \<Rightarrow> addr" where
  "ar_size r = drop_bit (length (ar_masks r)) (ar_end r - ar_start r)"

definition combined_mask :: "addr list \<Rightarrow> u32" where
  "combined_mask ms = fold (\<lambda>m c. ucast ((scast c :: u64) OR m)) ms 0"

definition granularity :: "addr_range \<Rightarrow> u64" where
  "granularity r =
     (if interleaved r
      then let lowest_bit = (of_nat (ctz64 (scast (combined_mask (ar_masks r)))) :: u8)
           in push_bit (unat lowest_bit) 1
      else ar_size r)"

definition ar_valid :: "addr_range \<Rightarrow> bool" where
  "ar_valid r \<longleftrightarrow> ar_start r \<le> ar_end r"

definition mergesWith :: "addr_range \<Rightarrow> addr_range \<Rightarrow> bool" where
  "mergesWith this r \<longleftrightarrow>
     ar_start r = ar_start this \<and> ar_end r = ar_end this \<and> ar_masks r = ar_masks this"

fun merge_check :: "addr_range \<Rightarrow> addr_range list \<Rightarrow> u8 \<Rightarrow> unit result" where
  "merge_check this [] match = Inr ()"
| "merge_check this (r # rs) match =
     guardR (mergesWith this r) Fatal_Error
       (guardR (ar_match r = match) Fatal_Error (merge_check this rs (match + 1)))"

definition AddrRange_merge :: "addr_range list \<Rightarrow> addr_range result" where
  "AddrRange_merge ranges =
     (let this = (case ranges of [] \<Rightarrow> AddrRange_default | r # _ \<Rightarrow> r) in
      if length ranges > 1
      then guardR (length ranges = 2 ^ length (ar_masks this)) Fatal_Error
             (bindR (merge_check this ranges 0)
                (\<lambda>_. Inr (this\<lparr>ar_masks := [], ar_match := 0\<rparr>)))
      else Inr this)"

fun sel_loop :: "addr \<Rightarrow> nat \<Rightarrow> addr list \<Rightarrow> u32 \<Rightarrow> u32" where
  "sel_loop a i [] sel = sel"
| "sel_loop a i (m # ms) sel =
     sel_loop a (Suc i) ms (sel OR push_bit i (of_nat (popCount (a AND m) mod 2)))"

definition ar_contains :: "addr_range \<Rightarrow> addr \<Rightarrow> bool" where
  "ar_contains r a \<longleftrightarrow>
     (let in_range = a \<ge> ar_start r \<and> a < ar_end r
      in if in_range then sel_loop a 0 (ar_masks r) 0 = ucast (ar_match r) else False)"

definition ar_intersects :: "addr_range \<Rightarrow> addr_range \<Rightarrow> bool result" where
  "ar_intersects this r =
     (if ar_start this \<ge> ar_end r \<or> ar_end this \<le> ar_start r then Inr False
      else if \<not> interleaved this \<and> \<not> interleaved r then Inr True
      else if ar_size r = 1 then Inr (ar_contains this (ar_start r))
      else if mergesWith this r then Inr (ar_match this = ar_match r)
      else Inl Panic_Error)"

definition isSubset :: "addr_range \<Rightarrow> addr_range \<Rightarrow> bool result" where
  "isSubset this r =
     (if interleaved this then Inl Panic_Error
      else if interleaved r
           then Inr (ar_contains r (ar_start this) \<and> ar_contains r (ar_end this - 1) \<and>
                     ar_size this \<le> granularity r)
           else Inr (ar_start this \<ge> ar_start r \<and> ar_end this \<le> ar_end r))"

definition removeBit :: "addr \<Rightarrow> nat \<Rightarrow> nat \<Rightarrow> addr" where
  "removeBit a intlv_bit i =
     (if intlv_bit > 0
      then insertBits_val (drop_bit 1 a) (unat (of_nat intlv_bit - of_nat i - 1 :: u32)) 0 a
      else drop_bit 1 a)"

fun remove_loop :: "nat \<Rightarrow> nat list \<Rightarrow> addr \<Rightarrow> addr" where
  "remove_loop i [] a = a"
| "remove_loop i (b # bs) a = remove_loop (Suc i) bs (removeBit a b i)"

definition removeIntlvBits :: "addr_range \<Rightarrow> addr \<Rightarrow> addr" where
  "removeIntlvBits r a =
     (if \<not> interleaved r then a
      else remove_loop 0 (sort (map ctz64 (ar_masks r))) a)"

definition addBit :: "addr \<Rightarrow> nat \<Rightarrow> addr" where
  "addBit a intlv_bit =
     (if intlv_bit > 0 then insertBits_val (push_bit 1 a) (intlv_bit - 1) 0 a
      else push_bit 1 a)"

fun add_loop :: "nat list \<Rightarrow> addr \<Rightarrow> addr" where
  "add_loop [] a = a"
| "add_loop (b # bs) a = add_loop bs (addBit a b)"

fun fix_loop :: "u8 \<Rightarrow> nat \<Rightarrow> addr list \<Rightarrow> addr \<Rightarrow> addr" where
  "fix_loop match i [] a = a"
| "fix_loop match i (m # ms) a =
     (let lsb = ctz64 m;
          intlv_bit = bits1 (ucast match) i;
          masked = a AND m AND scast (NOT (push_bit lsb (1 :: u32)))
      in fix_loop match (Suc i) ms (insertBits1 a lsb (intlv_bit XOR of_nat (popCount masked))))"

definition addIntlvBits :: "addr_range \<Rightarrow> addr \<Rightarrow> addr" where
  "addIntlvBits r a =
     (if \<not> interleaved r then a
      else fix_loop (ar_match r) 0 (ar_masks r) (add_loop (sort (map ctz64 (ar_masks r))) a))"

definition getOffset :: "addr_range \<Rightarrow> addr \<Rightarrow> addr" where
  "getOffset r a =
     (let in_range = a \<ge> ar_start r \<and> a < ar_end r
      in if \<not> in_range then -1
         else if interleaved r then removeIntlvBits r a - removeIntlvBits r (ar_start r)
         else a - ar_start r)"

definition ar_less :: "addr_range \<Rightarrow> addr_range \<Rightarrow> bool" where
  "ar_less this r =
     (if ar_start this \<noteq> ar_start r then ar_start this < ar_start r
      else if interleaved this \<and> interleaved r then ar_match this < ar_match r
      else interleaved this)"

definition ar_eq :: "addr_range \<Rightarrow> addr_range \<Rightarrow> bool" where
  "ar_eq this r =
     (if ar_start this \<noteq> ar_start r then False
      else if ar_end this \<noteq> ar_end r then False
      else if ar_masks this \<noteq> ar_masks r then False
      else if ar_match this \<noteq> ar_match r then False
      else True)"

definition RangeEx :: "addr \<Rightarrow> addr \<Rightarrow> addr_range" where
  "RangeEx s e = AddrRange_plain s e"

definition RangeIn :: "addr \<Rightarrow> addr \<Rightarrow> addr_range" where
  "RangeIn s e = AddrRange_plain s (e + 1)"

definition RangeSize :: "addr \<Rightarrow> addr \<Rightarrow> addr_range" where
  "RangeSize s sz = AddrRange_plain s (s + sz)"

section \<open>Parity and selection\<close>

definition parity_bit :: "addr \<Rightarrow> addr \<Rightarrow> bool" where
  "parity_bit a m \<longleftrightarrow> odd (popCount (a AND m))"

lemma bit_of_nat_mod2: "bit (of_nat (n mod 2) :: 'a::len word) i \<longleftrightarrow> i = 0 \<and> odd n"
  by (cases "even n") (auto simp: bit_1_iff even_iff_mod_2_eq_zero odd_iff_mod_2_eq_one)

lemma bit_sel_loop:
  "bit (sel_loop a k ms s) i \<longleftrightarrow>
     bit s i \<or> (k \<le> i \<and> i < k + length ms \<and> i < 32 \<and> parity_bit a (ms ! (i - k)))"
proof (induction ms arbitrary: k s)
  case Nil
  then show ?case by auto
next
  case (Cons m ms)
  have *: "bit (s OR push_bit k (of_nat (popCount (a AND m) mod 2))) i \<longleftrightarrow>
      bit s i \<or> (i = k \<and> i < 32 \<and> parity_bit a m)"
    by (auto simp: bit_simps bit_of_nat_mod2 parity_bit_def)
  show ?case
    by (simp only: sel_loop.simps Cons.IH *) (auto simp: nth_Cons' Suc_diff_le le_Suc_eq)
qed


lemma ar_contains_iff:
  assumes "length (ar_masks r) \<le> 8"
  shows "ar_contains r a \<longleftrightarrow> ar_start r \<le> a \<and> a < ar_end r \<and>
    (\<forall>i < 8. bit (ar_match r) i \<longleftrightarrow> i < length (ar_masks r) \<and> parity_bit a (ar_masks r ! i))"
proof -
  have "sel_loop a 0 (ar_masks r) 0 = ucast (ar_match r) \<longleftrightarrow>
    (\<forall>i < 8. bit (ar_match r) i \<longleftrightarrow> i < length (ar_masks r) \<and> parity_bit a (ar_masks r ! i))"
    (is "?l = ?c \<longleftrightarrow> ?R")
  proof -
    have b: "bit ?l i \<longleftrightarrow> i < length (ar_masks r) \<and> parity_bit a (ar_masks r ! i)" for i
      using assms by (auto simp: bit_sel_loop)
    have c: "bit ?c i \<longleftrightarrow> i < 8 \<and> bit (ar_match r) i" for i
      using bit_imp_le_length [of "ar_match r" i] by (auto simp: bit_simps)
    have "?l = ?c \<longleftrightarrow> (\<forall>i. bit ?l i = bit ?c i)"
      by (metis bit_eqI)
    also have "\<dots> \<longleftrightarrow> ?R"
      unfolding b c using assms by (metis le_trans less_le_not_le linorder_not_le)
    finally show ?thesis .
  qed
  then show ?thesis by (auto simp: ar_contains_def Let_def)
qed

lemma match_exists:
  assumes "length ms \<le> 8"
  obtains m :: u8 where "unat m < 2 ^ length ms"
    "\<And>i. i < 8 \<Longrightarrow> bit m i \<longleftrightarrow> i < length ms \<and> parity_bit a (ms ! i)"
proof -
  let ?m = "ucast (sel_loop a 0 ms 0) :: u8"
  have b: "bit ?m i \<longleftrightarrow> i < length ms \<and> parity_bit a (ms ! i)" if "i < 8" for i
    using that by (simp add: bit_simps bit_sel_loop)
  have "?m = take_bit (length ms) ?m"
    by (rule bit_word_eqI) (use b in \<open>auto simp: bit_simps\<close>)
  then have "unat ?m < 2 ^ length ms"
    by (metis mod_less_divisor unat_take_bit_mod zero_less_numeral zero_less_power)
  with b show thesis using that by blast
qed

section \<open>Merging a complete set of stripes\<close>

lemma merge_check_Inr:
  "merge_check this rs k = Inr () \<longleftrightarrow>
     (\<forall>j < length rs. mergesWith this (rs ! j) \<and> ar_match (rs ! j) = k + of_nat j)"
proof (induction rs arbitrary: k)
  case Nil
  then show ?case by simp
next
  case (Cons r rs)
  show ?case
    by (simp add: Cons.IH All_less_Suc2 algebra_simps)
qed

lemma merge_contains:
  assumes merge: "AddrRange_merge rs = Inr r" and two: "length rs > 1"
    and len: "length (ar_masks (hd rs)) \<le> 8"
  shows "ar_contains r a \<longleftrightarrow> (\<exists>x \<in> set rs. ar_contains x a)"
proof -
  let ?h = "hd rs" let ?n = "length (ar_masks ?h)"
  have hd: "(case rs of [] \<Rightarrow> AddrRange_default | r # _ \<Rightarrow> r) = ?h"
    using two by (cases rs) auto
  have n: "length rs = 2 ^ ?n" and chk: "merge_check ?h rs 0 = Inr ()"
    and r: "r = ?h\<lparr>ar_masks := [], ar_match := 0\<rparr>"
    using merge two by (auto simp: AddrRange_merge_def hd bindR_Inr_iff Let_def)
  have el: "mergesWith ?h (rs ! j) \<and> ar_match (rs ! j) = of_nat j" if "j < length rs" for j
    using chk that by (simp add: merge_check_Inr)
  have rc: "ar_contains r a \<longleftrightarrow> ar_start ?h \<le> a \<and> a < ar_end ?h"
    by (simp add: ar_contains_iff r)
  show ?thesis
  proof
    assume in_h: "ar_contains r a"
    obtain m :: u8 where m: "unat m < 2 ^ ?n"
      "\<And>i. i < 8 \<Longrightarrow> bit m i \<longleftrightarrow> i < ?n \<and> parity_bit a (ar_masks ?h ! i)"
      using match_exists [OF len, of a] by blast
    let ?x = "rs ! unat m"
    have lt: "unat m < length rs" using m(1) n by simp
    have "ar_contains ?x a"
      using el [OF lt] len in_h m(2) by (simp add: ar_contains_iff mergesWith_def rc)
    with lt show "\<exists>x \<in> set rs. ar_contains x a" by (meson nth_mem)
  next
    assume "\<exists>x \<in> set rs. ar_contains x a"
    then obtain j where "j < length rs" "ar_contains (rs ! j) a" by (metis in_set_conv_nth)
    then show "ar_contains r a"
      using el [of j] unfolding rc by (auto simp: mergesWith_def ar_contains_def Let_def split: if_splits)
  qed
qed

section \<open>Interleaving bits: removal followed by insertion\<close>

definition rm_bit :: "nat \<Rightarrow> addr \<Rightarrow> addr" where
  "rm_bit p v = take_bit p v OR push_bit p (drop_bit (Suc p) v)"

lemma bit_rm_bit [gem5_bits]:
  "bit (rm_bit p v) i \<longleftrightarrow> (if i < p then bit v i else bit v (Suc i))"
  by (auto simp: rm_bit_def bit_simps dest: bit_u64_lessD)

lemma removeBit_eq_rm_bit:
  assumes "i \<le> b" "b < 64"
  shows "removeBit v b i = rm_bit (b - i) v"
proof (cases "i < b")
  case True
  have "unat (of_nat b - of_nat i - 1 :: u32) = b - i - 1"
  proof -
    have "(of_nat b - of_nat i - 1 :: u32) = of_nat (b - i - 1)"
      using True by (simp add: of_nat_diff)
    then show ?thesis using assms by (simp add: unat_of_nat)
  qed
  then show ?thesis
    using True assms
    by (intro word_eq_bitI) (auto simp: removeBit_def bit_simps gem5_bits less_Suc_eq_le)
next
  case False
  then have "b = i" using assms by simp
  moreover have "mask_range (unat (-1 :: u32)) 0 = 0"
    by (simp add: mask_range_def mbits_def mask_u64_def unsigned_minus_1_eq_mask mask_eq_exp_minus_1)
  ultimately show ?thesis
    by (intro word_eq_bitI) (auto simp: removeBit_def insertBits_val_def bit_simps gem5_bits)
qed

lemma bit_addBit [gem5_bits]:
  assumes "p < 64" "i < 64"
  shows "bit (addBit v p) i \<longleftrightarrow> (if i < p then bit v i else 0 < i \<and> bit v (i - 1))"
  using assms by (auto simp: addBit_def bit_push_bit_iff gem5_bits simp del: push_bit_Suc push_bit_of_Suc_0)

lemma addBit_rm_bit_commute:
  assumes "s \<le> q" "q < 63" "\<not> bit w 63"
  shows "addBit (rm_bit q w) s = rm_bit (Suc q) (addBit w s)"
proof (rule word_eq_bitI)
  fix i :: nat
  assume "i < 64"
  then show "bit (addBit (rm_bit q w) s) i = bit (rm_bit (Suc q) (addBit w s)) i"
    using assms by (cases "i = 63") (auto simp: gem5_bits dest: bit_u64_lessD)
qed

lemma rm_bit_top: "p < 64 \<Longrightarrow> \<not> bit (rm_bit p w) 63"
  by (auto simp: gem5_bits dest: bit_u64_lessD)

lemma addBit_remove_loop:
  assumes "sorted ps" "distinct ps" "\<And>q. q \<in> set ps \<Longrightarrow> s + k < q \<and> q < 64"
    and "\<not> bit w 63"
  shows "addBit (remove_loop (Suc k) ps w) s = remove_loop k ps (addBit w s)"
  using assms
proof (induction ps arbitrary: k w)
  case Nil
  then show ?case by simp
next
  case (Cons q ps)
  have q: "s + k < q" "q < 64" using Cons.prems(3) by auto
  have gt: "q < r" if "r \<in> set ps" for r
    using Cons.prems(1,2) that by (metis distinct.simps(2) le_neq_implies_less sorted_wrt.simps(2))
  have "addBit (remove_loop (Suc k) (q # ps) w) s =
      addBit (remove_loop (Suc (Suc k)) ps (rm_bit (q - Suc k) w)) s"
    using q by (simp add: removeBit_eq_rm_bit)
  also have "\<dots> = remove_loop (Suc k) ps (addBit (rm_bit (q - Suc k) w) s)"
  proof (rule Cons.IH)
    show "s + Suc k < r \<and> r < 64" if "r \<in> set ps" for r
      using that gt [OF that] q(1) Cons.prems(3) by fastforce
  qed (use Cons.prems rm_bit_top [OF less_imp_diff_less [OF q(2)]] in auto)
  also have "addBit (rm_bit (q - Suc k) w) s = rm_bit (q - k) (addBit w s)"
    using q addBit_rm_bit_commute [of s "q - Suc k" w] Cons.prems(4) by (simp add: Suc_diff_Suc)
  finally show ?case using q by (simp add: removeBit_eq_rm_bit)
qed

lemma add_remove_agree:
  assumes "sorted ps" "distinct ps" "\<And>q. q \<in> set ps \<Longrightarrow> q < 64" "i \<notin> set ps"
  shows "bit (add_loop ps (remove_loop 0 ps v)) i = bit v i"
  using assms
proof (induction ps arbitrary: v)
  case Nil
  then show ?case by simp
next
  case (Cons p ps)
  have p: "p < 64" using Cons.prems(3) by auto
  have gt: "p < r" if "r \<in> set ps" for r
    using Cons.prems(1,2) that by (metis distinct.simps(2) le_neq_implies_less sorted_wrt.simps(2))
  have "add_loop (p # ps) (remove_loop 0 (p # ps) v) =
      add_loop ps (addBit (remove_loop (Suc 0) ps (rm_bit p v)) p)"
    using p by (simp add: removeBit_eq_rm_bit)
  also have "addBit (remove_loop (Suc 0) ps (rm_bit p v)) p = remove_loop 0 ps (addBit (rm_bit p v) p)"
    using Cons.prems gt p rm_bit_top by (intro addBit_remove_loop) auto
  also have "bit (add_loop ps \<dots>) i = bit (addBit (rm_bit p v) p) i"
    using Cons.prems by (intro Cons.IH) auto
  also have "\<dots> = bit v i"
  proof (cases "i < 64")
    case True
    then show ?thesis using p Cons.prems(4) by (auto simp: gem5_bits)
  next
    case False
    then show ?thesis by (auto dest: bit_u64_lessD)
  qed
  finally show ?case .
qed

lemma popCount_card: "popCount v = card {i. i < 64 \<and> bit v i}"
proof -
  have "popCount v = length (filter (bit v) [0..<64])" by (simp add: popCount_def)
  also have "\<dots> = card (set (filter (bit v) [0..<64]))"
    by (rule distinct_card [symmetric]) simp
  also have "set (filter (bit v) [0..<64]) = {i. i < 64 \<and> bit v i}" by auto
  finally show ?thesis .
qed

lemma parity_split_lsb:
  assumes "bit m l" "\<And>i. i < 64 \<Longrightarrow> i \<noteq> l \<Longrightarrow> bit m i \<Longrightarrow> bit x i = bit v i"
    "\<And>i. i < 64 \<Longrightarrow> bit c i \<longleftrightarrow> i \<noteq> l"
  shows "odd (popCount (x AND m AND c)) \<longleftrightarrow> parity_bit v m \<noteq> bit v l"
proof -
  have l: "l < 64" using assms(1) by (rule bit_u64_lessD)
  let ?S = "{i. i < 64 \<and> bit (x AND m AND c) i}" and ?T = "{i. i < 64 \<and> bit (v AND m) i}"
  have S: "?S = ?T - {l}" using assms by (auto simp: bit_simps)
  have "l \<in> ?T \<longleftrightarrow> bit v l" using l assms(1) by (simp add: bit_simps)
  then have "card ?T = card ?S + of_bool (bit v l)"
    using card_Suc_Diff1 [of ?T l] by (auto simp: S)
  then show ?thesis by (auto simp: parity_bit_def popCount_card)
qed

lemma bit_clear_lsb:
  assumes "l < 31" "i < 64"
  shows "bit (scast (NOT (push_bit l (1 :: u32))) :: u64) i \<longleftrightarrow> i \<noteq> l"
  using assms by (auto simp: bit_simps bit_signed_iff)

lemma fix_loop_restores:
  assumes "\<forall>i < length ms. (\<not> ms ! i = 0) \<and> ctz64 (ms ! i) < 31 \<and> k + i < 8 \<and>
             (bit (mt :: u8) (k + i) \<longleftrightarrow> parity_bit v (ms ! i))"
    and "\<forall>i j. i < j \<and> j < length ms \<longrightarrow> \<not> bit (ms ! i) (ctz64 (ms ! j))"
    and "\<forall>i < 64. i \<notin> ctz64 ` set ms \<longrightarrow> bit x i = bit v i"
  shows "fix_loop mt k ms x = v"
  using assms
proof (induction ms arbitrary: k x)
  case Nil
  then show ?case by (auto intro: word_eq_bitI)
next
  case (Cons m ms)
  let ?l = "ctz64 m"
  let ?c = "scast (NOT (push_bit ?l (1 :: u32))) :: u64"
  let ?b = "bits1 (ucast mt) k XOR of_nat (popCount (x AND m AND ?c)) :: u64"
  have m: "m \<noteq> 0" "?l < 31" "k < 8" "bit mt k \<longleftrightarrow> parity_bit v m"
    using Cons.prems(1) by auto
  have lsb: "bit m ?l" using m(1) ctz64_least by blast
  have later: "\<not> bit m (ctz64 m')" if "m' \<in> set ms" for m'
    using Cons.prems(2) that by (metis Suc_less_eq in_set_conv_nth length_Cons nth_Cons_0 nth_Cons_Suc zero_less_Suc)
  have "odd (popCount (x AND m AND ?c)) \<longleftrightarrow> parity_bit v m \<noteq> bit v ?l"
    using lsb
  proof (rule parity_split_lsb)
    show "bit x i = bit v i" if "i < 64" "i \<noteq> ?l" "bit m i" for i
      using Cons.prems(3) that later by auto
  qed (use m bit_clear_lsb in auto)
  moreover have "bit (bits1 (ucast mt) k) 0 \<longleftrightarrow> bit mt k"
    using m(3) by (simp add: bits1_def bit_bits_val bit_unsigned_iff del: bit_0)
  moreover have "bit (of_nat n :: u64) 0 \<longleftrightarrow> odd n" for n
    by (simp add: bit_0)
  ultimately have b: "bit ?b 0 \<longleftrightarrow> bit v ?l"
    unfolding bit_xor_iff using m(4) by blast
  have "fix_loop mt (Suc k) ms (insertBits1 x ?l ?b) = v"
  proof (rule Cons.IH)
    show "\<forall>i j. i < j \<and> j < length ms \<longrightarrow> \<not> bit (ms ! i) (ctz64 (ms ! j))"
      using Cons.prems(2) by (metis Suc_less_eq length_Cons nth_Cons_Suc)
    show "\<forall>i < 64. i \<notin> ctz64 ` set ms \<longrightarrow> bit (insertBits1 x ?l ?b) i = bit v i"
      using Cons.prems(3) b m(2) by (auto simp: insertBits1_def gem5_bits)
  qed (use Cons.prems(1) in \<open>auto simp: All_less_Suc2\<close>)
  then show ?case by (simp add: Let_def)
qed

definition separable_masks :: "addr list \<Rightarrow> bool" where
  "separable_masks ms \<longleftrightarrow> length ms \<le> 8 \<and> (\<forall>m \<in> set ms. m \<noteq> 0 \<and> ctz64 m < 31) \<and>
     (\<forall>j < length ms. \<forall>i < j. \<not> bit (ms ! i) (ctz64 (ms ! j)))"

lemma separable_distinct:
  assumes "separable_masks ms"
  shows "distinct (map ctz64 ms)"
proof -
  have "ctz64 (ms ! i) \<noteq> ctz64 (ms ! j)" if "i < j" "j < length ms" for i j
  proof -
    have "ms ! i \<noteq> 0" using assms that by (auto simp: separable_masks_def)
    then have "bit (ms ! i) (ctz64 (ms ! i))" using ctz64_least by blast
    then show ?thesis using assms that by (metis separable_masks_def)
  qed
  then show ?thesis by (simp add: distinct_conv_nth) (metis linorder_neqE_nat)
qed

text \<open>C29: for a range whose masks are separable (at most eight masks, each with its lowest set
  bit below bit 31, and no mask containing the lowest set bit of a later one),
  \<^verbatim>\<open>addIntlvBits\<close> undoes \<^verbatim>\<open>removeIntlvBits\<close> on every address of the range.\<close>

theorem intlv_roundtrip:
  assumes "separable_masks (ar_masks r)" "ar_contains r a"
  shows "addIntlvBits r (removeIntlvBits r a) = a"
proof (cases "interleaved r")
  case False
  then show ?thesis by (simp add: addIntlvBits_def removeIntlvBits_def)
next
  case True
  let ?ps = "sort (map ctz64 (ar_masks r))"
  have len: "length (ar_masks r) \<le> 8" using assms(1) by (simp add: separable_masks_def)
  have "fix_loop (ar_match r) 0 (ar_masks r) (add_loop ?ps (remove_loop 0 ?ps a)) = a"
  proof (rule fix_loop_restores)
    show "\<forall>i < length (ar_masks r). ar_masks r ! i \<noteq> 0 \<and> ctz64 (ar_masks r ! i) < 31 \<and>
        0 + i < 8 \<and> bit (ar_match r) (0 + i) = parity_bit a (ar_masks r ! i)"
      using assms len by (auto simp: separable_masks_def ar_contains_iff)
    show "\<forall>i j. i < j \<and> j < length (ar_masks r) \<longrightarrow>
        \<not> bit (ar_masks r ! i) (ctz64 (ar_masks r ! j))"
      using assms(1) by (auto simp: separable_masks_def)
    show "\<forall>i < 64. i \<notin> ctz64 ` set (ar_masks r) \<longrightarrow>
        bit (add_loop ?ps (remove_loop 0 ?ps a)) i = bit a i"
    proof (intro allI impI add_remove_agree)
      show "q < 64" if "q \<in> set ?ps" for q
        using that assms(1) by (force simp: separable_masks_def)
    qed (use separable_distinct [OF assms(1)] in auto)
  qed
  then show ?thesis using True by (simp add: addIntlvBits_def removeIntlvBits_def)
qed

theorem intlv_roundtrip_witness:
  "addIntlvBits \<lparr>ar_start = 0x1000, ar_end = 0x9000, ar_masks = [0x40, 0x2080], ar_match = 2\<rparr>
     (removeIntlvBits \<lparr>ar_start = 0x1000, ar_end = 0x9000, ar_masks = [0x40, 0x2080], ar_match = 2\<rparr> 0x2024)
   = 0x2024"
  (is "addIntlvBits ?r (removeIntlvBits ?r ?a) = ?a")
proof (rule intlv_roundtrip)
  show "separable_masks (ar_masks ?r)" by code_simp
  show "ar_contains ?r ?a" by code_simp
qed

section \<open>Intersection and inclusion\<close>

lemma plain_contains:
  "\<not> interleaved r \<Longrightarrow> ar_contains r a \<longleftrightarrow> ar_start r \<le> a \<and> a < ar_end r \<and> ar_match r = 0"
  by (auto simp: ar_contains_iff interleaved_def intro: bit_word_eqI)

lemma contains_bounds: "ar_contains r a \<Longrightarrow> ar_start r \<le> a \<and> a < ar_end r"
  by (auto simp: ar_contains_def Let_def split: if_splits)

lemma plain_size_1:
  assumes "\<not> interleaved r" "ar_size r = 1" "ar_contains r a"
  shows "a = ar_start r"
proof -
  have "ar_end r = ar_start r + 1"
    using assms(1,2) by (simp add: ar_size_def interleaved_def algebra_simps)
  moreover have "ar_start r \<le> a" "a < ar_end r" using contains_bounds [OF assms(3)] by auto
  ultimately show ?thesis
    by (metis add_diff_cancel_right' antisym_conv not_less word_le_sub1 word_less_nat_alt
        word_neq_0_conv inc_le linorder_not_le)
qed

text \<open>When \<^verbatim>\<open>intersects\<close> answers (it panics on interleaved ranges it cannot compare)
  a negative answer is right: no address lies in both ranges. The argument must not be an
  interleaved range whose \<^verbatim>\<open>size()\<close> is one, for which only its start is tested.\<close>

lemma intersects_sound:
  assumes "ar_intersects this r = Inr False" "\<not> interleaved r \<or> ar_size r \<noteq> 1"
    "length (ar_masks this) \<le> 8"
  shows "\<not> (ar_contains this a \<and> ar_contains r a)"
proof
  assume both: "ar_contains this a \<and> ar_contains r a"
  have rng: "ar_start this \<le> a" "a < ar_end this" "ar_start r \<le> a" "a < ar_end r"
    using both contains_bounds by auto
  then have olap: "\<not> (ar_start this \<ge> ar_end r \<or> ar_end this \<le> ar_start r)" by auto
  consider (one) "ar_size r = 1" "\<not> ar_contains this (ar_start r)"
    | (same) "mergesWith this r" "ar_match this \<noteq> ar_match r"
    using assms(1) olap by (auto simp: ar_intersects_def split: if_splits)
  then show False
  proof cases
    case one
    then show False using both plain_size_1 assms(2) by metis
  next
    case same
    then have "ar_match this = ar_match r"
      using both assms(3)
      by (auto simp: ar_contains_iff mergesWith_def intro!: bit_word_eqI)
    with same show False by simp
  qed
qed

lemma intersects_sound_example:
  "ar_intersects \<lparr>ar_start = 0, ar_end = 0x100, ar_masks = [0x40], ar_match = 0\<rparr>
     \<lparr>ar_start = 0, ar_end = 0x100, ar_masks = [0x40], ar_match = 1\<rparr> = Inr False \<and>
   \<not> (ar_contains \<lparr>ar_start = 0, ar_end = 0x100, ar_masks = [0x40], ar_match = 0\<rparr> 0x50 \<and>
      ar_contains \<lparr>ar_start = 0, ar_end = 0x100, ar_masks = [0x40], ar_match = 1\<rparr> 0x50)"
  (is "?i = _ \<and> _")
proof -
  have i: "?i = Inr False" by code_simp
  show ?thesis
    using i intersects_sound [OF i, of "0x50"] by (simp add: ar_size_def)
qed

lemma intersects_size_one_misses:
  "ar_intersects \<lparr>ar_start = 1, ar_end = 2, ar_masks = [], ar_match = 0\<rparr>
       \<lparr>ar_start = 0, ar_end = 2, ar_masks = [1], ar_match = 1\<rparr> = Inr False \<and>
   ar_contains \<lparr>ar_start = 1, ar_end = 2, ar_masks = [], ar_match = 0\<rparr> 1 \<and>
   ar_contains \<lparr>ar_start = 0, ar_end = 2, ar_masks = [1], ar_match = 1\<rparr> 1"
  by code_simp

lemma bit_combined_fold:
  assumes "i < 32"
  shows "bit (fold (\<lambda>m c. ucast ((scast c :: u64) OR m)) ms (c :: u32)) i \<longleftrightarrow>
     bit c i \<or> (\<exists>m \<in> set ms. bit m i)"
  using assms
proof (induction ms arbitrary: c)
  case Nil
  then show ?case by simp
next
  case (Cons m ms)
  have "bit (ucast ((scast c :: u64) OR m) :: u32) i \<longleftrightarrow> bit c i \<or> bit m i"
    using Cons.prems by (simp add: bit_simps bit_signed_iff)
  then show ?case using Cons by auto
qed

lemma granularity_below_masks:
  assumes "m \<in> set ms" "bit m i" "m < 2 ^ 31"
  shows "ctz64 (scast (combined_mask ms)) \<le> i \<and> i < 31"
proof -
  have "i < 31"
  proof (rule ccontr)
    assume "\<not> i < 31"
    moreover have "take_bit 31 m = m"
      using assms(3) by (simp add: word_unat_eq_iff unat_take_bit_mod word_less_nat_alt)
    ultimately show False using assms(2) by (metis bit_take_bit_iff)
  qed
  then have "bit (combined_mask ms) i"
    using assms by (auto simp: combined_mask_def bit_combined_fold)
  then have b: "bit (scast (combined_mask ms) :: u64) i"
    using \<open>i < 31\<close> by (simp add: bit_simps bit_signed_iff)
  then have "(scast (combined_mask ms) :: u64) \<noteq> 0" by auto
  then show ?thesis using b ctz64_least \<open>i < 31\<close> by (meson not_le)
qed

lemma same_granule_parity:
  assumes "\<And>i. bit m i \<Longrightarrow> l \<le> i" "drop_bit l a = drop_bit l b"
  shows "parity_bit a m = parity_bit b m"
proof -
  have "bit a i = bit b i" if "l \<le> i" for i
    using arg_cong [OF assms(2), of "\<lambda>w. bit w (i - l)"] that by (simp add: bit_simps)
  then have "a AND m = b AND m"
    using assms(1) by (intro bit_word_eqI) (auto simp: bit_simps)
  then show ?thesis by (simp add: parity_bit_def)
qed

lemma unat_pred: "a < e \<Longrightarrow> unat (e - 1) = unat e - 1"
  for a e :: u64
  by (rule unat_minus_one) auto

lemma le_pred: "a < e \<Longrightarrow> a \<le> e - 1"
  for a e :: u64
  by (simp add: word_le_nat_alt word_less_nat_alt unat_pred)

lemma two_granules:
  assumes "s \<le> a" "a < e" "e - s \<le> 2 ^ l" "l < 64"
  shows "drop_bit l a = drop_bit l s \<or> drop_bit l a = drop_bit l (e - 1 :: u64)"
proof -
  have u: "unat s \<le> unat a" "unat a \<le> unat (e - 1)" "unat (e - 1) < unat s + 2 ^ l"
  proof -
    have e: "unat (e - 1) = unat e - 1" "s \<le> e"
      using assms(1,2) unat_pred [OF assms(2)] by auto
    then have "unat e - unat s \<le> unat (2 ^ l :: u64)"
      using assms(3) by (simp add: word_le_nat_alt unat_sub)
    then show "unat (e - 1) < unat s + 2 ^ l"
      using e assms(1,2,4) by (simp add: unat_power2 word_le_nat_alt word_less_nat_alt)
    show "unat s \<le> unat a" "unat a \<le> unat (e - 1)"
      using assms(1,2) e by (auto simp: word_le_nat_alt word_less_nat_alt)
  qed
  let ?g = "2 ^ l :: nat"
  have "unat (e - 1) div ?g \<le> Suc (unat s div ?g)"
    using div_le_mono [OF less_imp_le [OF u(3)], of ?g] by (simp add: div_add_self2)
  moreover have "unat s div ?g \<le> unat a div ?g" "unat a div ?g \<le> unat (e - 1) div ?g"
    using u by (auto intro: div_le_mono)
  ultimately have "unat a div ?g = unat s div ?g \<or> unat a div ?g = unat (e - 1) div ?g" by linarith
  then show ?thesis
    by (simp add: word_unat_eq_iff unat_div_shift)
qed

lemma isSubset_contains:
  assumes "isSubset this r = Inr True" "ar_contains this a"
    "\<forall>m \<in> set (ar_masks r). m < 2 ^ 31 \<and> m \<noteq> 0" "length (ar_masks r) \<le> 8"
    "interleaved r \<or> ar_match r = 0"
  shows "ar_contains r a"
proof (cases "interleaved r")
  case False
  then show ?thesis
    using assms by (auto simp: isSubset_def plain_contains dest: contains_bounds split: if_splits)
next
  case True
  let ?l = "ctz64 (scast (combined_mask (ar_masks r)))"
  have sub: "ar_contains r (ar_start this)" "ar_contains r (ar_end this - 1)"
    "ar_size this \<le> granularity r" "\<not> interleaved this"
    using assms(1) True by (auto simp: isSubset_def split: if_splits)
  have a: "ar_start this \<le> a" "a < ar_end this" using contains_bounds [OF assms(2)] by auto
  have low: "?l \<le> i" if "m \<in> set (ar_masks r)" "bit m i" for m i
    using granularity_below_masks [OF that] assms(3) that by auto
  have "?l < 31"
  proof -
    obtain m where m: "m \<in> set (ar_masks r)" "m \<noteq> 0"
      using True assms(3) by (cases "ar_masks r") (auto simp: interleaved_def)
    then obtain i where "bit m i" by (metis bit_word_eqI bit_0_eq bot_apply bot_bool_def)
    then show ?thesis using granularity_below_masks [OF m(1)] assms(3) m(1) by fastforce
  qed
  then have "ar_end this - ar_start this \<le> 2 ^ ?l"
    using sub(3,4) True
    by (simp add: granularity_def ar_size_def interleaved_def Let_def unat_of_nat push_bit_eq_mult)
  from two_granules [OF a this] \<open>?l < 31\<close> obtain b where
    b: "ar_contains r b" "drop_bit ?l a = drop_bit ?l b" using sub(1,2) by auto
  have par: "parity_bit a m = parity_bit b m" if "m \<in> set (ar_masks r)" for m
    using same_granule_parity [OF low [OF that] b(2)] by blast
  have "ar_start r \<le> a" "a < ar_end r"
    using contains_bounds [OF sub(1)] contains_bounds [OF sub(2)] a le_pred [OF a(2)]
    by (auto intro: order_trans le_less_trans)
  then show ?thesis using b(1) par assms(4) by (auto simp: ar_contains_iff)
qed

text \<open>a positive answer of \<^verbatim>\<open>isSubset\<close> is right: every address of this range is an
  address of the other one, which may be interleaved with masks below bit 31.\<close>

lemma isSubset_sound:
  assumes "isSubset this r = Inr True" "ar_contains this a"
    "\<forall>m \<in> set (ar_masks r). m < 2 ^ 31 \<and> m \<noteq> 0" "length (ar_masks r) \<le> 8"
    "interleaved r \<or> ar_match r = 0"
  shows "ar_contains r a"
  using assms by (rule isSubset_contains)

lemma isSubset_sound_witness:
  "ar_contains \<lparr>ar_start = 0, ar_end = 0x1000, ar_masks = [0x40], ar_match = 1\<rparr> 0x50"
  by (rule isSubset_sound [of "\<lparr>ar_start = 0x40, ar_end = 0x80, ar_masks = [], ar_match = 0\<rparr>"])
     code_simp+

text \<open>merging a complete set of \<open>2 ^ n\<close> stripes (the vector constructor of
  \<^verbatim>\<open>AddrRange\<close>) loses and adds no address: the merged range contains exactly the
  addresses of the stripes.\<close>

lemma merge_exact:
  assumes "AddrRange_merge rs = Inr r" "length rs > 1" "length (ar_masks (hd rs)) \<le> 8"
  shows "ar_contains r a \<longleftrightarrow> (\<exists>x \<in> set rs. ar_contains x a)"
  using assms by (rule merge_contains)

lemma merge_exact_witness:
  "ar_contains \<lparr>ar_start = 0, ar_end = 0x100, ar_masks = [], ar_match = 0\<rparr> 0x50 \<longleftrightarrow>
   (\<exists>x \<in> set [\<lparr>ar_start = 0, ar_end = 0x100, ar_masks = [0x40], ar_match = 0\<rparr>,
               \<lparr>ar_start = 0, ar_end = 0x100, ar_masks = [0x40], ar_match = 1\<rparr>]. ar_contains x 0x50)"
  by (rule merge_exact) (code_simp, simp, simp)

section \<open>The order of ranges\<close>

definition ar_key :: "addr_range \<Rightarrow> nat \<times> nat" where
  "ar_key r = (unat (ar_start r), if interleaved r then unat (ar_match r) else 256)"

lemma ar_less_key:
  "ar_less x y \<longleftrightarrow> fst (ar_key x) < fst (ar_key y) \<or>
     (fst (ar_key x) = fst (ar_key y) \<and> snd (ar_key x) < snd (ar_key y))"
  using unsigned_less [of "ar_match x", where 'a = nat]
    unsigned_less [of "ar_match y", where 'a = nat]
  by (auto simp: ar_less_def ar_key_def word_less_nat_alt word_unat_eq_iff)

lemma ar_less_irrefl: "\<not> ar_less x x"
  by (simp add: ar_less_key)

lemma ar_less_trans: "ar_less x y \<Longrightarrow> ar_less y z \<Longrightarrow> ar_less x z"
  by (auto simp: ar_less_key)

lemma ar_less_incomparable_trans:
  "\<not> ar_less x y \<Longrightarrow> \<not> ar_less y x \<Longrightarrow> \<not> ar_less y z \<Longrightarrow> \<not> ar_less z y \<Longrightarrow> \<not> ar_less x z"
  by (auto simp: ar_less_key)

lemma ar_eq_iff: "ar_eq x y \<longleftrightarrow> x = y"
  by (auto simp: ar_eq_def)
end
