(* ===== verification/Addr_Range_Map.thy ===== *)
theory Addr_Range_Map
  imports Addr_Range
begin

text \<open>
  \<^verbatim>\<open>src/gem5/src/base/addr_range_map.hh\<close>: the address decoder \<^verbatim>\<open>AddrRangeMap\<close>, a
  \<^verbatim>\<open>std::map\<close> ordered by \<^verbatim>\<open>AddrRange::operator<\<close> with a small most-recently-used
  list of iterators in front of it. The tree is an association list in key order, an iterator
  is the key it points to and \<^verbatim>\<open>end()\<close> is \<^const>\<open>None\<close>. The predicate passed to
  \<^verbatim>\<open>find\<close> may panic, so every search returns a result. The abstract view is the partial
  function from addresses to values; lookups compute it and updates refine it.
\<close>

section \<open>Definitions\<close>

record 'v arm =
  arm_tree :: "(addr_range \<times> 'v) list"
  arm_cache :: "addr_range list"

definition arm_keys :: "'v arm \<Rightarrow> addr_range list" where
  "arm_keys m = map fst (arm_tree m)"

definition addNewEntryToCache :: "nat \<Rightarrow> addr_range \<Rightarrow> 'v arm \<Rightarrow> 'v arm" where
  "addNewEntryToCache max_cache_size it m =
     (if max_cache_size \<noteq> 0
      then if length (arm_cache m) \<ge> max_cache_size
           then if max_cache_size > 1
                then m\<lparr>arm_cache := it # butlast (arm_cache m)\<rparr>
                else m\<lparr>arm_cache := butlast (arm_cache m) @ [it]\<rparr>
           else m\<lparr>arm_cache := it # arm_cache m\<rparr>
      else m)"

fun cache_find :: "(addr_range \<Rightarrow> bool result) \<Rightarrow> addr_range list \<Rightarrow> addr_range option result" where
  "cache_find cond [] = Inr None"
| "cache_find cond (c # cs) =
     bindR (cond c) (\<lambda>b. if b then Inr (Some c) else cache_find cond cs)"

fun scan_back :: "(addr_range \<Rightarrow> bool result) \<Rightarrow> addr_range list \<Rightarrow> addr_range option result" where
  "scan_back cond [] = Inr None"
| "scan_back cond (i # rest) =
     bindR (cond i) (\<lambda>b.
       if b then Inr (Some i)
       else (case rest of
               [] \<Rightarrow> Inr None
             | next # _ \<Rightarrow> if mergesWith next i then scan_back cond rest else Inr None))"

definition arm_find ::
    "nat \<Rightarrow> 'v arm \<Rightarrow> addr_range \<Rightarrow> (addr_range \<Rightarrow> bool result) \<Rightarrow> (addr_range option \<times> 'v arm) result" where
  "arm_find max_cache_size m r cond =
     bindR (cache_find cond (arm_cache m)) (\<lambda>hit.
       case hit of
         Some it \<Rightarrow> Inr (Some it, m\<lparr>arm_cache := it # remove1 it (arm_cache m)\<rparr>)
       | None \<Rightarrow>
           let before = takeWhile (\<lambda>k. \<not> ar_less r k) (arm_keys m);
               after = dropWhile (\<lambda>k. \<not> ar_less r k) (arm_keys m)
           in bindR (case after of [] \<Rightarrow> Inr False | next # _ \<Rightarrow> cond next) (\<lambda>b.
                if b then Inr (Some (hd after), addNewEntryToCache max_cache_size (hd after) m)
                else bindR (scan_back cond (rev before)) (\<lambda>res.
                  case res of
                    None \<Rightarrow> Inr (None, m)
                  | Some i \<Rightarrow> Inr (Some i, addNewEntryToCache max_cache_size i m))))"

definition arm_contains :: "nat \<Rightarrow> 'v arm \<Rightarrow> addr_range \<Rightarrow> (addr_range option \<times> 'v arm) result" where
  "arm_contains mx m r = arm_find mx m r (\<lambda>r1. isSubset r r1)"

definition arm_contains_addr :: "nat \<Rightarrow> 'v arm \<Rightarrow> addr \<Rightarrow> (addr_range option \<times> 'v arm) result" where
  "arm_contains_addr mx m a = arm_contains mx m (RangeSize a 1)"

definition arm_intersects :: "nat \<Rightarrow> 'v arm \<Rightarrow> addr_range \<Rightarrow> (addr_range option \<times> 'v arm) result" where
  "arm_intersects mx m r = arm_find mx m r (\<lambda>r1. ar_intersects r r1)"

fun tree_insert :: "addr_range \<Rightarrow> 'v \<Rightarrow> (addr_range \<times> 'v) list \<Rightarrow> (addr_range \<times> 'v) list" where
  "tree_insert r d [] = [(r, d)]"
| "tree_insert r d (e # es) =
     (if ar_less (fst e) r then e # tree_insert r d es
      else if ar_less r (fst e) then (r, d) # e # es
      else e # es)"

definition arm_insert ::
    "nat \<Rightarrow> 'v arm \<Rightarrow> addr_range \<Rightarrow> 'v \<Rightarrow> (addr_range option \<times> 'v arm) result" where
  "arm_insert mx m r d =
     bindR (arm_intersects mx m r) (\<lambda>(it, m).
       if it \<noteq> None then Inr (None, m)
       else Inr (Some r, m\<lparr>arm_tree := tree_insert r d (arm_tree m)\<rparr>))"

definition arm_erase :: "'v arm \<Rightarrow> addr_range \<Rightarrow> 'v arm" where
  "arm_erase m p =
     m\<lparr>arm_cache := filter (\<lambda>c. c \<noteq> p) (arm_cache m),
       arm_tree := filter (\<lambda>e. fst e \<noteq> p) (arm_tree m)\<rparr>"

definition arm_erase_range :: "'v arm \<Rightarrow> addr_range option \<Rightarrow> addr_range option \<Rightarrow> 'v arm" where
  "arm_erase_range m p q =
     (let from = dropWhile (\<lambda>e. Some (fst e) \<noteq> p) (arm_tree m)
      in m\<lparr>arm_cache := (if p \<noteq> q then filter (\<lambda>c. Some c \<noteq> p) (arm_cache m) else arm_cache m),
           arm_tree := takeWhile (\<lambda>e. Some (fst e) \<noteq> p) (arm_tree m) @
                       dropWhile (\<lambda>e. Some (fst e) \<noteq> q) from\<rparr>)"

definition arm_clear :: "'v arm \<Rightarrow> 'v arm" where
  "arm_clear m = m\<lparr>arm_cache := [], arm_tree := []\<rparr>"

definition arm_size :: "'v arm \<Rightarrow> nat" where
  "arm_size m = length (arm_tree m)"

definition arm_empty :: "'v arm \<Rightarrow> bool" where
  "arm_empty m \<longleftrightarrow> arm_tree m = []"

section \<open>Invariant and abstract view\<close>

definition rng_ok :: "addr_range \<Rightarrow> bool" where
  "rng_ok r \<longleftrightarrow> ar_start r < ar_end r \<and> ar_size r \<noteq> 1 \<and> (interleaved r \<or> ar_match r = 0) \<and>
     length (ar_masks r) \<le> 8 \<and> (\<forall>m \<in> set (ar_masks r). m < 2 ^ 31 \<and> m \<noteq> 0)"

definition rng_compat :: "addr_range \<Rightarrow> addr_range \<Rightarrow> bool" where
  "rng_compat x y \<longleftrightarrow> ar_end x \<le> ar_start y \<or> ar_end y \<le> ar_start x \<or>
     (mergesWith x y \<and> interleaved x \<and> ar_match x \<noteq> ar_match y)"

definition keys_inv :: "addr_range list \<Rightarrow> bool" where
  "keys_inv ks \<longleftrightarrow> sorted_wrt ar_less ks \<and> sorted_wrt rng_compat ks \<and> (\<forall>k \<in> set ks. rng_ok k)"

definition arm_inv :: "nat \<Rightarrow> 'v arm \<Rightarrow> bool" where
  "arm_inv mx m \<longleftrightarrow> keys_inv (arm_keys m) \<and> set (arm_cache m) \<subseteq> set (arm_keys m) \<and>
     length (arm_cache m) \<le> mx"


lemma compat_sym: "rng_compat x y \<longleftrightarrow> rng_compat y x"
  by (auto simp: rng_compat_def mergesWith_def interleaved_def)

lemma ar_less_start: "ar_less x y \<Longrightarrow> ar_start x \<le> ar_start y"
  by (auto simp: ar_less_def split: if_splits)

lemma not_ar_less_start: "\<not> ar_less x y \<Longrightarrow> ar_start y \<le> ar_start x"
  by (auto simp: ar_less_def split: if_splits)

lemma keys_inv_Cons:
  "keys_inv (k # ks) \<longleftrightarrow> rng_ok k \<and> (\<forall>k' \<in> set ks. ar_less k k' \<and> rng_compat k k') \<and> keys_inv ks"
  by (auto simp: keys_inv_def)

lemma keys_inv_append:
  "keys_inv (xs @ ys) \<longleftrightarrow> keys_inv xs \<and> keys_inv ys \<and>
     (\<forall>x \<in> set xs. \<forall>y \<in> set ys. ar_less x y \<and> rng_compat x y)"
  by (auto simp: keys_inv_def sorted_wrt_append)

lemma keys_inv_distinct: "keys_inv ks \<Longrightarrow> distinct ks"
  by (induction ks) (auto simp: keys_inv_Cons ar_less_irrefl)

lemma keys_inv_compat:
  assumes "keys_inv ks" "x \<in> set ks" "y \<in> set ks" "x \<noteq> y"
  shows "rng_compat x y"
  using assms by (induction ks) (auto simp: keys_inv_Cons compat_sym)

lemma compat_disjoint:
  assumes "rng_compat x y" "ar_contains x a" "ar_contains y a" "length (ar_masks x) \<le> 8"
  shows False
proof -
  have "mergesWith x y" "ar_match x \<noteq> ar_match y"
    using assms(1) contains_bounds [OF assms(2)] contains_bounds [OF assms(3)]
    by (auto simp: rng_compat_def)
  moreover have "ar_match x = ar_match y" if "mergesWith x y"
    using that assms(2-4) by (auto simp: ar_contains_iff mergesWith_def intro!: bit_word_eqI)
  ultimately show False by simp
qed

lemma decode_unique:
  assumes "keys_inv ks" "x \<in> set ks" "y \<in> set ks" "ar_contains x a" "ar_contains y a"
  shows "x = y"
proof (rule ccontr)
  assume "x \<noteq> y"
  then have "rng_compat x y" using keys_inv_compat assms by blast
  moreover have "length (ar_masks x) \<le> 8" using assms by (auto simp: keys_inv_def rng_ok_def)
  ultimately show False using compat_disjoint assms(4,5) by blast
qed

section \<open>Searching\<close>

lemma cache_find_total:
  assumes "\<And>c. c \<in> set cs \<Longrightarrow> cond c = Inr (P c)"
  shows "cache_find cond cs = Inr (find P cs)"
  using assms by (induction cs) auto

lemma scan_back_none:
  assumes "\<And>c. c \<in> set cs \<Longrightarrow> cond c = Inr False"
  shows "scan_back cond cs = Inr None"
  using assms by (induction cs) (auto split: list.splits)

lemma scan_back_finds:
  assumes "cond e = Inr True" "\<And>y. y \<in> set ys \<Longrightarrow> cond y = Inr False \<and> mergesWith y e"
  shows "scan_back cond (ys @ e # zs) = Inr (Some e)"
  using assms(2)
proof (induction ys)
  case Nil
  then show ?case using assms(1) by simp
next
  case (Cons y ys)
  have "cond y = Inr False" "mergesWith y e" using Cons.prems by auto
  moreover have "mergesWith (hd (ys @ [e])) y"
    using Cons.prems [of y] Cons.prems [of "hd ys"] by (cases ys) (auto simp: mergesWith_def)
  ultimately show ?case using Cons by (cases ys) auto
qed

lemma granularity_pos:
  assumes "interleaved r" "rng_ok r"
  shows "1 \<le> granularity r"
proof -
  obtain m where m: "m \<in> set (ar_masks r)" using assms(1) by (cases "ar_masks r") (auto simp: interleaved_def)
  then have "m \<noteq> 0" "m < 2 ^ 31" using assms(2) by (auto simp: rng_ok_def)
  then obtain i where "bit m i" by (metis bit_word_eqI bit_0_eq bot_apply bot_bool_def)
  then have "ctz64 (scast (combined_mask (ar_masks r))) < 31"
    using granularity_below_masks [OF m _ \<open>m < 2 ^ 31\<close>] by fastforce
  then show ?thesis
    using assms(1) power2_ne_0
    by (simp add: granularity_def Let_def unat_of_nat push_bit_eq_mult word_le_nat_alt unat_power2)
qed

lemma unat_succ:
  assumes "a \<noteq> (-1 :: u64)"
  shows "unat (a + 1) = unat a + 1"
proof -
  have "1 + a \<noteq> 0" using assms by (metis add_eq_0_iff add.inverse_inverse)
  then show ?thesis using unatSuc [of a] by (simp add: add.commute)
qed

lemma isSubset_byte:
  assumes "rng_ok x" "a \<noteq> -1"
  shows "isSubset (RangeSize a 1) x = Inr (ar_contains x a)"
proof -
  note plus = unat_succ [OF assms(2)]
  have sz: "ar_size (RangeSize a 1) = 1" "\<not> interleaved (RangeSize a 1)"
    by (simp_all add: RangeSize_def AddrRange_plain_def ar_size_def interleaved_def)
  show ?thesis
  proof (cases "interleaved x")
    case True
    then show ?thesis
      using granularity_pos [OF True assms(1)] sz
      by (simp add: isSubset_def) (simp add: RangeSize_def AddrRange_plain_def)
  next
    case False
    then have "ar_match x = 0" using assms(1) by (simp add: rng_ok_def)
    then show ?thesis
      using False sz plus
      by (simp add: isSubset_def plain_contains)
         (auto simp: RangeSize_def AddrRange_plain_def word_le_nat_alt word_less_nat_alt)
  qed
qed

lemma ar_less_plain: "\<not> interleaved r \<Longrightarrow> ar_less r k \<longleftrightarrow> ar_start r < ar_start k"
  by (auto simp: ar_less_def)

lemma isSubset_total:
  "\<not> interleaved r \<Longrightarrow> isSubset r k = Inr (isSubset r k = Inr True)"
  by (auto simp: isSubset_def)

lemma isSubset_start:
  assumes "isSubset r k = Inr True" "rng_ok k" "ar_start r < ar_end r"
  shows "ar_contains k (ar_start r)"
  using assms
  by (cases "interleaved k") (auto simp: isSubset_def plain_contains rng_ok_def split: if_splits)

lemma before_iff:
  assumes "sorted_wrt ar_less ks"
  shows "k \<in> set (takeWhile (\<lambda>k. \<not> ar_less r k) ks) \<longleftrightarrow> k \<in> set ks \<and> \<not> ar_less r k"
    "k \<in> set (dropWhile (\<lambda>k. \<not> ar_less r k) ks) \<longleftrightarrow> k \<in> set ks \<and> ar_less r k"
  using assms by (induction ks) (auto dest: ar_less_trans)

lemma scan_back_subset:
  assumes inv: "keys_inv ks" and r: "\<not> interleaved r" "ar_start r < ar_end r"
  shows "scan_back (isSubset r) (rev (takeWhile (\<lambda>k. \<not> ar_less r k) ks)) =
    Inr (find (\<lambda>k. isSubset r k = Inr True) ks)"
proof -
  let ?B = "takeWhile (\<lambda>k. \<not> ar_less r k) ks" and ?P = "\<lambda>k. isSubset r k = Inr True"
  let ?a = "ar_start r"
  have hit: "ar_contains k ?a" if "k \<in> set ks" "?P k" for k
    using inv that r isSubset_start by (auto simp: keys_inv_def)
  have B: "k \<in> set ?B \<longleftrightarrow> k \<in> set ks \<and> ar_start k \<le> ?a" for k
    using before_iff(1) [of ks k r] inv r by (auto simp: ar_less_plain keys_inv_def)
  show ?thesis
  proof (cases "find ?P ks")
    case None
    then have "isSubset r k = Inr False" if "k \<in> set (rev ?B)" for k
      using that isSubset_total [OF r(1), of k] B [of k] by (auto simp: find_None_iff)
    then show ?thesis using None scan_back_none by metis
  next
    case (Some e)
    then have e: "e \<in> set ks" "?P e" by (auto simp: find_Some_iff)
    then have ea: "ar_start e \<le> ?a" "?a < ar_end e" using hit contains_bounds by blast+
    then have "e \<in> set ?B" using B e by blast
    then obtain us vs where uv: "?B = us @ e # vs" by (meson split_list)
    obtain ws where ks: "ks = us @ e # vs @ ws"
      using takeWhile_dropWhile_id [of "\<lambda>k. \<not> ar_less r k" ks] uv by (metis append.assoc append_Cons)
    have "isSubset r y = Inr False \<and> mergesWith y e" if "y \<in> set (rev vs)" for y
    proof -
      have "y \<in> set ?B" using that unfolding uv by simp
      then have y: "y \<in> set ks" "ar_start y \<le> ?a" using B [of y] by auto
      have ord: "ar_less e y" "rng_compat e y"
        using inv that by (auto simp: ks keys_inv_append keys_inv_Cons)
      then have "y \<noteq> e" using ar_less_irrefl by blast
      then have "\<not> ?P y" using decode_unique [OF inv y(1) e(1)] hit y(1) e by blast
      moreover have "ar_start y < ar_end y" using inv y by (auto simp: keys_inv_def rng_ok_def)
      then have "mergesWith y e"
        using ord ar_less_start [OF ord(1)] y ea by (auto simp: rng_compat_def mergesWith_def)
      ultimately show ?thesis using isSubset_total [OF r(1), of y] by simp
    qed
    then have "scan_back (isSubset r) (rev vs @ e # rev us) = Inr (Some e)"
      using e by (intro scan_back_finds) auto
    then show ?thesis using Some uv by simp
  qed
qed

lemma addNewEntry_inv:
  assumes "arm_inv mx m" "it \<in> set (arm_keys m)"
  shows "arm_inv mx (addNewEntryToCache mx it m)"
  using assms in_set_butlastD
  by (fastforce simp: arm_inv_def addNewEntryToCache_def arm_keys_def)

lemma addNewEntry_tree [simp]: "arm_tree (addNewEntryToCache mx it m) = arm_tree m"
  by (simp add: addNewEntryToCache_def)

lemma promote_inv:
  assumes "arm_inv mx m" "it \<in> set (arm_cache m)"
  shows "arm_inv mx (m\<lparr>arm_cache := it # remove1 it (arm_cache m)\<rparr>)"
proof -
  have "Suc (length (remove1 it (arm_cache m))) = length (arm_cache m)"
    using length_pos_if_in_set [OF assms(2)] assms(2) by (simp add: length_remove1)
  then show ?thesis
    using assms notin_set_remove1 set_remove1_subset [of it "arm_cache m"]
    by (auto simp: arm_inv_def arm_keys_def)
qed

lemma find_cong_unique:
  assumes "P c" "c \<in> set ks" "\<And>x. x \<in> set ks \<Longrightarrow> P x \<Longrightarrow> x = c"
  shows "find P ks = Some c"
proof (cases "find P ks")
  case None
  then show ?thesis using assms(1,2) by (simp add: find_None_iff)
next
  case (Some x)
  then have "x \<in> set ks" "P x" by (auto simp: find_Some_iff)
  then show ?thesis using Some assms(3) by simp
qed

lemma cache_find_SomeD:
  "cache_find cond cs = Inr (Some c) \<Longrightarrow> c \<in> set cs \<and> cond c = Inr True"
  by (induction cs) (auto simp: bindR_Inr_iff split: if_splits)

lemma scan_back_SomeD:
  "scan_back cond cs = Inr (Some c) \<Longrightarrow> c \<in> set cs \<and> cond c = Inr True"
proof (induction cs)
  case (Cons i rest)
  have "cond i = Inr True \<and> c = i \<or> scan_back cond rest = Inr (Some c)"
    using Cons.prems unfolding scan_back.simps(2) bindR_Inr_iff
    by (auto simp del: scan_back.simps split: if_splits list.splits)
  then show ?case using Cons.IH by auto
qed simp

lemma arm_find_inv:
  assumes "arm_inv mx m" "arm_find mx m r cond = Inr (it, m')"
  shows "arm_inv mx m' \<and> arm_tree m' = arm_tree m \<and>
    (\<forall>k. it = Some k \<longrightarrow> k \<in> set (arm_keys m) \<and> cond k = Inr True)"
proof -
  let ?B = "dropWhile (\<lambda>k. \<not> ar_less r k) (arm_keys m)"
  consider (cache) k where "it = Some k" "cache_find cond (arm_cache m) = Inr (Some k)"
      "m' = m\<lparr>arm_cache := k # remove1 k (arm_cache m)\<rparr>"
    | (up) k ks where "it = Some k" "?B = k # ks" "cond k = Inr True"
      "m' = addNewEntryToCache mx k m"
    | (scan) k where "it = Some k" "m' = addNewEntryToCache mx k m"
      "scan_back cond (rev (takeWhile (\<lambda>k. \<not> ar_less r k) (arm_keys m))) = Inr (Some k)"
    | (none) "it = None" "m' = m"
    using assms(2)
    by (auto simp: arm_find_def bindR_Inr_iff Let_def split: option.splits if_splits list.splits)
  then show ?thesis
  proof cases
    case cache
    then show ?thesis
      using assms(1) promote_inv [OF assms(1)] cache_find_SomeD [OF cache(2)]
      by (auto simp: arm_inv_def)
  next
    case up
    then have "k \<in> set (arm_keys m)" by (metis list.set_intros(1) set_dropWhileD)
    then show ?thesis using up addNewEntry_inv [OF assms(1)] by simp
  next
    case scan
    then have "k \<in> set (arm_keys m)" "cond k = Inr True"
      using scan_back_SomeD [OF scan(3)] by (auto dest: set_takeWhileD)
    then show ?thesis using scan addNewEntry_inv [OF assms(1)] by simp
  next
    case none
    then show ?thesis using assms(1) by simp
  qed
qed

lemma arm_contains_correct:
  assumes "arm_inv mx m" "\<not> interleaved r" "ar_start r < ar_end r"
  shows "\<exists>m'. arm_contains mx m r = Inr (find (\<lambda>k. isSubset r k = Inr True) (arm_keys m), m') \<and>
    arm_inv mx m' \<and> arm_tree m' = arm_tree m"
proof -
  let ?P = "\<lambda>k. isSubset r k = Inr True" and ?ks = "arm_keys m"
  let ?hit = "find ?P ?ks"
  have inv: "keys_inv ?ks" and sub: "set (arm_cache m) \<subseteq> set ?ks"
    using assms(1) by (auto simp: arm_inv_def)
  have hit: "ar_contains k (ar_start r)" if "k \<in> set ?ks" "?P k" for k
    using inv that assms(3) isSubset_start by (auto simp: keys_inv_def)
  have total: "cache_find (isSubset r) (arm_cache m) = Inr (find ?P (arm_cache m))"
    using isSubset_total [OF assms(2)] by (intro cache_find_total)
  have ex: "\<exists>m'. arm_contains mx m r = Inr (?hit, m')"
  proof (cases "find ?P (arm_cache m)")
    case (Some k)
    then have k: "k \<in> set ?ks" "?P k" using sub by (auto simp: find_Some_iff)
    have "?hit = Some k"
      using k decode_unique [OF inv _ k(1)] hit by (intro find_cong_unique) blast+
    then show ?thesis using total Some by (simp add: arm_contains_def arm_find_def)
  next
    case None
    have up: "(case dropWhile (\<lambda>k. \<not> ar_less r k) ?ks of [] \<Rightarrow> Inr False | k # _ \<Rightarrow> isSubset r k) = Inr False"
    proof (cases "dropWhile (\<lambda>k. \<not> ar_less r k) ?ks")
      case (Cons k ks)
      then have k: "k \<in> set ?ks" by (metis list.set_intros(1) set_dropWhileD)
      have "\<not> \<not> ar_less r k" using Cons by (metis hd_dropWhile list.distinct(1) list.sel(1))
      then have "\<not> ?P k" using hit [OF k] contains_bounds [of k "ar_start r"] assms(2) by (auto simp: ar_less_plain)
      then show ?thesis using Cons isSubset_total [OF assms(2), of k] by simp
    next
      case Nil
      show ?thesis unfolding Nil by simp
    qed
    show ?thesis
      unfolding arm_contains_def arm_find_def Let_def total None
        bindR_simps option.case up if_False scan_back_subset [OF inv assms(2,3)]
      by (cases ?hit) auto
  qed
  then show ?thesis
    using arm_find_inv [OF assms(1)] by (metis arm_contains_def)
qed

text \<open>C4: looking up a plain, non-empty range in a well-formed decoder never panics, leaves the
  tree alone, keeps the invariant of the cache, and returns an entry exactly when some entry
  covers the range, whatever the cache holds; every address of the range then decodes to the
  value of that entry.\<close>

theorem arm_lookup_correct:
  assumes "arm_inv mx m" "\<not> interleaved r" "ar_start r < ar_end r"
  shows "\<exists>m'. arm_contains mx m r = Inr (find (\<lambda>k. isSubset r k = Inr True) (arm_keys m), m') \<and>
    arm_inv mx m' \<and> arm_tree m' = arm_tree m \<and>
    (\<forall>k a. find (\<lambda>k. isSubset r k = Inr True) (arm_keys m) = Some k \<longrightarrow> ar_contains r a \<longrightarrow>
       find (\<lambda>k. ar_contains k a) (arm_keys m) = Some k)"
proof -
  have "find (\<lambda>k. ar_contains k a) (arm_keys m) = Some k"
    if "find (\<lambda>k. isSubset r k = Inr True) (arm_keys m) = Some k" "ar_contains r a" for k a
  proof -
    have k: "k \<in> set (arm_keys m)" "isSubset r k = Inr True" using that(1) by (auto simp: find_Some_iff)
    have inv: "keys_inv (arm_keys m)" using assms(1) by (simp add: arm_inv_def)
    then have "ar_contains k a"
      using isSubset_contains [OF k(2) that(2)] k(1) by (auto simp: keys_inv_def rng_ok_def)
    then show ?thesis using k decode_unique [OF inv] by (intro find_cong_unique) blast+
  qed
  then show ?thesis using arm_contains_correct [OF assms] by blast
qed

theorem arm_lookup_correct_witness:
  "\<exists>m'. arm_contains 1 \<lparr>arm_tree = [(RangeEx 0x100 0x200, ''dram''), (RangeEx 0x200 0x300, ''pio'')],
      arm_cache = [RangeEx 0x200 0x300]\<rparr> (RangeSize 0x140 0x40) = Inr (Some (RangeEx 0x100 0x200), m')"
proof -
  let ?m = "\<lparr>arm_tree = [(RangeEx 0x100 0x200, ''dram''), (RangeEx 0x200 0x300, ''pio'')],
      arm_cache = [RangeEx 0x200 0x300]\<rparr>"
  have "arm_inv 1 ?m" by code_simp
  moreover have "find (\<lambda>k. isSubset (RangeSize 0x140 0x40) k = Inr True) (arm_keys ?m) = Some (RangeEx 0x100 0x200)"
    by code_simp
  moreover have "\<not> interleaved (RangeSize 0x140 0x40)"
    "ar_start (RangeSize 0x140 0x40) < ar_end (RangeSize 0x140 0x40)" by code_simp+
  ultimately show ?thesis using arm_lookup_correct [of 1 ?m "RangeSize 0x140 0x40"] by auto
qed

lemma arm_lookup_byte:
  assumes "arm_inv mx m" "a \<noteq> -1"
  shows "\<exists>m'. arm_contains_addr mx m a = Inr (find (\<lambda>k. ar_contains k a) (arm_keys m), m') \<and>
    arm_inv mx m' \<and> arm_tree m' = arm_tree m"
proof -
  have "find (\<lambda>k. isSubset (RangeSize a 1) k = Inr True) (arm_keys m) = find (\<lambda>k. ar_contains k a) (arm_keys m)"
    using assms by (intro find_cong) (auto simp: isSubset_byte arm_inv_def keys_inv_def)
  moreover have "a < a + 1"
    using unat_succ [OF assms(2)] by (simp add: word_less_nat_alt)
  then have "ar_start (RangeSize a 1) < ar_end (RangeSize a 1)" "\<not> interleaved (RangeSize a 1)"
    by (auto simp: RangeSize_def AddrRange_plain_def interleaved_def)
  ultimately show ?thesis
    using arm_contains_correct [OF assms(1), of "RangeSize a 1"] by (simp add: arm_contains_addr_def)
qed

section \<open>Updating\<close>

lemma intersects_compat:
  assumes "ar_intersects r x = Inr False" "rng_ok r" "rng_ok x"
  shows "rng_compat r x"
proof -
  have "ar_size x \<noteq> 1" using assms(3) by (simp add: rng_ok_def)
  then show ?thesis
    using assms(1) by (auto simp: ar_intersects_def rng_compat_def mergesWith_def interleaved_def split: if_splits)
qed

lemma scan_back_compat:
  assumes "scan_back (ar_intersects r) xs = Inr None" "rng_ok r" "keys_inv (rev xs)"
    "\<And>x. x \<in> set xs \<Longrightarrow> ar_start x \<le> ar_start r"
  shows "\<forall>x \<in> set xs. rng_compat r x"
  using assms
proof (induction xs)
  case (Cons x xs)
  have x: "ar_intersects r x = Inr False"
    using Cons.prems(1) by (auto simp: bindR_Inr_iff split: if_splits list.splits)
  have ok: "rng_ok z" if "z \<in> set (x # xs)" for z
    using Cons.prems(3) that by (auto simp: keys_inv_def)
  have ord: "ar_less z x \<and> rng_compat z x" if "z \<in> set xs" for z
    using Cons.prems(3) that by (auto simp: keys_inv_append keys_inv_Cons)
  have "\<forall>z \<in> set xs. rng_compat r z"
  proof (cases "scan_back (ar_intersects r) xs = Inr None")
    case True
    then show ?thesis using Cons by (auto simp: keys_inv_append)
  next
    case False
    then obtain y ys where ys: "xs = y # ys" "\<not> mergesWith y x"
      using Cons.prems(1) x by (cases xs) (auto split: if_splits)
    have lt: "ar_start z < ar_end z" if "z \<in> set (x # xs)" for z using ok that by (auto simp: rng_ok_def)
    have y: "ar_end y \<le> ar_start x"
      using ord [of y] ys lt [of x] lt [of y] ar_less_start [of y x] by (auto simp: rng_compat_def)
    have "ar_end z \<le> ar_start x" if "z \<in> set xs" for z
    proof (cases "mergesWith z x")
      case True
      have "ar_less z y \<or> z = y"
        using that ys Cons.prems(3) by (auto simp: keys_inv_append keys_inv_Cons)
      then have "ar_start z \<le> ar_start y" using ar_less_start by blast
      then show ?thesis
        using True y lt [of y] ys by (auto simp: mergesWith_def dest: order_trans)
    next
      case False
      then show ?thesis
        using ord [OF that] lt [of x] lt [of z] that ar_less_start [of z x] by (auto simp: rng_compat_def)
    qed
    then show ?thesis
      using Cons.prems(4) by (auto simp: rng_compat_def intro: order_trans)
  qed
  then show ?case using intersects_compat [OF x Cons.prems(2) ok] by simp
qed simp

lemma next_compat:
  assumes "keys_inv (n # ns)" "ar_intersects r n = Inr False" "rng_ok r" "ar_less r n"
  shows "\<forall>z \<in> set (n # ns). rng_compat r z"
proof -
  have n: "rng_compat r n" "rng_ok n" using intersects_compat assms by (auto simp: keys_inv_Cons)
  have "rng_compat r z" if "z \<in> set ns" for z
  proof -
    have z: "ar_less n z" "rng_compat n z" "rng_ok z"
      using assms(1) that by (auto simp: keys_inv_Cons keys_inv_def)
    have starts: "ar_start r \<le> ar_start n" "ar_start n \<le> ar_start z"
      using ar_less_start assms(4) z(1) by auto
    have rz: "ar_less r z" using ar_less_trans assms(4) z(1) by blast
    from n(1) starts n(2) consider "ar_end r \<le> ar_start n" | "mergesWith r n" "interleaved r"
      by (auto simp: rng_compat_def rng_ok_def)
    then show ?thesis
    proof cases
      case 1
      then show ?thesis using starts by (auto simp: rng_compat_def intro: order_trans)
    next
      case 2
      then have "ar_end r = ar_end n" "interleaved n" by (auto simp: mergesWith_def interleaved_def)
      then show ?thesis
        using 2 z starts n(2) rz by (auto simp: rng_compat_def mergesWith_def rng_ok_def ar_less_def interleaved_def)
    qed
  qed
  then show ?thesis using n(1) by simp
qed

lemma compat_comparable:
  assumes "rng_compat r k" "rng_ok r" "rng_ok k"
  shows "ar_less k r \<or> ar_less r k"
proof (cases "ar_start r = ar_start k")
  case True
  then have "mergesWith r k" "interleaved r" "ar_match r \<noteq> ar_match k"
    using assms by (auto simp: rng_compat_def rng_ok_def)
  then show ?thesis by (auto simp: ar_less_def mergesWith_def interleaved_def)
next
  case False
  then show ?thesis by (auto simp: ar_less_def)
qed

lemma tree_insert_keys:
  assumes "\<And>k. k \<in> fst ` set t \<Longrightarrow> ar_less k r \<or> ar_less r k"
  shows "set (tree_insert r d t) = insert (r, d) (set t)"
  using assms by (induction t) auto

lemma tree_insert_inv:
  assumes "keys_inv (map fst t)" "rng_ok r" "\<And>k. k \<in> fst ` set t \<Longrightarrow> rng_compat r k"
  shows "keys_inv (map fst (tree_insert r d t))"
  using assms
proof (induction t)
  case Nil
  then show ?case by (simp add: keys_inv_def)
next
  case (Cons e t)
  have cmp: "ar_less k r \<or> ar_less r k" if "k \<in> fst ` set (e # t)" for k
  proof -
    have "rng_ok k" using that Cons.prems(1) by (auto simp: keys_inv_def)
    then show ?thesis using compat_comparable Cons.prems(2,3) that by blast
  qed
  show ?case
  proof (cases "ar_less (fst e) r")
    case True
    have "set (tree_insert r d t) = insert (r, d) (set t)"
      using cmp by (intro tree_insert_keys) auto
    then show ?thesis
      using True Cons compat_sym by (auto simp: keys_inv_Cons)
  next
    case False
    then have "ar_less r (fst e)" using cmp by auto
    then show ?thesis
      using False Cons.prems ar_less_trans by (auto simp: keys_inv_Cons)
  qed
qed

lemma arm_intersects_none:
  assumes "arm_inv mx m" "rng_ok r" "arm_intersects mx m r = Inr (None, m')"
  shows "\<forall>k \<in> set (arm_keys m). rng_compat r k"
proof -
  let ?B = "takeWhile (\<lambda>k. \<not> ar_less r k) (arm_keys m)"
  let ?A = "dropWhile (\<lambda>k. \<not> ar_less r k) (arm_keys m)"
  have inv: "keys_inv (?B @ ?A)" using assms(1) by (simp add: arm_inv_def)
  have A: "(case ?A of [] \<Rightarrow> Inr False | k # _ \<Rightarrow> ar_intersects r k) = Inr False"
    and B: "scan_back (ar_intersects r) (rev ?B) = Inr None"
    using assms(3)
    by (auto simp: arm_intersects_def arm_find_def bindR_Inr_iff Let_def split: option.splits if_splits)
  have "\<forall>k \<in> set ?A. rng_compat r k"
  proof (cases ?A)
    case (Cons n ns)
    then have "ar_less r n" by (metis hd_dropWhile list.distinct(1) list.sel(1))
    then show ?thesis
      using Cons A inv [unfolded keys_inv_append] assms(2) next_compat [of n ns r] by simp
  next
    case Nil
    show ?thesis unfolding Nil by simp
  qed
  moreover have "\<forall>k \<in> set (rev ?B). rng_compat r k"
  proof (rule scan_back_compat [OF B assms(2)])
    show "keys_inv (rev (rev ?B))" using inv [unfolded keys_inv_append] by simp
    show "ar_start x \<le> ar_start r" if "x \<in> set (rev ?B)" for x
      using set_takeWhileD [of x] that not_ar_less_start by auto
  qed
  ultimately show ?thesis
    by (metis Un_iff set_append set_rev takeWhile_dropWhile_id)
qed


lemma arm_insert_cases:
  assumes "arm_inv mx m" "arm_insert mx m r d = Inr (it, m')"
  obtains (end_it) "it = None" "arm_inv mx m'" "arm_tree m' = arm_tree m"
  | (new) m1 where "it = Some r" "arm_intersects mx m r = Inr (None, m1)" "arm_inv mx m1"
      "arm_tree m1 = arm_tree m" "m' = m1\<lparr>arm_tree := tree_insert r d (arm_tree m)\<rparr>"
proof -
  obtain i m1 where i: "arm_intersects mx m r = Inr (i, m1)"
    and m': "(if i \<noteq> None then Inr (None, m1)
              else Inr (Some r, m1\<lparr>arm_tree := tree_insert r d (arm_tree m1)\<rparr>)) = Inr (it, m')"
  proof (cases "arm_intersects mx m r")
    case (Inl e)
    then show ?thesis using assms(2) by (simp add: arm_insert_def)
  next
    case (Inr p)
    obtain i m1 where p: "p = (i, m1)" by (cases p)
    show ?thesis using assms(2) Inr p by (intro that [of i m1]) (simp_all add: arm_insert_def split: if_splits)
  qed
  have "arm_inv mx m1" "arm_tree m1 = arm_tree m"
    using arm_find_inv [OF assms(1)] i unfolding arm_intersects_def by blast+
  then show thesis using that i m' by (cases "i = None") auto
qed

lemma arm_insert_ok:
  assumes "arm_inv mx m" "rng_ok r" "arm_insert mx m r d = Inr (Some k, m')"
  shows "arm_inv mx m'" "k = r" "set (arm_tree m') = insert (r, d) (set (arm_tree m))"
    "\<forall>x \<in> set (arm_keys m). rng_compat r x"
proof -
  from assms(1,3) obtain m1 where m1: "k = r" "arm_intersects mx m r = Inr (None, m1)"
    "arm_inv mx m1" "arm_tree m1 = arm_tree m" "m' = m1\<lparr>arm_tree := tree_insert r d (arm_tree m)\<rparr>"
    by (rule arm_insert_cases) auto
  have comp: "\<forall>x \<in> set (arm_keys m). rng_compat r x"
    using arm_intersects_none [OF assms(1,2) m1(2)] .
  have inv: "keys_inv (map fst (arm_tree m))" using assms(1) by (simp add: arm_inv_def arm_keys_def)
  have "ar_less x r \<or> ar_less r x" if "x \<in> fst ` set (arm_tree m)" for x
    using that comp inv compat_comparable [OF _ assms(2)] by (force simp: arm_keys_def keys_inv_def)
  then have s: "set (tree_insert r d (arm_tree m)) = insert (r, d) (set (arm_tree m))"
    by (rule tree_insert_keys)
  moreover have "keys_inv (map fst (tree_insert r d (arm_tree m)))"
    using inv assms(2) comp by (intro tree_insert_inv) (auto simp: arm_keys_def)
  ultimately show "arm_inv mx m'"
    using m1 by (auto simp: arm_inv_def arm_keys_def)
  show "k = r" "set (arm_tree m') = insert (r, d) (set (arm_tree m))"
    "\<forall>x \<in> set (arm_keys m). rng_compat r x"
    using m1 s comp by auto
qed

lemma arm_insert_end:
  assumes "arm_inv mx m" "arm_insert mx m r d = Inr (None, m')"
  shows "arm_inv mx m'" "arm_tree m' = arm_tree m"
  using assms by (auto elim: arm_insert_cases)

lemma keys_inv_filter: "keys_inv (map fst t) \<Longrightarrow> keys_inv (map fst (filter P t))"
  by (induction t) (auto simp: keys_inv_Cons)

lemma arm_erase_inv:
  assumes "arm_inv mx m"
  shows "arm_inv mx (arm_erase m p)" "set (arm_tree (arm_erase m p)) = {e \<in> set (arm_tree m). fst e \<noteq> p}"
proof -
  have "length (filter (\<lambda>c. c \<noteq> p) (arm_cache m)) \<le> mx"
    using assms by (meson arm_inv_def le_trans length_filter_le)
  then show "arm_inv mx (arm_erase m p)"
    using assms keys_inv_filter by (auto simp: arm_inv_def arm_erase_def arm_keys_def)
  show "set (arm_tree (arm_erase m p)) = {e \<in> set (arm_tree m). fst e \<noteq> p}"
    by (auto simp: arm_erase_def)
qed

section \<open>The decoder as an interface\<close>

text \<open>
  What the users of the map rely on: the entries never overlap, an insertion that returns an
  iterator adds exactly one entry, one that returns \<^verbatim>\<open>end()\<close> adds none, and erasing
  removes one entry. \<open>routes\<close> is the address decoding a set of entries stands for.
\<close>

definition routes :: "(addr_range \<times> 'v) list \<Rightarrow> addr \<Rightarrow> 'v \<Rightarrow> bool" where
  "routes es a v \<longleftrightarrow> (\<exists>k. (k, v) \<in> set es \<and> ar_contains k a)"

fun insert_ranges ::
    "('m \<Rightarrow> addr_range \<Rightarrow> 'v \<Rightarrow> (addr_range option \<times> 'm) result) \<Rightarrow> 'v \<Rightarrow> addr_range list \<Rightarrow> 'm \<Rightarrow> 'm result" where
  "insert_ranges ins d [] m = Inr m"
| "insert_ranges ins d (r # rs) m =
     bindR (ins m r d) (\<lambda>(it, m). guardR (it \<noteq> None) Fatal_Error (insert_ranges ins d rs m))"

fun erase_entries ::
    "('m \<Rightarrow> addr_range \<Rightarrow> 'm) \<Rightarrow> 'v \<Rightarrow> (addr_range \<times> 'v) list \<Rightarrow> 'm \<Rightarrow> 'm" where
  "erase_entries er d [] m = m"
| "erase_entries er d (e # es) m = erase_entries er d es (if snd e = d then er m (fst e) else m)"

locale range_table =
  fixes inv :: "'m \<Rightarrow> bool"
    and entries :: "'m \<Rightarrow> (addr_range \<times> 'v) list"
    and ok :: "addr_range \<Rightarrow> bool"
    and ins :: "'m \<Rightarrow> addr_range \<Rightarrow> 'v \<Rightarrow> (addr_range option \<times> 'm) result"
    and er :: "'m \<Rightarrow> addr_range \<Rightarrow> 'm"
  assumes disjoint: "\<lbrakk>inv m; e \<in> set (entries m); e' \<in> set (entries m);
      ar_contains (fst e) a; ar_contains (fst e') a\<rbrakk> \<Longrightarrow> e = e'"
    and one_key: "\<lbrakk>inv m; (k, v) \<in> set (entries m); (k, w) \<in> set (entries m)\<rbrakk> \<Longrightarrow> v = w"
    and ins_some: "\<lbrakk>inv m; ok r; ins m r d = Inr (Some k, m')\<rbrakk> \<Longrightarrow>
      inv m' \<and> set (entries m') = insert (r, d) (set (entries m))"
    and ins_none: "\<lbrakk>inv m; ins m r d = Inr (None, m')\<rbrakk> \<Longrightarrow> inv m' \<and> entries m' = entries m"
    and er_one: "inv m \<Longrightarrow> inv (er m k) \<and> set (entries (er m k)) = {e \<in> set (entries m). fst e \<noteq> k}"
begin

lemma routes_unique: "inv m \<Longrightarrow> routes (entries m) a v \<Longrightarrow> routes (entries m) a w \<Longrightarrow> v = w"
  using disjoint by (fastforce simp: routes_def)

lemma insert_ranges_entries:
  assumes "inv m" "\<forall>r \<in> set rs. ok r" "insert_ranges ins d rs m = Inr m'"
  shows "inv m' \<and> set (entries m') = set (entries m) \<union> (\<lambda>r. (r, d)) ` set rs"
  using assms
proof (induction rs arbitrary: m)
  case (Cons r rs)
  from Cons.prems(3) obtain k m1 where k: "ins m r d = Inr (Some k, m1)" "insert_ranges ins d rs m1 = Inr m'"
    by (auto simp: bindR_Inr_iff)
  then show ?case using ins_some [OF Cons.prems(1) _ k(1)] Cons by auto
qed auto

lemma erase_entries_entries:
  assumes "inv m" "\<forall>e \<in> set (entries m). snd e = d \<longrightarrow> e \<in> set es"
    "\<forall>e \<in> set es. \<forall>e' \<in> set (entries m). snd e = d \<longrightarrow> fst e' = fst e \<longrightarrow> snd e' = d"
  shows "inv (erase_entries er d es m) \<and>
    set (entries (erase_entries er d es m)) = {e \<in> set (entries m). snd e \<noteq> d}"
  using assms
proof (induction es arbitrary: m)
  case Nil
  then show ?case by auto
next
  case (Cons e es)
  show ?case
  proof (cases "snd e = d")
    case True
    let ?m = "er m (fst e)"
    have m: "inv ?m" "set (entries ?m) = {x \<in> set (entries m). fst x \<noteq> fst e}"
      using er_one Cons.prems(1) by auto
    have "inv (erase_entries er d es ?m) \<and>
      set (entries (erase_entries er d es ?m)) = {e \<in> set (entries ?m). snd e \<noteq> d}"
    proof (rule Cons.IH [OF m(1)])
      show "\<forall>x \<in> set (entries ?m). snd x = d \<longrightarrow> x \<in> set es"
        using Cons.prems(2) unfolding m(2) by auto
      show "\<forall>x \<in> set es. \<forall>e' \<in> set (entries ?m). snd x = d \<longrightarrow> fst e' = fst x \<longrightarrow> snd e' = d"
      proof (intro ballI impI)
        fix x e'
        assume "x \<in> set es" "e' \<in> set (entries ?m)" "snd x = d" "fst e' = fst x"
        moreover from this have "e' \<in> set (entries m)" unfolding m(2) by blast
        ultimately show "snd e' = d" using bspec [OF bspec [OF Cons.prems(3), of x]] by simp
      qed
    qed
    moreover have "{x \<in> set (entries ?m). snd x \<noteq> d} = {x \<in> set (entries m). snd x \<noteq> d}"
    proof -
      have "\<forall>x \<in> set (entries m). fst x = fst e \<longrightarrow> snd x = d" using Cons.prems(3) True by simp
      then show ?thesis unfolding m(2) by blast
    qed
    ultimately show ?thesis using True by simp
  next
    case False
    then have "inv (erase_entries er d es m) \<and>
      set (entries (erase_entries er d es m)) = {e \<in> set (entries m). snd e \<noteq> d}"
      using Cons.prems by (intro Cons.IH) auto
    then show ?thesis using False by simp
  qed
qed

lemma replace_ranges:
  assumes "inv m" "\<forall>r \<in> set rs. ok r"
    "insert_ranges ins d rs (erase_entries er d (entries m) m) = Inr m'"
  shows "inv m' \<and> (\<forall>a v. routes (entries m') a v \<longleftrightarrow>
    (if v = d then \<exists>r \<in> set rs. ar_contains r a else routes (entries m) a v))"
proof -
  let ?m = "erase_entries er d (entries m) m"
  have e: "inv ?m \<and> set (entries ?m) = {e \<in> set (entries m). snd e \<noteq> d}"
  proof (rule erase_entries_entries [OF assms(1)])
    show "\<forall>e \<in> set (entries m). \<forall>e' \<in> set (entries m). snd e = d \<longrightarrow> fst e' = fst e \<longrightarrow> snd e' = d"
      using one_key [OF assms(1)] by (metis prod.collapse)
  qed simp
  have "inv m' \<and> set (entries m') = set (entries ?m) \<union> (\<lambda>r. (r, d)) ` set rs"
    using insert_ranges_entries e assms(2,3) by blast
  then show ?thesis using e by (auto simp: routes_def)
qed

end

lemma arm_disjoint_entries:
  assumes "arm_inv mx m" "e \<in> set (arm_tree m)" "e' \<in> set (arm_tree m)"
    "ar_contains (fst e) a" "ar_contains (fst e') a"
  shows "e = e'"
proof -
  have inv: "keys_inv (arm_keys m)" using assms(1) by (simp add: arm_inv_def)
  then have "fst e = fst e'" using decode_unique assms by (auto simp: arm_keys_def)
  moreover have "distinct (map fst (arm_tree m))" using keys_inv_distinct [OF inv] by (simp add: arm_keys_def)
  ultimately show ?thesis using assms by (metis eq_key_imp_eq_value prod.collapse)
qed

lemma arm_one_key:
  assumes "arm_inv mx m" "(k, v) \<in> set (arm_tree m)" "(k, w) \<in> set (arm_tree m)"
  shows "v = w"
proof -
  have "distinct (map fst (arm_tree m))"
    using keys_inv_distinct assms(1) by (auto simp: arm_inv_def arm_keys_def)
  then show ?thesis using assms eq_key_imp_eq_value by metis
qed

interpretation arm: range_table "arm_inv mx" arm_tree rng_ok "arm_insert mx" arm_erase
proof unfold_locales
  show "v = w" if "arm_inv mx m" "(k, v) \<in> set (arm_tree m)" "(k, w) \<in> set (arm_tree m)"
    for m :: "'a arm" and k v w using arm_one_key that .
  show "e = e'" if "arm_inv mx m" "e \<in> set (arm_tree m)" "e' \<in> set (arm_tree m)"
      "ar_contains (fst e) a" "ar_contains (fst e') a"
    for m :: "'a arm" and e e' a using arm_disjoint_entries that .
  show "arm_inv mx m' \<and> set (arm_tree m') = insert (r, d) (set (arm_tree m))"
    if "arm_inv mx m" "rng_ok r" "arm_insert mx m r d = Inr (Some k, m')"
    for m m' :: "'a arm" and r d k using arm_insert_ok(1,3) [OF that] by simp
  show "arm_inv mx m' \<and> arm_tree m' = arm_tree m"
    if "arm_inv mx m" "arm_insert mx m r d = Inr (None, m')"
    for m m' :: "'a arm" and r d using arm_insert_end [OF that] by simp
  show "arm_inv mx (arm_erase m k) \<and> set (arm_tree (arm_erase m k)) = {e \<in> set (arm_tree m). fst e \<noteq> k}"
    if "arm_inv mx m" for m :: "'a arm" and k using arm_erase_inv [OF that] by simp
qed



section \<open>Two corner cases\<close>

text \<open>Erasing an iterator range removes only its first iterator from the cache: a later lookup
  returns an entry that is no longer in the tree.\<close>

lemma erase_range_leaves_dangling:
  "arm_contains_addr 2 (arm_erase_range
       \<lparr>arm_tree = [(RangeEx 0x100 0x200, 1 :: nat), (RangeEx 0x200 0x300, 2)],
        arm_cache = [RangeEx 0x200 0x300]\<rparr> (Some (RangeEx 0x100 0x200)) None) 0x240
   = Inr (Some (RangeEx 0x200 0x300), \<lparr>arm_tree = [], arm_cache = [RangeEx 0x200 0x300]\<rparr>)"
  by code_simp

text \<open>A one-byte range inserted in the hole of a stripe that is inserted after it hides the
  addresses of the stripe above it.\<close>

lemma byte_in_hole_hides_stripe:
  "arm_insert 0 \<lparr>arm_tree = [(RangeSize 0x40 1, 1 :: nat)], arm_cache = []\<rparr>
       \<lparr>ar_start = 0, ar_end = 0x100, ar_masks = [0x40], ar_match = 0\<rparr> 2
   = Inr (Some \<lparr>ar_start = 0, ar_end = 0x100, ar_masks = [0x40], ar_match = 0\<rparr>,
       \<lparr>arm_tree = [(\<lparr>ar_start = 0, ar_end = 0x100, ar_masks = [0x40], ar_match = 0\<rparr>, 2), (RangeSize 0x40 1, 1)],
        arm_cache = []\<rparr>) \<and>
   ar_contains \<lparr>ar_start = 0, ar_end = 0x100, ar_masks = [0x40], ar_match = 0\<rparr> 0x80 \<and>
   arm_contains_addr 0
       \<lparr>arm_tree = [(\<lparr>ar_start = 0, ar_end = 0x100, ar_masks = [0x40], ar_match = 0\<rparr>, 2 :: nat), (RangeSize 0x40 1, 1)],
        arm_cache = []\<rparr> 0x80
   = Inr (None, \<lparr>arm_tree = [(\<lparr>ar_start = 0, ar_end = 0x100, ar_masks = [0x40], ar_match = 0\<rparr>, 2), (RangeSize 0x40 1, 1)],
        arm_cache = []\<rparr>)"
  by code_simp
end
