(* ===== verification/Xbar.thy ===== *)
theory Xbar
  imports Addr_Range_Map
begin

text \<open>
  \<^verbatim>\<open>src/gem5/src/mem/xbar.cc\<close>: the crossbar base class. The first half is address
  routing (\<^verbatim>\<open>findPort\<close>, \<^verbatim>\<open>recvRangeChange\<close>, \<^verbatim>\<open>getAddrRanges\<close>) on
  top of the address decoder, whose interface \<open>range_table\<close> carries the proofs. The second
  half is \<^verbatim>\<open>BaseXBar::Layer\<close>, the arbitration state machine of one destination port,
  as step functions and a step relation. The ranges a port reports and the reaction of a
  port to a retry come from other objects of the simulation and are arguments.
\<close>

section \<open>Routing: definitions\<close>

type_synonym port_id = int

definition InvalidPortID :: port_id where
  "InvalidPortID = -1"

record xbar =
  portMap :: "port_id arm"
  gotAddrRanges :: "bool list"
  gotAllAddrRanges :: bool
  defaultPortID :: port_id
  useDefaultRange :: bool
  defaultRange :: addr_range
  xbarRanges :: "addr_range list"

definition findPort :: "xbar \<Rightarrow> addr_range \<Rightarrow> (port_id \<times> xbar) result" where
  "findPort x r =
     guardR (gotAllAddrRanges x) Assert_Failed
     (bindR (arm_contains 3 (portMap x) r) (\<lambda>(it, pm).
        let x = x\<lparr>portMap := pm\<rparr> in
        case it of
          Some k \<Rightarrow> Inr (the (map_of (arm_tree pm) k), x)
        | None \<Rightarrow>
            if useDefaultRange x
            then bindR (isSubset r (defaultRange x)) (\<lambda>b.
                   if b then Inr (defaultPortID x, x) else Inl Fatal_Error)
            else if defaultPortID x \<noteq> InvalidPortID then Inr (defaultPortID x, x)
            else Inl Fatal_Error))"

definition keep_range :: "xbar \<Rightarrow> addr_range \<Rightarrow> bool result" where
  "keep_range x r =
     (if useDefaultRange x then bindR (isSubset r (defaultRange x)) (\<lambda>b. Inr (\<not> b)) else Inr True)"

definition flush_intlv :: "xbar \<Rightarrow> addr_range list \<Rightarrow> addr_range list \<Rightarrow> addr_range list result" where
  "flush_intlv x intlv_ranges acc =
     bindR (AddrRange_merge intlv_ranges) (\<lambda>merged_range.
       bindR (keep_range x merged_range) (\<lambda>b. Inr (if b then acc @ [merged_range] else acc)))"

fun aggregate :: "xbar \<Rightarrow> addr_range list \<Rightarrow> addr_range list \<Rightarrow> addr_range list \<Rightarrow> addr_range list result" where
  "aggregate x [] intlv_ranges acc =
     (if intlv_ranges \<noteq> [] then flush_intlv x intlv_ranges acc else Inr acc)"
| "aggregate x (r # rs) intlv_ranges acc =
     (if interleaved r
      then if intlv_ranges \<noteq> [] \<and> \<not> mergesWith (last intlv_ranges) r
           then bindR (flush_intlv x intlv_ranges acc) (\<lambda>acc. aggregate x rs [r] acc)
           else aggregate x rs (intlv_ranges @ [r]) acc
      else bindR (keep_range x r) (\<lambda>b. aggregate x rs intlv_ranges (if b then acc @ [r] else acc)))"

fun check_default :: "addr_range \<Rightarrow> addr_range list \<Rightarrow> unit result" where
  "check_default d [] = Inr ()"
| "check_default d (r # rs) =
     bindR (ar_intersects r d) (\<lambda>i.
       if i then bindR (isSubset r d) (\<lambda>s. guardR s Fatal_Error (check_default d rs))
       else check_default d rs)"

definition update_ports :: "xbar \<Rightarrow> port_id \<Rightarrow> addr_range list \<Rightarrow> xbar result" where
  "update_ports x port ranges =
     (if port = defaultPortID x
      then if useDefaultRange x
           then (case ranges of [r] \<Rightarrow> Inr (x\<lparr>defaultRange := r\<rparr>) | _ \<Rightarrow> Inl Fatal_Error)
           else Inr x
      else let pm = (if gotAddrRanges x ! nat port
                     then erase_entries arm_erase port (arm_tree (portMap x)) (portMap x)
                     else portMap x)
           in bindR (insert_ranges (arm_insert 3) port ranges pm) (\<lambda>pm. Inr (x\<lparr>portMap := pm\<rparr>)))"

definition aggregate_ranges :: "xbar \<Rightarrow> xbar result" where
  "aggregate_ranges x =
     (let fetch = (if useDefaultRange x
                   then guardR (0 \<le> defaultPortID x \<and> nat (defaultPortID x) < length (gotAddrRanges x)) Out_Of_Range
                          (guardR (gotAddrRanges x ! nat (defaultPortID x)) Fatal_Error (Inr [defaultRange x]))
                   else Inr [])
      in bindR fetch (\<lambda>init.
         bindR (aggregate x (arm_keys (portMap x)) [] init) (\<lambda>rs.
         bindR (if useDefaultRange x then check_default (defaultRange x) rs else Inr ()) (\<lambda>_.
           Inr (x\<lparr>xbarRanges := rs\<rparr>)))))"

definition recvRangeChange :: "xbar \<Rightarrow> port_id \<Rightarrow> addr_range list \<Rightarrow> xbar result" where
  "recvRangeChange x port ranges =
     guardR (0 \<le> port \<and> nat port < length (gotAddrRanges x)) Out_Of_Range
     (let x = x\<lparr>gotAddrRanges := (gotAddrRanges x)[nat port := True]\<rparr>;
          x = (if \<not> gotAllAddrRanges x
               then x\<lparr>gotAllAddrRanges := list_all (\<lambda>b. b) (gotAddrRanges x)\<rparr> else x)
      in bindR (update_ports x port ranges) (\<lambda>x.
           if gotAllAddrRanges x then aggregate_ranges x else Inr x))"

definition getAddrRanges :: "xbar \<Rightarrow> addr_range list result" where
  "getAddrRanges x = guardR (gotAllAddrRanges x) Assert_Failed (Inr (xbarRanges x))"

section \<open>Routing: correctness\<close>

definition xbar_inv :: "xbar \<Rightarrow> bool" where
  "xbar_inv x \<longleftrightarrow> arm_inv 3 (portMap x)"

lemma map_of_arm_tree:
  assumes "arm_inv mx m" "k \<in> set (arm_keys m)"
  shows "(k, the (map_of (arm_tree m) k)) \<in> set (arm_tree m)"
proof -
  have "map_of (arm_tree m) k \<noteq> None" using assms(2) by (auto simp: arm_keys_def map_of_eq_None_iff)
  then show ?thesis using map_of_SomeD by fastforce
qed

definition ex_xbar :: xbar where
  "ex_xbar = \<lparr>portMap = \<lparr>arm_tree =
       [(\<lparr>ar_start = 0, ar_end = 0x1000, ar_masks = [0x40], ar_match = 0\<rparr>, 0),
        (\<lparr>ar_start = 0, ar_end = 0x1000, ar_masks = [0x40], ar_match = 1\<rparr>, 1)], arm_cache = []\<rparr>,
     gotAddrRanges = [True, True, False], gotAllAddrRanges = True, defaultPortID = -1,
     useDefaultRange = False, defaultRange = AddrRange_default, xbarRanges = []\<rparr>"

text \<open>C12: for a plain packet range \<^verbatim>\<open>findPort\<close> finds the right port. Once every port has
  reported its ranges, a packet that an entry covers is sent to the one port every address of
  the packet is routed to; a packet no entry covers goes to the default port when there is one
  (within the default range when the crossbar uses one) and is a fatal error otherwise; and the
  routing entries are left as they were.\<close>

theorem findPort_routes:
  assumes "xbar_inv x" "\<not> interleaved r" "ar_start r < ar_end r" "gotAllAddrRanges x"
  shows "if \<exists>k \<in> set (arm_keys (portMap x)). isSubset r k = Inr True
    then \<exists>p x'. findPort x r = Inr (p, x') \<and> xbar_inv x' \<and> arm_tree (portMap x') = arm_tree (portMap x) \<and>
      (\<forall>a. ar_contains r a \<longrightarrow> (\<forall>q. routes (arm_tree (portMap x)) a q \<longleftrightarrow> q = p))
    else if (if useDefaultRange x then isSubset r (defaultRange x) = Inr True else defaultPortID x \<noteq> InvalidPortID)
    then \<exists>x'. findPort x r = Inr (defaultPortID x, x') \<and> xbar_inv x' \<and> arm_tree (portMap x') = arm_tree (portMap x)
    else findPort x r = Inl Fatal_Error"
proof -
  let ?m = "portMap x" and ?P = "\<lambda>k. isSubset r k = Inr True"
  have inv: "arm_inv 3 ?m" using assms(1) by (simp add: xbar_inv_def)
  obtain m' where m': "arm_contains 3 ?m r = Inr (find ?P (arm_keys ?m), m')"
    "arm_inv 3 m'" "arm_tree m' = arm_tree ?m"
    using arm_contains_correct [OF inv assms(2,3)] by blast
  show ?thesis
  proof (cases "find ?P (arm_keys ?m)")
    case None
    then have no: "\<not> (\<exists>k \<in> set (arm_keys ?m). ?P k)" by (auto simp: find_None_iff)
    obtain b where "isSubset r (defaultRange x) = Inr b" using isSubset_total [OF assms(2)] by blast
    then show ?thesis
      unfolding if_not_P [OF no] using assms(4) m' None by (auto simp: findPort_def Let_def xbar_inv_def)
  next
    case (Some k)
    then have k: "k \<in> set (arm_keys ?m)" "?P k" by (auto simp: find_Some_iff)
    let ?p = "the (map_of (arm_tree ?m) k)"
    have f: "findPort x r = Inr (?p, x\<lparr>portMap := m'\<rparr>)"
      using assms(4) m' Some by (simp add: findPort_def Let_def)
    have "ar_contains k a" if "ar_contains r a" for a
      using isSubset_contains [OF k(2) that] inv k(1) by (auto simp: arm_inv_def keys_inv_def rng_ok_def)
    then have rt: "routes (arm_tree ?m) a ?p" if "ar_contains r a" for a
      using that map_of_arm_tree [OF inv k(1)] by (auto simp: routes_def)
    have "\<exists>k \<in> set (arm_keys ?m). ?P k" using k by blast
    moreover have "\<exists>p x'. findPort x r = Inr (p, x') \<and> xbar_inv x' \<and> arm_tree (portMap x') = arm_tree ?m \<and>
      (\<forall>a. ar_contains r a \<longrightarrow> (\<forall>q. routes (arm_tree ?m) a q \<longleftrightarrow> q = p))"
      using f m' rt arm.routes_unique [OF inv] by (intro exI [of _ ?p] exI [of _ "x\<lparr>portMap := m'\<rparr>"]) (auto simp: xbar_inv_def)
    ultimately show ?thesis by simp
  qed
qed

theorem findPort_routes_witness:
  "\<exists>p x'. findPort ex_xbar (RangeSize 0xC0 0x40) = Inr (p, x') \<and> routes (arm_tree (portMap ex_xbar)) 0xC4 p \<and>
     \<not> routes (arm_tree (portMap ex_xbar)) 0xC4 (p + 1)"
proof -
  let ?r = "RangeSize 0xC0 0x40"
  have h: "xbar_inv ex_xbar" "\<not> interleaved ?r" "ar_start ?r < ar_end ?r"
    "gotAllAddrRanges ex_xbar" "ar_contains ?r 0xC4"
    "list_ex (\<lambda>k. isSubset ?r k = Inr True) (arm_keys (portMap ex_xbar))" by code_simp+
  from h(6) have "\<exists>k \<in> set (arm_keys (portMap ex_xbar)). isSubset ?r k = Inr True"
    by (simp add: list_ex_iff)
  then obtain p x' where "findPort ex_xbar ?r = Inr (p, x')"
    "\<forall>a. ar_contains ?r a \<longrightarrow> (\<forall>q. routes (arm_tree (portMap ex_xbar)) a q \<longleftrightarrow> q = p)"
    using findPort_routes [OF h(1-4)] by auto
  then show ?thesis using h(5) by auto
qed

lemma update_ports_frame:
  "update_ports x port ranges = Inr x' \<Longrightarrow> gotAllAddrRanges x' = gotAllAddrRanges x \<and>
     gotAddrRanges x' = gotAddrRanges x \<and> useDefaultRange x' = useDefaultRange x \<and>
     defaultPortID x' = defaultPortID x"
  by (auto simp: update_ports_def bindR_Inr_iff Let_def split: if_splits list.splits)

lemma aggregate_ranges_frame:
  "aggregate_ranges x = Inr x' \<Longrightarrow> \<exists>rs. x' = x\<lparr>xbarRanges := rs\<rparr>"
  by (auto simp: aggregate_ranges_def bindR_Inr_iff Let_def)

lemma recvRangeChange_cases:
  assumes "recvRangeChange x port ranges = Inr x'"
  obtains x1 x2 where "nat port < length (gotAddrRanges x)" "portMap x1 = portMap x"
    "defaultPortID x1 = defaultPortID x" "useDefaultRange x1 = useDefaultRange x"
    "gotAddrRanges x1 ! nat port" "update_ports x1 port ranges = Inr x2"
    "if gotAllAddrRanges x2 then aggregate_ranges x2 = Inr x' else x' = x2"
proof -
  let ?x = "x\<lparr>gotAddrRanges := (gotAddrRanges x)[nat port := True]\<rparr>"
  let ?x1 = "if \<not> gotAllAddrRanges ?x
               then ?x\<lparr>gotAllAddrRanges := list_all (\<lambda>b. b) (gotAddrRanges ?x)\<rparr> else ?x"
  have "nat port < length (gotAddrRanges x)"
    and "bindR (update_ports ?x1 port ranges) (\<lambda>x. if gotAllAddrRanges x then aggregate_ranges x else Inr x) = Inr x'"
    using assms unfolding recvRangeChange_def guardR_Inr_iff Let_def by blast+
  then obtain x2 where "update_ports ?x1 port ranges = Inr x2"
    "if gotAllAddrRanges x2 then aggregate_ranges x2 = Inr x' else x' = x2"
    unfolding bindR_Inr_iff by (metis sum.inject(2))
  then show thesis using \<open>nat port < _\<close> by (intro that [of ?x1 x2]) auto
qed

text \<open>when a port other than the default one reports new ranges and the crossbar accepts
  them, its previous routes are gone, the addresses of the new ranges are routed to it, every
  other route is unchanged, and the decoder stays well-formed.\<close>

lemma recvRangeChange_routes:
  assumes "xbar_inv x" "recvRangeChange x port ranges = Inr x'" "port \<noteq> defaultPortID x"
    "\<forall>r \<in> set ranges. rng_ok r"
  shows "xbar_inv x' \<and> (\<forall>a q. routes (arm_tree (portMap x')) a q \<longleftrightarrow>
    (if q = port then \<exists>r \<in> set ranges. ar_contains r a else routes (arm_tree (portMap x)) a q))"
proof -
  from assms(2) obtain x1 x2 where x: "portMap x1 = portMap x" "defaultPortID x1 = defaultPortID x"
    "gotAddrRanges x1 ! nat port" "update_ports x1 port ranges = Inr x2"
    "if gotAllAddrRanges x2 then aggregate_ranges x2 = Inr x' else x' = x2"
    by (rule recvRangeChange_cases)
  then have pm: "portMap x' = portMap x2"
    using aggregate_ranges_frame [of x2 x'] by (auto split: if_splits)
  have "insert_ranges (arm_insert 3) port ranges
      (erase_entries arm_erase port (arm_tree (portMap x)) (portMap x)) = Inr (portMap x2)"
    using x assms(3) by (auto simp: update_ports_def bindR_Inr_iff)
  then show ?thesis
    using arm.replace_ranges [of 3 "portMap x" ranges port "portMap x2"] assms(1,4) pm
    by (simp add: xbar_inv_def)
qed

lemma recvRangeChange_routes_witness:
  "\<exists>x'. recvRangeChange ex_xbar 2 [RangeEx 0x2000 0x3000] = Inr x' \<and>
     routes (arm_tree (portMap x')) 0x2400 2 \<and>
     (routes (arm_tree (portMap x')) 0x40 1 \<longleftrightarrow> routes (arm_tree (portMap ex_xbar)) 0x40 1)"
proof -
  have "(case recvRangeChange ex_xbar 2 [RangeEx 0x2000 0x3000] of Inl _ \<Rightarrow> False | Inr _ \<Rightarrow> True)"
    by code_simp
  then obtain x' where x': "recvRangeChange ex_xbar 2 [RangeEx 0x2000 0x3000] = Inr x'"
    by (auto split: sum.splits)
  have h: "xbar_inv ex_xbar" "(2 :: int) \<noteq> defaultPortID ex_xbar" "\<forall>r \<in> set [RangeEx 0x2000 0x3000]. rng_ok r"
    "\<exists>r \<in> set [RangeEx 0x2000 0x3000]. ar_contains r 0x2400" by code_simp+
  show ?thesis using recvRangeChange_routes [OF h(1) x' h(2,3)] x' h(4) by auto
qed

definition default_ok :: "xbar \<Rightarrow> bool" where
  "default_ok x \<longleftrightarrow> (useDefaultRange x \<longrightarrow> rng_ok (defaultRange x))"

definition in_default :: "xbar \<Rightarrow> addr \<Rightarrow> bool" where
  "in_default x a \<longleftrightarrow> useDefaultRange x \<and> ar_contains (defaultRange x) a"

definition covered :: "addr_range list \<Rightarrow> addr \<Rightarrow> bool" where
  "covered rs a \<longleftrightarrow> (\<exists>r \<in> set rs. ar_contains r a)"

lemma covered_simps [simp]:
  "\<not> covered [] a"
  "covered (r # rs) a \<longleftrightarrow> ar_contains r a \<or> covered rs a"
  "covered (rs @ qs) a \<longleftrightarrow> covered rs a \<or> covered qs a"
  by (auto simp: covered_def)

lemma keep_range_covered:
  assumes "default_ok x" "keep_range x r = Inr b"
  shows "covered (if b then acc @ [r] else acc) a \<or> in_default x a \<longleftrightarrow>
    covered acc a \<or> ar_contains r a \<or> in_default x a"
proof (cases b)
  case True
  then show ?thesis by auto
next
  case False
  then have "useDefaultRange x" "isSubset r (defaultRange x) = Inr True"
    using assms(2) by (auto simp: keep_range_def bindR_Inr_iff split: if_splits)
  then have "in_default x a" if "ar_contains r a"
    using assms(1) isSubset_contains [OF _ that] by (auto simp: default_ok_def in_default_def rng_ok_def)
  then show ?thesis using False by auto
qed

lemma merge_covered:
  assumes "AddrRange_merge rs = Inr m" "rs \<noteq> []" "\<forall>r \<in> set rs. rng_ok r"
  shows "ar_contains m a \<longleftrightarrow> covered rs a"
proof (cases "length rs > 1")
  case True
  moreover have "length (ar_masks (hd rs)) \<le> 8" using assms(2,3) by (simp add: rng_ok_def)
  ultimately show ?thesis using merge_contains [OF assms(1)] by (auto simp: covered_def)
next
  case False
  then obtain r where "rs = [r]" using assms(2) by (cases rs) auto
  then show ?thesis using assms(1) by (simp add: AddrRange_merge_def)
qed

lemma flush_covered:
  assumes "default_ok x" "flush_intlv x rs acc = Inr out" "rs \<noteq> []" "\<forall>r \<in> set rs. rng_ok r"
  shows "covered out a \<or> in_default x a \<longleftrightarrow> covered acc a \<or> covered rs a \<or> in_default x a"
proof -
  obtain m b where m: "AddrRange_merge rs = Inr m" "keep_range x m = Inr b"
    "out = (if b then acc @ [m] else acc)"
    using assms(2) by (auto simp: flush_intlv_def bindR_Inr_iff)
  then show ?thesis
    using keep_range_covered [OF assms(1) m(2), of acc a] merge_covered [OF m(1) assms(3,4)] by simp
qed

lemma aggregate_covered:
  assumes "default_ok x" "aggregate x ks rs acc = Inr out" "\<forall>r \<in> set (ks @ rs). rng_ok r"
  shows "covered out a \<or> in_default x a \<longleftrightarrow>
    covered acc a \<or> covered rs a \<or> covered ks a \<or> in_default x a"
  using assms(2,3)
proof (induction ks arbitrary: rs acc)
  case Nil
  then show ?case using flush_covered [OF assms(1)] by (cases "rs = []") auto
next
  case (Cons k ks)
  consider (flush) acc' where "interleaved k" "rs \<noteq> []" "flush_intlv x rs acc = Inr acc'"
      "aggregate x ks [k] acc' = Inr out"
    | (add) "aggregate x ks (rs @ [k]) acc = Inr out"
    | (plain) b where "keep_range x k = Inr b" "aggregate x ks rs (if b then acc @ [k] else acc) = Inr out"
    using Cons.prems(1) by (auto simp: bindR_Inr_iff split: if_splits)
  then show ?case
  proof cases
    case flush
    then show ?thesis
      using Cons.IH [OF flush(4)] flush_covered [OF assms(1) flush(3,2)] Cons.prems(2) by auto
  next
    case add
    then show ?thesis using Cons.IH [OF add] Cons.prems(2) by auto
  next
    case plain
    then show ?thesis
      using Cons.IH [OF plain(2)] keep_range_covered [OF assms(1) plain(1), of acc a] Cons.prems(2) by auto
  qed
qed

lemma routes_covered: "(\<exists>q. routes (arm_tree m) a q) \<longleftrightarrow> covered (arm_keys m) a"
  by (force simp: routes_def covered_def arm_keys_def)

text \<open>once every port has reported, the list of ranges the crossbar reports upstream covers
  exactly the addresses it can route: those with a routing entry, and the default range when
  it uses one. Merging stripes and dropping ranges inside the default range lose nothing.\<close>

lemma aggregate_ranges_exact:
  assumes "xbar_inv x" "default_ok x" "aggregate_ranges x = Inr x'"
  shows "(\<exists>r \<in> set (xbarRanges x'). ar_contains r a) \<longleftrightarrow>
    (\<exists>q. routes (arm_tree (portMap x)) a q) \<or> (useDefaultRange x \<and> ar_contains (defaultRange x) a)"
proof -
  obtain init where init: "init = (if useDefaultRange x then [defaultRange x] else [])"
    and agg: "aggregate x (arm_keys (portMap x)) [] init = Inr (xbarRanges x')"
    using assms(3) by (auto simp: aggregate_ranges_def bindR_Inr_iff Let_def split: if_splits)
  have ok: "\<forall>r \<in> set (arm_keys (portMap x) @ []). rng_ok r"
    using assms(1) by (auto simp: xbar_inv_def arm_inv_def keys_inv_def)
  have "covered (xbarRanges x') a \<or> in_default x a \<longleftrightarrow> covered init a \<or> covered (arm_keys (portMap x)) a \<or> in_default x a"
    using aggregate_covered [OF assms(2) agg ok, of a] by simp
  moreover have "set init \<subseteq> set (xbarRanges x')"
  proof -
    have flush: "flush_intlv x rs acc = Inr out \<Longrightarrow> set acc \<subseteq> set out" for rs acc out
      by (auto simp: flush_intlv_def bindR_Inr_iff split: if_splits)
    have "aggregate x ks rs acc = Inr out \<Longrightarrow> set acc \<subseteq> set out" for ks rs acc out
      by (induction ks arbitrary: rs acc)
        (auto simp: bindR_Inr_iff split: if_splits dest!: flush, (fastforce dest: flush)+)
    then show ?thesis using agg by blast
  qed
  ultimately show ?thesis
    unfolding routes_covered in_default_def init covered_def by (auto split: if_splits)
qed

lemma aggregate_ranges_exact_witness:
  "\<exists>x'. aggregate_ranges ex_xbar = Inr x' \<and> xbarRanges x' = [RangeEx 0 0x1000] \<and>
     ((\<exists>r \<in> set (xbarRanges x'). ar_contains r 0x47) \<longleftrightarrow> (\<exists>q. routes (arm_tree (portMap ex_xbar)) 0x47 q))"
proof -
  let ?x = "ex_xbar\<lparr>xbarRanges := [RangeEx 0 0x1000]\<rparr>"
  have h: "xbar_inv ex_xbar" "default_ok ex_xbar" "aggregate_ranges ex_xbar = Inr ?x"
    "useDefaultRange ex_xbar = False" by code_simp+
  show ?thesis using aggregate_ranges_exact [OF h(1-3), of "0x47"] h(3,4) by auto
qed

section \<open>Layer arbitration: definitions\<close>

text \<open>
  The release event of a layer is its scheduled tick, if any. \<open>now\<close> is the current
  tick. What the retried port does inside \<^verbatim>\<open>sendRetry\<close> is an argument: nothing, or a
  call of \<^verbatim>\<open>tryTiming\<close> followed by \<^verbatim>\<open>succeededTiming\<close> or
  \<^verbatim>\<open>failedTiming\<close>, which is also how every other packet uses the layer.
\<close>

datatype layer_state = IDLE | BUSY | RETRY

record layer =
  lstate :: layer_state
  waitingForLayer :: "port_id list"
  waitingForPeer :: "port_id option"
  releaseEvent :: "tick option"
  l_occupancy :: tick










definition releaseLayer_drains :: "bool \<Rightarrow> layer \<Rightarrow> bool" where
  "releaseLayer_drains draining l \<longleftrightarrow>
     waitingForLayer l = [] \<and> waitingForPeer l = None \<and> draining"


definition layer_drained :: "layer \<Rightarrow> bool" where
  "layer_drained l \<longleftrightarrow> lstate l = IDLE"

section \<open>Layer arbitration: the protocol\<close>













end
