(* ===== verification/Event_Queue.thy ===== *)
theory Event_Queue
  imports Gem5_Prelude "HOL-Library.Product_Lexorder"
begin

text \<open>
  \<^verbatim>\<open>src/gem5/src/sim/eventq.hh\<close> and \<^verbatim>\<open>eventq.cc\<close>: the event queue that drives the
  simulation. Events live in a store indexed by event identity; the queue is the linked list
  of linked lists of the code, with its \<^verbatim>\<open>nextBin\<close> and \<^verbatim>\<open>nextInBin\<close> pointers,
  stale pointers included. The pointer walks are \<^theory_text>\<open>partial_function\<close>s, so that a walk
  that never ends is \<^const>\<open>None\<close>. The operations are proved to implement a list of
  events sorted by time and priority, last scheduled first among equals.
\<close>

section \<open>Definitions\<close>

subsection \<open>Events and flags\<close>

type_synonym event_ptr = nat

record event =
  nextBin :: "event_ptr option"
  nextInBin :: "event_ptr option"
  ev_when :: tick
  ev_priority :: int
  ev_flags :: u16
  ev_queue :: "nat option"

definition Squashed :: u16 where "Squashed = 0x0001"
definition Scheduled :: u16 where "Scheduled = 0x0002"
definition Managed :: u16 where "Managed = 0x0004"
definition IsExitEvent :: u16 where "IsExitEvent = 0x0010"
definition IsMainQueue :: u16 where "IsMainQueue = 0x0020"
definition PublicRead :: u16 where "PublicRead = 0x003f"
definition PublicWrite :: u16 where "PublicWrite = 0x001d"
definition Initialized :: u16 where "Initialized = 0x7a40"
definition InitMask :: u16 where "InitMask = 0xffc0"

definition flag_isSet :: "u16 \<Rightarrow> event \<Rightarrow> bool" where
  "flag_isSet f e \<longleftrightarrow> ev_flags e AND f \<noteq> 0"

definition flag_set :: "u16 \<Rightarrow> event \<Rightarrow> event" where
  "flag_set f e = e\<lparr>ev_flags := ev_flags e OR f\<rparr>"

definition flag_clear :: "u16 \<Rightarrow> event \<Rightarrow> event" where
  "flag_clear f e = e\<lparr>ev_flags := ev_flags e AND NOT f\<rparr>"

definition ev_initialized :: "event \<Rightarrow> bool" where
  "ev_initialized e \<longleftrightarrow> ev_flags e AND InitMask = Initialized"

definition ev_scheduled :: "event \<Rightarrow> bool" where
  "ev_scheduled e \<longleftrightarrow> flag_isSet Scheduled e"

definition ev_squashed :: "event \<Rightarrow> bool" where
  "ev_squashed e \<longleftrightarrow> flag_isSet Squashed e"

definition ev_squash :: "event \<Rightarrow> event" where
  "ev_squash e = flag_set Squashed e"

definition ev_isExitEvent :: "event \<Rightarrow> bool" where
  "ev_isExitEvent e \<longleftrightarrow> flag_isSet IsExitEvent e"

definition Event_new :: "int \<Rightarrow> u16 \<Rightarrow> event result" where
  "Event_new p f = guardR (f AND NOT PublicWrite = 0) Assert_Failed
     (Inr \<lparr>nextBin = None, nextInBin = None, ev_when = 0, ev_priority = p,
           ev_flags = Initialized OR f, ev_queue = None\<rparr>)"

definition setWhen :: "tick \<Rightarrow> nat \<Rightarrow> event \<Rightarrow> event" where
  "setWhen t q e = e\<lparr>ev_when := t, ev_queue := Some q\<rparr>"

definition ev_less :: "event \<Rightarrow> event \<Rightarrow> bool" where
  "ev_less l r \<longleftrightarrow> ev_when l < ev_when r \<or> (ev_when l = ev_when r \<and> ev_priority l < ev_priority r)"

definition ev_le :: "event \<Rightarrow> event \<Rightarrow> bool" where
  "ev_le l r \<longleftrightarrow> ev_when l < ev_when r \<or> (ev_when l = ev_when r \<and> ev_priority l \<le> ev_priority r)"

definition ev_eq :: "event \<Rightarrow> event \<Rightarrow> bool" where
  "ev_eq l r \<longleftrightarrow> ev_when l = ev_when r \<and> ev_priority l = ev_priority r"

subsection \<open>The queue\<close>

type_synonym ev_heap = "event_ptr \<Rightarrow> event"

record eventq =
  eq_heap :: ev_heap
  eq_head :: "event_ptr option"
  eq_curTick :: tick
  eq_async :: "event_ptr list"
  eq_self :: nat
  eq_freed :: "event_ptr list"

definition upd_event :: "event_ptr \<Rightarrow> (event \<Rightarrow> event) \<Rightarrow> eventq \<Rightarrow> eventq" where
  "upd_event p f q = q\<lparr>eq_heap := (eq_heap q)(p := f (eq_heap q p))\<rparr>"

definition insertBefore :: "ev_heap \<Rightarrow> event_ptr \<Rightarrow> event_ptr option \<Rightarrow> ev_heap" where
  "insertBefore h ev cur =
     (case cur of
        None \<Rightarrow> h(ev := (h ev)\<lparr>nextBin := None, nextInBin := None\<rparr>)
      | Some c \<Rightarrow>
          if ev_less (h ev) (h c)
          then h(ev := (h ev)\<lparr>nextBin := cur, nextInBin := None\<rparr>)
          else h(ev := (h ev)\<lparr>nextBin := nextBin (h c), nextInBin := cur\<rparr>))"

partial_function (option) find_bin ::
    "ev_heap \<Rightarrow> event_ptr \<Rightarrow> event_ptr \<Rightarrow> event_ptr option \<Rightarrow> (event_ptr \<times> event_ptr option) option" where
  "find_bin h ev prev cur =
     (case cur of
        None \<Rightarrow> Some (prev, None)
      | Some c \<Rightarrow> if ev_less (h c) (h ev) then find_bin h ev c (nextBin (h c)) else Some (prev, cur))"

definition eq_insert :: "event_ptr \<Rightarrow> eventq \<Rightarrow> eventq option" where
  "eq_insert ev q =
     (let h = eq_heap q in
      case eq_head q of
        None \<Rightarrow> Some (q\<lparr>eq_heap := insertBefore h ev None, eq_head := Some ev\<rparr>)
      | Some hp \<Rightarrow>
          if ev_le (h ev) (h hp)
          then Some (q\<lparr>eq_heap := insertBefore h ev (Some hp), eq_head := Some ev\<rparr>)
          else (case find_bin h ev hp (nextBin (h hp)) of
                  None \<Rightarrow> None
                | Some (prev, cur) \<Rightarrow>
                    let h = insertBefore h ev cur
                    in Some (q\<lparr>eq_heap := h(prev := (h prev)\<lparr>nextBin := Some ev\<rparr>)\<rparr>)))"

partial_function (option) find_item ::
    "ev_heap \<Rightarrow> event_ptr \<Rightarrow> event_ptr \<Rightarrow> event_ptr option \<Rightarrow> event_ptr run" where
  "find_item h ev cur next =
     (if next = Some ev then Some (Inr cur)
      else (case next of
              None \<Rightarrow> Some (Inl Panic_Error)
            | Some n \<Rightarrow> find_item h ev n (nextInBin (h n))))"

definition removeItem :: "ev_heap \<Rightarrow> event_ptr \<Rightarrow> event_ptr \<Rightarrow> (event_ptr option \<times> ev_heap) run" where
  "removeItem h ev tp =
     (let next = nextInBin (h tp) in
      if ev = tp
      then (case next of
              None \<Rightarrow> retO (nextBin (h tp), h)
            | Some n \<Rightarrow> retO (next, h(n := (h n)\<lparr>nextBin := nextBin (h tp)\<rparr>)))
      else bindO (find_item h ev tp next) (\<lambda>cur.
             retO (Some tp, h(cur := (h cur)\<lparr>nextInBin := nextInBin (h ev)\<rparr>))))"

definition eq_remove :: "event_ptr \<Rightarrow> eventq \<Rightarrow> eventq run" where
  "eq_remove ev q =
     (let h = eq_heap q in
      case eq_head q of
        None \<Rightarrow> Some (Inl Panic_Error)
      | Some hp \<Rightarrow>
          guardO (ev_queue (h ev) = Some (eq_self q)) Assert_Failed
          (if ev_eq (h hp) (h ev)
           then bindO (removeItem h ev hp) (\<lambda>(p, h). retO (q\<lparr>eq_heap := h, eq_head := p\<rparr>))
           else (case find_bin h ev hp (nextBin (h hp)) of
                   None \<Rightarrow> None
                 | Some (prev, None) \<Rightarrow> Some (Inl Panic_Error)
                 | Some (prev, Some c) \<Rightarrow>
                     if \<not> ev_eq (h c) (h ev) then Some (Inl Panic_Error)
                     else bindO (removeItem h ev c) (\<lambda>(p, h).
                            retO (q\<lparr>eq_heap := h(prev := (h prev)\<lparr>nextBin := p\<rparr>)\<rparr>)))))"

definition asyncInsert :: "event_ptr \<Rightarrow> eventq \<Rightarrow> eventq" where
  "asyncInsert ev q = q\<lparr>eq_async := eq_async q @ [ev]\<rparr>"

fun async_loop :: "event_ptr list \<Rightarrow> eventq \<Rightarrow> eventq option" where
  "async_loop [] q = Some q"
| "async_loop (e # es) q =
     (case eq_insert e q of None \<Rightarrow> None | Some q \<Rightarrow> async_loop es (q\<lparr>eq_async := es\<rparr>))"

definition handleAsyncInsertions :: "eventq \<Rightarrow> eventq option" where
  "handleAsyncInsertions q = async_loop (eq_async q) q"

definition ev_release :: "event_ptr \<Rightarrow> eventq \<Rightarrow> eventq" where
  "ev_release ev q =
     (if flag_isSet Managed (eq_heap q ev) \<and> \<not> ev_scheduled (eq_heap q ev)
      then q\<lparr>eq_freed := ev # eq_freed q\<rparr> else q)"

definition liftO :: "'a option \<Rightarrow> 'a run" where
  "liftO m = map_option Inr m"

definition eq_schedule :: "bool \<Rightarrow> bool \<Rightarrow> bool \<Rightarrow> event_ptr \<Rightarrow> tick \<Rightarrow> eventq \<Rightarrow> eventq run" where
  "eq_schedule inParallelMode isCur global ev t q =
     guardO (t \<ge> eq_curTick q) Assert_Failed
     (guardO (\<not> ev_scheduled (eq_heap q ev)) Assert_Failed
     (guardO (ev_initialized (eq_heap q ev)) Assert_Failed
     (let q = upd_event ev (setWhen t (eq_self q)) q in
      bindO (if inParallelMode \<and> (\<not> isCur \<or> global) then retO (asyncInsert ev q) else liftO (eq_insert ev q)) (\<lambda>q.
        retO (upd_event ev (flag_set Scheduled) q)))))"

definition eq_deschedule :: "bool \<Rightarrow> bool \<Rightarrow> event_ptr \<Rightarrow> eventq \<Rightarrow> eventq run" where
  "eq_deschedule inParallelMode isCur ev q =
     guardO (ev_scheduled (eq_heap q ev)) Assert_Failed
     (guardO (ev_initialized (eq_heap q ev)) Assert_Failed
     (guardO (\<not> inParallelMode \<or> isCur) Assert_Failed
     (bindO (eq_remove ev q) (\<lambda>q.
        retO (ev_release ev (upd_event ev (flag_clear Scheduled) (upd_event ev (flag_clear Squashed) q)))))))"

definition eq_reschedule :: "bool \<Rightarrow> bool \<Rightarrow> event_ptr \<Rightarrow> tick \<Rightarrow> bool \<Rightarrow> eventq \<Rightarrow> eventq run" where
  "eq_reschedule inParallelMode isCur ev t always q =
     guardO (t \<ge> eq_curTick q) Assert_Failed
     (guardO (always \<or> ev_scheduled (eq_heap q ev)) Assert_Failed
     (guardO (ev_initialized (eq_heap q ev)) Assert_Failed
     (guardO (\<not> inParallelMode \<or> isCur) Assert_Failed
     (bindO (if ev_scheduled (eq_heap q ev) then eq_remove ev q else retO q) (\<lambda>q.
      bindO (liftO (eq_insert ev (upd_event ev (setWhen t (eq_self q)) q))) (\<lambda>q.
        retO (upd_event ev (flag_set Scheduled) (upd_event ev (flag_clear Squashed) q))))))))"

definition eq_nextTick :: "eventq \<Rightarrow> tick option" where
  "eq_nextTick q = map_option (\<lambda>e. ev_when (eq_heap q e)) (eq_head q)"

definition eq_empty :: "eventq \<Rightarrow> bool" where
  "eq_empty q \<longleftrightarrow> eq_head q = None"

definition pop_head :: "event_ptr \<Rightarrow> eventq \<Rightarrow> eventq" where
  "pop_head ev q =
     (let q = upd_event ev (flag_clear Scheduled) q;
          h = eq_heap q
      in case nextInBin (h ev) of
           Some n \<Rightarrow> q\<lparr>eq_heap := h(n := (h n)\<lparr>nextBin := nextBin (h ev)\<rparr>), eq_head := Some n\<rparr>
         | None \<Rightarrow> q\<lparr>eq_head := nextBin (h ev)\<rparr>)"

definition serviceOne ::
    "(event_ptr \<Rightarrow> eventq \<Rightarrow> eventq run) \<Rightarrow> eventq \<Rightarrow> (event_ptr option \<times> eventq) run" where
  "serviceOne process q =
     (case eq_head q of
        None \<Rightarrow> Some (Inl Out_Of_Range)
      | Some ev \<Rightarrow>
          let q = pop_head ev q in
          if \<not> ev_squashed (eq_heap q ev)
          then bindO (process ev (q\<lparr>eq_curTick := ev_when (eq_heap q ev)\<rparr>)) (\<lambda>q.
                 if ev_isExitEvent (eq_heap q ev)
                 then guardO (\<not> flag_isSet Managed (eq_heap q ev) \<or> \<not> flag_isSet IsMainQueue (eq_heap q ev))
                        Assert_Failed (retO (Some ev, q))
                 else retO (None, ev_release ev q))
          else retO (None, ev_release ev (upd_event ev (flag_clear Squashed) q)))"

partial_function (option) serviceEvents ::
    "(event_ptr \<Rightarrow> eventq \<Rightarrow> eventq run) \<Rightarrow> tick \<Rightarrow> eventq \<Rightarrow> eventq run" where
  "serviceEvents process t q =
     (case eq_nextTick q of
        None \<Rightarrow> Some (Inr (q\<lparr>eq_curTick := t\<rparr>))
      | Some n \<Rightarrow>
          if n > t then Some (Inr (q\<lparr>eq_curTick := t\<rparr>))
          else (case serviceOne process q of
                  None \<Rightarrow> None
                | Some (Inl e) \<Rightarrow> Some (Inl e)
                | Some (Inr (_, q)) \<Rightarrow> serviceEvents process t q))"

definition sim_step ::
    "(event_ptr \<Rightarrow> eventq \<Rightarrow> eventq run) \<Rightarrow> eventq \<Rightarrow> (event_ptr option \<times> eventq) run" where
  "sim_step process q =
     guardO (\<not> eq_empty q) Assert_Failed
     (guardO (eq_curTick q \<le> the (eq_nextTick q)) Assert_Failed (serviceOne process q))"

partial_function (option) sim_loop ::
    "(event_ptr \<Rightarrow> eventq \<Rightarrow> eventq run) \<Rightarrow> eventq \<Rightarrow> (event_ptr \<times> eventq) run" where
  "sim_loop process q =
     (case sim_step process q of
        None \<Rightarrow> None
      | Some (Inl e) \<Rightarrow> Some (Inl e)
      | Some (Inr (x, q)) \<Rightarrow> (case x of Some ev \<Rightarrow> Some (Inr (ev, q)) | None \<Rightarrow> sim_loop process q))"

definition doSimLoop ::
    "(event_ptr \<Rightarrow> eventq \<Rightarrow> eventq run) \<Rightarrow> eventq \<Rightarrow> (event_ptr \<times> eventq) run" where
  "doSimLoop process q = bindO (liftO (handleAsyncInsertions q)) (sim_loop process)"

partial_function (option) verify_bin ::
    "ev_heap \<Rightarrow> tick \<Rightarrow> int \<Rightarrow> event_ptr list \<Rightarrow> event_ptr option \<Rightarrow> (tick \<times> int \<times> event_ptr list) option option" where
  "verify_bin h time prio seen p =
     (case p of
        None \<Rightarrow> Some (Some (time, prio, seen))
      | Some e \<Rightarrow>
          if ev_when (h e) < time then Some None
          else if ev_when (h e) = time \<and> ev_priority (h e) < prio then Some None
          else if e \<in> set seen then Some None
          else verify_bin h (ev_when (h e)) (ev_priority (h e)) (e # seen) (nextInBin (h e)))"

partial_function (option) verify_bins ::
    "ev_heap \<Rightarrow> tick \<Rightarrow> int \<Rightarrow> event_ptr list \<Rightarrow> event_ptr option \<Rightarrow> bool option" where
  "verify_bins h time prio seen p =
     (case p of
        None \<Rightarrow> Some True
      | Some e \<Rightarrow>
          (case verify_bin h time prio seen p of
             None \<Rightarrow> None
           | Some None \<Rightarrow> Some False
           | Some (Some (time, prio, seen)) \<Rightarrow> verify_bins h time prio seen (nextBin (h e))))"

definition debugVerify :: "eventq \<Rightarrow> bool option" where
  "debugVerify q = verify_bins (eq_heap q) 0 0 [] (eq_head q)"

declare find_bin.simps [code] find_item.simps [code] serviceEvents.simps [code]
declare sim_loop.simps [code] verify_bin.simps [code] verify_bins.simps [code]

definition replaceHead :: "event_ptr option \<Rightarrow> eventq \<Rightarrow> event_ptr option \<times> eventq" where
  "replaceHead s q = (eq_head q, q\<lparr>eq_head := s\<rparr>)"

subsection \<open>Checkpoints\<close>

definition ev_serialize :: "event \<Rightarrow> tick \<times> int \<times> u16" where
  "ev_serialize e = (ev_when e, ev_priority e, ev_flags e)"

definition ev_unserialize :: "tick \<times> int \<times> u16 \<Rightarrow> event \<Rightarrow> event result" where
  "ev_unserialize cp e =
     guardR (\<not> ev_scheduled e) Assert_Failed
     (case cp of (t, p, fl) \<Rightarrow>
        let e = e\<lparr>ev_when := t, ev_priority := p\<rparr> in
        guardR (ev_initialized e) Assert_Failed
        (let e = flag_set Initialized (e\<lparr>ev_flags := fl\<rparr>)
         in Inr (if flag_isSet Scheduled e \<and> \<not> flag_isSet Squashed e
                 then flag_clear (Squashed OR Scheduled) e else e)))"

definition checkpointReschedule :: "event_ptr \<Rightarrow> eventq \<Rightarrow> eventq option" where
  "checkpointReschedule ev q =
     (if flag_isSet Scheduled (eq_heap q ev) then eq_insert ev q else Some q)"


section \<open>The order of events\<close>

definition ekey :: "event \<Rightarrow> nat \<times> int" where
  "ekey e = (unat (ev_when e), ev_priority e)"

lemma ev_less_key [simp]: "ev_less l r \<longleftrightarrow> ekey l < ekey r"
  by (auto simp: ev_less_def ekey_def word_less_nat_alt word_unat_eq_iff)

lemma ev_le_key [simp]: "ev_le l r \<longleftrightarrow> ekey l \<le> ekey r"
  by (auto simp: ev_le_def ekey_def word_less_nat_alt word_unat_eq_iff)

lemma ev_eq_key [simp]: "ev_eq l r \<longleftrightarrow> ekey l = ekey r"
  by (auto simp: ev_eq_def ekey_def word_unat_eq_iff)

lemma ekey_update [simp]:
  "ekey (e\<lparr>nextBin := b\<rparr>) = ekey e"
  "ekey (e\<lparr>nextInBin := b\<rparr>) = ekey e"
  "ekey (e\<lparr>ev_flags := f\<rparr>) = ekey e"
  by (simp_all add: ekey_def)

section \<open>Bins in the store\<close>

text \<open>
  \<open>in_bin h b\<close>: the \<^verbatim>\<open>nextInBin\<close> pointers run through the list \<open>b\<close>;
  \<open>bins_at h p bs\<close>: from \<open>p\<close>, the \<^verbatim>\<open>nextBin\<close> pointers of the bin tops
  run through the bins \<open>bs\<close> (the pointers of other members of a bin may be stale);
  \<open>bins_ok h bs\<close>: the bins hold each event once, all of one key, keys increasing.
\<close>

fun in_bin :: "ev_heap \<Rightarrow> event_ptr list \<Rightarrow> bool" where
  "in_bin h [] = False"
| "in_bin h [x] = (nextInBin (h x) = None)"
| "in_bin h (x # y # ys) = (nextInBin (h x) = Some y \<and> in_bin h (y # ys))"

fun bins_at :: "ev_heap \<Rightarrow> event_ptr option \<Rightarrow> event_ptr list list \<Rightarrow> bool" where
  "bins_at h p [] = (p = None)"
| "bins_at h p (b # bs) = (in_bin h b \<and> p = Some (hd b) \<and> bins_at h (nextBin (h (hd b))) bs)"

abbreviation kh :: "ev_heap \<Rightarrow> event_ptr \<Rightarrow> nat \<times> int" where
  "kh h x \<equiv> ekey (h x)"

definition one_key :: "ev_heap \<Rightarrow> event_ptr list \<Rightarrow> bool" where
  "one_key h b \<longleftrightarrow> (\<forall>x \<in> set b. kh h x = kh h (hd b))"

fun bins_ok :: "ev_heap \<Rightarrow> event_ptr list list \<Rightarrow> bool" where
  "bins_ok h [] = True"
| "bins_ok h (b # bs) = (b \<noteq> [] \<and> distinct b \<and> one_key h b \<and>
     (\<forall>c \<in> set bs. kh h (hd b) < kh h (hd c)) \<and> bins_ok h bs)"

fun ins_bins :: "ev_heap \<Rightarrow> event_ptr \<Rightarrow> event_ptr list list \<Rightarrow> event_ptr list list" where
  "ins_bins h ev [] = [[ev]]"
| "ins_bins h ev (b # bs) =
     (if kh h ev < kh h (hd b) then [ev] # b # bs
      else if kh h ev = kh h (hd b) then (ev # b) # bs
      else b # ins_bins h ev bs)"

fun rem_bins :: "ev_heap \<Rightarrow> event_ptr \<Rightarrow> event_ptr list list \<Rightarrow> event_ptr list list" where
  "rem_bins h ev [] = []"
| "rem_bins h ev (b # bs) =
     (if kh h (hd b) = kh h ev then (case remove1 ev b of [] \<Rightarrow> bs | b' \<Rightarrow> b' # bs)
      else b # rem_bins h ev bs)"

lemma in_bin_ne: "in_bin h b \<Longrightarrow> b \<noteq> []"
  by auto

lemma in_bin_cong:
  assumes "\<And>x. x \<in> set b \<Longrightarrow> nextInBin (h' x) = nextInBin (h x)"
  shows "in_bin h' b = in_bin h b"
  using assms by (induction h b rule: in_bin.induct) auto

lemma bins_at_cong:
  assumes "\<And>x. x \<in> set (concat bs) \<Longrightarrow> nextInBin (h' x) = nextInBin (h x) \<and> nextBin (h' x) = nextBin (h x)"
  shows "bins_at h' p bs = bins_at h p bs"
  using assms
proof (induction bs arbitrary: p)
  case (Cons b bs)
  have "in_bin h' b = in_bin h b" using Cons.prems by (intro in_bin_cong) auto
  moreover have "nextBin (h' (hd b)) = nextBin (h (hd b))" if "in_bin h b"
    using Cons.prems in_bin_ne [OF that] by (cases b) auto
  ultimately show ?case using Cons by auto
qed simp

lemma bins_at_ne: "bins_at h p bs \<Longrightarrow> b \<in> set bs \<Longrightarrow> b \<noteq> []"
  by (induction bs arbitrary: p) (auto dest: in_bin_ne)

lemma bins_ok_cong:
  assumes "\<And>x. x \<in> set (concat bs) \<Longrightarrow> kh h' x = kh h x" "\<forall>b \<in> set bs. b \<noteq> []"
  shows "bins_ok h' bs = bins_ok h bs"
  using assms
proof (induction bs)
  case (Cons b bs)
  have hd: "kh h' (hd c) = kh h (hd c)" if "c \<in> set (b # bs)" for c
  proof (rule Cons.prems(1))
    have "hd c \<in> set c" using Cons.prems(2) that by auto
    then show "hd c \<in> set (concat (b # bs))" using that by auto
  qed
  have "one_key h' b = one_key h b"
    using Cons.prems(1) hd [of b] by (simp add: one_key_def)
  moreover have "bins_ok h' bs = bins_ok h bs" using Cons by simp
  ultimately show ?case using hd by simp
qed simp

lemma one_keyD: "one_key h b \<Longrightarrow> x \<in> set b \<Longrightarrow> kh h x = kh h (hd b)"
  by (simp add: one_key_def)

lemma bins_ok_keys:
  assumes "bins_ok h bs" "x \<in> set (concat bs)"
  obtains b where "b \<in> set bs" "x \<in> set b" "kh h x = kh h (hd b)"
proof -
  obtain b where "b \<in> set bs" "x \<in> set b" using assms(2) by auto
  moreover have "one_key h b" using assms(1) \<open>b \<in> set bs\<close> by (induction bs) auto
  ultimately show thesis using that one_keyD by blast
qed

lemma bins_ok_ne: "bins_ok h bs \<Longrightarrow> b \<in> set bs \<Longrightarrow> b \<noteq> []"
  by (induction bs) auto

lemma hd_in_concat: "c \<in> set bs \<Longrightarrow> c \<noteq> [] \<Longrightarrow> hd c \<in> set (concat bs)"
  by (metis UN_iff hd_in_set set_concat)

lemma bins_ok_key:
  assumes "bins_ok h (b # bs)" "x \<in> set (concat bs)"
  shows "kh h (hd b) < kh h x"
proof -
  have ok: "bins_ok h bs" "\<forall>c \<in> set bs. kh h (hd b) < kh h (hd c)" using assms(1) by simp_all
  obtain c where "c \<in> set bs" "kh h x = kh h (hd c)" using bins_ok_keys [OF ok(1) assms(2)] .
  then show ?thesis using ok(2) by simp
qed

lemma bins_ok_hd_fresh:
  assumes "bins_ok h (b # bs)"
  shows "hd b \<notin> set (concat bs)" "hd b \<in> set b"
proof -
  show "hd b \<in> set b" using assms by simp
  show "hd b \<notin> set (concat bs)" using bins_ok_key [OF assms] by blast
qed

lemma bins_ok_distinct: "bins_ok h bs \<Longrightarrow> distinct (concat bs)"
proof (induction bs)
  case (Cons b bs)
  have "x \<notin> set b" if "x \<in> set (concat bs)" for x
    using bins_ok_key [OF Cons.prems that] Cons.prems one_keyD [of h b x] by auto
  moreover have "distinct b" "distinct (concat bs)" using Cons by simp_all
  ultimately show ?case by auto
qed simp

lemma one_key_sorted: "one_key h b \<Longrightarrow> sorted (map (kh h) b)"
  using one_keyD [of h b] by (simp add: sorted_wrt_map sorted_wrt_iff_nth_less)

lemma bins_ok_sorted: "bins_ok h bs \<Longrightarrow> sorted (map (kh h) (concat bs))"
proof (induction bs)
  case (Cons b bs)
  have "sorted (map (kh h) b)" "sorted (map (kh h) (concat bs))"
    using Cons one_key_sorted by simp_all
  moreover have "kh h x \<le> kh h y" if "x \<in> set b" "y \<in> set (concat bs)" for x y
  proof -
    have "kh h x = kh h (hd b)" using one_keyD that(1) Cons.prems by simp
    then show ?thesis using bins_ok_key [OF Cons.prems that(2)] by simp
  qed
  ultimately show ?case by (auto simp: sorted_append)
qed simp

section \<open>Insertion\<close>

lemma ins_bins_concat:
  assumes "bins_ok h bs"
  shows "concat (ins_bins h ev bs) = insort_key (kh h) ev (concat bs)"
  using assms
proof (induction bs)
  case (Cons b bs)
  have b: "b \<noteq> []" "\<And>x. x \<in> set b \<Longrightarrow> kh h x = kh h (hd b)"
    using Cons.prems one_keyD by simp_all
  show ?case
  proof (cases "kh h ev \<le> kh h (hd b)")
    case True
    then have "insort_key (kh h) ev (b @ concat bs) = ev # b @ concat bs"
      using b(1) by (cases b) auto
    then show ?thesis using True by (simp add: less_le)
  next
    case False
    have "\<forall>x \<in> set b. \<not> kh h ev \<le> kh h x" using b(2) False by simp
    then have "insort_key (kh h) ev (b @ xs) = b @ insort_key (kh h) ev xs" for xs
      by (induction b) auto
    moreover have "concat (ins_bins h ev bs) = insort_key (kh h) ev (concat bs)" using Cons by simp
    ultimately show ?thesis using False by (auto simp: not_le)
  qed
qed simp

lemma ins_bins_set: "set (concat (ins_bins h ev bs)) = insert ev (set (concat bs))"
  by (induction bs) auto

lemma ins_bins_ok:
  assumes "bins_ok h bs" "ev \<notin> set (concat bs)"
  shows "bins_ok h (ins_bins h ev bs)"
  using assms
proof (induction bs)
  case (Cons b bs)
  have ok: "bins_ok h bs" "ev \<notin> set (concat bs)" using Cons.prems by simp_all
  consider "kh h ev < kh h (hd b)" | "kh h ev = kh h (hd b)" | "kh h (hd b) < kh h ev" by fastforce
  then show ?case
  proof cases
    case 1
    have "kh h ev < kh h (hd c)" if "c \<in> set bs" for c
      using 1 Cons.prems(1) that by (auto intro: less_trans)
    then show ?thesis using 1 Cons.prems(1) by (simp add: one_key_def [of h "[ev]"])
  next
    case 2
    then have "one_key h (ev # b)"
      using one_keyD [of h b] Cons.prems(1) unfolding one_key_def [of h "ev # b"] by (metis bins_ok.simps(2) list.sel(1) set_ConsD)
    then show ?thesis using 2 Cons.prems by simp
  next
    case 3
    have "kh h (hd b) < kh h (hd c)" if "c \<in> set (ins_bins h ev bs)" for c
    proof -
      have "c \<noteq> []" using Cons.IH [OF ok] that bins_ok_ne by blast
      then have "hd c \<in> set (concat (ins_bins h ev bs))" using hd_in_concat that by blast
      then have "hd c = ev \<or> hd c \<in> set (concat bs)" unfolding ins_bins_set by simp
      then show ?thesis using 3 bins_ok_key [OF Cons.prems(1)] by blast
    qed
    moreover have "ins_bins h ev (b # bs) = b # ins_bins h ev bs" using 3 by auto
    ultimately show ?thesis using Cons.prems(1) Cons.IH [OF ok] by simp
  qed
qed (simp add: one_key_def)

lemma insertBefore_front:
  assumes "bins_at h p bs" "ev \<notin> set (concat bs)" "bs \<noteq> [] \<Longrightarrow> kh h ev \<le> kh h (hd (hd bs))"
  shows "bins_at (insertBefore h ev p) (Some ev) (ins_bins h ev bs)"
proof (cases bs)
  case Nil
  then show ?thesis using assms(1) by (simp add: insertBefore_def)
next
  case (Cons b cs)
  have p: "p = Some (hd b)" "b \<noteq> []" using assms(1) Cons in_bin_ne by auto
  have neq: "x \<noteq> ev" if "x \<in> set (concat bs)" for x using assms(2) that by auto
  let ?h = "insertBefore h ev p"
  have same: "?h x = h x" if "x \<noteq> ev" for x
    using that by (auto simp: insertBefore_def split: option.splits)
  show ?thesis
  proof (cases "kh h ev < kh h (hd b)")
    case True
    have "bins_at ?h p (b # cs) = bins_at h p (b # cs)"
      using neq same Cons by (intro bins_at_cong) auto
    then show ?thesis
      using True assms(1) Cons p by (auto simp: insertBefore_def)
  next
    case False
    then have eq: "kh h ev = kh h (hd b)" using assms(3) Cons by auto
    have "bins_at ?h (nextBin (h (hd b))) cs" "in_bin ?h b"
      using assms(1) Cons neq same bins_at_cong [of cs ?h h] in_bin_cong [of b ?h h] by auto
    moreover have "nextBin (?h ev) = nextBin (h (hd b))" "nextInBin (?h ev) = Some (hd b)"
      using eq p by (auto simp: insertBefore_def)
    ultimately show ?thesis
      using Cons eq p(2) by (cases b) auto
  qed
qed

definition ins_heap :: "ev_heap \<Rightarrow> event_ptr \<Rightarrow> event_ptr \<times> event_ptr option \<Rightarrow> ev_heap" where
  "ins_heap h ev pc =
     (let h1 = insertBefore h ev (snd pc)
      in h1(fst pc := (h1 (fst pc))\<lparr>nextBin := Some ev\<rparr>))"

lemma insertBefore_other: "y \<noteq> ev \<Longrightarrow> insertBefore h ev p y = h y"
  by (auto simp: insertBefore_def split: option.splits)

lemma ins_heap_other:
  "y \<noteq> ev \<Longrightarrow> y \<noteq> fst pc \<Longrightarrow> ins_heap h ev pc y = h y"
  "y \<noteq> ev \<Longrightarrow> nextInBin (ins_heap h ev pc y) = nextInBin (h y)"
  by (auto simp: ins_heap_def Let_def insertBefore_other)

lemma find_bin_insert:
  assumes "bins_at h (nextBin (h x)) bs" "bins_ok h bs" "ev \<notin> set (concat bs)" "x \<notin> set (concat bs)" "x \<noteq> ev"
  shows "\<exists>pc. find_bin h ev x (nextBin (h x)) = Some pc \<and> fst pc \<in> insert x (set (concat bs)) \<and>
    bins_at (ins_heap h ev pc) (nextBin (ins_heap h ev pc x)) (ins_bins h ev bs)"
  using assms
proof (induction bs arbitrary: x)
  case Nil
  then show ?case
    by (subst find_bin.simps) (simp add: insertBefore_def ins_heap_def)
next
  case (Cons b bs)
  have b: "nextBin (h x) = Some (hd b)" "in_bin h b" "b \<noteq> []" "bins_at h (nextBin (h (hd b))) bs"
    using Cons.prems(1) in_bin_ne by auto
  note hb = bins_ok_hd_fresh [OF Cons.prems(2)]
  have fresh: "ev \<notin> set (concat bs)" "x \<notin> set (concat bs)" "hd b \<noteq> ev" "hd b \<noteq> x" "ev \<notin> set b" "x \<notin> set b"
    using Cons.prems(3,4) hb(2) by auto
  show ?case
  proof (cases "kh h (hd b) < kh h ev")
    case True
    have fb: "find_bin h ev x (nextBin (h x)) = find_bin h ev (hd b) (nextBin (h (hd b)))"
      using b True by (subst find_bin.simps) simp
    have "bins_ok h bs" using Cons.prems(2) by simp
    then obtain pc where pc: "find_bin h ev (hd b) (nextBin (h (hd b))) = Some pc"
      "fst pc \<in> insert (hd b) (set (concat bs))"
      "bins_at (ins_heap h ev pc) (nextBin (ins_heap h ev pc (hd b))) (ins_bins h ev bs)"
      using Cons.IH [OF b(4) _ fresh(1) hb(1) fresh(3)] by blast
    have "x \<noteq> fst pc" using pc(2) fresh by auto
    then have "ins_heap h ev pc x = h x" using Cons.prems(5) ins_heap_other(1) by blast
    moreover have "in_bin (ins_heap h ev pc) b"
    proof -
      have "nextInBin (ins_heap h ev pc y) = nextInBin (h y)" if "y \<in> set b" for y
        using that fresh(5) by (intro ins_heap_other(2)) blast
      then show ?thesis using in_bin_cong b(2) by blast
    qed
    ultimately have "bins_at (ins_heap h ev pc) (nextBin (ins_heap h ev pc x)) (ins_bins h ev (b # bs))"
      using True pc(3) b by auto
    moreover have "fst pc \<in> insert x (set (concat (b # bs)))" using pc(2) hb(2) by auto
    ultimately show ?thesis unfolding fb using pc(1) by blast
  next
    case False
    let ?pc = "(x, nextBin (h x))" let ?h1 = "insertBefore h ev (nextBin (h x))"
    have fb: "find_bin h ev x (nextBin (h x)) = Some ?pc"
      using b False by (subst find_bin.simps) simp
    have "bins_at ?h1 (Some ev) (ins_bins h ev (b # bs))"
      using insertBefore_front [OF Cons.prems(1,3)] False by auto
    moreover have "bins_at (ins_heap h ev ?pc) (Some ev) (ins_bins h ev (b # bs)) =
        bins_at ?h1 (Some ev) (ins_bins h ev (b # bs))"
    proof (rule bins_at_cong)
      fix y
      assume "y \<in> set (concat (ins_bins h ev (b # bs)))"
      then have "y \<noteq> x" unfolding ins_bins_set using Cons.prems(4,5) by auto
      then show "nextInBin (ins_heap h ev ?pc y) = nextInBin (?h1 y) \<and> nextBin (ins_heap h ev ?pc y) = nextBin (?h1 y)"
        by (simp add: ins_heap_def Let_def)
    qed
    moreover have "nextBin (ins_heap h ev ?pc x) = Some ev" by (simp add: ins_heap_def Let_def)
    ultimately show ?thesis unfolding fb by auto
  qed
qed

definition eq_bins :: "eventq \<Rightarrow> event_ptr list list \<Rightarrow> bool" where
  "eq_bins q bs \<longleftrightarrow> bins_at (eq_heap q) (eq_head q) bs \<and> bins_ok (eq_heap q) bs"

definition eq_repr :: "eventq \<Rightarrow> event_ptr list \<Rightarrow> bool" where
  "eq_repr q xs \<longleftrightarrow> (\<exists>bs. eq_bins q bs \<and> xs = concat bs)"

definition same_events :: "ev_heap \<Rightarrow> ev_heap \<Rightarrow> bool" where
  "same_events h h' \<longleftrightarrow> (\<forall>x. ev_when (h' x) = ev_when (h x) \<and> ev_priority (h' x) = ev_priority (h x) \<and>
     ev_flags (h' x) = ev_flags (h x) \<and> ev_queue (h' x) = ev_queue (h x))"

lemma same_events_kh: "same_events h h' \<Longrightarrow> kh h' x = kh h x"
  by (simp add: same_events_def ekey_def)

lemma same_events_refl: "same_events h h"
  by (simp add: same_events_def)

lemma same_events_trans: "same_events h h' \<Longrightarrow> same_events h' h'' \<Longrightarrow> same_events h h''"
  by (simp add: same_events_def)

lemma same_events_insertBefore: "same_events h (insertBefore h ev p)"
  by (auto simp: same_events_def insertBefore_def split: option.splits)

lemma same_events_upd:
  "same_events h (h(x := (h x)\<lparr>nextBin := p\<rparr>))" "same_events h (h(x := (h x)\<lparr>nextInBin := p\<rparr>))"
  by (auto simp: same_events_def)

lemma eq_insert_bins:
  assumes "eq_bins q bs" "ev \<notin> set (concat bs)"
  shows "\<exists>q'. eq_insert ev q = Some q' \<and> eq_bins q' (ins_bins (eq_heap q) ev bs) \<and>
    same_events (eq_heap q) (eq_heap q') \<and> eq_curTick q' = eq_curTick q \<and> eq_async q' = eq_async q \<and>
    eq_self q' = eq_self q \<and> eq_freed q' = eq_freed q"
proof -
  let ?h = "eq_heap q"
  have at: "bins_at ?h (eq_head q) bs" and ok: "bins_ok ?h bs" using assms(1) by (auto simp: eq_bins_def)
  have ok': "bins_ok h' (ins_bins ?h ev bs)" if "same_events ?h h'" for h'
    using bins_ok_cong [of "ins_bins ?h ev bs" h' ?h] same_events_kh [OF that]
      ins_bins_ok [OF ok assms(2)] bins_ok_ne by blast
  show ?thesis
  proof (cases "bs = [] \<or> kh ?h ev \<le> kh ?h (hd (hd bs))")
    case True
    have "bins_at (insertBefore ?h ev (eq_head q)) (Some ev) (ins_bins ?h ev bs)"
      using insertBefore_front [OF at assms(2)] True by auto
    moreover have "eq_insert ev q = Some (q\<lparr>eq_heap := insertBefore ?h ev (eq_head q), eq_head := Some ev\<rparr>)"
      using True at by (cases bs) (auto simp: eq_insert_def Let_def)
    ultimately show ?thesis
      using ok' same_events_insertBefore by (auto simp: eq_bins_def)
  next
    case False
    then obtain b cs where bs: "bs = b # cs" "kh ?h (hd b) < kh ?h ev" by (cases bs) auto
    have b: "in_bin ?h b" "eq_head q = Some (hd b)" "bins_at ?h (nextBin (?h (hd b))) cs" "b \<noteq> []"
      using at bs in_bin_ne by auto
    have okb: "bins_ok ?h (b # cs)" using ok bs by simp
    note hb = bins_ok_hd_fresh [OF okb]
    have fresh: "ev \<notin> set (concat cs)" "hd b \<noteq> ev" "ev \<notin> set b" "bins_ok ?h cs"
      using assms(2) bs hb(2) okb by auto
    obtain pc where pc: "find_bin ?h ev (hd b) (nextBin (?h (hd b))) = Some pc"
      "bins_at (ins_heap ?h ev pc) (nextBin (ins_heap ?h ev pc (hd b))) (ins_bins ?h ev cs)"
      using find_bin_insert [OF b(3) fresh(4,1) hb(1) fresh(2)] by blast
    have "nextInBin (ins_heap ?h ev pc y) = nextInBin (?h y)" if "y \<in> set b" for y
      using that fresh(3) by (intro ins_heap_other(2)) blast
    then have "in_bin (ins_heap ?h ev pc) b" using in_bin_cong b(1) by blast
    then have "bins_at (ins_heap ?h ev pc) (Some (hd b)) (ins_bins ?h ev bs)" using bs pc(2) by auto
    moreover have "same_events ?h (ins_heap ?h ev pc)"
      unfolding ins_heap_def Let_def
      using same_events_trans same_events_insertBefore same_events_upd(1) by blast
    moreover have "eq_insert ev q = Some (q\<lparr>eq_heap := ins_heap ?h ev pc\<rparr>)"
      using b(2) bs pc(1) by (cases pc) (simp add: eq_insert_def ins_heap_def Let_def)
    ultimately show ?thesis using ok' b(2) by (auto simp: eq_bins_def)
  qed
qed

section \<open>Removal\<close>

lemma find_item_found:
  assumes "in_bin h (x # xs)" "ev \<in> set xs" "distinct (x # xs)"
  shows "\<exists>cur. find_item h ev x (nextInBin (h x)) = Some (Inr cur) \<and> cur \<in> set (x # xs) \<and> cur \<noteq> ev \<and>
    (\<forall>h'. (\<forall>y. y \<noteq> cur \<longrightarrow> nextInBin (h' y) = nextInBin (h y)) \<longrightarrow> nextInBin (h' cur) = nextInBin (h ev) \<longrightarrow>
       in_bin h' (x # remove1 ev xs))"
  using assms
proof (induction xs arbitrary: x)
  case (Cons y ys)
  have y: "nextInBin (h x) = Some y" "in_bin h (y # ys)" using Cons.prems(1) by auto
  show ?case
  proof (cases "ev = y")
    case True
    have "find_item h ev x (nextInBin (h x)) = Some (Inr x)"
      using y True by (subst find_item.simps) simp
    moreover have "in_bin h' (x # ys)"
      if h': "\<forall>z. z \<noteq> x \<longrightarrow> nextInBin (h' z) = nextInBin (h z)" "nextInBin (h' x) = nextInBin (h ev)" for h'
    proof -
      have "in_bin h' (y # ys)"
      proof -
        have "nextInBin (h' z) = nextInBin (h z)" if "z \<in> set (y # ys)" for z
          using h'(1) Cons.prems(3) that by auto
        then show ?thesis using in_bin_cong y(2) by blast
      qed
      moreover have "nextInBin (h' x) = nextInBin (h' y)"
        using h' True Cons.prems(3) by auto
      ultimately show ?thesis by (cases ys) auto
    qed
    ultimately show ?thesis using True Cons.prems(3) by auto
  next
    case False
    have "find_item h ev x (nextInBin (h x)) = find_item h ev y (nextInBin (h y))"
      using y False by (subst find_item.simps) simp
    moreover obtain cur where cur: "find_item h ev y (nextInBin (h y)) = Some (Inr cur)"
      "cur \<in> set (y # ys)" "cur \<noteq> ev"
      "\<forall>h'. (\<forall>z. z \<noteq> cur \<longrightarrow> nextInBin (h' z) = nextInBin (h z)) \<longrightarrow> nextInBin (h' cur) = nextInBin (h ev) \<longrightarrow>
         in_bin h' (y # remove1 ev ys)"
      using Cons.IH [OF y(2)] Cons.prems False by auto
    moreover have "x \<noteq> cur" using cur(2) Cons.prems(3) by auto
    ultimately show ?thesis using False y(1) by auto
  qed
qed simp

definition rest_at :: "ev_heap \<Rightarrow> event_ptr option \<Rightarrow> event_ptr list \<Rightarrow> event_ptr option \<Rightarrow> bool" where
  "rest_at h p b nb \<longleftrightarrow> (if b = [] then p = nb else in_bin h b \<and> p = Some (hd b) \<and> nextBin (h (hd b)) = nb)"

lemma removeItem_found:
  assumes "in_bin h b" "ev \<in> set b" "distinct b"
  shows "\<exists>p h'. removeItem h ev (hd b) = Some (Inr (p, h')) \<and> rest_at h' p (remove1 ev b) (nextBin (h (hd b))) \<and>
    (\<forall>y. y \<notin> set b \<longrightarrow> h' y = h y) \<and> same_events h h'"
proof -
  obtain x xs where b: "b = x # xs" using assms(1) by (cases b) auto
  show ?thesis
  proof (cases "ev = x")
    case True
    show ?thesis
    proof (cases xs)
      case Nil
      then show ?thesis
        using assms(1) b True by (auto simp: removeItem_def rest_at_def same_events_refl retO_def)
    next
      case (Cons y ys)
      let ?h = "h(y := (h y)\<lparr>nextBin := nextBin (h x)\<rparr>)"
      have "in_bin ?h xs = in_bin h xs" by (rule in_bin_cong) simp
      then have "in_bin ?h xs" using assms(1) b Cons by simp
      moreover have "removeItem h ev x = Some (Inr (Some y, ?h))"
        using assms(1) b Cons True by (simp add: removeItem_def retO_def)
      ultimately show ?thesis
        using b Cons True same_events_upd(1) [of h y] by (auto simp: rest_at_def)
    qed
  next
    case False
    then have ev: "ev \<in> set xs" using assms(2) b by auto
    obtain cur where cur: "find_item h ev x (nextInBin (h x)) = Some (Inr cur)" "cur \<in> set (x # xs)"
      "\<forall>h'. (\<forall>y. y \<noteq> cur \<longrightarrow> nextInBin (h' y) = nextInBin (h y)) \<longrightarrow> nextInBin (h' cur) = nextInBin (h ev) \<longrightarrow>
         in_bin h' (x # remove1 ev xs)"
      using find_item_found [OF _ ev, of h x] assms(1,3) b by auto
    let ?h = "h(cur := (h cur)\<lparr>nextInBin := nextInBin (h ev)\<rparr>)"
    have "in_bin ?h (x # remove1 ev xs)" using cur(3) by auto
    moreover have "removeItem h ev x = Some (Inr (Some x, ?h))"
      using False cur(1) by (simp add: removeItem_def retO_def)
    ultimately show ?thesis
      using b False cur(2) same_events_upd(2) [of h cur] by (auto simp: rest_at_def)
  qed
qed

lemma rem_bins_concat:
  assumes "bins_ok h bs" "ev \<in> set (concat bs)"
  shows "concat (rem_bins h ev bs) = remove1 ev (concat bs)"
  using assms
proof (induction bs)
  case (Cons b bs)
  show ?case
  proof (cases "kh h (hd b) = kh h ev")
    case True
    then have "ev \<in> set b" using Cons.prems bins_ok_key [OF Cons.prems(1), of ev] by auto
    then show ?thesis using True by (auto simp: remove1_append split: list.splits)
  next
    case False
    then have "ev \<notin> set b" using one_keyD [of h b ev] Cons.prems(1) by auto
    then show ?thesis using False Cons by (auto simp: remove1_append)
  qed
qed simp

lemma rem_bins_gt:
  assumes "bins_ok h bs" "\<forall>b \<in> set bs. k < kh h (hd b)" "c \<in> set (rem_bins h ev bs)"
  shows "k < kh h (hd c)"
  using assms
proof (induction bs)
  case (Cons b bs)
  have "kh h x = kh h (hd b)" if "x \<in> set (remove1 ev b)" for x
    using Cons.prems(1) that one_keyD [of h b x] by (meson bins_ok.simps(2) notin_set_remove1)
  then show ?case using Cons by (cases "remove1 ev b") (auto split: if_splits)
qed simp

lemma rem_bins_ok:
  assumes "bins_ok h bs"
  shows "bins_ok h (rem_bins h ev bs)"
  using assms
proof (induction bs)
  case (Cons b bs)
  have ok: "bins_ok h bs" "one_key h b" "distinct b" "\<forall>c \<in> set bs. kh h (hd b) < kh h (hd c)" "b \<noteq> []"
    using Cons.prems by simp_all
  have sub: "kh h x = kh h (hd b)" if "x \<in> set (remove1 ev b)" for x
    using ok(2) that by (meson notin_set_remove1 one_keyD)
  have other: "bins_ok h (b # rem_bins h ev bs)"
    using ok Cons.IH rem_bins_gt [OF ok(1,4)] by simp
  show ?case
  proof (cases "remove1 ev b")
    case Nil
    then show ?thesis using ok other by simp
  next
    case (Cons y ys)
    have y: "kh h y = kh h (hd b)" using sub Cons by simp
    have "one_key h (y # ys)" using sub y unfolding one_key_def Cons by simp
    moreover have "distinct (y # ys)" using distinct_remove1 [OF ok(3), of ev] Cons by simp
    ultimately show ?thesis using ok Cons other y by auto
  qed
qed simp

lemma bins_at_rest:
  assumes "rest_at h p b nb" "bins_at h nb bs"
  shows "bins_at h p (case b of [] \<Rightarrow> bs | y # ys \<Rightarrow> (y # ys) # bs)"
  using assms by (cases b) (auto simp: rest_at_def)

definition rem_heap :: "ev_heap \<Rightarrow> event_ptr \<Rightarrow> event_ptr option \<Rightarrow> ev_heap" where
  "rem_heap h prev p = h(prev := (h prev)\<lparr>nextBin := p\<rparr>)"

lemma rem_heap_other: "y \<noteq> prev \<Longrightarrow> rem_heap h prev p y = h y"
  by (simp add: rem_heap_def)

lemma rem_heap_self:
  "nextBin (rem_heap h prev p prev) = p" "nextInBin (rem_heap h prev p y) = nextInBin (h y)"
  by (auto simp: rem_heap_def)

lemma find_bin_remove:
  assumes "bins_at h (nextBin (h x)) bs" "bins_ok h bs" "ev \<in> set (concat bs)" "x \<notin> set (concat bs)"
  shows "\<exists>prev c p h'. find_bin h ev x (nextBin (h x)) = Some (prev, Some c) \<and> kh h c = kh h ev \<and>
    removeItem h ev c = Some (Inr (p, h')) \<and> prev \<in> insert x (set (concat bs)) \<and>
    bins_at (rem_heap h' prev p) (nextBin (rem_heap h' prev p x)) (rem_bins h ev bs) \<and>
    same_events h (rem_heap h' prev p) \<and>
    (\<forall>y. y \<notin> insert x (set (concat bs)) \<longrightarrow> rem_heap h' prev p y = h y) \<and>
    nextInBin (rem_heap h' prev p x) = nextInBin (h x)"
  using assms
proof (induction bs arbitrary: x)
  case (Cons b bs)
  have b: "nextBin (h x) = Some (hd b)" "in_bin h b" "b \<noteq> []" "bins_at h (nextBin (h (hd b))) bs"
    using Cons.prems(1) in_bin_ne by auto
  note hb = bins_ok_hd_fresh [OF Cons.prems(2)]
  have ok: "bins_ok h bs" "distinct b" using Cons.prems(2) by simp_all
  have dist: "set b \<inter> set (concat bs) = {}" using bins_ok_distinct [OF Cons.prems(2)] by auto
  have x: "x \<notin> set b" "x \<notin> set (concat bs)" using Cons.prems(4) by auto
  show ?case
  proof (cases "kh h (hd b) = kh h ev")
    case True
    then have ev: "ev \<in> set b" using Cons.prems(3) bins_ok_key [OF Cons.prems(2), of ev] by auto
    obtain p h' where p: "removeItem h ev (hd b) = Some (Inr (p, h'))"
      "rest_at h' p (remove1 ev b) (nextBin (h (hd b)))" "\<And>y. y \<notin> set b \<Longrightarrow> h' y = h y" "same_events h h'"
      using removeItem_found [OF b(2) ev ok(2)] by blast
    let ?h2 = "rem_heap h' x p"
    have fb: "find_bin h ev x (nextBin (h x)) = Some (x, Some (hd b))"
      using b True by (subst find_bin.simps) simp
    have "bins_at h' (nextBin (h (hd b))) bs"
    proof -
      have "h' y = h y" if "y \<in> set (concat bs)" for y using p(3) that dist by blast
      then show ?thesis using bins_at_cong [of bs h' h] b(4) by simp
    qed
    then have "bins_at h' p (rem_bins h ev (b # bs))"
      using bins_at_rest [OF p(2)] True by simp
    moreover have "bins_at ?h2 p (rem_bins h ev (b # bs)) = bins_at h' p (rem_bins h ev (b # bs))"
    proof (rule bins_at_cong)
      fix y
      assume "y \<in> set (concat (rem_bins h ev (b # bs)))"
      then have "y \<in> set (concat (b # bs))"
        unfolding rem_bins_concat [OF Cons.prems(2,3)] by (meson notin_set_remove1)
      then have "y \<noteq> x" using Cons.prems(4) by blast
      then show "nextInBin (?h2 y) = nextInBin (h' y) \<and> nextBin (?h2 y) = nextBin (h' y)"
        by (simp add: rem_heap_other)
    qed
    moreover have "same_events h ?h2"
      unfolding rem_heap_def using same_events_trans [OF p(4) same_events_upd(1)] .
    moreover have "?h2 y = h y" if "y \<notin> insert x (set (concat (b # bs)))" for y
      using that p(3) by (simp add: rem_heap_other)
    moreover have "nextInBin (?h2 x) = nextInBin (h x)" using p(3) x(1) by (simp add: rem_heap_self)
    ultimately show ?thesis
      using fb True p(1) rem_heap_self(1) [of h' x p]
      by (intro exI [of _ x] exI [of _ "hd b"] exI [of _ p] exI [of _ h']) simp
  next
    case False
    then have evb: "ev \<notin> set b" using one_keyD [of h b ev] Cons.prems(2) by auto
    then have ev: "ev \<in> set (concat bs)" using Cons.prems(3) by simp
    then have "kh h (hd b) < kh h ev" using bins_ok_key [OF Cons.prems(2)] by blast
    then have fb: "find_bin h ev x (nextBin (h x)) = find_bin h ev (hd b) (nextBin (h (hd b)))"
      using b by (subst find_bin.simps) simp
    obtain prev c p h' where IH: "find_bin h ev (hd b) (nextBin (h (hd b))) = Some (prev, Some c)"
      "kh h c = kh h ev" "removeItem h ev c = Some (Inr (p, h'))" "prev \<in> insert (hd b) (set (concat bs))"
      and h2': "bins_at (rem_heap h' prev p) (nextBin (rem_heap h' prev p (hd b))) (rem_bins h ev bs)"
        "same_events h (rem_heap h' prev p)"
        "\<And>y. y \<notin> insert (hd b) (set (concat bs)) \<Longrightarrow> rem_heap h' prev p y = h y"
        "nextInBin (rem_heap h' prev p (hd b)) = nextInBin (h (hd b))"
      using Cons.IH [OF b(4) ok(1) ev hb(1)] by blast
    define h2 where "h2 = rem_heap h' prev p"
    note h2 = h2' [folded h2_def]
    have "nextInBin (h2 y) = nextInBin (h y)" if "y \<in> set b" for y
    proof (cases "y = hd b")
      case False
      moreover have "y \<notin> set (concat bs)" using that dist by blast
      ultimately show ?thesis using h2(3) [of y] by simp
    qed (use h2(4) in simp)
    then have "in_bin h2 b" using in_bin_cong b(2) by blast
    moreover have xh: "h2 x = h x" using h2(3) [of x] x hb(2) by auto
    ultimately have "bins_at h2 (nextBin (h2 x)) (rem_bins h ev (b # bs))"
      using False b h2(1) by simp
    moreover have "h2 y = h y" if "y \<notin> insert x (set (concat (b # bs)))" for y
      using h2(3) [of y] that hb(2) by auto
    moreover have "prev \<in> insert x (set (concat (b # bs)))" using IH(4) hb(2) by auto
    ultimately show ?thesis
      unfolding fb using IH(1-3) h2(2) xh
      by (intro exI [of _ prev] exI [of _ c] exI [of _ p] exI [of _ h']) (simp flip: h2_def)
  qed
qed simp

lemma eq_remove_bins:
  assumes "eq_bins q bs" "ev \<in> set (concat bs)" "ev_queue (eq_heap q ev) = Some (eq_self q)"
  shows "\<exists>q'. eq_remove ev q = Some (Inr q') \<and> eq_bins q' (rem_bins (eq_heap q) ev bs) \<and>
    same_events (eq_heap q) (eq_heap q') \<and> eq_curTick q' = eq_curTick q \<and> eq_async q' = eq_async q \<and>
    eq_self q' = eq_self q \<and> eq_freed q' = eq_freed q"
proof -
  let ?h = "eq_heap q"
  have at: "bins_at ?h (eq_head q) bs" and ok: "bins_ok ?h bs" using assms(1) by (auto simp: eq_bins_def)
  have ok': "bins_ok h' (rem_bins ?h ev bs)" if "same_events ?h h'" for h'
    using bins_ok_cong [of "rem_bins ?h ev bs" h' ?h] same_events_kh [OF that]
      rem_bins_ok [OF ok] bins_ok_ne by blast
  obtain b cs where bs: "bs = b # cs" using assms(2) by (cases bs) auto
  have b: "in_bin ?h b" "eq_head q = Some (hd b)" "bins_at ?h (nextBin (?h (hd b))) cs" "b \<noteq> []"
    using at bs in_bin_ne by auto
  have okb: "bins_ok ?h (b # cs)" using ok bs by simp
  note hb = bins_ok_hd_fresh [OF okb]
  show ?thesis
  proof (cases "kh ?h (hd b) = kh ?h ev")
    case True
    then have ev: "ev \<in> set b" using assms(2) bs bins_ok_key [OF okb, of ev] by auto
    obtain p h' where p: "removeItem ?h ev (hd b) = Some (Inr (p, h'))"
      "rest_at h' p (remove1 ev b) (nextBin (?h (hd b)))" "\<And>y. y \<notin> set b \<Longrightarrow> h' y = ?h y" "same_events ?h h'"
      using removeItem_found [OF b(1) ev] okb by auto
    have "h' y = ?h y" if "y \<in> set (concat cs)" for y
      using p(3) that bins_ok_distinct [OF okb] by auto
    then have "bins_at h' (nextBin (?h (hd b))) cs" using bins_at_cong [of cs h' ?h] b(3) by simp
    then have "bins_at h' p (rem_bins ?h ev bs)" using bins_at_rest [OF p(2)] True bs by simp
    moreover have "eq_remove ev q = Some (Inr (q\<lparr>eq_heap := h', eq_head := p\<rparr>))"
      using b(2) assms(3) True p(1) by (simp add: eq_remove_def Let_def retO_def)
    ultimately show ?thesis using ok' p(4) by (auto simp: eq_bins_def)
  next
    case False
    then have "ev \<notin> set b" using one_keyD [of ?h b ev] okb by auto
    then have ev: "ev \<in> set (concat cs)" using assms(2) bs by simp
    have okc: "bins_ok ?h cs" using okb by simp
    obtain prev c p h' where r: "find_bin ?h ev (hd b) (nextBin (?h (hd b))) = Some (prev, Some c)"
      "kh ?h c = kh ?h ev" "removeItem ?h ev c = Some (Inr (p, h'))"
      and h2': "bins_at (rem_heap h' prev p) (nextBin (rem_heap h' prev p (hd b))) (rem_bins ?h ev cs)"
        "same_events ?h (rem_heap h' prev p)"
        "\<And>y. y \<notin> insert (hd b) (set (concat cs)) \<Longrightarrow> rem_heap h' prev p y = ?h y"
        "nextInBin (rem_heap h' prev p (hd b)) = nextInBin (?h (hd b))"
      using find_bin_remove [OF b(3) okc ev hb(1)] by blast
    define h2 where "h2 = rem_heap h' prev p"
    note h2 = h2' [folded h2_def]
    have dist: "set b \<inter> set (concat cs) = {}" using bins_ok_distinct [OF okb] by auto
    have "nextInBin (h2 y) = nextInBin (?h y)" if "y \<in> set b" for y
    proof (cases "y = hd b")
      case False
      moreover have "y \<notin> set (concat cs)" using that dist by blast
      ultimately show ?thesis using h2(3) [of y] by simp
    qed (use h2(4) in simp)
    then have "in_bin h2 b" using in_bin_cong b(1) by blast
    then have "bins_at h2 (Some (hd b)) (rem_bins ?h ev bs)" using bs False h2(1) by simp
    moreover have "eq_remove ev q = Some (Inr (q\<lparr>eq_heap := h2\<rparr>))"
      using b(2) assms(3) False r(1-3) by (simp add: eq_remove_def Let_def retO_def h2_def rem_heap_def)
    ultimately show ?thesis using ok' h2(2) b(2) by (auto simp: eq_bins_def)
  qed
qed

section \<open>The queue as a sorted list\<close>

text \<open>
  \<open>eq_inv q xs\<close>: the store represents the list \<open>xs\<close> in service order, exactly the
  events of \<open>xs\<close> and of the asynchronous list carry the \<^verbatim>\<open>Scheduled\<close> flag, they
  are initialised and belong to this queue, and none lies in the past.
\<close>

definition eq_inv :: "eventq \<Rightarrow> event_ptr list \<Rightarrow> bool" where
  "eq_inv q xs \<longleftrightarrow> eq_repr q xs \<and> distinct (xs @ eq_async q) \<and>
     (\<forall>x. ev_scheduled (eq_heap q x) \<longleftrightarrow> x \<in> set (xs @ eq_async q)) \<and>
     (\<forall>x \<in> set (xs @ eq_async q). ev_initialized (eq_heap q x) \<and> ev_queue (eq_heap q x) = Some (eq_self q) \<and>
        eq_curTick q \<le> ev_when (eq_heap q x))"

lemma eq_repr_sorted: "eq_repr q xs \<Longrightarrow> sorted (map (kh (eq_heap q)) xs) \<and> distinct xs"
  by (auto simp: eq_repr_def eq_bins_def bins_ok_sorted bins_ok_distinct)

lemma eq_insert_repr:
  assumes "eq_repr q xs" "ev \<notin> set xs"
  obtains q' where "eq_insert ev q = Some q'" "eq_repr q' (insort_key (kh (eq_heap q)) ev xs)"
    "same_events (eq_heap q) (eq_heap q')" "eq_curTick q' = eq_curTick q" "eq_async q' = eq_async q"
    "eq_self q' = eq_self q" "eq_freed q' = eq_freed q"
proof -
  obtain bs where bs: "eq_bins q bs" "xs = concat bs" using assms(1) by (auto simp: eq_repr_def)
  have "concat (ins_bins (eq_heap q) ev bs) = insort_key (kh (eq_heap q)) ev xs"
    using ins_bins_concat bs by (simp add: eq_bins_def)
  then show thesis
    using eq_insert_bins [OF bs(1), of ev] assms(2) bs(2) that by (metis eq_repr_def)
qed

lemma eq_remove_repr:
  assumes "eq_repr q xs" "ev \<in> set xs" "ev_queue (eq_heap q ev) = Some (eq_self q)"
  obtains q' where "eq_remove ev q = Some (Inr q')" "eq_repr q' (remove1 ev xs)"
    "same_events (eq_heap q) (eq_heap q')" "eq_curTick q' = eq_curTick q" "eq_async q' = eq_async q"
    "eq_self q' = eq_self q" "eq_freed q' = eq_freed q"
proof -
  obtain bs where bs: "eq_bins q bs" "xs = concat bs" using assms(1) by (auto simp: eq_repr_def)
  have "concat (rem_bins (eq_heap q) ev bs) = remove1 ev xs"
    using rem_bins_concat [of "eq_heap q" bs ev] bs assms(2) by (simp add: eq_bins_def)
  then show thesis
    using eq_remove_bins [OF bs(1), of ev] assms(2,3) bs(2) that by (metis eq_repr_def)
qed

lemma eq_repr_cong:
  assumes "eq_repr q xs" "eq_head q' = eq_head q"
    "\<And>x. x \<in> set xs \<Longrightarrow> nextBin (eq_heap q' x) = nextBin (eq_heap q x) \<and>
       nextInBin (eq_heap q' x) = nextInBin (eq_heap q x) \<and> kh (eq_heap q') x = kh (eq_heap q) x"
  shows "eq_repr q' xs"
proof -
  obtain bs where bs: "bins_at (eq_heap q) (eq_head q) bs" "bins_ok (eq_heap q) bs" "xs = concat bs"
    using assms(1) by (auto simp: eq_repr_def eq_bins_def)
  have "bins_at (eq_heap q') (eq_head q) bs"
    using bs assms(3) bins_at_cong [of bs "eq_heap q'" "eq_heap q"] by auto
  moreover have "bins_ok (eq_heap q') bs"
    using bs assms(3) bins_ok_cong [of bs "eq_heap q'" "eq_heap q"] bins_ok_ne by blast
  ultimately show ?thesis using bs(3) assms(2) by (auto simp: eq_repr_def eq_bins_def)
qed

lemma upd_event_simps [simp]:
  "eq_heap (upd_event p f q) x = (if x = p then f (eq_heap q p) else eq_heap q x)"
  "eq_head (upd_event p f q) = eq_head q"
  "eq_curTick (upd_event p f q) = eq_curTick q"
  "eq_async (upd_event p f q) = eq_async q"
  "eq_self (upd_event p f q) = eq_self q"
  "eq_freed (upd_event p f q) = eq_freed q"
  by (simp_all add: upd_event_def)

lemma ev_release_simps [simp]:
  "eq_heap (ev_release p q) = eq_heap q" "eq_head (ev_release p q) = eq_head q"
  "eq_curTick (ev_release p q) = eq_curTick q" "eq_async (ev_release p q) = eq_async q"
  "eq_self (ev_release p q) = eq_self q"
  by (simp_all add: ev_release_def)

lemma flag_simps [simp]:
  "nextBin (flag_set f e) = nextBin e" "nextInBin (flag_set f e) = nextInBin e"
  "nextBin (flag_clear f e) = nextBin e" "nextInBin (flag_clear f e) = nextInBin e"
  "ekey (flag_set f e) = ekey e" "ekey (flag_clear f e) = ekey e"
  "ev_when (flag_set f e) = ev_when e" "ev_when (flag_clear f e) = ev_when e"
  "ev_queue (flag_set f e) = ev_queue e" "ev_queue (flag_clear f e) = ev_queue e"
  "ev_priority (flag_set f e) = ev_priority e" "ev_priority (flag_clear f e) = ev_priority e"
  by (simp_all add: flag_set_def flag_clear_def ekey_def)

lemma setWhen_simps [simp]:
  "nextBin (setWhen t s e) = nextBin e" "nextInBin (setWhen t s e) = nextInBin e"
  "ev_when (setWhen t s e) = t" "ev_queue (setWhen t s e) = Some s" "ev_flags (setWhen t s e) = ev_flags e"
  "ev_priority (setWhen t s e) = ev_priority e" "ev_initialized (setWhen t s e) = ev_initialized e"
  by (simp_all add: setWhen_def ev_initialized_def)

lemma flag_isSet_eq: "flag_isSet f e \<longleftrightarrow> (\<exists>i. bit (ev_flags e) i \<and> bit f i)"
proof -
  have "ev_flags e AND f \<noteq> 0 \<longleftrightarrow> (\<exists>i. bit (ev_flags e AND f) i)"
    by (metis bit_0_eq bit_eqI bot_apply bot_bool_def)
  then show ?thesis by (simp add: flag_isSet_def bit_and_iff)
qed

lemma flag_bits [simp]:
  "bit Scheduled i \<longleftrightarrow> i = 1" "bit Squashed i \<longleftrightarrow> i = 0"
  by (auto simp: Scheduled_def Squashed_def bit_1_iff bit_2_iff)

lemma bit_InitMask: "bit InitMask i \<Longrightarrow> i \<noteq> 0 \<and> i \<noteq> 1"
proof -
  have "\<not> bit InitMask 0" "\<not> bit InitMask 1" by code_simp+
  then show "bit InitMask i \<Longrightarrow> i \<noteq> 0 \<and> i \<noteq> 1" by metis
qed

lemma scheduled_iff [simp]: "ev_scheduled e \<longleftrightarrow> bit (ev_flags e) 1"
  by (simp add: ev_scheduled_def flag_isSet_eq)

lemma squashed_iff [simp]: "ev_squashed e \<longleftrightarrow> bit (ev_flags e) 0"
  by (simp add: ev_squashed_def flag_isSet_eq)

lemma flag_bit_update [simp]:
  "bit (ev_flags (flag_set f e)) i \<longleftrightarrow> bit (ev_flags e) i \<or> bit f i"
  "bit (ev_flags (flag_clear f e)) i \<longleftrightarrow> bit (ev_flags e) i \<and> \<not> bit f i"
  using bit_imp_le_length [of "ev_flags e" i]
  by (auto simp: flag_set_def flag_clear_def bit_simps)

lemma initialized_update [simp]:
  "ev_initialized (flag_set Scheduled e) = ev_initialized e"
  "ev_initialized (flag_clear Scheduled e) = ev_initialized e"
  "ev_initialized (flag_clear Squashed e) = ev_initialized e"
proof -
  have "ev_flags (flag_set Scheduled e) AND InitMask = ev_flags e AND InitMask"
    "ev_flags (flag_clear Scheduled e) AND InitMask = ev_flags e AND InitMask"
    "ev_flags (flag_clear Squashed e) AND InitMask = ev_flags e AND InitMask"
    by (rule bit_word_eqI, auto simp: bit_and_iff dest: bit_InitMask)+
  then show "ev_initialized (flag_set Scheduled e) = ev_initialized e"
    "ev_initialized (flag_clear Scheduled e) = ev_initialized e"
    "ev_initialized (flag_clear Squashed e) = ev_initialized e"
    by (simp_all add: ev_initialized_def)
qed

lemma same_events_flags:
  assumes "same_events h h'"
  shows "ev_flags (h' x) = ev_flags (h x)" "ev_when (h' x) = ev_when (h x)" "ev_queue (h' x) = ev_queue (h x)"
    "ev_initialized (h' x) = ev_initialized (h x)"
  using assms by (auto simp: same_events_def ev_initialized_def)

lemma insort_key_cong:
  assumes "\<And>x. x \<in> set (ev # xs) \<Longrightarrow> f x = g x"
  shows "insort_key f ev xs = insort_key g ev xs"
  using assms by (induction xs) auto

lemma eq_invD:
  assumes "eq_inv q xs"
  shows "eq_repr q xs" "distinct xs" "distinct (eq_async q)" "set xs \<inter> set (eq_async q) = {}"
    "bit (ev_flags (eq_heap q x)) 1 \<longleftrightarrow> x \<in> set xs \<or> x \<in> set (eq_async q)"
    "x \<in> set xs \<or> x \<in> set (eq_async q) \<Longrightarrow> ev_initialized (eq_heap q x)"
    "x \<in> set xs \<or> x \<in> set (eq_async q) \<Longrightarrow> ev_queue (eq_heap q x) = Some (eq_self q)"
    "x \<in> set xs \<or> x \<in> set (eq_async q) \<Longrightarrow> eq_curTick q \<le> ev_when (eq_heap q x)"
  using assms by (simp_all add: eq_inv_def)

lemma eq_invI:
  assumes "eq_repr q xs" "distinct xs" "distinct (eq_async q)" "set xs \<inter> set (eq_async q) = {}"
    "\<And>x. bit (ev_flags (eq_heap q x)) 1 \<longleftrightarrow> x \<in> set xs \<or> x \<in> set (eq_async q)"
    "\<And>x. x \<in> set xs \<or> x \<in> set (eq_async q) \<Longrightarrow> ev_initialized (eq_heap q x) \<and>
       ev_queue (eq_heap q x) = Some (eq_self q) \<and> eq_curTick q \<le> ev_when (eq_heap q x)"
  shows "eq_inv q xs"
  using assms by (simp add: eq_inv_def)

text \<open>The effect of the four public operations on the list of events in service order.\<close>

lemma schedule_effect:
  assumes "eq_inv q xs" "eq_curTick q \<le> t" "\<not> ev_scheduled (eq_heap q ev)" "ev_initialized (eq_heap q ev)"
    "\<not> (par \<and> (\<not> isCur \<or> glob))"
  shows "\<exists>q'. eq_schedule par isCur glob ev t q = Some (Inr q') \<and>
    eq_inv q' (insort_key (kh (eq_heap q')) ev xs) \<and> eq_curTick q' = eq_curTick q \<and>
    eq_async q' = eq_async q \<and> ev_when (eq_heap q' ev) = t"
proof -
  let ?q = "upd_event ev (setWhen t (eq_self q)) q"
  note inv = eq_invD [OF assms(1)]
  have fresh: "ev \<notin> set xs" "ev \<notin> set (eq_async q)" using inv(5) [of ev] assms(3) by auto
  have "eq_repr ?q xs"
  proof (rule eq_repr_cong [OF inv(1)])
    fix x
    assume "x \<in> set xs"
    then have "x \<noteq> ev" using fresh by blast
    then show "nextBin (eq_heap ?q x) = nextBin (eq_heap q x) \<and> nextInBin (eq_heap ?q x) = nextInBin (eq_heap q x) \<and>
        kh (eq_heap ?q) x = kh (eq_heap q) x" by simp
  qed simp
  then obtain q1 where q1: "eq_insert ev ?q = Some q1" "eq_repr q1 (insort_key (kh (eq_heap ?q)) ev xs)"
    "same_events (eq_heap ?q) (eq_heap q1)" "eq_curTick q1 = eq_curTick q" "eq_async q1 = eq_async q"
    "eq_self q1 = eq_self q"
    using fresh eq_insert_repr [of ?q xs ev] by auto
  let ?q' = "upd_event ev (flag_set Scheduled) q1"
  note same = same_events_flags [OF q1(3)] same_events_kh [OF q1(3)]
  have key: "insort_key (kh (eq_heap ?q')) ev xs = insort_key (kh (eq_heap ?q)) ev xs"
    by (rule insort_key_cong) (auto simp: same(5))
  have "eq_repr ?q' (insort_key (kh (eq_heap ?q)) ev xs)"
    by (rule eq_repr_cong [OF q1(2)]) auto
  moreover have "eq_schedule par isCur glob ev t q = Some (Inr ?q')"
    using assms(2-5) q1(1) by (auto simp: eq_schedule_def Let_def liftO_def retO_def)
  moreover have "eq_inv ?q' (insort_key (kh (eq_heap ?q)) ev xs)"
  proof (rule eq_invI)
    show "eq_repr ?q' (insort_key (kh (eq_heap ?q)) ev xs)" by fact
    fix x
    show "bit (ev_flags (eq_heap ?q' x)) 1 \<longleftrightarrow> x \<in> set (insort_key (kh (eq_heap ?q)) ev xs) \<or> x \<in> set (eq_async ?q')"
      using inv(5) [of x] q1(5) by (auto simp: same(1) set_insort_key)
    assume "x \<in> set (insort_key (kh (eq_heap ?q)) ev xs) \<or> x \<in> set (eq_async ?q')"
    then show "ev_initialized (eq_heap ?q' x) \<and> ev_queue (eq_heap ?q' x) = Some (eq_self ?q') \<and>
        eq_curTick ?q' \<le> ev_when (eq_heap ?q' x)"
      using inv(6-8) [of x] q1(4-6) assms(2,4) by (auto simp: same(2,3,4) set_insort_key)
  qed (use inv(2-4) fresh q1(5) in \<open>auto simp: distinct_insort set_insort_key\<close>)
  ultimately show ?thesis using key q1(4,5) same(2) [of ev] by simp
qed

lemma deschedule_effect:
  assumes "eq_inv q xs" "ev \<in> set xs" "\<not> par \<or> isCur"
  shows "\<exists>q'. eq_deschedule par isCur ev q = Some (Inr q') \<and> eq_inv q' (remove1 ev xs) \<and>
    eq_curTick q' = eq_curTick q \<and> eq_async q' = eq_async q \<and>
    (\<forall>x. kh (eq_heap q') x = kh (eq_heap q) x)"
proof -
  note inv = eq_invD [OF assms(1)]
  have ev: "ev_scheduled (eq_heap q ev)" "ev_initialized (eq_heap q ev)" "ev_queue (eq_heap q ev) = Some (eq_self q)"
    using assms(2) inv(5-7) [of ev] by auto
  then obtain q1 where q1: "eq_remove ev q = Some (Inr q1)" "eq_repr q1 (remove1 ev xs)"
    "same_events (eq_heap q) (eq_heap q1)" "eq_curTick q1 = eq_curTick q" "eq_async q1 = eq_async q"
    "eq_self q1 = eq_self q"
    using eq_remove_repr [OF inv(1) assms(2)] by metis
  note same = same_events_flags [OF q1(3)] same_events_kh [OF q1(3)]
  let ?q' = "ev_release ev (upd_event ev (flag_clear Scheduled) (upd_event ev (flag_clear Squashed) q1))"
  have "eq_repr ?q' (remove1 ev xs)" by (rule eq_repr_cong [OF q1(2)]) auto
  moreover have "eq_deschedule par isCur ev q = Some (Inr ?q')"
    using ev q1(1) assms(3) by (simp add: eq_deschedule_def retO_def)
  moreover have "eq_inv ?q' (remove1 ev xs)"
  proof (rule eq_invI)
    have rem: "set (remove1 ev xs) = set xs - {ev}" "ev \<notin> set (eq_async q)"
      using inv(2,4) assms(2) by auto
    show "eq_repr ?q' (remove1 ev xs)" by fact
    fix x
    show "bit (ev_flags (eq_heap ?q' x)) 1 \<longleftrightarrow> x \<in> set (remove1 ev xs) \<or> x \<in> set (eq_async ?q')"
      using inv(5) [of x] q1(5) rem by (auto simp: same(1))
    assume "x \<in> set (remove1 ev xs) \<or> x \<in> set (eq_async ?q')"
    then show "ev_initialized (eq_heap ?q' x) \<and> ev_queue (eq_heap ?q' x) = Some (eq_self ?q') \<and>
        eq_curTick ?q' \<le> ev_when (eq_heap ?q' x)"
      using inv(6-8) [of x] q1(4-6) rem by (auto simp: same(2,3,4))
  qed (use inv(2-4) q1(5) in \<open>auto dest: notin_set_remove1\<close>)
  ultimately show ?thesis using q1(4,5) by (simp add: same(5))
qed

lemma reschedule_effect:
  assumes "eq_inv q xs" "eq_curTick q \<le> t" "ev_initialized (eq_heap q ev)" "ev \<notin> set (eq_async q)"
    "always \<or> ev \<in> set xs" "\<not> par \<or> isCur"
  shows "\<exists>q'. eq_reschedule par isCur ev t always q = Some (Inr q') \<and>
    eq_inv q' (insort_key (kh (eq_heap q')) ev (remove1 ev xs)) \<and> eq_curTick q' = eq_curTick q \<and>
    eq_async q' = eq_async q \<and> ev_when (eq_heap q' ev) = t"
proof -
  note inv = eq_invD [OF assms(1)]
  have sched: "ev_scheduled (eq_heap q ev) \<longleftrightarrow> ev \<in> set xs" using inv(5) [of ev] assms(4) by auto
  have ex: "\<exists>q1. (if ev_scheduled (eq_heap q ev) then eq_remove ev q else retO q) = Some (Inr q1) \<and>
    eq_repr q1 (remove1 ev xs) \<and> same_events (eq_heap q) (eq_heap q1) \<and> eq_curTick q1 = eq_curTick q \<and>
    eq_async q1 = eq_async q \<and> eq_self q1 = eq_self q"
  proof (cases "ev \<in> set xs")
    case True
    then show ?thesis using eq_remove_repr [OF inv(1) True] inv(7) [of ev] sched by (metis (full_types))
  next
    case False
    then show ?thesis using inv(1) sched by (auto simp: remove1_idem same_events_refl retO_def)
  qed
  then obtain q1 where q1: "(if ev_scheduled (eq_heap q ev) then eq_remove ev q else retO q) = Some (Inr q1)"
    "eq_repr q1 (remove1 ev xs)" "same_events (eq_heap q) (eq_heap q1)" "eq_curTick q1 = eq_curTick q"
    "eq_async q1 = eq_async q" "eq_self q1 = eq_self q"
    by blast
  let ?q = "upd_event ev (setWhen t (eq_self q1)) q1"
  have rem: "set (remove1 ev xs) = set xs - {ev}" using inv(2) by simp
  have "eq_repr ?q (remove1 ev xs)"
    by (rule eq_repr_cong [OF q1(2)]) (auto simp: rem)
  then obtain q2 where q2: "eq_insert ev ?q = Some q2" "eq_repr q2 (insort_key (kh (eq_heap ?q)) ev (remove1 ev xs))"
    "same_events (eq_heap ?q) (eq_heap q2)" "eq_curTick q2 = eq_curTick q" "eq_async q2 = eq_async q"
    "eq_self q2 = eq_self q"
    using eq_insert_repr [of ?q "remove1 ev xs" ev] q1(4-6) rem by auto
  let ?q' = "upd_event ev (flag_set Scheduled) (upd_event ev (flag_clear Squashed) q2)"
  let ?ys = "insort_key (kh (eq_heap ?q)) ev (remove1 ev xs)"
  note same1 = same_events_flags [OF q1(3)] note same2 = same_events_flags [OF q2(3)]
  have set_ys: "set ?ys = insert ev (set xs)" using rem by (auto simp: set_insort_key)
  have key: "insort_key (kh (eq_heap ?q')) ev (remove1 ev xs) = ?ys"
    by (rule insort_key_cong) (auto simp: same_events_kh [OF q2(3)])
  have "eq_inv ?q' ?ys"
  proof (rule eq_invI)
    show "eq_repr ?q' ?ys" by (rule eq_repr_cong [OF q2(2)]) auto
    fix x
    show "bit (ev_flags (eq_heap ?q' x)) 1 \<longleftrightarrow> x \<in> set ?ys \<or> x \<in> set (eq_async ?q')"
      using inv(5) [of x] q2(5) unfolding set_ys by (auto simp: same1(1) same2(1))
    assume "x \<in> set ?ys \<or> x \<in> set (eq_async ?q')"
    then show "ev_initialized (eq_heap ?q' x) \<and> ev_queue (eq_heap ?q' x) = Some (eq_self ?q') \<and>
        eq_curTick ?q' \<le> ev_when (eq_heap ?q' x)"
      using inv(6-8) [of x] q2(4-6) q1(6) assms(2,3) unfolding set_ys
      by (auto simp: same1(2-4) same2(2-4))
  qed (use inv(2-4) q2(5) assms(4) rem in \<open>auto simp: distinct_insort set_insort_key\<close>)
  moreover have "eq_reschedule par isCur ev t always q = Some (Inr ?q')"
    using assms(2,3,5,6) q1(1) q2(1) sched by (auto simp: eq_reschedule_def liftO_def retO_def)
  ultimately show ?thesis using key q2(4,5) same2(2) [of ev] by simp
qed

lemma pop_head_effect:
  assumes "eq_inv q (x # xs)"
  shows "eq_head q = Some x" "eq_inv (pop_head x q) xs" "\<forall>y. kh (eq_heap (pop_head x q)) y = kh (eq_heap q) y"
    "eq_curTick (pop_head x q) = eq_curTick q" "eq_async (pop_head x q) = eq_async q"
    "ev_squashed (eq_heap (pop_head x q) x) = ev_squashed (eq_heap q x)"
    "\<forall>y. ev_when (eq_heap (pop_head x q) y) = ev_when (eq_heap q y)"
proof -
  note inv = eq_invD [OF assms]
  obtain bs where bs: "bins_at (eq_heap q) (eq_head q) bs" "bins_ok (eq_heap q) bs" "x # xs = concat bs"
    using inv(1) by (auto simp: eq_repr_def eq_bins_def)
  then obtain b cs where b: "bs = b # cs" by (cases bs) auto
  then obtain ys where ys: "b = x # ys" "xs = ys @ concat cs"
    using bs by (cases b) auto
  show hd: "eq_head q = Some x" using bs b ys by simp
  let ?q = "pop_head x q" let ?h = "eq_heap ?q"
  have h: "?h y = (if y = x then flag_clear Scheduled (eq_heap q x)
      else if ys \<noteq> [] \<and> y = hd ys then (eq_heap q y)\<lparr>nextBin := nextBin (eq_heap q x)\<rparr> else eq_heap q y)" for y
    using bs(1) b ys inv(2)
    by (cases ys) (auto simp: pop_head_def Let_def)
  have dist: "x \<notin> set ys" "x \<notin> set (concat cs)" "set ys \<inter> set (concat cs) = {}" "distinct ys" "x \<notin> set xs"
    using inv(2) ys by auto
  have at: "bins_at (eq_heap q) (nextBin (eq_heap q x)) cs" "in_bin (eq_heap q) (x # ys)"
    using bs(1) b ys by auto
  have "?h y = eq_heap q y" if "y \<in> set (concat cs)" for y
  proof -
    have "y \<noteq> x" "y \<notin> set ys" using that dist by auto
    then show ?thesis by (auto simp: h)
  qed
  then have cs: "bins_at ?h (nextBin (eq_heap q x)) cs" using at(1) bins_at_cong [of cs ?h "eq_heap q"] by simp
  show kh: "\<forall>y. kh ?h y = kh (eq_heap q) y" by (simp add: h)
  have head: "eq_head ?q = (if ys = [] then nextBin (eq_heap q x) else Some (hd ys))"
    using at(2) by (cases ys) (auto simp: pop_head_def Let_def)
  have ok: "bins_ok ?h bs" using bs(2) bins_ok_cong [of bs ?h "eq_heap q"] kh bins_ok_ne by blast
  have "eq_repr ?q xs"
  proof (cases ys)
    case Nil
    then show ?thesis
      using cs ok head b ys unfolding eq_repr_def eq_bins_def by (intro exI [of _ cs]) simp
  next
    case (Cons z zs)
    have "nextInBin (?h y) = nextInBin (eq_heap q y)" for y by (simp add: h)
    then have "in_bin ?h ys = in_bin (eq_heap q) ys" by (intro in_bin_cong)
    then have "in_bin ?h ys" using at(2) Cons by simp
    then have "bins_at ?h (eq_head ?q) (ys # cs)" using cs head Cons dist(1) by (auto simp: h)
    moreover have "bins_ok ?h (ys # cs)"
    proof -
      have ok': "one_key ?h (x # ys)" "\<forall>c \<in> set cs. kh ?h x < kh ?h (hd c)" "bins_ok ?h cs"
        using ok b ys by simp_all
      then have z: "kh ?h y = kh ?h x" if "y \<in> set ys" for y using one_keyD [of ?h "x # ys" y] that by simp
      then have "one_key ?h ys" using Cons unfolding one_key_def by simp
      moreover have "kh ?h (hd ys) = kh ?h x" using z Cons by simp
      ultimately show ?thesis using ok' dist(4) Cons by simp
    qed
    ultimately show ?thesis
      using ys unfolding eq_repr_def eq_bins_def by (intro exI [of _ "ys # cs"]) simp
  qed
  moreover have other: "eq_async ?q = eq_async q" "eq_self ?q = eq_self q" "eq_curTick ?q = eq_curTick q"
    by (auto simp: pop_head_def Let_def split: option.splits)
  ultimately show "eq_inv ?q xs"
  proof (intro eq_invI)
    fix y
    show "bit (ev_flags (?h y)) 1 \<longleftrightarrow> y \<in> set xs \<or> y \<in> set (eq_async ?q)"
      using inv(4) inv(5) [of y] dist(5) other by (auto simp: h)
    assume y: "y \<in> set xs \<or> y \<in> set (eq_async ?q)"
    then have "y \<noteq> x" using dist(5) inv(4) other(1) by auto
    with y show "ev_initialized (?h y) \<and> ev_queue (?h y) = Some (eq_self ?q) \<and> eq_curTick ?q \<le> ev_when (?h y)"
      using inv(6-8) [of y] other by (auto simp: h ev_initialized_def)
  qed (use inv(2-4) other in auto)
  show "eq_curTick ?q = eq_curTick q" "eq_async ?q = eq_async q" using other by simp_all
  show "ev_squashed (?h x) = ev_squashed (eq_heap q x)" "\<forall>y. ev_when (?h y) = ev_when (eq_heap q y)"
    by (simp_all add: h)
qed

lemma eq_inv_setTick:
  "eq_inv q xs \<Longrightarrow> eq_async q = [] \<Longrightarrow> \<forall>x \<in> set xs. t \<le> ev_when (eq_heap q x) \<Longrightarrow> eq_inv (q\<lparr>eq_curTick := t\<rparr>) xs"
  using eq_repr_cong [of q xs "q\<lparr>eq_curTick := t\<rparr>"] by (simp add: eq_inv_def)

lemma eq_inv_release: "eq_inv q xs \<Longrightarrow> eq_inv (ev_release ev q) xs"
  using eq_repr_cong [of q xs "ev_release ev q"] by (simp add: eq_inv_def)

lemma eq_inv_unsquash: "eq_inv q xs \<Longrightarrow> eq_inv (upd_event ev (flag_clear Squashed) q) xs"
  using eq_repr_cong [of q xs "upd_event ev (flag_clear Squashed) q"] by (simp add: eq_inv_def)

lemma head_minimal:
  assumes "eq_inv q (x # xs)" "y \<in> set xs"
  shows "ekey (eq_heap q x) \<le> ekey (eq_heap q y)" "ev_when (eq_heap q x) \<le> ev_when (eq_heap q y)"
proof -
  show le: "ekey (eq_heap q x) \<le> ekey (eq_heap q y)"
    using eq_repr_sorted [OF eq_invD(1) [OF assms(1)]] assms(2) by simp
  then show "ev_when (eq_heap q x) \<le> ev_when (eq_heap q y)"
    by (auto simp: ekey_def word_le_nat_alt)
qed

section \<open>Properties of the operations\<close>

text \<open>C3: \<^verbatim>\<open>EventQueue::schedule\<close> on a well-formed queue terminates, fails no assertion,
  keeps the queue well-formed, and inserts the event at its place in the service order: before
  all events of the same time and priority, after all earlier ones, moving no other event.\<close>

theorem schedule_refines:
  assumes "eq_inv q xs" "eq_curTick q \<le> t" "\<not> ev_scheduled (eq_heap q ev)" "ev_initialized (eq_heap q ev)"
  shows "\<exists>q'. eq_schedule False True False ev t q = Some (Inr q') \<and>
    eq_inv q' (insort_key (\<lambda>x. ekey (eq_heap q' x)) ev xs) \<and> eq_curTick q' = eq_curTick q \<and>
    ev_when (eq_heap q' ev) = t"
  using schedule_effect [OF assms] by blast

definition ex_event :: "tick \<Rightarrow> int \<Rightarrow> event" where
  "ex_event t p = \<lparr>nextBin = None, nextInBin = None, ev_when = t, ev_priority = p,
     ev_flags = Initialized, ev_queue = None\<rparr>"

definition ex_eventq :: eventq where
  "ex_eventq = \<lparr>eq_heap = (\<lambda>_. ex_event 0 0), eq_head = None, eq_curTick = 5, eq_async = [],
     eq_self = 0, eq_freed = []\<rparr>"

lemma ex_event_props:
  "\<not> bit (ev_flags (ex_event t p)) 1" "ev_initialized (ex_event t p)"
  by (simp_all add: ex_event_def ev_initialized_def) (code_simp+)

lemma ex_eventq_inv: "eq_inv ex_eventq []"
proof (rule eq_invI)
  show "eq_repr ex_eventq []"
    unfolding eq_repr_def eq_bins_def by (intro exI [of _ "[]"]) (simp add: ex_eventq_def)
qed (simp_all add: ex_eventq_def ex_event_props [simplified])

theorem schedule_refines_witness:
  "\<exists>q'. eq_schedule False True False 3 9 ex_eventq = Some (Inr q') \<and> eq_inv q' [3] \<and>
     ev_when (eq_heap q' 3) = 9"
proof -
  have h: "eq_curTick ex_eventq \<le> 9" "\<not> ev_scheduled (eq_heap ex_eventq 3)" "ev_initialized (eq_heap ex_eventq 3)"
    by (simp_all add: ex_eventq_def ex_event_props [simplified])
  show ?thesis using schedule_refines [OF ex_eventq_inv h] by auto
qed

text \<open>\<^verbatim>\<open>EventQueue::deschedule\<close> of a queued event removes exactly that event from the
  service order, whatever its position in its bin, and keeps the queue well-formed.\<close>

lemma deschedule_refines:
  assumes "eq_inv q xs" "ev \<in> set xs"
  shows "\<exists>q'. eq_deschedule False True ev q = Some (Inr q') \<and> eq_inv q' (remove1 ev xs) \<and>
    eq_curTick q' = eq_curTick q"
  using deschedule_effect [OF assms] by blast

lemma deschedule_refines_witness:
  "\<exists>q q'. eq_inv q [3] \<and> eq_deschedule False True 3 q = Some (Inr q') \<and> eq_inv q' []"
proof -
  have h: "eq_curTick ex_eventq \<le> 9" "\<not> ev_scheduled (eq_heap ex_eventq 3)" "ev_initialized (eq_heap ex_eventq 3)"
    by (simp_all add: ex_eventq_def ex_event_props [simplified])
  obtain q where q: "eq_inv q [3]" using schedule_effect [OF ex_eventq_inv h, of False] by auto
  then show ?thesis using deschedule_refines [OF q, of 3] by auto
qed

text \<open>\<^verbatim>\<open>EventQueue::reschedule\<close> moves the event, or inserts it when it was not queued
  and \<^verbatim>\<open>always\<close> is set, and keeps the queue well-formed.\<close>

lemma reschedule_refines:
  assumes "eq_inv q xs" "eq_curTick q \<le> t" "ev_initialized (eq_heap q ev)" "ev \<notin> set (eq_async q)"
    "always \<or> ev \<in> set xs"
  shows "\<exists>q'. eq_reschedule False True ev t always q = Some (Inr q') \<and>
    eq_inv q' (insort_key (\<lambda>x. ekey (eq_heap q' x)) ev (remove1 ev xs)) \<and> ev_when (eq_heap q' ev) = t"
  using reschedule_effect [OF assms] by blast

lemma reschedule_refines_witness:
  "\<exists>q'. eq_reschedule False True 3 7 True ex_eventq = Some (Inr q') \<and> eq_inv q' [3] \<and> ev_when (eq_heap q' 3) = 7"
proof -
  have h: "eq_curTick ex_eventq \<le> 7" "ev_initialized (eq_heap ex_eventq 3)" "3 \<notin> set (eq_async ex_eventq)"
    "True \<or> 3 \<in> set []"
    by (simp_all add: ex_eventq_def ex_event_props [simplified])
  show ?thesis using reschedule_refines [OF ex_eventq_inv h] by auto
qed

text \<open>C2: \<^verbatim>\<open>serviceOne\<close> takes the first event of the service order off the queue, an event
  no other queued event precedes in time and priority; unless it is squashed its handler runs
  exactly once, on a well-formed queue without the event and with the current tick set to the
  time of the event.\<close>

theorem serviceOne_runs_minimum:
  assumes "eq_inv q (x # xs)" "eq_async q = []"
  shows "(\<forall>y \<in> set xs. ekey (eq_heap q x) \<le> ekey (eq_heap q y)) \<and>
    (\<exists>q1. eq_inv q1 xs \<and>
      (if ev_squashed (eq_heap q x)
       then eq_curTick q1 = eq_curTick q \<and> serviceOne process q = Some (Inr (None, q1))
       else eq_curTick q1 = ev_when (eq_heap q x) \<and>
         serviceOne process q = bindO (process x q1) (\<lambda>q2.
           if ev_isExitEvent (eq_heap q2 x)
           then guardO (\<not> flag_isSet Managed (eq_heap q2 x) \<or> \<not> flag_isSet IsMainQueue (eq_heap q2 x))
                  Assert_Failed (retO (Some x, q2))
           else retO (None, ev_release x q2))))"
proof -
  note pop = pop_head_effect [OF assms(1)]
  let ?p = "pop_head x q"
  have min: "\<forall>y \<in> set xs. ekey (eq_heap q x) \<le> ekey (eq_heap q y)" using head_minimal(1) [OF assms(1)] by blast
  have as: "eq_async ?p = []" using pop(5) assms(2) by simp
  show ?thesis
  proof (cases "ev_squashed (eq_heap q x)")
    case True
    let ?q1 = "ev_release x (upd_event x (flag_clear Squashed) ?p)"
    have "serviceOne process q = Some (Inr (None, ?q1))"
      using True pop(1,6) by (simp add: serviceOne_def Let_def retO_def)
    then show ?thesis
      using min True pop(4) eq_inv_release [OF eq_inv_unsquash [OF pop(2)]] by (intro conjI exI [of _ ?q1]) simp_all
  next
    case False
    let ?q1 = "?p\<lparr>eq_curTick := ev_when (eq_heap ?p x)\<rparr>"
    have "eq_inv ?q1 xs"
      using eq_inv_setTick [OF pop(2) as] pop(7) head_minimal(2) [OF assms(1)] by simp
    then show ?thesis
      using min False pop(1,6,7) by (intro conjI exI [of _ ?q1]) (simp_all add: serviceOne_def Let_def)
  qed
qed

theorem serviceOne_runs_minimum_witness:
  "\<exists>q q1. eq_inv q [3] \<and> eq_curTick q1 = 9 \<and> serviceOne (\<lambda>_. retO) q = Some (Inr (None, ev_release 3 q1))"
proof -
  have h: "eq_curTick ex_eventq \<le> 9" "\<not> ev_scheduled (eq_heap ex_eventq 3)" "ev_initialized (eq_heap ex_eventq 3)"
    by (simp_all add: ex_eventq_def ex_event_props [simplified])
  obtain q where q: "eq_schedule False True False 3 9 ex_eventq = Some (Inr q)" "eq_inv q [3]" "eq_async q = []"
      "ev_when (eq_heap q 3) = 9"
    using schedule_effect [OF ex_eventq_inv h, of False] by (auto simp: ex_eventq_def)
  have "case eq_schedule False True False 3 9 ex_eventq of
      Some (Inr q) \<Rightarrow> \<not> ev_squashed (eq_heap q 3) \<and> (case serviceOne (\<lambda>_. retO) q of Some (Inr (None, _)) \<Rightarrow> True | _ \<Rightarrow> False)
    | _ \<Rightarrow> False" by code_simp
  then obtain q' where nsq: "\<not> ev_squashed (eq_heap q 3)" and s: "serviceOne (\<lambda>_. retO) q = Some (Inr (None, q'))"
    using q(1) by (auto split: option.splits sum.splits)
  obtain q1 where q1: "eq_curTick q1 = 9"
    "serviceOne (\<lambda>_. retO) q = (if ev_isExitEvent (eq_heap q1 3)
       then guardO (\<not> flag_isSet Managed (eq_heap q1 3) \<or> \<not> flag_isSet IsMainQueue (eq_heap q1 3))
              Assert_Failed (retO (Some 3, q1))
       else retO (None, ev_release 3 q1))"
    using serviceOne_runs_minimum [OF q(2,3), of "\<lambda>_. retO"] nsq q(4) by auto
  then have "q' = ev_release 3 q1" using s by (simp add: retO_def guardO_def split: if_splits)
  then show ?thesis using q(2) q1(1) s by blast
qed

section \<open>Handlers and the simulation loop\<close>

text \<open>
  An event handler acts on the queue through its public operations. \<open>event_client\<close> is
  what the simulation loop needs of them: they keep the invariant and the current tick.
\<close>

datatype eq_cmd = Schedule event_ptr tick | Deschedule event_ptr | Reschedule event_ptr tick bool

fun exec_cmd :: "eq_cmd \<Rightarrow> eventq \<Rightarrow> eventq run" where
  "exec_cmd (Schedule ev t) q = eq_schedule False True False ev t q"
| "exec_cmd (Deschedule ev) q = eq_deschedule False True ev q"
| "exec_cmd (Reschedule ev t always) q = eq_reschedule False True ev t always q"

fun exec_all :: "('c \<Rightarrow> 'q \<Rightarrow> 'q run) \<Rightarrow> 'c list \<Rightarrow> 'q \<Rightarrow> 'q run" where
  "exec_all ex [] q = retO q"
| "exec_all ex (c # cs) q = bindO (ex c q) (exec_all ex cs)"

definition run_handler :: "(event_ptr \<Rightarrow> eventq \<Rightarrow> eq_cmd list) \<Rightarrow> event_ptr \<Rightarrow> eventq \<Rightarrow> eventq run" where
  "run_handler hdl ev q = exec_all exec_cmd (hdl ev q) q"

locale event_client =
  fixes inv :: "'q \<Rightarrow> bool" and now :: "'q \<Rightarrow> tick" and ex :: "'c \<Rightarrow> 'q \<Rightarrow> 'q run"
  assumes ex_keeps: "\<lbrakk>inv q; ex c q = Some (Inr q')\<rbrakk> \<Longrightarrow> inv q' \<and> now q' = now q"
    and ex_ends: "inv q \<Longrightarrow> ex c q \<noteq> None"
begin

lemma exec_all_keeps:
  assumes "inv q" "exec_all ex cs q = Some (Inr q')"
  shows "inv q' \<and> now q' = now q"
  using assms
proof (induction cs arbitrary: q)
  case (Cons c cs)
  then obtain q1 where "ex c q = Some (Inr q1)" "exec_all ex cs q1 = Some (Inr q')"
    by (auto simp: bindO_Inr_iff)
  then show ?case using Cons ex_keeps by metis
qed simp

lemma exec_all_ends:
  assumes "inv q"
  shows "exec_all ex cs q \<noteq> None"
  using assms
proof (induction cs arbitrary: q)
  case (Cons c cs)
  then show ?case
    using ex_ends [of q c] ex_keeps [of q c] by (auto simp: bindO_def split: option.splits sum.splits)
qed (simp add: retO_def)

end

definition eq_good :: "eventq \<Rightarrow> bool" where
  "eq_good q \<longleftrightarrow> (\<exists>xs. eq_inv q xs) \<and> eq_async q = []"

lemma exec_cmd_good:
  assumes "eq_good q"
  shows "\<exists>r. exec_cmd c q = Some r \<and> (\<forall>q'. r = Inr q' \<longrightarrow> eq_good q' \<and> eq_curTick q' = eq_curTick q)"
proof -
  obtain xs where inv: "eq_inv q xs" and as: "eq_async q = []" using assms by (auto simp: eq_good_def)
  show ?thesis
  proof (cases c)
    case (Schedule ev t)
    show ?thesis
    proof (cases "eq_curTick q \<le> t \<and> \<not> ev_scheduled (eq_heap q ev) \<and> ev_initialized (eq_heap q ev)")
      case True
      then show ?thesis
        using schedule_effect [OF inv, of t ev False True False] Schedule as by (auto simp: eq_good_def)
    next
      case False
      then show ?thesis using Schedule by (auto simp: eq_schedule_def guardO_def simp del: scheduled_iff)
    qed
  next
    case (Deschedule ev)
    show ?thesis
    proof (cases "ev \<in> set xs")
      case True
      then show ?thesis
        using deschedule_effect [OF inv True, of False True] Deschedule as by (auto simp: eq_good_def)
    next
      case False
      then have "\<not> ev_scheduled (eq_heap q ev)" using eq_invD(5) [OF inv, of ev] as by simp
      then show ?thesis using Deschedule by (auto simp: eq_deschedule_def guardO_def simp del: scheduled_iff)
    qed
  next
    case (Reschedule ev t always)
    have sched: "ev_scheduled (eq_heap q ev) \<longleftrightarrow> ev \<in> set xs" using eq_invD(5) [OF inv, of ev] as by simp
    show ?thesis
    proof (cases "eq_curTick q \<le> t \<and> (always \<or> ev \<in> set xs) \<and> ev_initialized (eq_heap q ev)")
      case True
      then show ?thesis
        using reschedule_effect [OF inv, of t ev always False True] Reschedule as by (auto simp: eq_good_def)
    next
      case False
      then show ?thesis
        using Reschedule sched by (auto simp: eq_reschedule_def guardO_def simp del: scheduled_iff)
    qed
  qed
qed

interpretation cmds: event_client eq_good eq_curTick exec_cmd
proof unfold_locales
  show "eq_good q' \<and> eq_curTick q' = eq_curTick q" if "eq_good q" "exec_cmd c q = Some (Inr q')" for q c q'
    using exec_cmd_good [OF that(1), of c] that(2) by auto
  show "exec_cmd c q \<noteq> None" if "eq_good q" for q c using exec_cmd_good [OF that, of c] by auto
qed

lemma head_queued:
  assumes "eq_inv q ys" "eq_head q = Some e"
  shows "e \<in> set ys"
proof -
  obtain bs where bs: "bins_at (eq_heap q) (eq_head q) bs" "bins_ok (eq_heap q) bs" "ys = concat bs"
    using eq_invD(1) [OF assms(1)] by (auto simp: eq_repr_def eq_bins_def)
  then obtain b cs where b: "bs = b # cs" using assms(2) by (cases bs) auto
  then show ?thesis using bs assms(2) bins_ok_hd_fresh(2) [of "eq_heap q" b cs] by auto
qed

definition service_time :: "eventq \<Rightarrow> tick" where
  "service_time q = (case eq_nextTick q of Some t \<Rightarrow> t | None \<Rightarrow> eq_curTick q)"

lemma serviceOne_good:
  assumes "eq_good q" "eq_head q \<noteq> None" "serviceOne (run_handler hdl) q = Some (Inr (r, q'))"
  shows "eq_good q'" "eq_curTick q \<le> eq_curTick q'"
    "ev_squashed (eq_heap q (the (eq_head q))) \<or> eq_curTick q' = service_time q"
proof -
  obtain ys where inv0: "eq_inv q ys" and as: "eq_async q = []" using assms(1) by (auto simp: eq_good_def)
  moreover have "ys \<noteq> []" using assms(2) head_queued [OF inv0] by auto
  ultimately obtain x xs where inv: "eq_inv q (x # xs)" by (cases ys) auto
  note pop = pop_head_effect [OF inv]
  let ?p = "pop_head x q" let ?t = "ev_when (eq_heap q x)"
  have st: "service_time q = ?t" using pop(1) by (simp add: service_time_def eq_nextTick_def)
  have le: "eq_curTick q \<le> ?t" using eq_invD(8) [OF inv, of x] by simp
  show "eq_good q'" "eq_curTick q \<le> eq_curTick q'"
    "ev_squashed (eq_heap q (the (eq_head q))) \<or> eq_curTick q' = service_time q"
  proof (atomize (full), cases "ev_squashed (eq_heap q x)")
    case True
    then have "q' = ev_release x (upd_event x (flag_clear Squashed) ?p)"
      using assms(3) pop(1,6) by (auto simp: serviceOne_def Let_def)
    then show "eq_good q' \<and> eq_curTick q \<le> eq_curTick q' \<and>
        (ev_squashed (eq_heap q (the (eq_head q))) \<or> eq_curTick q' = service_time q)"
      using True pop(1,2,4,5) as eq_inv_release [OF eq_inv_unsquash [OF pop(2)]] by (auto simp: eq_good_def)
  next
    case False
    let ?q = "?p\<lparr>eq_curTick := ev_when (eq_heap ?p x)\<rparr>"
    have "eq_inv ?q xs"
      using eq_inv_setTick [OF pop(2)] as pop(5,7) head_minimal(2) [OF inv] by simp
    then have good: "eq_good ?q" using as pop(5) by (auto simp: eq_good_def)
    obtain q1 where q1: "run_handler hdl x ?q = Some (Inr q1)" "q' = q1 \<or> q' = ev_release x q1"
      using assms(3) pop(1,6) False
      by (auto simp: serviceOne_def Let_def bindO_Inr_iff split: if_splits)
    then have "eq_good q1 \<and> eq_curTick q1 = ?t"
      using cmds.exec_all_keeps [OF good] pop(7) by (auto simp: run_handler_def)
    then show "eq_good q' \<and> eq_curTick q \<le> eq_curTick q' \<and>
        (ev_squashed (eq_heap q (the (eq_head q))) \<or> eq_curTick q' = service_time q)"
      using q1(2) le st eq_inv_release by (auto simp: eq_good_def)
  qed
qed

inductive sim_run :: "(event_ptr \<Rightarrow> eventq \<Rightarrow> eq_cmd list) \<Rightarrow> eventq \<Rightarrow> tick list \<Rightarrow> eventq \<Rightarrow> bool"
  for hdl where
  sim_start: "sim_run hdl q [] q"
| sim_next: "sim_run hdl q0 ts q \<Longrightarrow> eq_head q \<noteq> None \<Longrightarrow> serviceOne (run_handler hdl) q = Some (Inr (None, q')) \<Longrightarrow>
    sim_run hdl q0 (ts @ [eq_curTick q']) q'"

text \<open>C34: simulated time never goes backwards. From a well-formed queue, whatever the handlers
  schedule, deschedule or reschedule, the current ticks after the serviced events are
  non-decreasing, every state of the run is well-formed, and the loop's assertion that no
  event lies in the past holds before every step.\<close>

theorem simulated_time_monotone:
  assumes "eq_good q0" "sim_run hdl q0 ts q"
  shows "sorted (eq_curTick q0 # ts) \<and> (\<forall>t \<in> set ts. t \<le> eq_curTick q) \<and> eq_curTick q0 \<le> eq_curTick q \<and>
    eq_good q \<and> (\<forall>t. eq_nextTick q = Some t \<longrightarrow> eq_curTick q \<le> t)"
proof -
  have main: "sorted (eq_curTick q0 # ts) \<and> (\<forall>t \<in> set ts. t \<le> eq_curTick q) \<and> eq_curTick q0 \<le> eq_curTick q \<and> eq_good q"
    using assms(2,1)
  proof (induction rule: sim_run.induct)
    case (sim_start q)
    then show ?case by simp
  next
    case (sim_next q0 ts q q')
    then have IH: "sorted (eq_curTick q0 # ts)" "\<forall>t \<in> set ts. t \<le> eq_curTick q" "eq_curTick q0 \<le> eq_curTick q" "eq_good q"
      by auto
    have "eq_good q'" "eq_curTick q \<le> eq_curTick q'"
      using serviceOne_good [OF IH(4) sim_next.hyps(2,3)] by auto
    then show ?case using IH by (auto simp: sorted_append intro: order_trans)
  qed
  have "eq_curTick q \<le> t" if t: "eq_nextTick q = Some t" for t
  proof -
    obtain ys where inv: "eq_inv q ys" using main by (auto simp: eq_good_def)
    obtain e where e: "eq_head q = Some e" "t = ev_when (eq_heap q e)" using t by (auto simp: eq_nextTick_def)
    have "e \<in> set ys" using head_queued [OF inv e(1)] .
    then show ?thesis using eq_invD(8) [OF inv, of e] e(2) by simp
  qed
  then show ?thesis using main by blast
qed

theorem simulated_time_monotone_witness:
  "\<exists>q0 q. eq_good q0 \<and> sim_run (\<lambda>ev q. [Schedule 4 (eq_curTick q + 2)]) q0 [9] q \<and>
     sorted [eq_curTick q0, 9] \<and> eq_nextTick q = Some 11"
proof -
  let ?hdl = "\<lambda>ev q. [Schedule 4 (eq_curTick q + 2)]"
  have h: "eq_curTick ex_eventq \<le> 9" "\<not> ev_scheduled (eq_heap ex_eventq 3)" "ev_initialized (eq_heap ex_eventq 3)"
    by (simp_all add: ex_eventq_def ex_event_props [simplified])
  obtain q0 where q0: "eq_schedule False True False 3 9 ex_eventq = Some (Inr q0)" "eq_inv q0 [3]" "eq_async q0 = []"
    using schedule_effect [OF ex_eventq_inv h, of False] by (auto simp: ex_eventq_def)
  then have good: "eq_good q0" by (auto simp: eq_good_def)
  have "case eq_schedule False True False 3 9 ex_eventq of Some (Inr q0) \<Rightarrow>
      (case serviceOne (run_handler ?hdl) q0 of
         Some (Inr (None, q)) \<Rightarrow> eq_head q0 \<noteq> None \<and> eq_curTick q = 9 \<and> eq_nextTick q = Some 11 | _ \<Rightarrow> False) | _ \<Rightarrow> False"
    by code_simp
  then obtain q where q: "serviceOne (run_handler ?hdl) q0 = Some (Inr (None, q))" "eq_head q0 \<noteq> None"
    "eq_curTick q = 9" "eq_nextTick q = Some 11"
    using q0(1) by (auto split: option.splits sum.splits prod.splits)
  have "sim_run ?hdl q0 [9] q" using sim_next [OF sim_start q(2,1)] q(3) by simp
  then show ?thesis using simulated_time_monotone [OF good] good q(4) by blast
qed

section \<open>Asynchronous insertions, self check and checkpoints\<close>

text \<open>at the end of a quantum \<^verbatim>\<open>handleAsyncInsertions\<close> terminates and moves every
  event scheduled by other threads into its place of the service order, losing none.\<close>

lemma async_insertions_sorted:
  assumes "eq_inv q xs"
  shows "\<exists>q'. handleAsyncInsertions q = Some q' \<and>
    eq_inv q' (fold (insort_key (\<lambda>x. ekey (eq_heap q x))) (eq_async q) xs) \<and> eq_async q' = []"
proof -
  have "\<exists>q'. async_loop as q = Some q' \<and> eq_inv q' (fold (insort_key (kh (eq_heap q))) as xs) \<and> eq_async q' = []"
    if "eq_inv q xs" "as = eq_async q" for as
    using that
  proof (induction as arbitrary: q xs)
    case Nil
    then show ?case by simp
  next
    case (Cons e as)
    note inv = eq_invD [OF Cons.prems(1)]
    have e: "e \<notin> set xs" "e \<notin> set as" "distinct as" "set xs \<inter> set as = {}" using inv(3,4) unfolding Cons.prems(2) [symmetric] by auto
    obtain q1 where q1: "eq_insert e q = Some q1" "eq_repr q1 (insort_key (kh (eq_heap q)) e xs)"
      "same_events (eq_heap q) (eq_heap q1)" "eq_curTick q1 = eq_curTick q" "eq_self q1 = eq_self q"
      using eq_insert_repr [OF inv(1) e(1)] by metis
    let ?q = "q1\<lparr>eq_async := as\<rparr>" let ?ys = "insort_key (kh (eq_heap q)) e xs"
    note same = same_events_flags [OF q1(3)]
    have "eq_inv ?q ?ys"
    proof (rule eq_invI)
      show "eq_repr ?q ?ys" by (rule eq_repr_cong [OF q1(2)]) auto
      fix x
      show "bit (ev_flags (eq_heap ?q x)) 1 \<longleftrightarrow> x \<in> set ?ys \<or> x \<in> set (eq_async ?q)"
        using inv(5) [of x] unfolding Cons.prems(2) [symmetric] by (auto simp: same(1) set_insort_key)
      assume "x \<in> set ?ys \<or> x \<in> set (eq_async ?q)"
      then show "ev_initialized (eq_heap ?q x) \<and> ev_queue (eq_heap ?q x) = Some (eq_self ?q) \<and>
          eq_curTick ?q \<le> ev_when (eq_heap ?q x)"
        using inv(6-8) [of x] q1(4,5) unfolding Cons.prems(2) [symmetric] by (auto simp: same(2-4) set_insort_key)
    qed (use inv(2) e in \<open>auto simp: distinct_insort set_insort_key\<close>)
    then obtain q' where "async_loop as ?q = Some q'" "eq_async q' = []"
      "eq_inv q' (fold (insort_key (kh (eq_heap q1))) as ?ys)"
      using Cons.IH [of ?q ?ys] by auto
    moreover have "kh (eq_heap q1) = kh (eq_heap q)" using same_events_kh [OF q1(3)] by auto
    ultimately show ?case using q1(1) by simp
  qed
  then show ?thesis using assms by (simp add: handleAsyncInsertions_def)
qed

lemma schedule_async_effect:
  assumes "eq_inv q xs" "eq_curTick q \<le> t" "\<not> ev_scheduled (eq_heap q ev)" "ev_initialized (eq_heap q ev)"
  shows "\<exists>q'. eq_schedule True False glob ev t q = Some (Inr q') \<and> eq_inv q' xs \<and> eq_async q' = eq_async q @ [ev]"
proof -
  note inv = eq_invD [OF assms(1)]
  have fresh: "ev \<notin> set xs" "ev \<notin> set (eq_async q)" using inv(5) [of ev] assms(3) by auto
  let ?q' = "upd_event ev (flag_set Scheduled) (asyncInsert ev (upd_event ev (setWhen t (eq_self q)) q))"
  have "eq_inv ?q' xs"
  proof (rule eq_invI)
    show "eq_repr ?q' xs" using fresh by (intro eq_repr_cong [OF inv(1)]) (auto simp: asyncInsert_def)
    fix x
    show "bit (ev_flags (eq_heap ?q' x)) 1 \<longleftrightarrow> x \<in> set xs \<or> x \<in> set (eq_async ?q')"
      using inv(5) [of x] by (auto simp: asyncInsert_def)
    assume "x \<in> set xs \<or> x \<in> set (eq_async ?q')"
    then show "ev_initialized (eq_heap ?q' x) \<and> ev_queue (eq_heap ?q' x) = Some (eq_self ?q') \<and>
        eq_curTick ?q' \<le> ev_when (eq_heap ?q' x)"
      using inv(6-8) [of x] assms(2,4) by (auto simp: asyncInsert_def)
  qed (use inv(2-4) fresh in \<open>auto simp: asyncInsert_def\<close>)
  moreover have "eq_schedule True False glob ev t q = Some (Inr ?q')"
    using assms(2-4) by (simp add: eq_schedule_def Let_def retO_def)
  ultimately show ?thesis by (auto simp: asyncInsert_def)
qed

lemma async_insertions_sorted_witness:
  "\<exists>q q'. eq_async q = [3] \<and> handleAsyncInsertions q = Some q' \<and> eq_inv q' [3]"
proof -
  have h: "eq_curTick ex_eventq \<le> 9" "\<not> ev_scheduled (eq_heap ex_eventq 3)" "ev_initialized (eq_heap ex_eventq 3)"
    by (simp_all add: ex_eventq_def ex_event_props [simplified])
  obtain q where q: "eq_inv q []" "eq_async q = [3]"
    using schedule_async_effect [OF ex_eventq_inv h, of False] by (auto simp: ex_eventq_def)
  then show ?thesis using async_insertions_sorted [OF q(1)] by auto
qed

lemma verify_bin_ok:
  assumes "in_bin h b" "\<And>x. x \<in> set b \<Longrightarrow> kh h x = k" "(unat time, prio) \<le> k" "distinct b" "set b \<inter> set seen = {}"
  shows "\<exists>time' seen'. verify_bin h time prio seen (Some (hd b)) = Some (Some (time', snd k, seen')) \<and>
    unat time' = fst k \<and> set seen' = set b \<union> set seen"
  using assms
proof (induction b arbitrary: time prio seen)
  case (Cons x xs)
  have k: "k = (unat (ev_when (h x)), ev_priority (h x))" using Cons.prems(2) [of x] by (simp add: ekey_def)
  have step: "verify_bin h time prio seen (Some x) = verify_bin h (ev_when (h x)) (ev_priority (h x)) (x # seen) (nextInBin (h x))"
    using Cons.prems(3,5) k by (subst verify_bin.simps) (auto simp: word_less_nat_alt word_unat_eq_iff)
  show ?case
  proof (cases xs)
    case Nil
    then have "verify_bin h (ev_when (h x)) (ev_priority (h x)) (x # seen) (nextInBin (h x)) =
        Some (Some (ev_when (h x), ev_priority (h x), x # seen))"
      using Cons.prems(1) by (subst verify_bin.simps) simp
    then show ?thesis using step k Nil by simp
  next
    case (Cons y ys)
    then have y: "nextInBin (h x) = Some (hd xs)" "in_bin h xs" using Cons.prems(1) by auto
    have "\<exists>time' seen'. verify_bin h (ev_when (h x)) (ev_priority (h x)) (x # seen) (Some (hd xs)) = Some (Some (time', snd k, seen')) \<and>
      unat time' = fst k \<and> set seen' = set xs \<union> set (x # seen)"
      using Cons.prems(2,4,5) k by (intro Cons.IH [OF y(2)]) auto
    then show ?thesis using step y(1) by auto
  qed
qed simp

lemma verify_bins_ok:
  assumes "bins_at h p bs" "bins_ok h bs" "\<And>b. b \<in> set bs \<Longrightarrow> (unat time, prio) \<le> kh h (hd b)"
    "set (concat bs) \<inter> set seen = {}"
  shows "verify_bins h time prio seen p = Some True"
  using assms
proof (induction bs arbitrary: p time prio seen)
  case Nil
  then show ?case by (subst verify_bins.simps) simp
next
  case (Cons b bs)
  have b: "in_bin h b" "p = Some (hd b)" "bins_at h (nextBin (h (hd b))) bs" using Cons.prems(1) by auto
  have ok: "one_key h b" "distinct b" "bins_ok h bs" "\<forall>c \<in> set bs. kh h (hd b) < kh h (hd c)"
    using Cons.prems(2) by simp_all
  obtain time' seen' where v: "verify_bin h time prio seen (Some (hd b)) = Some (Some (time', snd (kh h (hd b)), seen'))"
    "unat time' = fst (kh h (hd b))" "set seen' = set b \<union> set seen"
    using verify_bin_ok [OF b(1) one_keyD [OF ok(1)] Cons.prems(3) [of b] ok(2), of seen] Cons.prems(4) by auto
  have "verify_bins h time' (snd (kh h (hd b))) seen' (nextBin (h (hd b))) = Some True"
  proof (rule Cons.IH [OF b(3) ok(3)])
    show "(unat time', snd (kh h (hd b))) \<le> kh h (hd c)" if "c \<in> set bs" for c
      using ok(4) that v(2) by (metis less_imp_le prod.collapse)
    show "set (concat bs) \<inter> set seen' = {}"
      using Cons.prems(4) bins_ok_distinct [OF Cons.prems(2)] v(3) by auto
  qed
  then show ?case using v(1) b(2) by (subst verify_bins.simps) simp
qed

text \<open>On every well-formed queue the simulator's own structural check \<^verbatim>\<open>debugVerify\<close>
  terminates and succeeds, unless an event of negative priority is queued for tick zero.\<close>

lemma debugVerify_accepts:
  assumes "eq_inv q xs" "\<forall>x \<in> set xs. ev_when (eq_heap q x) \<noteq> 0 \<or> 0 \<le> ev_priority (eq_heap q x)"
  shows "debugVerify q = Some True"
proof -
  obtain bs where bs: "bins_at (eq_heap q) (eq_head q) bs" "bins_ok (eq_heap q) bs" "xs = concat bs"
    using eq_invD(1) [OF assms(1)] by (auto simp: eq_repr_def eq_bins_def)
  have "(unat (0 :: tick), 0) \<le> kh (eq_heap q) (hd b)" if "b \<in> set bs" for b
  proof -
    have "hd b \<in> set xs" using hd_in_concat [OF that bins_ok_ne [OF bs(2) that]] bs(3) by simp
    then have "ev_when (eq_heap q (hd b)) \<noteq> 0 \<or> 0 \<le> ev_priority (eq_heap q (hd b))" using assms(2) by blast
    then show ?thesis by (auto simp: ekey_def word_unat_eq_iff)
  qed
  then show ?thesis using verify_bins_ok [OF bs(1,2), of 0 0 "[]"] by (simp add: debugVerify_def)
qed

lemma debugVerify_accepts_example:
  "\<exists>q. eq_inv q [3] \<and> debugVerify q = Some True"
proof -
  have h: "eq_curTick ex_eventq \<le> 9" "\<not> ev_scheduled (eq_heap ex_eventq 3)" "ev_initialized (eq_heap ex_eventq 3)"
    by (simp_all add: ex_eventq_def ex_event_props [simplified])
  obtain q where q: "eq_inv q [3]" "ev_when (eq_heap q 3) = 9"
    using schedule_effect [OF ex_eventq_inv h, of False] by auto
  then show ?thesis using debugVerify_accepts [OF q(1)] by auto
qed

lemma debugVerify_rejects_negative_priority:
  "case eq_schedule False True False 3 0 (ex_eventq\<lparr>eq_curTick := 0, eq_heap := (\<lambda>_. ex_event 0 (-1))\<rparr>) of
     Some (Inr q) \<Rightarrow> debugVerify q = Some False | _ \<Rightarrow> False"
  by code_simp

text \<open>Restoring an event that was scheduled and not squashed clears its \<^verbatim>\<open>Scheduled\<close> flag, so
  the rescheduling after a checkpoint leaves it out of the queue.\<close>

lemma restored_event_not_rescheduled:
  assumes "ev_unserialize (t, p, fl) e = Inr e'" "bit fl 1" "\<not> bit fl 0" "eq_heap q ev = e'"
  shows "checkpointReschedule ev q = Some q"
proof -
  let ?e = "flag_set Initialized (e\<lparr>ev_when := t, ev_priority := p, ev_flags := fl\<rparr>)"
  have I: "\<not> bit Initialized 0" "\<not> bit Initialized 1" by code_simp+
  have "flag_isSet Scheduled ?e" "\<not> flag_isSet Squashed ?e"
    using assms(2,3) I by (auto simp: flag_isSet_eq)
  then have "e' = flag_clear (Squashed OR Scheduled) ?e"
    using assms(1) by (auto simp: ev_unserialize_def Let_def)
  then have "\<not> flag_isSet Scheduled e'"
    by (auto simp: flag_isSet_eq bit_or_iff)
  then show ?thesis using assms(4) by (simp add: checkpointReschedule_def)
qed
end
