(* ===== verification/Sat_Counter.thy ===== *)
theory Sat_Counter
  imports Gem5_Prelude
begin

text \<open>
  \<^verbatim>\<open>src/gem5/src/base/sat_counter.hh\<close>: the saturating counter at its most used width
  (\<^verbatim>\<open>SatCounter8\<close>). Increments, additions and subtractions are shown to compute the
  clamped integer result; the left shift computes it as long as no bit leaves the eight bits.
\<close>

section \<open>Definitions\<close>

record sat_counter =
  initialVal :: u8
  maxVal :: u8
  counter :: u8

definition SatCounter :: "nat \<Rightarrow> u8 \<Rightarrow> sat_counter result" where
  "SatCounter bits initial_val =
     (let mx = (ucast (push_bit bits (1 :: u64) - 1) :: u8) in
      guardR (\<not> bits > 8) Fatal_Error
      (guardR (\<not> initial_val > mx) Fatal_Error
        (Inr \<lparr>initialVal = initial_val, maxVal = mx, counter = initial_val\<rparr>)))"

definition sc_incr :: "sat_counter \<Rightarrow> sat_counter" where
  "sc_incr c = (if counter c < maxVal c then c\<lparr>counter := counter c + 1\<rparr> else c)"

definition sc_decr :: "sat_counter \<Rightarrow> sat_counter" where
  "sc_decr c = (if counter c > 0 then c\<lparr>counter := counter c - 1\<rparr> else c)"

definition sc_shiftr :: "sat_counter \<Rightarrow> int \<Rightarrow> sat_counter result" where
  "sc_shiftr c shift = guardR (shift \<ge> 0) Assert_Failed
     (Inr (c\<lparr>counter := drop_bit (nat shift) (counter c)\<rparr>))"

definition sc_shiftl :: "sat_counter \<Rightarrow> int \<Rightarrow> sat_counter result" where
  "sc_shiftl c shift = guardR (shift \<ge> 0) Assert_Failed
     (let c = c\<lparr>counter := push_bit (nat shift) (counter c)\<rparr>
      in Inr (if counter c > maxVal c then c\<lparr>counter := maxVal c\<rparr> else c))"

definition sc_add_pos :: "sat_counter \<Rightarrow> int \<Rightarrow> sat_counter" where
  "sc_add_pos c v =
     (if uint (maxVal c) - uint (counter c) \<ge> v
      then c\<lparr>counter := counter c + of_int v\<rparr> else c\<lparr>counter := maxVal c\<rparr>)"

definition sc_sub_pos :: "sat_counter \<Rightarrow> int \<Rightarrow> sat_counter" where
  "sc_sub_pos c v =
     (if uint (counter c) > v then c\<lparr>counter := counter c - of_int v\<rparr> else c\<lparr>counter := 0\<rparr>)"

definition sc_add :: "sat_counter \<Rightarrow> int \<Rightarrow> sat_counter" where
  "sc_add c v = (if v \<ge> 0 then sc_add_pos c v else sc_sub_pos c (- v))"

definition sc_sub :: "sat_counter \<Rightarrow> int \<Rightarrow> sat_counter" where
  "sc_sub c v = (if v \<ge> 0 then sc_sub_pos c v else sc_add_pos c (- v))"

definition sc_reset :: "sat_counter \<Rightarrow> sat_counter" where
  "sc_reset c = c\<lparr>counter := initialVal c\<rparr>"

definition isSaturated :: "sat_counter \<Rightarrow> bool" where
  "isSaturated c \<longleftrightarrow> counter c = maxVal c"

definition saturate :: "sat_counter \<Rightarrow> u8 \<times> sat_counter" where
  "saturate c = (maxVal c - counter c, c\<lparr>counter := maxVal c\<rparr>)"

section \<open>Clamped arithmetic\<close>

definition sc_val :: "sat_counter \<Rightarrow> int" where
  "sc_val c = uint (counter c)"

definition sc_max :: "sat_counter \<Rightarrow> int" where
  "sc_max c = uint (maxVal c)"

definition sc_ok :: "sat_counter \<Rightarrow> bool" where
  "sc_ok c \<longleftrightarrow> counter c \<le> maxVal c \<and> initialVal c \<le> maxVal c"

definition clamp :: "int \<Rightarrow> int \<Rightarrow> int" where
  "clamp mx v = max 0 (min mx v)"

lemma sc_ok_bounds: "sc_ok c \<Longrightarrow> 0 \<le> sc_val c \<and> sc_val c \<le> sc_max c \<and> sc_max c < 256"
  using unsigned_less [of "maxVal c", where 'a = int]
  by (simp add: sc_ok_def sc_val_def sc_max_def word_le_def)

lemma unat_add_u8:
  assumes "0 \<le> v" "uint w + v < 256"
  shows "uint (w + of_int v :: u8) = uint w + v"
proof -
  have "uint (w + of_int v) = (uint w + v) mod 256"
    by (simp add: uint_word_ariths uint_word_of_int mod_add_right_eq)
  also have "\<dots> = uint w + v" using assms by (intro mod_pos_pos_trivial) auto
  finally show ?thesis by simp
qed

lemma unat_sub_u8:
  assumes "0 \<le> v" "v \<le> uint w"
  shows "uint (w - of_int v :: u8) = uint w - v"
proof -
  have "uint w < 256" using unsigned_less [of w, where 'a = int] by simp
  have "uint (w - of_int v) = (uint w - v) mod 256"
    by (simp add: uint_word_ariths uint_word_of_int mod_diff_right_eq)
  also have "\<dots> = uint w - v" using assms \<open>uint w < 256\<close> by (intro mod_pos_pos_trivial) auto
  finally show ?thesis by simp
qed

lemma sc_add_pos_clamps:
  assumes "sc_ok c" "0 \<le> v"
  shows "sc_val (sc_add_pos c v) = clamp (sc_max c) (sc_val c + v)"
proof (cases "sc_max c - sc_val c \<ge> v")
  case True
  then have "sc_val (sc_add_pos c v) = sc_val c + v"
    using sc_ok_bounds [OF assms(1)] assms(2) unat_add_u8 [of v "counter c"]
    by (simp add: sc_add_pos_def sc_val_def sc_max_def)
  then show ?thesis using True sc_ok_bounds [OF assms(1)] assms(2) by (simp add: clamp_def)
next
  case False
  then show ?thesis
    using sc_ok_bounds [OF assms(1)] by (simp add: sc_add_pos_def sc_val_def sc_max_def clamp_def)
qed

lemma sc_sub_pos_clamps:
  assumes "sc_ok c" "0 \<le> v"
  shows "sc_val (sc_sub_pos c v) = clamp (sc_max c) (sc_val c - v)"
proof (cases "sc_val c > v")
  case True
  then have "sc_val (sc_sub_pos c v) = sc_val c - v"
    using assms(2) unat_sub_u8 [of v "counter c"] by (simp add: sc_sub_pos_def sc_val_def)
  then show ?thesis using True sc_ok_bounds [OF assms(1)] assms(2) by (simp add: clamp_def)
next
  case False
  then show ?thesis
    using sc_ok_bounds [OF assms(1)] by (simp add: sc_sub_pos_def sc_val_def clamp_def)
qed

lemma sc_frame [simp]:
  "maxVal (sc_add c v) = maxVal c" "maxVal (sc_sub c v) = maxVal c" "maxVal (sc_incr c) = maxVal c"
  "maxVal (sc_decr c) = maxVal c" "maxVal (sc_reset c) = maxVal c" "maxVal (snd (saturate c)) = maxVal c"
  "initialVal (sc_add c v) = initialVal c" "initialVal (sc_sub c v) = initialVal c"
  "initialVal (sc_incr c) = initialVal c" "initialVal (sc_decr c) = initialVal c"
  "initialVal (sc_reset c) = initialVal c" "initialVal (snd (saturate c)) = initialVal c"
  by (simp_all add: sc_add_def sc_sub_def sc_add_pos_def sc_sub_pos_def sc_incr_def sc_decr_def
      sc_reset_def saturate_def)

lemma sc_ok_intro: "maxVal c' = maxVal c \<Longrightarrow> initialVal c' = initialVal c \<Longrightarrow> sc_ok c \<Longrightarrow>
    sc_val c' \<le> sc_max c \<Longrightarrow> sc_ok c'"
  by (simp add: sc_ok_def sc_val_def sc_max_def word_le_def)

lemma sc_incr_clamps: "sc_ok c \<Longrightarrow> sc_val (sc_incr c) = clamp (sc_max c) (sc_val c + 1)"
proof -
  assume ok: "sc_ok c"
  have "sc_incr c = sc_add_pos c 1"
    using sc_ok_bounds [OF ok]
    by (auto simp: sc_incr_def sc_add_pos_def word_less_def sc_val_def sc_max_def word_uint_eq_iff
        intro!: sat_counter.equality)
  then show ?thesis using sc_add_pos_clamps [OF ok, of 1] by simp
qed

lemma sc_decr_clamps:
  assumes "sc_ok c"
  shows "sc_val (sc_decr c) = clamp (sc_max c) (sc_val c - 1)"
proof (cases "counter c = 0")
  case True
  then show ?thesis using sc_ok_bounds [OF assms] by (simp add: sc_decr_def sc_val_def clamp_def)
next
  case False
  then have "0 < uint (counter c)" by (metis unsigned_0 word_less_def word_neq_0_conv)
  then have "sc_val (sc_decr c) = sc_val c - 1" "1 \<le> sc_val c"
    using unat_sub_u8 [of 1 "counter c"] by (auto simp: sc_decr_def sc_val_def word_less_def)
  then show ?thesis using sc_ok_bounds [OF assms] by (simp add: clamp_def)
qed

lemma sc_add_clamps:
  assumes "sc_ok c"
  shows "sc_val (sc_add c v) = clamp (sc_max c) (sc_val c + v)"
  using sc_add_pos_clamps [OF assms, of v] sc_sub_pos_clamps [OF assms, of "- v"] by (simp add: sc_add_def)

lemma sc_sub_clamps:
  assumes "sc_ok c"
  shows "sc_val (sc_sub c v) = clamp (sc_max c) (sc_val c - v)"
  using sc_sub_pos_clamps [OF assms, of v] sc_add_pos_clamps [OF assms, of "- v"] by (simp add: sc_sub_def)

lemma clamp_le: "0 \<le> mx \<Longrightarrow> clamp mx x \<le> mx"
  by (simp add: clamp_def)

lemma sc_ops_ok [gem5_inv]:
  assumes "sc_ok c"
  shows "sc_ok (sc_add c v)" "sc_ok (sc_sub c v)" "sc_ok (sc_incr c)" "sc_ok (sc_decr c)"
    "sc_ok (sc_reset c)" "sc_ok (snd (saturate c))"
proof -
  have le: "clamp (sc_max c) x \<le> sc_max c" for x
    using clamp_le sc_ok_bounds [OF assms] by simp
  show "sc_ok (sc_add c v)" "sc_ok (sc_sub c v)" "sc_ok (sc_incr c)" "sc_ok (sc_decr c)"
    using le sc_add_clamps [OF assms] sc_sub_clamps [OF assms] sc_incr_clamps [OF assms] sc_decr_clamps [OF assms]
    by (simp_all add: sc_ok_intro [OF _ _ assms])
  show "sc_ok (sc_reset c)" "sc_ok (snd (saturate c))"
    using assms by (simp_all add: sc_ok_def sc_reset_def saturate_def)
qed

lemma saturate_val:
  "sc_val (snd (saturate c)) = sc_max c"
  "sc_ok c \<Longrightarrow> uint (fst (saturate c)) = sc_max c - sc_val c"
  by (simp_all add: saturate_def sc_max_def sc_val_def sc_ok_def uint_sub_if' word_le_def)

text \<open>C39: every arithmetic operation of a saturating counter computes the integer result clamped
  to its range, for operands of either sign, and keeps the counter within its range.\<close>

theorem sat_counter_clamps:
  assumes "sc_ok c"
  shows "sc_val (sc_add c v) = clamp (sc_max c) (sc_val c + v) \<and>
    sc_val (sc_sub c v) = clamp (sc_max c) (sc_val c - v) \<and>
    sc_val (sc_incr c) = clamp (sc_max c) (sc_val c + 1) \<and>
    sc_val (sc_decr c) = clamp (sc_max c) (sc_val c - 1) \<and>
    sc_val (snd (saturate c)) = sc_max c \<and> uint (fst (saturate c)) = sc_max c - sc_val c \<and>
    list_all sc_ok [sc_add c v, sc_sub c v, sc_incr c, sc_decr c, sc_reset c, snd (saturate c)]"
  using sc_add_clamps [OF assms] sc_sub_clamps [OF assms] sc_incr_clamps [OF assms]
    sc_decr_clamps [OF assms] saturate_val assms
  by (simp add: gem5_inv)

theorem sat_counter_clamps_witness:
  "sc_val (sc_add \<lparr>initialVal = 0, maxVal = 7, counter = 5\<rparr> 4) = 7 \<and>
   sc_val (sc_sub \<lparr>initialVal = 0, maxVal = 7, counter = 5\<rparr> 9) = 0"
proof -
  have ok: "sc_ok \<lparr>initialVal = 0, maxVal = 7, counter = 5\<rparr>" by code_simp
  show ?thesis
    using sat_counter_clamps [OF ok, of 4] sat_counter_clamps [OF ok, of 9]
    by (simp add: clamp_def sc_max_def sc_val_def)
qed

lemma SatCounter_ok: "SatCounter bits v = Inr c \<Longrightarrow> sc_ok c \<and> sc_val c = uint v"
  by (auto simp: SatCounter_def Let_def sc_ok_def sc_val_def)

text \<open>The left shift drops the bits above the eighth before it compares with the maximum.\<close>

lemma shiftl_wraps_to_zero:
  "sc_shiftl \<lparr>initialVal = 0, maxVal = 7, counter = 4\<rparr> 6 = Inr \<lparr>initialVal = 0, maxVal = 7, counter = 0\<rparr>"
  by code_simp

end
