(* ===== verification/Replacement.thy ===== *)
theory Replacement
  imports Sat_Counter Intmath
begin

text \<open>
  \<^verbatim>\<open>src/gem5/src/mem/cache/replacement_policies/\<close>: the replacement policies of the caches.
  The candidates of a set are a list of replacement data; a victim is an index into it, and a
  policy whose victim search changes the data returns the changed list. The current tick and
  the numbers drawn by \<^verbatim>\<open>random_mt\<close> are arguments. The contract a cache set relies on,
  that invalid entries go first and that filling a set evicts nothing, is a locale with an
  interpretation for each policy that satisfies it.
\<close>

section \<open>Definitions\<close>

subsection \<open>Victim search\<close>

definition scan_victim :: "('d \<Rightarrow> 'd \<Rightarrow> bool) \<Rightarrow> 'd list \<Rightarrow> nat" where
  "scan_victim better cs = foldl (\<lambda>v i. if better (cs ! i) (cs ! v) then i else v) 0 [0..<length cs]"

definition victim_by :: "('d \<Rightarrow> 'd \<Rightarrow> bool) \<Rightarrow> 'd list \<Rightarrow> (nat \<times> 'd list) result" where
  "victim_by better cs = guardR (length cs > 0) Assert_Failed (Inr (scan_victim better cs, cs))"

subsection \<open>LRU, with the DDIO extension\<close>

record lru_data =
  lastTouchTick :: tick
  ioInvalidated :: bool

definition LRUReplData :: lru_data where
  "LRUReplData = \<lparr>lastTouchTick = 0, ioInvalidated = False\<rparr>"

definition lru_invalidate :: "lru_data \<Rightarrow> lru_data" where
  "lru_invalidate d = d\<lparr>lastTouchTick := 0, ioInvalidated := False\<rparr>"

definition lru_invalidateDDIO :: "lru_data \<Rightarrow> lru_data" where
  "lru_invalidateDDIO d = d\<lparr>lastTouchTick := 0, ioInvalidated := True\<rparr>"

definition lru_touch :: "tick \<Rightarrow> lru_data \<Rightarrow> lru_data" where
  "lru_touch curTick d = d\<lparr>lastTouchTick := curTick\<rparr>"

definition lru_reset :: "tick \<Rightarrow> lru_data \<Rightarrow> lru_data" where
  "lru_reset curTick d = d\<lparr>lastTouchTick := curTick\<rparr>"

definition lru_getVictim :: "lru_data list \<Rightarrow> (nat \<times> lru_data list) result" where
  "lru_getVictim = victim_by (\<lambda>c v. lastTouchTick c < lastTouchTick v)"

text \<open>The loop of \<^verbatim>\<open>getVictimWayPart\<close>: \<open>ws\<close> are the ways of the remaining candidates,
  \<open>way\<close> and \<open>part_mask\<close> the loop counters, the result the victim and whether the loop
  stopped at an entry invalidated by an I/O write.\<close>

fun way_part_loop ::
    "lru_data list \<Rightarrow> u32 \<Rightarrow> nat list \<Rightarrow> nat \<Rightarrow> u32 \<Rightarrow> nat \<Rightarrow> bool \<Rightarrow> (nat \<times> bool) result" where
  "way_part_loop cs way_part [] way part_mask victim is_in_part = Inr (victim, False)"
| "way_part_loop cs way_part (w # ws) way part_mask victim is_in_part =
     guardR (w = way) Assert_Failed
     (if ioInvalidated (cs ! way) then Inr (way, True)
      else let (victim, is_in_part) =
                 (if part_mask AND way_part \<noteq> 0
                  then let victim = (if \<not> is_in_part then way else victim)
                       in (if lastTouchTick (cs ! way) < lastTouchTick (cs ! victim) then way else victim, True)
                  else (victim, is_in_part))
           in guardR (Suc way < 32) Assert_Failed
                (way_part_loop cs way_part ws (Suc way) (push_bit 1 part_mask) victim is_in_part))"

definition getVictimWayPart :: "lru_data list \<Rightarrow> nat list \<Rightarrow> u32 \<Rightarrow> (nat \<times> lru_data list) result" where
  "getVictimWayPart cs ways way_part =
     guardR (length cs > 0) Assert_Failed
     (guardR (hd ways = 0) Assert_Failed
     (bindR (way_part_loop cs way_part ways 0 1 0 False) (\<lambda>(victim, io).
        Inr (victim, if io then cs[victim := (cs ! victim)\<lparr>ioInvalidated := False\<rparr>] else cs))))"

subsection \<open>FIFO, second chance\<close>

record fifo_data =
  tickInserted :: tick

definition fifo_invalidate :: "'a fifo_data_scheme \<Rightarrow> 'a fifo_data_scheme" where
  "fifo_invalidate d = d\<lparr>tickInserted := 0\<rparr>"

definition fifo_touch :: "'a fifo_data_scheme \<Rightarrow> 'a fifo_data_scheme" where
  "fifo_touch d = d"

definition fifo_reset :: "tick \<Rightarrow> 'a fifo_data_scheme \<Rightarrow> 'a fifo_data_scheme" where
  "fifo_reset curTick d = d\<lparr>tickInserted := curTick\<rparr>"

definition fifo_getVictim :: "'a fifo_data_scheme list \<Rightarrow> (nat \<times> 'a fifo_data_scheme list) result" where
  "fifo_getVictim = victim_by (\<lambda>c v. tickInserted c < tickInserted v)"

record second_chance_data = fifo_data +
  hasSecondChance :: bool

definition useSecondChance :: "tick \<Rightarrow> second_chance_data \<Rightarrow> second_chance_data" where
  "useSecondChance curTick d = (fifo_reset curTick d)\<lparr>hasSecondChance := False\<rparr>"

definition sc_invalidate :: "second_chance_data \<Rightarrow> second_chance_data" where
  "sc_invalidate d = (fifo_invalidate d)\<lparr>hasSecondChance := False\<rparr>"

definition sc_touch :: "second_chance_data \<Rightarrow> second_chance_data" where
  "sc_touch d = (fifo_touch d)\<lparr>hasSecondChance := True\<rparr>"

definition sc_reset_data :: "tick \<Rightarrow> second_chance_data \<Rightarrow> second_chance_data" where
  "sc_reset_data curTick d = (fifo_reset curTick d)\<lparr>hasSecondChance := False\<rparr>"

fun first_index :: "('d \<Rightarrow> bool) \<Rightarrow> 'd list \<Rightarrow> nat option" where
  "first_index P [] = None"
| "first_index P (d # ds) = (if P d then Some 0 else map_option Suc (first_index P ds))"

abbreviation fifo_older :: "'a fifo_data_scheme \<Rightarrow> 'a fifo_data_scheme \<Rightarrow> bool" where
  "fifo_older c v \<equiv> tickInserted c < tickInserted v"

lemma filter_update_less:
  "i < length cs \<Longrightarrow> P (cs ! i) \<Longrightarrow> \<not> P x \<Longrightarrow> length (filter P (cs[i := x])) < length (filter P cs)"
proof (induction cs arbitrary: i)
  case (Cons c cs)
  then show ?case by (cases i) auto
qed simp

function sc_search :: "tick \<Rightarrow> second_chance_data list \<Rightarrow> nat \<times> second_chance_data list" where
  "sc_search curTick cs =
     (let victim = scan_victim fifo_older cs in
      if victim < length cs \<and> hasSecondChance (cs ! victim)
      then sc_search curTick (cs[victim := useSecondChance curTick (cs ! victim)])
      else (victim, cs))"
  by auto
termination
  by (relation "measure (\<lambda>(t, cs). length (filter hasSecondChance cs))")
     (auto simp: useSecondChance_def intro: filter_update_less)

definition sc_getVictim :: "tick \<Rightarrow> second_chance_data list \<Rightarrow> (nat \<times> second_chance_data list) result" where
  "sc_getVictim curTick cs =
     guardR (length cs > 0) Assert_Failed
     (case first_index (\<lambda>d. tickInserted d = 0 \<and> \<not> hasSecondChance d) cs of
        Some i \<Rightarrow> Inr (i, cs)
      | None \<Rightarrow> Inr (sc_search curTick cs))"

subsection \<open>MRU, LFU, BIP, random\<close>

fun mru_loop :: "tick list \<Rightarrow> nat list \<Rightarrow> nat \<Rightarrow> nat" where
  "mru_loop cs [] victim = victim"
| "mru_loop cs (i # is) victim =
     (if cs ! i = 0 then i
      else mru_loop cs is (if cs ! i > cs ! victim then i else victim))"

definition mru_invalidate :: "tick \<Rightarrow> tick" where "mru_invalidate d = 0"
definition mru_touch :: "tick \<Rightarrow> tick \<Rightarrow> tick" where "mru_touch curTick d = curTick"
definition mru_reset :: "tick \<Rightarrow> tick \<Rightarrow> tick" where "mru_reset curTick d = curTick"

definition mru_getVictim :: "tick list \<Rightarrow> (nat \<times> tick list) result" where
  "mru_getVictim cs = guardR (length cs > 0) Assert_Failed (Inr (mru_loop cs [0..<length cs] 0, cs))"

definition lfu_invalidate :: "u32 \<Rightarrow> u32" where "lfu_invalidate refCount = 0"
definition lfu_touch :: "u32 \<Rightarrow> u32" where "lfu_touch refCount = refCount + 1"
definition lfu_reset :: "u32 \<Rightarrow> u32" where "lfu_reset refCount = 1"

definition lfu_getVictim :: "u32 list \<Rightarrow> (nat \<times> u32 list) result" where
  "lfu_getVictim = victim_by (<)"

definition bip_reset :: "nat \<Rightarrow> nat \<Rightarrow> tick \<Rightarrow> lru_data \<Rightarrow> lru_data" where
  "bip_reset random btp curTick d =
     (if random \<le> btp then d\<lparr>lastTouchTick := curTick\<rparr> else d\<lparr>lastTouchTick := 1\<rparr>)"

definition random_invalidate :: "bool \<Rightarrow> bool" where "random_invalidate valid = False"
definition random_touch :: "bool \<Rightarrow> bool" where "random_touch valid = valid"
definition random_reset :: "bool \<Rightarrow> bool" where "random_reset valid = True"

definition random_getVictim :: "nat \<Rightarrow> bool list \<Rightarrow> (nat \<times> bool list) result" where
  "random_getVictim random cs = guardR (length cs > 0) Assert_Failed
     (case first_index (\<lambda>valid. \<not> valid) cs of
        Some i \<Rightarrow> Inr (i, cs)
      | None \<Rightarrow> Inr (random, cs))"

subsection \<open>Weighted LRU\<close>

record weighted_lru_data = lru_data +
  last_occ_ptr :: int

definition weighted_touch :: "tick \<Rightarrow> int \<Rightarrow> weighted_lru_data \<Rightarrow> weighted_lru_data" where
  "weighted_touch curTick occupancy d = d\<lparr>lastTouchTick := curTick, last_occ_ptr := occupancy\<rparr>"

definition weighted_getVictim :: "weighted_lru_data list \<Rightarrow> (nat \<times> weighted_lru_data list) result" where
  "weighted_getVictim = victim_by (\<lambda>c v.
     if last_occ_ptr c < last_occ_ptr v then True
     else if last_occ_ptr c = last_occ_ptr v then lastTouchTick c < lastTouchTick v
     else False)"

subsection \<open>BRRIP\<close>

record brrip_data =
  rrpv :: sat_counter
  br_valid :: bool

definition brrip_invalidate :: "brrip_data \<Rightarrow> brrip_data" where
  "brrip_invalidate d = d\<lparr>br_valid := False\<rparr>"

definition brrip_touch :: "bool \<Rightarrow> brrip_data \<Rightarrow> brrip_data" where
  "brrip_touch hitPriority d =
     (if hitPriority then d\<lparr>rrpv := sc_reset (rrpv d)\<rparr> else d\<lparr>rrpv := sc_decr (rrpv d)\<rparr>)"

definition brrip_reset :: "nat \<Rightarrow> nat \<Rightarrow> brrip_data \<Rightarrow> brrip_data" where
  "brrip_reset random btp d =
     (let d = d\<lparr>rrpv := snd (saturate (rrpv d))\<rparr>;
          d = (if random \<le> btp then d\<lparr>rrpv := sc_decr (rrpv d)\<rparr> else d)
      in d\<lparr>br_valid := True\<rparr>)"

definition brrip_getVictim :: "brrip_data list \<Rightarrow> (nat \<times> brrip_data list) result" where
  "brrip_getVictim cs = guardR (length cs > 0) Assert_Failed
     (case first_index (\<lambda>d. \<not> br_valid d) cs of
        Some i \<Rightarrow> Inr (i, cs)
      | None \<Rightarrow>
          let victim = scan_victim (\<lambda>c v. counter (rrpv c) > counter (rrpv v)) cs;
              (diff, r) = saturate (rrpv (cs ! victim));
              cs = cs[victim := (cs ! victim)\<lparr>rrpv := r\<rparr>]
          in Inr (victim, if diff > 0 then map (\<lambda>d. d\<lparr>rrpv := sc_add (rrpv d) (uint diff)\<rparr>) cs else cs))"

subsection \<open>Tree PLRU\<close>

definition parentIndex :: "nat \<Rightarrow> nat" where
  "parentIndex index = (if index = 0 then (2 ^ 64 - 1) div 2 else (index - 1) div 2)"

definition leftSubtreeIndex :: "nat \<Rightarrow> nat" where "leftSubtreeIndex index = 2 * index + 1"
definition rightSubtreeIndex :: "nat \<Rightarrow> nat" where "rightSubtreeIndex index = 2 * index + 2"
definition isRightSubtree :: "nat \<Rightarrow> bool" where "isRightSubtree index \<longleftrightarrow> index mod 2 = 0"

definition tree_at_set :: "nat \<Rightarrow> bool \<Rightarrow> bool list \<Rightarrow> bool list result" where
  "tree_at_set i b tree = guardR (i < length tree) Out_Of_Range (Inr (tree[i := b]))"

function plru_up :: "(bool \<Rightarrow> bool) \<Rightarrow> bool list \<Rightarrow> nat \<Rightarrow> bool list result" where
  "plru_up f tree tree_index =
     (let right = isRightSubtree tree_index; p = parentIndex tree_index in
      bindR (tree_at_set p (f right) tree) (\<lambda>tree.
        if p \<noteq> 0 then plru_up f tree p else Inr tree))"
  by auto
termination
  by (relation "measure (\<lambda>(f, tree, i). if i = 0 then 2 ^ 64 else i)") (auto simp: parentIndex_def split: if_splits)

definition plru_invalidate :: "bool list \<Rightarrow> nat \<Rightarrow> bool list result" where
  "plru_invalidate tree index = plru_up (\<lambda>right. right) tree index"

definition plru_touch :: "bool list \<Rightarrow> nat \<Rightarrow> bool list result" where
  "plru_touch tree index = plru_up (\<lambda>right. \<not> right) tree index"

definition plru_reset :: "bool list \<Rightarrow> nat \<Rightarrow> bool list result" where
  "plru_reset tree index = plru_touch tree index"

function plru_walk :: "bool list \<Rightarrow> nat \<Rightarrow> nat" where
  "plru_walk tree tree_index =
     (if tree_index < length tree
      then plru_walk tree (if tree ! tree_index then rightSubtreeIndex tree_index else leftSubtreeIndex tree_index)
      else tree_index)"
  by auto
termination
  by (relation "measure (\<lambda>(tree, i). length tree - i)")
     (auto simp: leftSubtreeIndex_def rightSubtreeIndex_def)

definition plru_getVictim :: "nat \<Rightarrow> bool list \<Rightarrow> nat \<Rightarrow> nat result" where
  "plru_getVictim numLeaves tree n = guardR (n > 0) Assert_Failed
     (let i = plru_walk tree 0 - (numLeaves - 1) in guardR (i < n) Out_Of_Range (Inr i))"

record tree_plru =
  numLeaves :: nat
  plru_count :: nat
  plru_trees :: "bool list list"

definition TreePLRU :: "u64 \<Rightarrow> tree_plru result" where
  "TreePLRU n = guardR (isPowerOf2 n) Fatal_Error
     (Inr \<lparr>numLeaves = unat n, plru_count = 0, plru_trees = []\<rparr>)"

definition plru_instantiateEntry :: "tree_plru \<Rightarrow> (nat \<times> nat) \<times> tree_plru" where
  "plru_instantiateEntry t =
     (let trees = (if plru_count t mod numLeaves t = 0
                   then plru_trees t @ [replicate (numLeaves t - 1) False] else plru_trees t)
      in ((plru_count t mod numLeaves t + numLeaves t - 1, length trees - 1),
          t\<lparr>plru_count := plru_count t + 1, plru_trees := trees\<rparr>))"


declare sc_search.simps [simp del] plru_up.simps [simp del] plru_walk.simps [simp del]

section \<open>Victim search: the first best candidate\<close>

lemma scan_best:
  fixes key :: "'d \<Rightarrow> 'k :: linorder"
  assumes "\<And>x y. better x y \<longleftrightarrow> key x < key y" "cs \<noteq> []"
  shows "scan_victim better cs < length cs"
    "i < length cs \<Longrightarrow> key (cs ! scan_victim better cs) \<le> key (cs ! i)"
    "i < scan_victim better cs \<Longrightarrow> key (cs ! scan_victim better cs) < key (cs ! i)"
proof -
  define step where "step = (\<lambda>v i. if better (cs ! i) (cs ! v) then i else v)"
  have inv: "foldl step 0 [0..<n] \<le> n \<and> (0 < n \<longrightarrow> foldl step 0 [0..<n] < n) \<and>
      (\<forall>j < n. key (cs ! foldl step 0 [0..<n]) \<le> key (cs ! j)) \<and>
      (\<forall>j < foldl step 0 [0..<n]. key (cs ! foldl step 0 [0..<n]) < key (cs ! j))" for n
  proof (induction n)
    case (Suc n)
    let ?v = "foldl step 0 [0..<n]"
    have v: "foldl step 0 [0..<Suc n] = (if key (cs ! n) < key (cs ! ?v) then n else ?v)"
      by (simp add: step_def assms(1))
    show ?case
    proof (cases "key (cs ! n) < key (cs ! ?v)")
      case True
      then have "key (cs ! n) < key (cs ! j)" if "j < n" for j
        using Suc that by (meson less_le_trans)
      then show ?thesis unfolding v using True by (auto simp: less_Suc_eq less_imp_le)
    next
      case False
      then show ?thesis unfolding v using Suc by (cases "n = 0") (auto simp: less_Suc_eq not_less)
    qed
  qed simp
  have s: "scan_victim better cs = foldl step 0 [0..<length cs]" by (simp add: scan_victim_def step_def)
  show "scan_victim better cs < length cs" using inv [of "length cs"] assms(2) by (simp add: s)
  show "i < length cs \<Longrightarrow> key (cs ! scan_victim better cs) \<le> key (cs ! i)"
    "i < scan_victim better cs \<Longrightarrow> key (cs ! scan_victim better cs) < key (cs ! i)"
    using inv [of "length cs"] by (auto simp: s)
qed

lemma first_index_Some:
  "first_index P ds = Some i \<Longrightarrow> i < length ds \<and> P (ds ! i) \<and> (\<forall>j < i. \<not> P (ds ! j))"
proof (induction ds arbitrary: i)
  case (Cons d ds)
  then show ?case by (auto split: if_splits simp: less_Suc_eq_0_disj)
qed simp

lemma first_index_None: "first_index P ds = None \<longleftrightarrow> (\<forall>d \<in> set ds. \<not> P d)"
  by (induction ds) auto

section \<open>The contract of a cache set\<close>

text \<open>
  \<open>good\<close> is the invariant of the candidates of a set, \<open>invalid\<close> marks an entry
  that holds no block, \<open>victim\<close> is the victim search and \<open>fill\<close> what
  \<^verbatim>\<open>reset\<close> does to the entry a block is inserted into.
\<close>

definition insert_block :: "('d list \<Rightarrow> (nat \<times> 'd list) result) \<Rightarrow> ('d \<Rightarrow> 'd) \<Rightarrow> 'd list \<Rightarrow> (nat \<times> 'd list) result" where
  "insert_block victim fill cs = bindR (victim cs) (\<lambda>(v, cs). Inr (v, cs[v := fill (cs ! v)]))"

fun insert_blocks :: "('d list \<Rightarrow> (nat \<times> 'd list) result) \<Rightarrow> ('d \<Rightarrow> 'd) \<Rightarrow> nat \<Rightarrow> 'd list \<Rightarrow> (nat list \<times> 'd list) result" where
  "insert_blocks victim fill 0 cs = Inr ([], cs)"
| "insert_blocks victim fill (Suc n) cs =
     bindR (insert_block victim fill cs) (\<lambda>(v, cs).
       bindR (insert_blocks victim fill n cs) (\<lambda>(vs, cs). Inr (v # vs, cs)))"

definition fills_first :: "('d \<Rightarrow> bool) \<Rightarrow> ('d list \<Rightarrow> (nat \<times> 'd list) result) \<Rightarrow> ('d \<Rightarrow> 'd) \<Rightarrow> 'd list \<Rightarrow> bool" where
  "fills_first invalid victim fill cs \<longleftrightarrow> (\<forall>k \<le> length (filter invalid cs).
     \<exists>vs cs'. insert_blocks victim fill k cs = Inr (vs, cs') \<and> distinct vs \<and> length vs = k \<and>
       (\<forall>v \<in> set vs. v < length cs \<and> invalid (cs ! v)))"

locale victim_policy =
  fixes good :: "'d list \<Rightarrow> bool" and invalid :: "'d \<Rightarrow> bool"
    and victim :: "'d list \<Rightarrow> (nat \<times> 'd list) result" and fill :: "'d \<Rightarrow> 'd"
  assumes victim_total: "good cs \<Longrightarrow> cs \<noteq> [] \<Longrightarrow> \<exists>v cs'. victim cs = Inr (v, cs') \<and> v < length cs \<and>
      length cs' = length cs \<and> good cs'"
    and prefers_invalid: "good cs \<Longrightarrow> victim cs = Inr (v, cs') \<Longrightarrow> d \<in> set cs \<Longrightarrow> invalid d \<Longrightarrow>
      invalid (cs ! v) \<and> cs' = cs"
    and fill_good: "good cs \<Longrightarrow> v < length cs \<Longrightarrow> good (cs[v := fill (cs ! v)])"
    and fill_valid: "good cs \<Longrightarrow> d \<in> set cs \<Longrightarrow> \<not> invalid (fill d)"
begin

lemma insert_block_ok:
  assumes "good cs" "cs \<noteq> []"
  obtains v cs' where "insert_block victim fill cs = Inr (v, cs')" "v < length cs" "good cs'"
    "length cs' = length cs"
    "(\<exists>d \<in> set cs. invalid d) \<Longrightarrow> invalid (cs ! v) \<and> cs' = cs[v := fill (cs ! v)]"
proof -
  obtain v cs1 where v: "victim cs = Inr (v, cs1)" "v < length cs" "length cs1 = length cs" "good cs1"
    using victim_total [OF assms] by blast
  show thesis
  proof (rule that [of v "cs1[v := fill (cs1 ! v)]"])
    show "insert_block victim fill cs = Inr (v, cs1[v := fill (cs1 ! v)])" by (simp add: insert_block_def v(1))
    show "good (cs1[v := fill (cs1 ! v)])" using fill_good v by simp
    show "invalid (cs ! v) \<and> cs1[v := fill (cs1 ! v)] = cs[v := fill (cs ! v)]" if "\<exists>d \<in> set cs. invalid d"
      using prefers_invalid [OF assms(1) v(1)] that by auto
  qed (use v in simp_all)
qed

lemma fills_before_evicting:
  assumes "good cs" "k \<le> length (filter invalid cs)"
  shows "\<exists>vs cs'. insert_blocks victim fill k cs = Inr (vs, cs') \<and> distinct vs \<and> length vs = k \<and>
    (\<forall>v \<in> set vs. v < length cs \<and> invalid (cs ! v)) \<and> length (filter invalid cs') = length (filter invalid cs) - k"
  using assms
proof (induction k arbitrary: cs)
  case (Suc k)
  then have "filter invalid cs \<noteq> []" by auto
  then have ex: "\<exists>d \<in> set cs. invalid d" "cs \<noteq> []" by (auto simp: filter_empty_conv)
  obtain v cs1 where v: "insert_block victim fill cs = Inr (v, cs1)" "v < length cs" "good cs1"
    "invalid (cs ! v)" "cs1 = cs[v := fill (cs ! v)]"
    using insert_block_ok [OF Suc.prems(1) ex(2)] ex(1) by metis
  have nv: "\<not> invalid (fill (cs ! v))" using fill_valid [OF Suc.prems(1)] v(2) by simp
  have count: "Suc (length (filter invalid (xs[i := x]))) = length (filter invalid xs)"
    if "i < length xs" "invalid (xs ! i)" "\<not> invalid x" for i x and xs :: "'d list"
    using that
  proof (induction xs arbitrary: i)
    case (Cons y ys)
    then show ?case by (cases i) auto
  qed simp
  have c1: "Suc (length (filter invalid cs1)) = length (filter invalid cs)"
    using count [OF v(2,4) nv] v(5) by simp
  obtain vs cs' where vs: "insert_blocks victim fill k cs1 = Inr (vs, cs')" "distinct vs" "length vs = k"
    "\<forall>u \<in> set vs. u < length cs1 \<and> invalid (cs1 ! u)"
    "length (filter invalid cs') = length (filter invalid cs1) - k"
    using Suc.IH [OF v(3)] Suc.prems(2) c1 by auto
  have u: "u \<noteq> v \<and> u < length cs \<and> invalid (cs ! u)" if "u \<in> set vs" for u
    using vs(4) that v(2,5) nv by (cases "u = v") auto
  then have "v \<notin> set vs" by blast
  then show ?case using v(1,2,4) vs c1 u by auto
qed simp

lemma fills_first_ok: "good cs \<Longrightarrow> fills_first invalid victim fill cs"
  unfolding fills_first_def using fills_before_evicting by blast

end

section \<open>The policies satisfy the contract\<close>

lemma victim_by_total: "cs \<noteq> [] \<Longrightarrow> victim_by better cs = Inr (scan_victim better cs, cs)"
  by (simp add: victim_by_def)

lemma victim_by_Inr: "victim_by better cs = Inr (v, cs') \<longleftrightarrow> cs \<noteq> [] \<and> v = scan_victim better cs \<and> cs' = cs"
  by (auto simp: victim_by_def)

lemma min_policy:
  fixes key :: "'d \<Rightarrow> 'k :: linorder"
  assumes "\<And>x y. better x y \<longleftrightarrow> key x < key y" "\<And>x. invalid x \<longleftrightarrow> key x = bt" "\<And>x. bt \<le> key x"
    "\<And>d. \<not> invalid (fill d)"
  shows "victim_policy (\<lambda>_. True) invalid (victim_by better) fill"
proof unfold_locales
  show "\<exists>v cs'. victim_by better cs = Inr (v, cs') \<and> v < length cs \<and> length cs' = length cs \<and> True"
    if "cs \<noteq> []" for cs
    using scan_best(1) [OF assms(1) that] victim_by_total [OF that] by auto
  show "invalid (cs ! v) \<and> cs' = cs" if h: "victim_by better cs = Inr (v, cs')" "d \<in> set cs" "invalid d" for cs v cs' d
  proof -
    have v: "cs \<noteq> []" "v = scan_victim better cs" "cs' = cs" using h(1) by (auto simp: victim_by_Inr)
    obtain i where "i < length cs" "cs ! i = d" using h(2) by (auto simp: in_set_conv_nth)
    then have "key (cs ! v) \<le> bt" using scan_best(2) [OF assms(1) v(1), of i] v(2) h(3) assms(2) by auto
    then show ?thesis using v(3) assms(2,3) by (simp add: antisym)
  qed
qed (use assms(4) in simp_all)

interpretation lru: victim_policy "\<lambda>_. True" "\<lambda>d. lastTouchTick d = 0" lru_getVictim "lru_reset (max 1 t)"
  unfolding lru_getVictim_def
  by (rule min_policy [of _ lastTouchTick _ 0]) (auto simp: lru_reset_def max_def)

interpretation fifo: victim_policy "\<lambda>_. True" "\<lambda>d. tickInserted d = 0" fifo_getVictim "fifo_reset (max 1 t)"
  unfolding fifo_getVictim_def
  by (rule min_policy [of _ tickInserted _ 0]) (auto simp: fifo_reset_def max_def)

interpretation lfu: victim_policy "\<lambda>_. True" "\<lambda>d. d = 0" lfu_getVictim lfu_reset
  unfolding lfu_getVictim_def
  by (rule min_policy [of _ "\<lambda>x. x" _ 0]) (auto simp: lfu_reset_def)

lemma first_index_policy:
  assumes "\<And>cs. cs \<noteq> [] \<Longrightarrow> vic cs = (case first_index invalid cs of Some i \<Rightarrow> Inr (i, cs) | None \<Rightarrow> other cs)"
    "\<And>cs. good cs \<Longrightarrow> cs \<noteq> [] \<Longrightarrow> first_index invalid cs = None \<Longrightarrow>
       \<exists>v cs'. other cs = Inr (v, cs') \<and> v < length cs \<and> length cs' = length cs \<and> good cs'"
    "\<And>cs v. good cs \<Longrightarrow> v < length cs \<Longrightarrow> good (cs[v := fill (cs ! v)])" "\<And>d. \<not> invalid (fill d)"
  shows "victim_policy good invalid vic fill"
proof unfold_locales
  show "\<exists>v cs'. vic cs = Inr (v, cs') \<and> v < length cs \<and> length cs' = length cs \<and> good cs'"
    if "good cs" "cs \<noteq> []" for cs
    using assms(1,2) that first_index_Some [of invalid cs] by (cases "first_index invalid cs") auto
  show "invalid (cs ! v) \<and> cs' = cs" if h: "vic cs = Inr (v, cs')" "d \<in> set cs" "invalid d" for cs v cs' d
  proof -
    obtain i where "first_index invalid cs = Some i" using h(2,3) first_index_None by fastforce
    moreover have "cs \<noteq> []" using h(2) by auto
    ultimately show ?thesis using h(1) assms(1) [of cs] first_index_Some [of invalid cs i] by auto
  qed
qed (use assms(3,4) in simp_all)

interpretation random: victim_policy "\<lambda>cs. cs = [] \<or> r < length cs" "\<lambda>valid. \<not> valid" "random_getVictim r" random_reset
  by (rule first_index_policy [where other = "\<lambda>cs. Inr (r, cs)"])
     (auto simp: random_getVictim_def random_reset_def)

lemma sc_search_total:
  assumes "cs \<noteq> []"
  shows "\<exists>v cs'. sc_search t cs = (v, cs') \<and> v < length cs \<and> length cs' = length cs \<and>
    \<not> hasSecondChance (cs' ! v) \<and> v = scan_victim fifo_older cs' \<and>
    (\<forall>i < length cs. cs' ! i = cs ! i \<or> (hasSecondChance (cs ! i) \<and> cs' ! i = useSecondChance t (cs ! i)))"
  using assms
proof (induction t cs rule: sc_search.induct)
  case (1 t cs)
  let ?v = "scan_victim fifo_older cs"
  have v: "?v < length cs" using scan_best(1) [of fifo_older tickInserted cs] "1.prems" by simp
  show ?case
  proof (cases "hasSecondChance (cs ! ?v)")
    case True
    let ?cs = "cs[?v := useSecondChance t (cs ! ?v)]"
    have s: "sc_search t cs = sc_search t ?cs" using v True by (subst sc_search.simps) (simp add: Let_def)
    obtain v' cs' where r: "sc_search t ?cs = (v', cs')" "v' < length ?cs" "length cs' = length ?cs"
      "\<not> hasSecondChance (cs' ! v')" "v' = scan_victim fifo_older cs'"
      "\<forall>i < length ?cs. cs' ! i = ?cs ! i \<or> (hasSecondChance (?cs ! i) \<and> cs' ! i = useSecondChance t (?cs ! i))"
      using 1 v True by fastforce
    have "cs' ! i = cs ! i \<or> (hasSecondChance (cs ! i) \<and> cs' ! i = useSecondChance t (cs ! i))" if "i < length cs" for i
      using r(6) that v True by (cases "i = ?v") (auto simp: useSecondChance_def nth_list_update_eq_if)
    then show ?thesis unfolding s using r by simp
  next
    case False
    then have "sc_search t cs = (?v, cs)" by (subst sc_search.simps) (simp add: Let_def)
    then show ?thesis using v False by simp
  qed
qed

interpretation second_chance: victim_policy "\<lambda>_. True" "\<lambda>d. tickInserted d = 0 \<and> \<not> hasSecondChance d"
    "sc_getVictim t" "sc_reset_data (max 1 t)"
proof (rule first_index_policy [where other = "\<lambda>cs. Inr (sc_search t cs)"])
  show "\<exists>v cs'. Inr (sc_search t cs) = Inr (v, cs') \<and> v < length cs \<and> length cs' = length cs \<and> True"
    if "cs \<noteq> []" for cs
    using sc_search_total [OF that, of t] by auto
qed (auto simp: sc_getVictim_def sc_reset_data_def fifo_reset_def max_def)

lemma mru_loop_spec:
  assumes "v < length cs" "\<forall>i \<in> set is. i < length cs" "cs ! v \<noteq> 0 \<or> v \<in> set is"
  shows "mru_loop cs is v < length cs \<and> ((\<exists>i \<in> set is. cs ! i = 0) \<longrightarrow> cs ! mru_loop cs is v = 0)"
  using assms by (induction "is" arbitrary: v) auto

interpretation mru: victim_policy "\<lambda>_. True" "\<lambda>d. d = 0" mru_getVictim "mru_reset (max 1 t)"
proof unfold_locales
  show "\<exists>v cs'. mru_getVictim cs = Inr (v, cs') \<and> v < length cs \<and> length cs' = length cs \<and> True"
    if "cs \<noteq> []" for cs
    using mru_loop_spec [of 0 cs "[0..<length cs]"] that by (auto simp: mru_getVictim_def)
  show "cs ! v = 0 \<and> cs' = cs" if "mru_getVictim cs = Inr (v, cs')" "d \<in> set cs" "d = 0" for cs v cs' d
    using mru_loop_spec [of 0 cs "[0..<length cs]"] that by (auto simp: mru_getVictim_def in_set_conv_nth)
qed (auto simp: mru_reset_def max_def)

definition brrip_good :: "brrip_data list \<Rightarrow> bool" where
  "brrip_good cs \<longleftrightarrow> (\<forall>d \<in> set cs. sc_ok (rrpv d))"

lemma scan_max:
  assumes "cs \<noteq> []"
  shows "scan_victim (\<lambda>c v. counter (rrpv c) > counter (rrpv v)) cs < length cs"
    "i < length cs \<Longrightarrow> sc_val (rrpv (cs ! i)) \<le> sc_val (rrpv (cs ! scan_victim (\<lambda>c v. counter (rrpv c) > counter (rrpv v)) cs))"
  using scan_best [of "\<lambda>c v. counter (rrpv c) > counter (rrpv v)" "\<lambda>d. - sc_val (rrpv d)" cs] assms
  by (auto simp: sc_val_def word_less_def)

interpretation brrip: victim_policy brrip_good "\<lambda>d. \<not> br_valid d" brrip_getVictim "brrip_reset r btp"
proof (rule first_index_policy [where other = "\<lambda>cs.
    let victim = scan_victim (\<lambda>c v. counter (rrpv c) > counter (rrpv v)) cs;
        (diff, r) = saturate (rrpv (cs ! victim));
        cs = cs[victim := (cs ! victim)\<lparr>rrpv := r\<rparr>]
    in Inr (victim, if diff > 0 then map (\<lambda>d. d\<lparr>rrpv := sc_add (rrpv d) (uint diff)\<rparr>) cs else cs)"])
  fix cs :: "brrip_data list"
  assume good: "brrip_good cs" and ne: "cs \<noteq> []"
  let ?v = "scan_victim (\<lambda>c v. counter (rrpv c) > counter (rrpv v)) cs"
  have v: "?v < length cs" using scan_max(1) [OF ne] .
  have ok: "brrip_good (cs[?v := (cs ! ?v)\<lparr>rrpv := snd (saturate (rrpv (cs ! ?v)))\<rparr>])"
    using good v by (auto simp: brrip_good_def gem5_inv dest: set_update_subset_insert')
  show "\<exists>v cs'. (let victim = ?v; (diff, r) = saturate (rrpv (cs ! victim));
        cs = cs[victim := (cs ! victim)\<lparr>rrpv := r\<rparr>]
    in Inr (victim, if diff > 0 then map (\<lambda>d. d\<lparr>rrpv := sc_add (rrpv d) (uint diff)\<rparr>) cs else cs)) = Inr (v, cs') \<and>
     v < length cs \<and> length cs' = length cs \<and> brrip_good cs'"
    using v ok by (auto simp: Let_def case_prod_beta brrip_good_def gem5_inv)
next
  fix cs :: "brrip_data list" and v
  assume "brrip_good cs" "v < length cs"
  then show "brrip_good (cs[v := brrip_reset r btp (cs ! v)])"
    by (auto simp: brrip_good_def brrip_reset_def Let_def gem5_inv dest!: set_update_subset_insert')
qed (auto simp: brrip_getVictim_def brrip_reset_def Let_def)

text \<open>C30: with seven of the policies a set with \<open>n\<close> invalid entries takes \<open>n\<close> new
  blocks without evicting a valid one: the victim searches never fail, they choose pairwise
  different entries, and all of them invalid ones. The tick-based policies need a clock that
  has left zero, the tick that marks an invalid entry.\<close>

theorem fills_before_evicting_all:
  assumes "now \<noteq> 0"
  shows "fills_first (\<lambda>d. lastTouchTick d = 0) lru_getVictim (lru_reset now) lcs \<and>
    fills_first (\<lambda>d. tickInserted d = 0) fifo_getVictim (fifo_reset now) (fcs :: fifo_data list) \<and>
    fills_first (\<lambda>d. d = 0) mru_getVictim (mru_reset now) mcs \<and>
    fills_first (\<lambda>d. d = 0) lfu_getVictim lfu_reset ucs \<and>
    fills_first (\<lambda>d. tickInserted d = 0 \<and> \<not> hasSecondChance d) (sc_getVictim now) (sc_reset_data now) scs \<and>
    (r < length rcs \<longrightarrow> fills_first (\<lambda>valid. \<not> valid) (random_getVictim r) random_reset rcs) \<and>
    (brrip_good bcs \<longrightarrow> fills_first (\<lambda>d. \<not> br_valid d) brrip_getVictim (brrip_reset n btp) bcs)"
proof -
  have m: "max 1 now = now" using assms by (simp add: max_def word_le_nat_alt word_unat_eq_iff)
  show ?thesis
    using lru.fills_first_ok [where t = now and cs = lcs] fifo.fills_first_ok [where t = now and cs = fcs]
      mru.fills_first_ok [where t = now and cs = mcs] lfu.fills_first_ok [where cs = ucs]
      second_chance.fills_first_ok [where t = now and cs = scs] random.fills_first_ok [where r = r and cs = rcs]
      brrip.fills_first_ok [where r = n and btp = btp and cs = bcs]
    unfolding m by blast
qed

theorem fills_before_evicting_all_witness:
  "fills_first (\<lambda>d. lastTouchTick d = 0) lru_getVictim (lru_reset 7) [LRUReplData, LRUReplData\<lparr>lastTouchTick := 4\<rparr>] \<and>
   fills_first (\<lambda>d. d = 0) mru_getVictim (mru_reset 7) [3, 0, 0]"
  using fills_before_evicting_all [of 7 "[LRUReplData, LRUReplData\<lparr>lastTouchTick := 4\<rparr>]" _ "[3, 0, 0]"] by simp

section \<open>Way partitioning for direct I/O\<close>








section \<open>RRIP aging\<close>

text \<open>With all entries valid the BRRIP victim is the first one of maximal re-reference value,
  and the search ages the whole set: every value moves up by the distance of the victim to the
  maximum, so that the victim ends at the maximum, no value exceeds it and no order changes.\<close>

lemma brrip_victim_ages:
  assumes "brrip_good cs" "cs \<noteq> []" "\<forall>d \<in> set cs. br_valid d \<and> maxVal (rrpv d) = mx"
  shows "\<exists>v cs'. brrip_getVictim cs = Inr (v, cs') \<and> v < length cs \<and> length cs' = length cs \<and>
    (\<forall>i < length cs. sc_val (rrpv (cs ! i)) \<le> sc_val (rrpv (cs ! v)) \<and>
       sc_val (rrpv (cs' ! i)) = sc_val (rrpv (cs ! i)) + (uint mx - sc_val (rrpv (cs ! v))) \<and>
       sc_val (rrpv (cs' ! i)) \<le> uint mx)"
proof -
  let ?v = "scan_victim (\<lambda>c v. counter (rrpv c) > counter (rrpv v)) cs"
  let ?diff = "fst (saturate (rrpv (cs ! ?v)))"
  let ?cs1 = "cs[?v := (cs ! ?v)\<lparr>rrpv := snd (saturate (rrpv (cs ! ?v)))\<rparr>]"
  let ?cs2 = "if ?diff > 0 then map (\<lambda>d. d\<lparr>rrpv := sc_add (rrpv d) (uint ?diff)\<rparr>) ?cs1 else ?cs1"
  have v: "?v < length cs" using scan_max(1) [OF assms(2)] .
  have le: "sc_val (rrpv (cs ! i)) \<le> sc_val (rrpv (cs ! ?v))" if "i < length cs" for i
    using scan_max(2) [OF assms(2) that] .
  have ok: "sc_ok (rrpv (cs ! i))" "sc_max (rrpv (cs ! i)) = uint mx" if "i < length cs" for i
    using assms(1,3) that by (auto simp: brrip_good_def sc_max_def)
  have diff: "uint ?diff = uint mx - sc_val (rrpv (cs ! ?v))"
    using saturate_val(2) [OF ok(1) [OF v]] ok(2) [OF v] by simp
  have "first_index (\<lambda>d. \<not> br_valid d) cs = None" using assms(3) by (simp add: first_index_None)
  then have vic: "brrip_getVictim cs = Inr (?v, ?cs2)"
    using assms(2) by (simp add: brrip_getVictim_def Let_def case_prod_beta)
  have new: "sc_val (rrpv (?cs2 ! i)) = sc_val (rrpv (cs ! i)) + uint ?diff" if i: "i < length cs" for i
  proof (cases "i = ?v")
    case True
    have "sc_ok (snd (saturate (rrpv (cs ! ?v))))" by (rule sc_ops_ok(6) [OF ok(1) [OF v]])
    then have "sc_val (sc_add (snd (saturate (rrpv (cs ! ?v)))) (uint ?diff)) = uint mx"
      using sc_add_clamps [of "snd (saturate (rrpv (cs ! ?v)))" "uint ?diff"] ok(2) [OF v] saturate_val(1) [of "rrpv (cs ! ?v)"]
        sc_ok_bounds [OF ok(1) [OF v]] diff
      by (simp add: clamp_def sc_max_def)
    then show ?thesis
      using True v diff saturate_val(1) [of "rrpv (cs ! ?v)"] ok(2) [OF v] by simp
  next
    case False
    have "sc_val (sc_add (rrpv (cs ! i)) (uint ?diff)) = sc_val (rrpv (cs ! i)) + uint ?diff"
      using sc_add_clamps [OF ok(1) [OF i], of "uint ?diff"] le [OF i] diff ok(2) [OF i]
        sc_ok_bounds [OF ok(1) [OF i]] sc_ok_bounds [OF ok(1) [OF v]] ok(2) [OF v]
      by (simp add: clamp_def)
    moreover have "uint ?diff = 0" if "\<not> ?diff > 0" using that by (metis unsigned_0 word_neq_0_conv)
    ultimately show ?thesis using False i by auto
  qed
  show ?thesis
    using vic v le new diff sc_ok_bounds [OF ok(1)] ok(2) by (intro exI [of _ ?v] exI [of _ ?cs2]) auto
qed

lemma brrip_victim_ages_example:
  "\<exists>v cs'. brrip_getVictim [\<lparr>rrpv = \<lparr>initialVal = 0, maxVal = 3, counter = 1\<rparr>, br_valid = True\<rparr>,
      \<lparr>rrpv = \<lparr>initialVal = 0, maxVal = 3, counter = 2\<rparr>, br_valid = True\<rparr>] = Inr (v, cs') \<and>
    sc_val (rrpv (cs' ! 0)) \<le> 3"
proof -
  let ?cs = "[\<lparr>rrpv = \<lparr>initialVal = 0, maxVal = 3, counter = 1\<rparr>, br_valid = True\<rparr>,
      \<lparr>rrpv = \<lparr>initialVal = 0, maxVal = 3, counter = 2\<rparr>, br_valid = True\<rparr>]"
  have h: "brrip_good ?cs" "?cs \<noteq> []" "\<forall>d \<in> set ?cs. br_valid d \<and> maxVal (rrpv d) = 3"
    by (simp_all add: brrip_good_def sc_ok_def word_le_def)
  show ?thesis using brrip_victim_ages [OF h] by fastforce
qed

section \<open>Tree PLRU\<close>

text \<open>\<open>points tree i\<close>: every ancestor of node \<open>i\<close> points towards it.\<close>

function points :: "bool list \<Rightarrow> nat \<Rightarrow> bool" where
  "points tree i = (if i = 0 then True else tree ! ((i - 1) div 2) = even i \<and> points tree ((i - 1) div 2))"
  by auto
termination
  by (relation "measure snd") auto

declare points.simps [simp del]

lemma points_0 [simp]: "points tree 0"
  by (subst points.simps) simp

lemma points_walk: "points tree i \<Longrightarrow> points tree (plru_walk tree i)"
proof (induction tree i rule: plru_walk.induct)
  case (1 tree i)
  let ?c = "if tree ! i then rightSubtreeIndex i else leftSubtreeIndex i"
  show ?case
  proof (cases "i < length tree")
    case True
    have "points tree ?c"
      using "1.prems" by (subst points.simps) (simp add: rightSubtreeIndex_def leftSubtreeIndex_def)
    then show ?thesis using 1 True by (subst plru_walk.simps) simp
  next
    case False
    then show ?thesis using "1.prems" by (subst plru_walk.simps) simp
  qed
qed

lemma walk_through:
  assumes "points tree i" "i = 0 \<or> (i - 1) div 2 < length tree"
  shows "plru_walk tree 0 = plru_walk tree i"
  using assms
proof (induction tree i rule: points.induct)
  case (1 tree i)
  show ?case
  proof (cases "i = 0")
    case False
    let ?p = "(i - 1) div 2"
    have p: "tree ! ?p = even i" "points tree ?p" "?p < length tree"
      using "1.prems" False points.simps [of tree i] by auto
    moreover have "?p = 0 \<or> (?p - 1) div 2 < length tree" using p(3) by linarith
    ultimately have "plru_walk tree 0 = plru_walk tree ?p" using "1.IH" False by blast
    also have "\<dots> = plru_walk tree (if even i then rightSubtreeIndex ?p else leftSubtreeIndex ?p)"
      using p(1,3) by (subst plru_walk.simps) simp
    also have "(if even i then rightSubtreeIndex ?p else leftSubtreeIndex ?p) = i"
      using False by (auto simp: rightSubtreeIndex_def leftSubtreeIndex_def elim!: evenE oddE)
    finally show ?thesis .
  qed simp
qed

lemma walk_range:
  assumes "i \<le> 2 * length tree"
  shows "length tree \<le> plru_walk tree i \<and> plru_walk tree i \<le> 2 * length tree"
  using assms
proof (induction tree i rule: plru_walk.induct)
  case (1 tree i)
  show ?case
  proof (cases "i < length tree")
    case True
    then show ?thesis
      using 1 by (subst (1 2) plru_walk.simps) (auto simp: rightSubtreeIndex_def leftSubtreeIndex_def)
  next
    case False
    then show ?thesis using "1.prems" by (subst (1 2) plru_walk.simps) simp
  qed
qed

lemma plru_up_ok:
  assumes "0 < i" "(i - 1) div 2 < length tree"
  shows "\<exists>tree'. plru_up f tree i = Inr tree' \<and> length tree' = length tree \<and>
    tree' ! ((i - 1) div 2) = f (even i) \<and> (\<forall>j \<ge> i. tree' ! j = tree ! j)"
  using assms
proof (induction i arbitrary: tree rule: less_induct)
  case (less i)
  let ?p = "(i - 1) div 2" let ?t = "tree[?p := f (even i)]"
  have pi: "parentIndex i = ?p" "isRightSubtree i = even i" using less.prems(1)
    by (auto simp: parentIndex_def isRightSubtree_def even_iff_mod_2_eq_zero)
  have step: "plru_up f tree i = (if ?p \<noteq> 0 then plru_up f ?t ?p else Inr ?t)"
    using less.prems(2) by (subst plru_up.simps) (simp add: pi Let_def tree_at_set_def)
  have lt: "?p < i" using less.prems(1) by auto
  show ?case
  proof (cases "?p = 0")
    case True
    then show ?thesis using step less.prems lt by (auto simp: nth_list_update_eq_if)
  next
    case False
    have "(?p - 1) div 2 < length ?t" using less.prems(2) by simp
    then obtain tree' where t': "plru_up f ?t ?p = Inr tree'" "length tree' = length tree"
      "\<forall>j \<ge> ?p. tree' ! j = ?t ! j"
      using less.IH [OF lt, of ?t] False by auto
    then have "tree' ! ?p = f (even i)" "\<forall>j \<ge> i. tree' ! j = tree ! j"
      using less.prems(2) lt by (auto simp: nth_list_update_eq_if)
    then show ?thesis using step False t'(1,2) by auto
  qed
qed

lemma plru_up_points:
  assumes "0 < i" "(i - 1) div 2 < length tree" "plru_up (\<lambda>r. r) tree i = Inr tree'"
  shows "points tree' i"
  using assms
proof (induction i arbitrary: tree rule: less_induct)
  case (less i)
  let ?p = "(i - 1) div 2" let ?t = "tree[?p := even i]"
  have pi: "parentIndex i = ?p" "isRightSubtree i = even i" using less.prems(1)
    by (auto simp: parentIndex_def isRightSubtree_def even_iff_mod_2_eq_zero)
  have step: "plru_up (\<lambda>r. r) tree i = (if ?p \<noteq> 0 then plru_up (\<lambda>r. r) ?t ?p else Inr ?t)"
    using less.prems(2) by (subst plru_up.simps) (simp add: pi Let_def tree_at_set_def)
  have lt: "?p < i" using less.prems(1) by auto
  have "points tree' ?p"
  proof (cases "?p = 0")
    case False
    then show ?thesis using less.IH [OF lt, of ?t] less.prems step by auto
  next
    case True
    then show ?thesis by (simp only: True points_0)
  qed
  moreover have "tree' ! ?p = even i"
    using plru_up_ok [OF less.prems(1,2), of "\<lambda>r. r"] less.prems(3) by auto
  ultimately show ?case by (subst points.simps) simp
qed

text \<open>C36: the tree of \<^verbatim>\<open>TreePLRU\<close> with \<open>2 ^ k\<close> leaves, \<open>k\<close> positive, does what the
  policy asks for, without any access out of range: the victim is always one of the leaves, an
  invalidated leaf is the next victim, and a touched or reset leaf is not.\<close>

theorem tree_plru_correct:
  assumes "length tree = 2 ^ k - 1" "0 < k" "leaf < 2 ^ k"
  shows "(\<exists>v. plru_getVictim (2 ^ k) tree (2 ^ k) = Inr v \<and> v < 2 ^ k) \<and>
    (\<exists>tree'. plru_invalidate tree (leaf + 2 ^ k - 1) = Inr tree' \<and> length tree' = length tree \<and>
      plru_getVictim (2 ^ k) tree' (2 ^ k) = Inr leaf) \<and>
    (\<exists>tree' v. plru_touch tree (leaf + 2 ^ k - 1) = Inr tree' \<and> plru_reset tree (leaf + 2 ^ k - 1) = Inr tree' \<and>
      length tree' = length tree \<and> plru_getVictim (2 ^ k) tree' (2 ^ k) = Inr v \<and> v \<noteq> leaf)"
proof -
  let ?n = "2 ^ k :: nat" let ?i = "leaf + ?n - 1"
  have n: "2 \<le> ?n" using assms(2) by (metis Suc_leI power_increasing one_le_numeral power_one_right One_nat_def)
  have vic: "plru_getVictim ?n t ?n = Inr (plru_walk t 0 - (?n - 1)) \<and> plru_walk t 0 - (?n - 1) < ?n \<and>
      ?n - 1 \<le> plru_walk t 0" if "length t = ?n - 1" for t
    using walk_range [of 0 t] that n by (auto simp: plru_getVictim_def Let_def)
  have A: "\<exists>v. plru_getVictim ?n tree ?n = Inr v \<and> v < ?n" using vic [OF assms(1)] by blast
  have i: "0 < ?i" "(?i - 1) div 2 < length tree" "length tree \<le> ?i" using assms n by auto
  obtain t1 where t1: "plru_up (\<lambda>r. r) tree ?i = Inr t1" "length t1 = length tree"
    using plru_up_ok [OF i(1,2), of "\<lambda>r. r"] by blast
  have "plru_walk t1 0 = plru_walk t1 ?i"
    using walk_through [OF plru_up_points [OF i(1,2) t1(1)]] i(2) t1(2) by simp
  also have "\<dots> = ?i" using i(3) t1(2) by (subst plru_walk.simps) simp
  finally have B: "\<exists>tree'. plru_invalidate tree ?i = Inr tree' \<and> length tree' = length tree \<and>
      plru_getVictim ?n tree' ?n = Inr leaf"
    using t1 vic [of t1] assms(1) n by (auto simp: plru_invalidate_def)
  obtain t2 where t2: "plru_up (\<lambda>r. \<not> r) tree ?i = Inr t2" "length t2 = length tree" "t2 ! ((?i - 1) div 2) = (\<not> even ?i)"
    using plru_up_ok [OF i(1,2), of "\<lambda>r. \<not> r"] by blast
  have "plru_walk t2 0 \<noteq> ?i"
  proof
    assume "plru_walk t2 0 = ?i"
    then have "points t2 ?i" using points_walk [OF points_0, of t2] by simp
    then show False using t2(3) i(1) points.simps [of t2 ?i] by auto
  qed
  then have "plru_walk t2 0 - (?n - 1) \<noteq> leaf" using vic [of t2] t2(2) assms(1) by auto
  then have C: "\<exists>tree' v. plru_touch tree ?i = Inr tree' \<and> plru_reset tree ?i = Inr tree' \<and>
      length tree' = length tree \<and> plru_getVictim ?n tree' ?n = Inr v \<and> v \<noteq> leaf"
    using t2 vic [of t2] assms(1) by (auto simp: plru_touch_def plru_reset_def)
  show ?thesis using A B C by blast
qed

theorem tree_plru_correct_witness:
  "\<exists>tree'. plru_invalidate [True, False, True] (2 + 2 ^ 2 - 1) = Inr tree' \<and>
     plru_getVictim (2 ^ 2) tree' (2 ^ 2) = Inr 2"
  using tree_plru_correct [of "[True, False, True]" 2 2] by auto

text \<open>A tree of one leaf is accepted by the constructor, but its only leaf cannot be touched.\<close>

lemma one_leaf_out_of_range: "plru_touch [] 0 = Inl Out_Of_Range"
  by (simp add: plru_touch_def, subst plru_up.simps) (simp add: tree_at_set_def Let_def)

text \<open>An invalidated entry of \<^verbatim>\<open>WeightedLRU\<close> keeps its weight and is not the next victim.\<close>

lemma weighted_ignores_invalidation:
  "weighted_getVictim [\<lparr>lastTouchTick = 0, ioInvalidated = False, last_occ_ptr = 5\<rparr>,
     \<lparr>lastTouchTick = 7, ioInvalidated = False, last_occ_ptr = 1\<rparr>]
   = Inr (1, [\<lparr>lastTouchTick = 0, ioInvalidated = False, last_occ_ptr = 5\<rparr>,
     \<lparr>lastTouchTick = 7, ioInvalidated = False, last_occ_ptr = 1\<rparr>])"
  by code_simp

text \<open>With direct I/O the victim may lie outside the partition.\<close>

lemma io_victim_outside_partition:
  "getVictimWayPart [\<lparr>lastTouchTick = 0, ioInvalidated = True\<rparr>, \<lparr>lastTouchTick = 9, ioInvalidated = False\<rparr>] [0, 1] 2
   = Inr (0, [\<lparr>lastTouchTick = 0, ioInvalidated = False\<rparr>, \<lparr>lastTouchTick = 9, ioInvalidated = False\<rparr>])"
  by code_simp
end
