(* ===== verification/Mem_Packet.thy ===== *)
theory Mem_Packet
  imports Gem5_Prelude
begin

text \<open>
  \<^verbatim>\<open>src/gem5/src/mem/packet.hh\<close> and \<^verbatim>\<open>packet.cc\<close>: the commands of the memory system
  with their attribute table, the packet that carries them with its flag word
  (\<^verbatim>\<open>src/gem5/src/base/flags.hh\<close>), the request flags its constructors read
  (\<^verbatim>\<open>request.hh\<close>), the turn from request to response, and the functional access that
  reads from or writes to a buffer that overlaps the packet. A \<^verbatim>\<open>memcpy\<close> or index outside
  a buffer is the error \<^const>\<open>Out_Of_Range\<close>.
\<close>

section \<open>Commands\<close>

datatype command =
  InvalidCmd | ReadReq | ReadResp | ReadRespWithInvalidate | WriteReq | WriteResp |
  WriteCompleteResp | WritebackDirty | WritebackClean | WriteClean | CleanEvict | SoftPFReq |
  SoftPFExReq | HardPFReq | SoftPFResp | HardPFResp | WriteLineReq | UpgradeReq | SCUpgradeReq |
  UpgradeResp | SCUpgradeFailReq | UpgradeFailResp | ReadExReq | ReadExResp | ReadCleanReq |
  ReadSharedReq | LoadLockedReq | StoreCondReq | StoreCondFailReq | StoreCondResp | SwapReq |
  SwapResp | MemFenceReq | MemSyncReq | MemSyncResp | MemFenceResp | CleanSharedReq |
  CleanSharedResp | CleanInvalidReq | CleanInvalidResp | InvalidDestError | BadAddressError |
  FunctionalReadError | FunctionalWriteError | PrintReq | FlushReq | InvalidateReq |
  InvalidateResp | HTMReq | HTMReqResp | HTMAbort

datatype attribute =
  IsRead | IsWrite | IsUpgrade | IsInvalidate | IsClean | NeedsWritable | IsRequest | IsResponse |
  NeedsResponse | IsEviction | IsSWPrefetch | IsHWPrefetch | IsLlsc | HasData | IsError | IsPrint |
  IsFlush | FromCache

text \<open>The values of the enumerations: two numbers after \<^verbatim>\<open>SwapResp\<close> are skipped.\<close>

primrec toInt :: "command \<Rightarrow> nat" where
  "toInt InvalidCmd = 0" |
  "toInt ReadReq = 1" |
  "toInt ReadResp = 2" |
  "toInt ReadRespWithInvalidate = 3" |
  "toInt WriteReq = 4" |
  "toInt WriteResp = 5" |
  "toInt WriteCompleteResp = 6" |
  "toInt WritebackDirty = 7" |
  "toInt WritebackClean = 8" |
  "toInt WriteClean = 9" |
  "toInt CleanEvict = 10" |
  "toInt SoftPFReq = 11" |
  "toInt SoftPFExReq = 12" |
  "toInt HardPFReq = 13" |
  "toInt SoftPFResp = 14" |
  "toInt HardPFResp = 15" |
  "toInt WriteLineReq = 16" |
  "toInt UpgradeReq = 17" |
  "toInt SCUpgradeReq = 18" |
  "toInt UpgradeResp = 19" |
  "toInt SCUpgradeFailReq = 20" |
  "toInt UpgradeFailResp = 21" |
  "toInt ReadExReq = 22" |
  "toInt ReadExResp = 23" |
  "toInt ReadCleanReq = 24" |
  "toInt ReadSharedReq = 25" |
  "toInt LoadLockedReq = 26" |
  "toInt StoreCondReq = 27" |
  "toInt StoreCondFailReq = 28" |
  "toInt StoreCondResp = 29" |
  "toInt SwapReq = 30" |
  "toInt SwapResp = 31" |
  "toInt MemFenceReq = 34" |
  "toInt MemSyncReq = 35" |
  "toInt MemSyncResp = 36" |
  "toInt MemFenceResp = 37" |
  "toInt CleanSharedReq = 38" |
  "toInt CleanSharedResp = 39" |
  "toInt CleanInvalidReq = 40" |
  "toInt CleanInvalidResp = 41" |
  "toInt InvalidDestError = 42" |
  "toInt BadAddressError = 43" |
  "toInt FunctionalReadError = 44" |
  "toInt FunctionalWriteError = 45" |
  "toInt PrintReq = 46" |
  "toInt FlushReq = 47" |
  "toInt InvalidateReq = 48" |
  "toInt InvalidateResp = 49" |
  "toInt HTMReq = 50" |
  "toInt HTMReqResp = 51" |
  "toInt HTMAbort = 52"

primrec attr_bit :: "attribute \<Rightarrow> nat" where
  "attr_bit IsRead = 0" |
  "attr_bit IsWrite = 1" |
  "attr_bit IsUpgrade = 2" |
  "attr_bit IsInvalidate = 3" |
  "attr_bit IsClean = 4" |
  "attr_bit NeedsWritable = 5" |
  "attr_bit IsRequest = 6" |
  "attr_bit IsResponse = 7" |
  "attr_bit NeedsResponse = 8" |
  "attr_bit IsEviction = 9" |
  "attr_bit IsSWPrefetch = 10" |
  "attr_bit IsHWPrefetch = 11" |
  "attr_bit IsLlsc = 12" |
  "attr_bit HasData = 13" |
  "attr_bit IsError = 14" |
  "attr_bit IsPrint = 15" |
  "attr_bit IsFlush = 16" |
  "attr_bit FromCache = 17"

type_synonym command_info = "attribute list \<times> command \<times> string"

definition commandInfo :: "command_info list" where
  "commandInfo = [
    ([], InvalidCmd, ''InvalidCmd''),
    ([IsRead, IsRequest, NeedsResponse], ReadResp, ''ReadReq''),
    ([IsRead, IsResponse, HasData], InvalidCmd, ''ReadResp''),
    ([IsRead, IsResponse, HasData, IsInvalidate], InvalidCmd, ''ReadRespWithInvalidate''),
    ([IsWrite, NeedsWritable, IsRequest, NeedsResponse, HasData], WriteResp, ''WriteReq''),
    ([IsWrite, IsResponse], InvalidCmd, ''WriteResp''),
    ([IsWrite, IsResponse], InvalidCmd, ''WriteCompleteResp''),
    ([IsWrite, IsRequest, IsEviction, HasData, FromCache], InvalidCmd, ''WritebackDirty''),
    ([IsWrite, IsRequest, IsEviction, HasData, FromCache], InvalidCmd, ''WritebackClean''),
    ([IsWrite, IsRequest, HasData, FromCache], InvalidCmd, ''WriteClean''),
    ([IsRequest, IsEviction, FromCache], InvalidCmd, ''CleanEvict''),
    ([IsRead, IsRequest, IsSWPrefetch, NeedsResponse], SoftPFResp, ''SoftPFReq''),
    ([IsRead, NeedsWritable, IsInvalidate, IsRequest, IsSWPrefetch, NeedsResponse], SoftPFResp, ''SoftPFExReq''),
    ([IsRead, IsRequest, IsHWPrefetch, NeedsResponse, FromCache], HardPFResp, ''HardPFReq''),
    ([IsRead, IsResponse, IsSWPrefetch, HasData], InvalidCmd, ''SoftPFResp''),
    ([IsRead, IsResponse, IsHWPrefetch, HasData], InvalidCmd, ''HardPFResp''),
    ([IsWrite, NeedsWritable, IsRequest, NeedsResponse, HasData], WriteResp, ''WriteLineReq''),
    ([IsInvalidate, NeedsWritable, IsUpgrade, IsRequest, NeedsResponse, FromCache], UpgradeResp, ''UpgradeReq''),
    ([IsInvalidate, NeedsWritable, IsUpgrade, IsLlsc, IsRequest, NeedsResponse, FromCache], UpgradeResp, ''SCUpgradeReq''),
    ([IsUpgrade, IsResponse], InvalidCmd, ''UpgradeResp''),
    ([IsRead, NeedsWritable, IsInvalidate, IsLlsc, IsRequest, NeedsResponse, FromCache], UpgradeFailResp, ''SCUpgradeFailReq''),
    ([IsRead, IsResponse, HasData], InvalidCmd, ''UpgradeFailResp''),
    ([IsRead, NeedsWritable, IsInvalidate, IsRequest, NeedsResponse, FromCache], ReadExResp, ''ReadExReq''),
    ([IsRead, IsResponse, HasData], InvalidCmd, ''ReadExResp''),
    ([IsRead, IsRequest, NeedsResponse, FromCache], ReadResp, ''ReadCleanReq''),
    ([IsRead, IsRequest, NeedsResponse, FromCache], ReadResp, ''ReadSharedReq''),
    ([IsRead, IsLlsc, IsRequest, NeedsResponse], ReadResp, ''LoadLockedReq''),
    ([IsWrite, NeedsWritable, IsLlsc, IsRequest, NeedsResponse, HasData], StoreCondResp, ''StoreCondReq''),
    ([IsWrite, NeedsWritable, IsLlsc, IsRequest, NeedsResponse, HasData], StoreCondResp, ''StoreCondFailReq''),
    ([IsWrite, IsLlsc, IsResponse], InvalidCmd, ''StoreCondResp''),
    ([IsRead, IsWrite, NeedsWritable, IsRequest, HasData, NeedsResponse], SwapResp, ''SwapReq''),
    ([IsRead, IsWrite, IsResponse, HasData], InvalidCmd, ''SwapResp''),
    ([], InvalidCmd, ''Deprecated_MessageReq''),
    ([], InvalidCmd, ''Deprecated_MessageResp''),
    ([IsRequest, NeedsResponse], MemFenceResp, ''MemFenceReq''),
    ([IsRequest, NeedsResponse], MemSyncResp, ''MemSyncReq''),
    ([IsResponse], InvalidCmd, ''MemSyncResp''),
    ([IsResponse], InvalidCmd, ''MemFenceResp''),
    ([IsRequest, IsClean, NeedsResponse, FromCache], CleanSharedResp, ''CleanSharedReq''),
    ([IsResponse, IsClean], InvalidCmd, ''CleanSharedResp''),
    ([IsRequest, IsInvalidate, IsClean, NeedsResponse, FromCache], CleanInvalidResp, ''CleanInvalidReq''),
    ([IsResponse, IsInvalidate, IsClean], InvalidCmd, ''CleanInvalidResp''),
    ([IsResponse, IsError], InvalidCmd, ''InvalidDestError''),
    ([IsResponse, IsError], InvalidCmd, ''BadAddressError''),
    ([IsRead, IsResponse, IsError], InvalidCmd, ''FunctionalReadError''),
    ([IsWrite, IsResponse, IsError], InvalidCmd, ''FunctionalWriteError''),
    ([IsRequest, IsPrint], InvalidCmd, ''PrintReq''),
    ([IsRequest, IsFlush, NeedsWritable], InvalidCmd, ''FlushReq''),
    ([IsInvalidate, IsRequest, NeedsWritable, NeedsResponse, FromCache], InvalidateResp, ''InvalidateReq''),
    ([IsInvalidate, IsResponse], InvalidCmd, ''InvalidateResp''),
    ([IsRead, IsRequest, NeedsResponse], HTMReqResp, ''HTMReq''),
    ([IsRead, IsResponse], InvalidCmd, ''HTMReqResp''),
    ([IsRead, IsRequest], InvalidCmd, ''HTMAbort'')]"

definition buildAttributes :: "attribute list \<Rightarrow> u64" where
  "buildAttributes attrs = fold (\<lambda>attr ret. ret OR push_bit (attr_bit attr) 1) attrs 0"

definition testCmdAttrib :: "command \<Rightarrow> attribute \<Rightarrow> bool" where
  "testCmdAttrib cmd attrib \<longleftrightarrow> bit (buildAttributes (fst (commandInfo ! toInt cmd))) (attr_bit attrib)"

definition responseCommand :: "command \<Rightarrow> command" where
  "responseCommand cmd = fst (snd (commandInfo ! toInt cmd))"

definition cmdString :: "command \<Rightarrow> string" where
  "cmdString cmd = snd (snd (commandInfo ! toInt cmd))"

definition cmd_isWriteback :: "command \<Rightarrow> bool" where
  "cmd_isWriteback cmd \<longleftrightarrow> testCmdAttrib cmd IsEviction \<and> testCmdAttrib cmd HasData"

definition cmd_isPrefetch :: "command \<Rightarrow> bool" where
  "cmd_isPrefetch cmd \<longleftrightarrow> testCmdAttrib cmd IsSWPrefetch \<or> testCmdAttrib cmd IsHWPrefetch"

definition isDemand :: "command \<Rightarrow> bool" where
  "isDemand cmd \<longleftrightarrow> cmd = ReadReq \<or> cmd = WriteReq \<or> cmd = WriteLineReq \<or> cmd = ReadExReq \<or>
     cmd = ReadCleanReq \<or> cmd = ReadSharedReq"

section \<open>Flag words\<close>

definition isSet :: "'a::len word \<Rightarrow> 'a word \<Rightarrow> bool" where
  "isSet flags m \<longleftrightarrow> flags AND m \<noteq> 0"

definition noneSet :: "'a::len word \<Rightarrow> 'a word \<Rightarrow> bool" where
  "noneSet flags m \<longleftrightarrow> flags AND m = 0"

definition set_flags :: "'a::len word \<Rightarrow> 'a word \<Rightarrow> 'a word" where
  "set_flags flags m = flags OR m"

definition clear_flags :: "'a::len word \<Rightarrow> 'a word \<Rightarrow> 'a word" where
  "clear_flags flags m = flags AND NOT m"

definition COPY_FLAGS :: u32 where "COPY_FLAGS = 0xFF"
definition RESPONDER_FLAGS :: u32 where "RESPONDER_FLAGS = 0x9"
definition HAS_SHARERS :: u32 where "HAS_SHARERS = 0x1"
definition EXPRESS_SNOOP :: u32 where "EXPRESS_SNOOP = 0x2"
definition RESPONDER_HAD_WRITABLE :: u32 where "RESPONDER_HAD_WRITABLE = 0x4"
definition CACHE_RESPONDING :: u32 where "CACHE_RESPONDING = 0x8"
definition VALID_ADDR :: u32 where "VALID_ADDR = 0x100"
definition VALID_SIZE :: u32 where "VALID_SIZE = 0x200"
definition STATIC_DATA :: u32 where "STATIC_DATA = 0x1000"
definition DYNAMIC_DATA :: u32 where "DYNAMIC_DATA = 0x2000"
definition BLOCK_CACHED :: u32 where "BLOCK_CACHED = 0x10000"
definition BLOCK_IO :: u32 where "BLOCK_IO = 0x100000"
definition SATISFIED :: u32 where "SATISFIED = 0x20"
definition DDIO_PREFETCH_HEADER :: u32 where "DDIO_PREFETCH_HEADER = 0x40000"

section \<open>Requests and packets\<close>

record request =
  req_flags :: u64
  req_paddr :: "addr option"
  req_size :: "u32 option"
  req_masked :: bool

definition UNCACHEABLE :: u64 where "UNCACHEABLE = 0x400"
definition STRICT_ORDER :: u64 where "STRICT_ORDER = 0x800"
definition PRIVILEGED :: u64 where "PRIVILEGED = 0x8000"
definition LLSC :: u64 where "LLSC = 0x200000"
definition MEM_SWAP :: u64 where "MEM_SWAP = 0x400000"
definition MEM_SWAP_COND :: u64 where "MEM_SWAP_COND = 0x800000"
definition PREFETCH :: u64 where "PREFETCH = 0x1000000"
definition PF_EXCLUSIVE :: u64 where "PF_EXCLUSIVE = 0x2000000"
definition ATOMIC_RETURN_OP :: u64 where "ATOMIC_RETURN_OP = 0x40000000"
definition ATOMIC_NO_RETURN_OP :: u64 where "ATOMIC_NO_RETURN_OP = 0x80000000"
definition REQ_SECURE :: u64 where "REQ_SECURE = 0x10000000"
definition INVALIDATE :: u64 where "INVALIDATE = 0x100000000"
definition CLEAN :: u64 where "CLEAN = 0x200000000"
definition HTM_START :: u64 where "HTM_START = 0x10000000000"
definition HTM_COMMIT :: u64 where "HTM_COMMIT = 0x20000000000"
definition HTM_CANCEL :: u64 where "HTM_CANCEL = 0x40000000000"
definition HTM_ABORT :: u64 where "HTM_ABORT = 0x80000000000"

definition isUncacheable :: "request \<Rightarrow> bool" where
  "isUncacheable r = isSet (req_flags r) UNCACHEABLE"

definition isCacheMaintenance :: "request \<Rightarrow> bool" where
  "isCacheMaintenance r = isSet (req_flags r) (CLEAN OR INVALIDATE)"

definition isCacheInvalidate :: "request \<Rightarrow> bool" where
  "isCacheInvalidate r = isSet (req_flags r) INVALIDATE"

definition isHTMCmd :: "request \<Rightarrow> bool" where
  "isHTMCmd r \<longleftrightarrow> isSet (req_flags r) HTM_START \<or> isSet (req_flags r) HTM_COMMIT \<or>
     isSet (req_flags r) HTM_CANCEL \<or> isSet (req_flags r) HTM_ABORT"

definition isAtomic :: "request \<Rightarrow> bool" where
  "isAtomic r \<longleftrightarrow> isSet (req_flags r) ATOMIC_RETURN_OP \<or> isSet (req_flags r) ATOMIC_NO_RETURN_OP"

definition makeReadCmd :: "request \<Rightarrow> command" where
  "makeReadCmd r =
     (if isHTMCmd r then (if isSet (req_flags r) HTM_ABORT then HTMAbort else HTMReq)
      else if isSet (req_flags r) LLSC then LoadLockedReq
      else if isSet (req_flags r) PF_EXCLUSIVE then SoftPFExReq
      else if isSet (req_flags r) PREFETCH \<or> isSet (req_flags r) PF_EXCLUSIVE then SoftPFReq
      else ReadReq)"

definition makeWriteCmd :: "request \<Rightarrow> command" where
  "makeWriteCmd r =
     (if isSet (req_flags r) LLSC then StoreCondReq
      else if isSet (req_flags r) (MEM_SWAP OR MEM_SWAP_COND) \<or> isAtomic r then SwapReq
      else if isSet (req_flags r) INVALIDATE then
        (if isSet (req_flags r) CLEAN then CleanInvalidReq else InvalidateReq)
      else if isSet (req_flags r) CLEAN then CleanSharedReq
      else WriteReq)"

text \<open>The data pointer of a packet is \<^const>\<open>None\<close> when it is null; \<^verbatim>\<open>is_block_io\<close> is the
  uninitialised member of the DDIO extension, \<^verbatim>\<open>hint\<close> and \<^verbatim>\<open>ddio_dest\<close> its prefetch
  marks.\<close>

record packet =
  pkt_cmd :: command
  pkt_flags :: u32
  pkt_req :: request
  pkt_addr :: addr
  pkt_secure :: bool
  pkt_size :: u32
  pkt_data :: "u8 list option"
  bytesValid :: "bool list"
  is_prefetch_hint_pkt :: bool
  ddio_prefetch_destination :: int
  is_block_io :: bool
  is_ddio_pkt :: bool
  is_ddio_header :: bool

definition Packet :: "bool \<Rightarrow> request \<Rightarrow> command \<Rightarrow> packet result" where
  "Packet undef r cmd =
     (let p = \<lparr>pkt_cmd = cmd, pkt_flags = 0, pkt_req = r, pkt_addr = 0, pkt_secure = False, pkt_size = 0,
               pkt_data = None, bytesValid = [], is_prefetch_hint_pkt = False,
               ddio_prefetch_destination = -1, is_block_io = undef, is_ddio_pkt = False, is_ddio_header = False\<rparr>;
          p = (case req_paddr r of None \<Rightarrow> p
               | Some a \<Rightarrow> p\<lparr>pkt_addr := a, pkt_flags := set_flags (pkt_flags p) VALID_ADDR,
                            pkt_secure := isSet (req_flags r) REQ_SECURE\<rparr>)
      in bindR (if isHTMCmd r then guardR (pkt_addr p = 0) Assert_Failed
                  (Inr (p\<lparr>pkt_flags := set_flags (pkt_flags p) VALID_ADDR\<rparr>)) else Inr p)
         (\<lambda>p. Inr (case req_size r of None \<Rightarrow> p
               | Some s \<Rightarrow> p\<lparr>pkt_size := s, pkt_flags := set_flags (pkt_flags p) VALID_SIZE\<rparr>)))"

definition createRead :: "bool \<Rightarrow> request \<Rightarrow> packet result" where
  "createRead undef r = Packet undef r (makeReadCmd r)"

definition createWrite :: "bool \<Rightarrow> request \<Rightarrow> packet result" where
  "createWrite undef r = Packet undef r (makeWriteCmd r)"

definition getAddr :: "packet \<Rightarrow> addr result" where
  "getAddr p = guardR (isSet (pkt_flags p) VALID_ADDR) Assert_Failed (Inr (pkt_addr p))"

definition getSize :: "packet \<Rightarrow> u32 result" where
  "getSize p = guardR (isSet (pkt_flags p) VALID_SIZE) Assert_Failed (Inr (pkt_size p))"

definition pkt_getOffset :: "packet \<Rightarrow> u32 \<Rightarrow> addr result" where
  "pkt_getOffset p blk_size = bindR (getAddr p) (\<lambda>a. Inr (a AND ucast (blk_size - 1)))"

definition getBlockAddr :: "packet \<Rightarrow> u32 \<Rightarrow> addr result" where
  "getBlockAddr p blk_size = bindR (getAddr p) (\<lambda>a. Inr (a AND NOT (ucast (blk_size - 1))))"

definition isSecure :: "packet \<Rightarrow> bool result" where
  "isSecure p = guardR (isSet (pkt_flags p) VALID_ADDR) Assert_Failed (Inr (pkt_secure p))"

definition cacheResponding :: "packet \<Rightarrow> bool" where
  "cacheResponding p = isSet (pkt_flags p) CACHE_RESPONDING"

definition hasSharers :: "packet \<Rightarrow> bool" where
  "hasSharers p = isSet (pkt_flags p) HAS_SHARERS"

definition isExpressSnoop :: "packet \<Rightarrow> bool" where
  "isExpressSnoop p = isSet (pkt_flags p) EXPRESS_SNOOP"

definition isBlockCached :: "packet \<Rightarrow> bool" where
  "isBlockCached p = isSet (pkt_flags p) BLOCK_CACHED"

definition isBlockIO :: "packet \<Rightarrow> bool" where
  "isBlockIO p = is_block_io p"

definition isBlockIO_const :: "packet \<Rightarrow> bool" where
  "isBlockIO_const p = isSet (pkt_flags p) BLOCK_IO"

definition setBlockIO :: "packet \<Rightarrow> packet" where
  "setBlockIO p = p\<lparr>pkt_flags := set_flags (pkt_flags p) BLOCK_IO\<rparr>"

definition setCacheResponding :: "packet \<Rightarrow> packet result" where
  "setCacheResponding p = guardR (testCmdAttrib (pkt_cmd p) IsRequest) Assert_Failed
     (guardR (\<not> isSet (pkt_flags p) CACHE_RESPONDING) Assert_Failed
       (Inr (p\<lparr>pkt_flags := set_flags (pkt_flags p) CACHE_RESPONDING\<rparr>)))"

definition setHasSharers :: "packet \<Rightarrow> packet" where
  "setHasSharers p = p\<lparr>pkt_flags := set_flags (pkt_flags p) HAS_SHARERS\<rparr>"

definition copyResponderFlags :: "packet \<Rightarrow> packet \<Rightarrow> packet result" where
  "copyResponderFlags p pkt = guardR (testCmdAttrib (pkt_cmd p) IsRequest) Assert_Failed
     (guardR (\<not> cacheResponding pkt \<or> \<not> cacheResponding p) Assert_Failed
       (Inr (p\<lparr>pkt_flags := set_flags (pkt_flags p) (pkt_flags pkt AND RESPONDER_FLAGS)\<rparr>)))"

definition responderHadWritable :: "packet \<Rightarrow> bool" where
  "responderHadWritable p = isSet (pkt_flags p) RESPONDER_HAD_WRITABLE"

definition setResponderHadWritable :: "packet \<Rightarrow> packet result" where
  "setResponderHadWritable p = guardR (cacheResponding p) Assert_Failed
     (guardR (\<not> responderHadWritable p) Assert_Failed
       (Inr (p\<lparr>pkt_flags := set_flags (pkt_flags p) RESPONDER_HAD_WRITABLE\<rparr>)))"

definition setSatisfied :: "packet \<Rightarrow> packet result" where
  "setSatisfied p = guardR (testCmdAttrib (pkt_cmd p) IsClean) Assert_Failed
     (guardR (\<not> isSet (pkt_flags p) SATISFIED) Assert_Failed
       (Inr (p\<lparr>pkt_flags := set_flags (pkt_flags p) SATISFIED\<rparr>)))"

definition isDdioHeader :: "packet \<Rightarrow> bool" where
  "isDdioHeader p \<longleftrightarrow> is_ddio_header p \<or> isSet (pkt_flags p) DDIO_PREFETCH_HEADER"

definition hasData :: "packet \<Rightarrow> bool" where
  "hasData p = testCmdAttrib (pkt_cmd p) HasData"

definition hasRespData :: "packet \<Rightarrow> bool" where
  "hasRespData p = testCmdAttrib (responseCommand (pkt_cmd p)) HasData"

text \<open>New memory is not initialised: its contents \<open>mem\<close> are an argument.\<close>

definition pkt_allocate :: "(nat \<Rightarrow> u8) \<Rightarrow> packet \<Rightarrow> packet result" where
  "pkt_allocate mem p = (if hasData p \<or> hasRespData p
     then guardR (noneSet (pkt_flags p) (STATIC_DATA OR DYNAMIC_DATA)) Assert_Failed
       (bindR (getSize p) (\<lambda>sz. Inr (p\<lparr>pkt_flags := set_flags (pkt_flags p) DYNAMIC_DATA, pkt_data := Some (map mem [0..<unat sz])\<rparr>)))
     else Inr p)"

text \<open>The constructors for a whole block and for a copy; \<open>undef\<close> is the member no constructor sets.\<close>

definition Packet_blk :: "bool \<Rightarrow> request \<Rightarrow> command \<Rightarrow> u32 \<Rightarrow> packet" where
  "Packet_blk undef r cmd blk_size =
     (let p = \<lparr>pkt_cmd = cmd, pkt_flags = 0, pkt_req = r, pkt_addr = 0, pkt_secure = False, pkt_size = 0,
               pkt_data = None, bytesValid = [], is_prefetch_hint_pkt = False,
               ddio_prefetch_destination = -1, is_block_io = undef, is_ddio_pkt = False, is_ddio_header = False\<rparr>;
          p = (case req_paddr r of None \<Rightarrow> p
               | Some a \<Rightarrow> p\<lparr>pkt_addr := a AND NOT (ucast (blk_size - 1)), pkt_flags := set_flags (pkt_flags p) VALID_ADDR,
                            pkt_secure := isSet (req_flags r) REQ_SECURE\<rparr>)
      in p\<lparr>pkt_size := blk_size, pkt_flags := set_flags (pkt_flags p) VALID_SIZE\<rparr>)"

definition Packet_copy :: "bool \<Rightarrow> (nat \<Rightarrow> u8) \<Rightarrow> packet \<Rightarrow> bool \<Rightarrow> bool \<Rightarrow> packet result" where
  "Packet_copy undef mem pkt clear_all alloc_data =
     (let p = \<lparr>pkt_cmd = pkt_cmd pkt, pkt_flags = (if clear_all then 0 else pkt_flags pkt AND COPY_FLAGS), pkt_req = pkt_req pkt,
               pkt_addr = pkt_addr pkt, pkt_secure = pkt_secure pkt, pkt_size = pkt_size pkt, pkt_data = None,
               bytesValid = bytesValid pkt, is_prefetch_hint_pkt = False,
               ddio_prefetch_destination = -1, is_block_io = undef, is_ddio_pkt = False, is_ddio_header = False\<rparr>;
          p = p\<lparr>pkt_flags := set_flags (pkt_flags p) (pkt_flags pkt AND (VALID_ADDR OR VALID_SIZE))\<rparr>
      in if alloc_data
         then (if isSet (pkt_flags pkt) STATIC_DATA
               then Inr (p\<lparr>pkt_data := pkt_data pkt, pkt_flags := set_flags (pkt_flags p) STATIC_DATA\<rparr>)
               else pkt_allocate mem p)
         else Inr p)"

definition makeResponse :: "packet \<Rightarrow> packet result" where
  "makeResponse p = guardR (testCmdAttrib (pkt_cmd p) NeedsResponse) Assert_Failed
     (guardR (testCmdAttrib (pkt_cmd p) IsRequest) Assert_Failed
       (Inr (p\<lparr>pkt_cmd := responseCommand (pkt_cmd p),
               pkt_flags := clear_flags (pkt_flags p) EXPRESS_SNOOP\<rparr>)))"

definition isMaskedWrite :: "packet \<Rightarrow> bool" where
  "isMaskedWrite p \<longleftrightarrow> pkt_cmd p = WriteReq \<and> req_masked (pkt_req p)"

definition matchBlockAddr :: "packet \<Rightarrow> addr \<Rightarrow> bool \<Rightarrow> u32 \<Rightarrow> bool result" where
  "matchBlockAddr p a is_secure blk_size =
     bindR (getBlockAddr p blk_size) (\<lambda>b. if b = a then bindR (isSecure p) (\<lambda>s. Inr (s = is_secure)) else Inr False)"

definition matchAddr :: "packet \<Rightarrow> addr \<Rightarrow> bool \<Rightarrow> bool result" where
  "matchAddr p a is_secure =
     bindR (getAddr p) (\<lambda>b. if b = a then bindR (isSecure p) (\<lambda>s. Inr (s = is_secure)) else Inr False)"

text \<open>\<^verbatim>\<open>matchAddr\<close> and \<^verbatim>\<open>matchBlockAddr\<close> of two packets.\<close>

definition matchAddr_pkt :: "packet \<Rightarrow> packet \<Rightarrow> bool result" where
  "matchAddr_pkt p other = bindR (getAddr other) (\<lambda>a. bindR (isSecure other) (\<lambda>s. matchAddr p a s))"

definition matchBlockAddr_pkt :: "packet \<Rightarrow> packet \<Rightarrow> u32 \<Rightarrow> bool result" where
  "matchBlockAddr_pkt p other blk_size = bindR (getBlockAddr other blk_size) (\<lambda>a. bindR (isSecure other) (\<lambda>s. matchBlockAddr p a s blk_size))"

section \<open>Functional accesses\<close>

definition memcpy :: "u8 list \<Rightarrow> nat \<Rightarrow> u8 list \<Rightarrow> nat \<Rightarrow> nat \<Rightarrow> u8 list result" where
  "memcpy dst doff src soff n = guardR (doff + n \<le> length dst \<and> soff + n \<le> length src) Out_Of_Range
     (Inr (take doff dst @ take n (drop soff src) @ drop (doff + n) dst))"

definition getPtr :: "packet \<Rightarrow> u8 list result" where
  "getPtr p = guardR (isSet (pkt_flags p) (STATIC_DATA OR DYNAMIC_DATA)) Assert_Failed
     (guardR (\<not> isMaskedWrite p) Assert_Failed
       (case pkt_data p of None \<Rightarrow> Inl Out_Of_Range | Some d \<Rightarrow> Inr d))"

definition getConstPtr :: "packet \<Rightarrow> u8 list result" where
  "getConstPtr p = guardR (isSet (pkt_flags p) (STATIC_DATA OR DYNAMIC_DATA)) Assert_Failed
     (case pkt_data p of None \<Rightarrow> Inl Out_Of_Range | Some d \<Rightarrow> Inr d)"

text \<open>The three loops over \<^verbatim>\<open>bytesValid\<close>: the bytes before the overlap, the overlap, the rest.\<close>

definition mark_valid :: "bool list \<Rightarrow> nat \<Rightarrow> nat \<Rightarrow> nat \<Rightarrow> bool list \<times> bool" where
  "mark_valid bv func_offset overlap_size sz =
     (let before = list_all (\<lambda>i. bv ! i) [0..<func_offset];
          bv' = fold (\<lambda>i v. v[i := True]) [func_offset..<func_offset + overlap_size] bv
      in (bv', before \<and> list_all (\<lambda>i. bv' ! i) [func_offset + overlap_size..<sz]))"

text \<open>The result is the answer, the packet and the buffer after the call. \<open>data\<close> is
  \<^const>\<open>None\<close> for a null pointer.\<close>

definition trySatisfyFunctional ::
  "packet \<Rightarrow> addr \<Rightarrow> bool \<Rightarrow> u32 \<Rightarrow> u8 list option \<Rightarrow> (bool \<times> packet \<times> u8 list option) result" where
  "trySatisfyFunctional p a is_secure sz data =
     bindR (getAddr p) (\<lambda>func_start. bindR (getSize p) (\<lambda>fsz.
     (let func_end = func_start + ucast fsz - 1; val_start = a; val_end = val_start + ucast sz - 1 in
      if is_secure \<noteq> pkt_secure p \<or> func_start > val_end \<or> val_start > func_end
      then Inr (False, p, data)
      else if testCmdAttrib (pkt_cmd p) IsPrint
      then guardR (data = None) Assert_Failed (Inr (False, p, data))
      else (case data of None \<Rightarrow> Inr (False, p, data)
        | Some d \<Rightarrow>
          (let val_offset = unat (if func_start > val_start then func_start - val_start else 0);
               func_offset = unat (if func_start < val_start then val_start - func_start else 0);
               overlap_size = unat (min val_end func_end + 1 - max val_start func_start) in
           if testCmdAttrib (pkt_cmd p) IsRead
           then bindR (getPtr p) (\<lambda>buf. bindR (memcpy buf func_offset d val_offset overlap_size) (\<lambda>buf'.
             (let bv = (if bytesValid p = [] then replicate (unat fsz) False else bytesValid p);
                  (bv', ok) = mark_valid bv func_offset overlap_size (unat fsz)
              in guardR (unat fsz \<le> length bv) Out_Of_Range
                   (Inr (ok, p\<lparr>pkt_data := Some buf', bytesValid := bv'\<rparr>, data)))))
           else if testCmdAttrib (pkt_cmd p) IsWrite
           then bindR (getConstPtr p) (\<lambda>buf. bindR (memcpy d val_offset buf func_offset overlap_size) (\<lambda>d'.
             Inr (False, p, Some d')))
           else Inl Panic_Error)))))"

text \<open>The check against another packet.\<close>

definition trySatisfyFunctional_pkt :: "packet \<Rightarrow> packet \<Rightarrow> (bool \<times> packet \<times> packet) result" where
  "trySatisfyFunctional_pkt p other =
     (if isMaskedWrite other then
        bindR (isSecure other) (\<lambda>s. if pkt_secure p \<noteq> s then Inr (False, p, other) else
          bindR (getAddr p) (\<lambda>a. bindR (getAddr other) (\<lambda>b. bindR (getSize other) (\<lambda>sz.
            if a \<le> b + ucast sz - 1 then bindR (getSize p) (\<lambda>_. Inr (False, p, other))
            else Inr (False, p, other)))))
      else bindR (getAddr other) (\<lambda>a. bindR (isSecure other) (\<lambda>s. bindR (getSize other) (\<lambda>sz.
        bindR (if testCmdAttrib (pkt_cmd other) HasData then bindR (getPtr other) (\<lambda>d. Inr (Some d)) else Inr None)
        (\<lambda>d. bindR (trySatisfyFunctional p a s sz d) (\<lambda>(ok, p', d').
          Inr (ok, p', case d' of None \<Rightarrow> other | Some x \<Rightarrow> other\<lparr>pkt_data := Some x\<rparr>)))))))"

section \<open>The attribute table\<close>

lemma attr_bit_less: "attr_bit a < 64"
  by (cases a) simp_all

lemma attr_bit_eq [simp]: "attr_bit a = attr_bit b \<longleftrightarrow> a = b"
  by (cases a; cases b) simp_all

lemma bit_fold_attributes:
  "k < 64 \<Longrightarrow> bit (fold (\<lambda>attr ret. ret OR push_bit (attr_bit attr) 1) attrs (w :: u64)) k \<longleftrightarrow>
     bit w k \<or> k \<in> attr_bit ` set attrs"
  by (induction attrs arbitrary: w) (auto simp: bit_simps)

lemma bit_buildAttributes: "bit (buildAttributes attrs) (attr_bit a) \<longleftrightarrow> a \<in> set attrs"
  unfolding buildAttributes_def by (subst bit_fold_attributes [OF attr_bit_less]) auto

lemma testCmdAttrib_iff: "testCmdAttrib c a \<longleftrightarrow> a \<in> set (fst (commandInfo ! toInt c))"
  by (simp add: testCmdAttrib_def bit_buildAttributes)

lemma command_rows:
  "commandInfo ! toInt InvalidCmd = ([], InvalidCmd, ''InvalidCmd'')"
  "commandInfo ! toInt ReadReq = ([IsRead, IsRequest, NeedsResponse], ReadResp, ''ReadReq'')"
  "commandInfo ! toInt ReadResp = ([IsRead, IsResponse, HasData], InvalidCmd, ''ReadResp'')"
  "commandInfo ! toInt ReadRespWithInvalidate = ([IsRead, IsResponse, HasData, IsInvalidate], InvalidCmd, ''ReadRespWithInvalidate'')"
  "commandInfo ! toInt WriteReq = ([IsWrite, NeedsWritable, IsRequest, NeedsResponse, HasData], WriteResp, ''WriteReq'')"
  "commandInfo ! toInt WriteResp = ([IsWrite, IsResponse], InvalidCmd, ''WriteResp'')"
  "commandInfo ! toInt WriteCompleteResp = ([IsWrite, IsResponse], InvalidCmd, ''WriteCompleteResp'')"
  "commandInfo ! toInt WritebackDirty = ([IsWrite, IsRequest, IsEviction, HasData, FromCache], InvalidCmd, ''WritebackDirty'')"
  "commandInfo ! toInt WritebackClean = ([IsWrite, IsRequest, IsEviction, HasData, FromCache], InvalidCmd, ''WritebackClean'')"
  "commandInfo ! toInt WriteClean = ([IsWrite, IsRequest, HasData, FromCache], InvalidCmd, ''WriteClean'')"
  "commandInfo ! toInt CleanEvict = ([IsRequest, IsEviction, FromCache], InvalidCmd, ''CleanEvict'')"
  "commandInfo ! toInt SoftPFReq = ([IsRead, IsRequest, IsSWPrefetch, NeedsResponse], SoftPFResp, ''SoftPFReq'')"
  "commandInfo ! toInt SoftPFExReq = ([IsRead, NeedsWritable, IsInvalidate, IsRequest, IsSWPrefetch, NeedsResponse], SoftPFResp, ''SoftPFExReq'')"
  "commandInfo ! toInt HardPFReq = ([IsRead, IsRequest, IsHWPrefetch, NeedsResponse, FromCache], HardPFResp, ''HardPFReq'')"
  "commandInfo ! toInt SoftPFResp = ([IsRead, IsResponse, IsSWPrefetch, HasData], InvalidCmd, ''SoftPFResp'')"
  "commandInfo ! toInt HardPFResp = ([IsRead, IsResponse, IsHWPrefetch, HasData], InvalidCmd, ''HardPFResp'')"
  "commandInfo ! toInt WriteLineReq = ([IsWrite, NeedsWritable, IsRequest, NeedsResponse, HasData], WriteResp, ''WriteLineReq'')"
  "commandInfo ! toInt UpgradeReq = ([IsInvalidate, NeedsWritable, IsUpgrade, IsRequest, NeedsResponse, FromCache], UpgradeResp, ''UpgradeReq'')"
  "commandInfo ! toInt SCUpgradeReq = ([IsInvalidate, NeedsWritable, IsUpgrade, IsLlsc, IsRequest, NeedsResponse, FromCache], UpgradeResp, ''SCUpgradeReq'')"
  "commandInfo ! toInt UpgradeResp = ([IsUpgrade, IsResponse], InvalidCmd, ''UpgradeResp'')"
  "commandInfo ! toInt SCUpgradeFailReq = ([IsRead, NeedsWritable, IsInvalidate, IsLlsc, IsRequest, NeedsResponse, FromCache], UpgradeFailResp, ''SCUpgradeFailReq'')"
  "commandInfo ! toInt UpgradeFailResp = ([IsRead, IsResponse, HasData], InvalidCmd, ''UpgradeFailResp'')"
  "commandInfo ! toInt ReadExReq = ([IsRead, NeedsWritable, IsInvalidate, IsRequest, NeedsResponse, FromCache], ReadExResp, ''ReadExReq'')"
  "commandInfo ! toInt ReadExResp = ([IsRead, IsResponse, HasData], InvalidCmd, ''ReadExResp'')"
  "commandInfo ! toInt ReadCleanReq = ([IsRead, IsRequest, NeedsResponse, FromCache], ReadResp, ''ReadCleanReq'')"
  "commandInfo ! toInt ReadSharedReq = ([IsRead, IsRequest, NeedsResponse, FromCache], ReadResp, ''ReadSharedReq'')"
  "commandInfo ! toInt LoadLockedReq = ([IsRead, IsLlsc, IsRequest, NeedsResponse], ReadResp, ''LoadLockedReq'')"
  "commandInfo ! toInt StoreCondReq = ([IsWrite, NeedsWritable, IsLlsc, IsRequest, NeedsResponse, HasData], StoreCondResp, ''StoreCondReq'')"
  "commandInfo ! toInt StoreCondFailReq = ([IsWrite, NeedsWritable, IsLlsc, IsRequest, NeedsResponse, HasData], StoreCondResp, ''StoreCondFailReq'')"
  "commandInfo ! toInt StoreCondResp = ([IsWrite, IsLlsc, IsResponse], InvalidCmd, ''StoreCondResp'')"
  "commandInfo ! toInt SwapReq = ([IsRead, IsWrite, NeedsWritable, IsRequest, HasData, NeedsResponse], SwapResp, ''SwapReq'')"
  "commandInfo ! toInt SwapResp = ([IsRead, IsWrite, IsResponse, HasData], InvalidCmd, ''SwapResp'')"
  "commandInfo ! toInt MemFenceReq = ([IsRequest, NeedsResponse], MemFenceResp, ''MemFenceReq'')"
  "commandInfo ! toInt MemSyncReq = ([IsRequest, NeedsResponse], MemSyncResp, ''MemSyncReq'')"
  "commandInfo ! toInt MemSyncResp = ([IsResponse], InvalidCmd, ''MemSyncResp'')"
  "commandInfo ! toInt MemFenceResp = ([IsResponse], InvalidCmd, ''MemFenceResp'')"
  "commandInfo ! toInt CleanSharedReq = ([IsRequest, IsClean, NeedsResponse, FromCache], CleanSharedResp, ''CleanSharedReq'')"
  "commandInfo ! toInt CleanSharedResp = ([IsResponse, IsClean], InvalidCmd, ''CleanSharedResp'')"
  "commandInfo ! toInt CleanInvalidReq = ([IsRequest, IsInvalidate, IsClean, NeedsResponse, FromCache], CleanInvalidResp, ''CleanInvalidReq'')"
  "commandInfo ! toInt CleanInvalidResp = ([IsResponse, IsInvalidate, IsClean], InvalidCmd, ''CleanInvalidResp'')"
  "commandInfo ! toInt InvalidDestError = ([IsResponse, IsError], InvalidCmd, ''InvalidDestError'')"
  "commandInfo ! toInt BadAddressError = ([IsResponse, IsError], InvalidCmd, ''BadAddressError'')"
  "commandInfo ! toInt FunctionalReadError = ([IsRead, IsResponse, IsError], InvalidCmd, ''FunctionalReadError'')"
  "commandInfo ! toInt FunctionalWriteError = ([IsWrite, IsResponse, IsError], InvalidCmd, ''FunctionalWriteError'')"
  "commandInfo ! toInt PrintReq = ([IsRequest, IsPrint], InvalidCmd, ''PrintReq'')"
  "commandInfo ! toInt FlushReq = ([IsRequest, IsFlush, NeedsWritable], InvalidCmd, ''FlushReq'')"
  "commandInfo ! toInt InvalidateReq = ([IsInvalidate, IsRequest, NeedsWritable, NeedsResponse, FromCache], InvalidateResp, ''InvalidateReq'')"
  "commandInfo ! toInt InvalidateResp = ([IsInvalidate, IsResponse], InvalidCmd, ''InvalidateResp'')"
  "commandInfo ! toInt HTMReq = ([IsRead, IsRequest, NeedsResponse], HTMReqResp, ''HTMReq'')"
  "commandInfo ! toInt HTMReqResp = ([IsRead, IsResponse], InvalidCmd, ''HTMReqResp'')"
  "commandInfo ! toInt HTMAbort = ([IsRead, IsRequest], InvalidCmd, ''HTMAbort'')"
  by (simp_all add: commandInfo_def)

lemmas cmd_table = testCmdAttrib_iff responseCommand_def cmdString_def command_rows

declare toInt.simps [simp del]

definition all_commands :: "command list" where
  "all_commands = [
    InvalidCmd, ReadReq, ReadResp, ReadRespWithInvalidate, WriteReq, WriteResp, WriteCompleteResp,
    WritebackDirty, WritebackClean, WriteClean, CleanEvict, SoftPFReq, SoftPFExReq, HardPFReq,
    SoftPFResp, HardPFResp, WriteLineReq, UpgradeReq, SCUpgradeReq, UpgradeResp, SCUpgradeFailReq,
    UpgradeFailResp, ReadExReq, ReadExResp, ReadCleanReq, ReadSharedReq, LoadLockedReq,
    StoreCondReq, StoreCondFailReq, StoreCondResp, SwapReq, SwapResp, MemFenceReq, MemSyncReq,
    MemSyncResp, MemFenceResp, CleanSharedReq, CleanSharedResp, CleanInvalidReq, CleanInvalidResp,
    InvalidDestError, BadAddressError, FunctionalReadError, FunctionalWriteError, PrintReq,
    FlushReq, InvalidateReq, InvalidateResp, HTMReq, HTMReqResp, HTMAbort]"

lemma in_all_commands: "c \<in> set all_commands"
  by (cases c) (simp_all add: all_commands_def)

lemma toInt_eq: "toInt c = toInt c' \<longleftrightarrow> c = c'"
proof -
  have "distinct (map toInt all_commands)" by (simp add: all_commands_def toInt.simps)
  then have "inj_on toInt (set all_commands)" by (simp add: distinct_map)
  then show ?thesis using in_all_commands by (auto dest: inj_onD)
qed

lemma toInt_less: "toInt c < length commandInfo"
  by (cases c) (simp_all add: commandInfo_def toInt.simps)

lemma command_table_row:
  "\<not> (testCmdAttrib c IsRequest \<and> testCmdAttrib c IsResponse) \<and>
   (testCmdAttrib c NeedsResponse \<longrightarrow> testCmdAttrib c IsRequest \<and>
      testCmdAttrib (responseCommand c) IsResponse \<and>
      responseCommand (responseCommand c) = InvalidCmd \<and>
      (testCmdAttrib c IsRead = testCmdAttrib (responseCommand c) IsRead) \<and>
      (testCmdAttrib c IsWrite = testCmdAttrib (responseCommand c) IsWrite) \<and>
      (testCmdAttrib c IsClean = testCmdAttrib (responseCommand c) IsClean)) \<and>
   (\<not> testCmdAttrib c NeedsResponse \<longrightarrow> responseCommand c = InvalidCmd) \<and>
   (testCmdAttrib c IsEviction \<longrightarrow> testCmdAttrib c FromCache \<and> \<not> testCmdAttrib c NeedsResponse) \<and>
   (testCmdAttrib c HasData \<and> testCmdAttrib (responseCommand c) HasData \<longrightarrow> c = SwapReq)"
  by (cases c) (simp_all add: cmd_table)

text \<open>C38: the command table is consistent with the enumeration that indexes it and with the roles
  of the commands: there is a row for every command, no command is a request and a response,
  exactly the requests that need a response name one, that response is a response to the same
  kind of access and is itself final, an eviction needs no response and comes from a cache, and
  a command that carries data both ways is the atomic swap.\<close>

theorem command_table_consistent:
  "toInt c < length commandInfo \<and> (toInt c = toInt c' \<longleftrightarrow> c = c') \<and>
   \<not> (testCmdAttrib c IsRequest \<and> testCmdAttrib c IsResponse) \<and>
   (testCmdAttrib c NeedsResponse \<longrightarrow> testCmdAttrib c IsRequest \<and>
      testCmdAttrib (responseCommand c) IsResponse \<and>
      responseCommand (responseCommand c) = InvalidCmd \<and>
      (testCmdAttrib c IsRead = testCmdAttrib (responseCommand c) IsRead) \<and>
      (testCmdAttrib c IsWrite = testCmdAttrib (responseCommand c) IsWrite) \<and>
      (testCmdAttrib c IsClean = testCmdAttrib (responseCommand c) IsClean)) \<and>
   (\<not> testCmdAttrib c NeedsResponse \<longrightarrow> responseCommand c = InvalidCmd) \<and>
   (testCmdAttrib c IsEviction \<longrightarrow> testCmdAttrib c FromCache \<and> \<not> testCmdAttrib c NeedsResponse) \<and>
   (testCmdAttrib c HasData \<and> testCmdAttrib (responseCommand c) HasData \<longrightarrow> c = SwapReq)"
  using command_table_row [of c] toInt_eq [of c c'] toInt_less [of c] by blast

theorem command_table_consistent_witness:
  "testCmdAttrib ReadExReq NeedsResponse \<and> testCmdAttrib (responseCommand ReadExReq) IsResponse \<and>
   testCmdAttrib WritebackDirty IsEviction \<and> \<not> testCmdAttrib WritebackDirty NeedsResponse"
proof -
  have "testCmdAttrib ReadExReq NeedsResponse" "testCmdAttrib WritebackDirty IsEviction"
    by (simp_all add: cmd_table)
  then show ?thesis
    using command_table_consistent [of ReadExReq ReadReq] command_table_consistent [of WritebackDirty ReadReq] by blast
qed

section \<open>Responses\<close>

lemma isSet_clear_other: "m AND m' = 0 \<Longrightarrow> isSet (clear_flags f m) m' = isSet f m'"
proof -
  assume d: "m AND m' = 0"
  have "f AND NOT m AND m' = f AND m'"
  proof (rule bit_word_eqI)
    fix n assume "n < LENGTH('a)"
    have "\<not> (bit m n \<and> bit m' n)" using d by (metis bit_and_iff bit_0_eq bot_apply bot_bool_def)
    then show "bit (f AND NOT m AND m') n = bit (f AND m') n" using \<open>n < LENGTH('a)\<close>
      by (auto simp: bit_simps)
  qed
  then show ?thesis by (simp add: isSet_def clear_flags_def and.assoc)
qed

lemma isSet_clear_same [simp]: "\<not> isSet (clear_flags f m) m"
  by (simp add: isSet_def clear_flags_def and.assoc)

lemmas flag_masks = HAS_SHARERS_def EXPRESS_SNOOP_def CACHE_RESPONDING_def VALID_ADDR_def VALID_SIZE_def
  BLOCK_CACHED_def BLOCK_IO_def

text \<open>Turning a request into its response keeps what the receivers read and drops the express mark;
  it happens once.\<close>

lemma makeResponse_keeps:
  assumes "testCmdAttrib (pkt_cmd p) NeedsResponse"
  shows "\<exists>p'. makeResponse p = Inr p' \<and> testCmdAttrib (pkt_cmd p') IsResponse \<and>
    getAddr p' = getAddr p \<and> getSize p' = getSize p \<and> isSecure p' = isSecure p \<and>
    getBlockAddr p' b = getBlockAddr p b \<and> cacheResponding p' = cacheResponding p \<and>
    hasSharers p' = hasSharers p \<and> isBlockIO_const p' = isBlockIO_const p \<and>
    \<not> isExpressSnoop p' \<and> makeResponse p' = Inl Assert_Failed"
proof -
  let ?p = "p\<lparr>pkt_cmd := responseCommand (pkt_cmd p), pkt_flags := clear_flags (pkt_flags p) EXPRESS_SNOOP\<rparr>"
  have c: "testCmdAttrib (pkt_cmd p) IsRequest" "testCmdAttrib (responseCommand (pkt_cmd p)) IsResponse"
    "\<not> testCmdAttrib (responseCommand (pkt_cmd p)) NeedsResponse"
    using command_table_row [of "pkt_cmd p"] command_table_row [of "responseCommand (pkt_cmd p)"] assms by blast+
  have f: "isSet (clear_flags (pkt_flags p) EXPRESS_SNOOP) m = isSet (pkt_flags p) m" if "EXPRESS_SNOOP AND m = 0" for m
    using that by (rule isSet_clear_other)
  have d: "EXPRESS_SNOOP AND VALID_ADDR = 0" "EXPRESS_SNOOP AND VALID_SIZE = 0" "EXPRESS_SNOOP AND CACHE_RESPONDING = 0"
    "EXPRESS_SNOOP AND HAS_SHARERS = 0" "EXPRESS_SNOOP AND BLOCK_IO = 0"
    by (simp_all add: flag_masks)
  have "makeResponse p = Inr ?p" using assms c by (simp add: makeResponse_def)
  moreover have "getAddr ?p = getAddr p" "isSecure ?p = isSecure p" "getSize ?p = getSize p"
    "cacheResponding ?p = cacheResponding p" "hasSharers ?p = hasSharers p" "isBlockIO_const ?p = isBlockIO_const p"
    by (simp_all add: getAddr_def isSecure_def getSize_def cacheResponding_def hasSharers_def isBlockIO_const_def
        f d)
  ultimately show ?thesis using c
    by (intro exI [of _ ?p]) (auto simp: getBlockAddr_def isExpressSnoop_def makeResponse_def guardR_def)
qed

text \<open>The mark set by \<^verbatim>\<open>setBlockIO\<close> is seen through the constant accessor only: the other overload
  still answers with the member that no constructor initialises.\<close>

lemma isBlockIO_ignores_setBlockIO:
  "isBlockIO (setBlockIO p) = is_block_io p \<and> isBlockIO_const (setBlockIO p)"
proof -
  have "(pkt_flags p OR BLOCK_IO) AND BLOCK_IO = BLOCK_IO" by (auto simp: bit_eq_iff bit_simps)
  then show ?thesis by (simp add: isBlockIO_def isBlockIO_const_def setBlockIO_def isSet_def set_flags_def BLOCK_IO_def)
qed

section \<open>Functional accesses\<close>

lemma memcpy_ok:
  assumes "doff + n \<le> length dst" "soff + n \<le> length src"
  shows "\<exists>r. memcpy dst doff src soff n = Inr r \<and> length r = length dst \<and>
    (\<forall>i < length dst. r ! i = (if doff \<le> i \<and> i < doff + n then src ! (soff + (i - doff)) else dst ! i))"
proof -
  have "length (take n (drop soff src)) = n" "length (take doff dst) = doff" using assms by simp_all
  then show ?thesis using assms by (auto simp: memcpy_def nth_append simp del: length_take)
qed

lemma fold_mark:
  "b \<le> length bv \<Longrightarrow> length (fold (\<lambda>i v. v[i := True]) [a..<b] bv) = length bv \<and>
   (\<forall>i < length bv. fold (\<lambda>i v. v[i := True]) [a..<b] bv ! i = (bv ! i \<or> (a \<le> i \<and> i < b)))"
proof (induction b)
  case (Suc b)
  then show ?case by (cases "a \<le> b") (auto simp: nth_list_update_eq_if le_Suc_eq less_Suc_eq)
qed simp

lemma mark_valid_ok:
  assumes "sz \<le> length bv" "off + n \<le> sz"
  shows "length (fst (mark_valid bv off n sz)) = length bv \<and>
    (\<forall>i < sz. fst (mark_valid bv off n sz) ! i = (bv ! i \<or> (off \<le> i \<and> i < off + n))) \<and>
    (snd (mark_valid bv off n sz) \<longleftrightarrow> (\<forall>i < sz. bv ! i \<or> (off \<le> i \<and> i < off + n)))"
proof -
  let ?bv = "fold (\<lambda>i v. v[i := True]) [off..<off + n] bv"
  have m: "length ?bv = length bv" "\<forall>i < length bv. ?bv ! i = (bv ! i \<or> (off \<le> i \<and> i < off + n))"
    using fold_mark [of "off + n" bv off] assms by auto
  have "snd (mark_valid bv off n sz) \<longleftrightarrow> (\<forall>i < off. bv ! i) \<and> (\<forall>i. off + n \<le> i \<longrightarrow> i < sz \<longrightarrow> ?bv ! i)"
    by (auto simp: mark_valid_def Let_def list_all_iff)
  also have "\<dots> \<longleftrightarrow> (\<forall>i < sz. bv ! i \<or> (off \<le> i \<and> i < off + n))"
  proof (intro iffI conjI allI impI)
    fix i assume h: "(\<forall>i < off. bv ! i) \<and> (\<forall>i. off + n \<le> i \<longrightarrow> i < sz \<longrightarrow> ?bv ! i)" "i < sz"
    consider "i < off" | "off \<le> i" "i < off + n" | "off + n \<le> i" by linarith
    then show "bv ! i \<or> (off \<le> i \<and> i < off + n)" by cases (use h m(2) assms in auto)
  next
    fix i assume "\<forall>i < sz. bv ! i \<or> (off \<le> i \<and> i < off + n)" "i < off"
    then show "bv ! i" using assms(2) by (meson leD less_le_trans add_leD1)
  qed (use m(2) assms in auto)
  finally show ?thesis using m assms by (simp add: mark_valid_def Let_def)
qed

lemma unat_end:
  assumes "0 < unat (n :: u32)" "unat (x :: u64) + unat n \<le> 2 ^ 64"
  shows "unat (x + ucast n - 1) = unat x + unat n - 1"
proof -
  have n: "unat (ucast n - 1 :: u64) = unat n - 1"
    using assms(1) by (subst unat_sub) (auto simp: word_le_nat_alt)
  have "x + ucast n - 1 = x + (ucast n - 1)" by simp
  also have "unat \<dots> = unat x + (unat n - 1)"
    using assms n by (subst unat_add_lem [THEN iffD1]) auto
  finally show ?thesis using assms(1) by simp
qed

text \<open>A buffer placed at an address, as a partial memory; the bytes of a packet already valid.\<close>

definition at_addr :: "addr \<Rightarrow> u8 list \<Rightarrow> nat \<Rightarrow> u8 option" where
  "at_addr b buf x = (if unat b \<le> x \<and> x < unat b + length buf then Some (buf ! (x - unat b)) else None)"

definition byte_valid :: "packet \<Rightarrow> nat \<Rightarrow> bool" where
  "byte_valid p i \<longleftrightarrow> bytesValid p \<noteq> [] \<and> bytesValid p ! i"

definition fits :: "addr \<Rightarrow> u32 \<Rightarrow> bool" where
  "fits a n \<longleftrightarrow> 0 < unat n \<and> unat a + unat n \<le> 2 ^ 64"

definition functional_ready :: "packet \<Rightarrow> bool" where
  "functional_ready p \<longleftrightarrow> isSet (pkt_flags p) VALID_ADDR \<and> isSet (pkt_flags p) VALID_SIZE \<and>
     isSet (pkt_flags p) (STATIC_DATA OR DYNAMIC_DATA) \<and> \<not> isMaskedWrite p \<and> fits (pkt_addr p) (pkt_size p) \<and>
     (\<exists>buf. pkt_data p = Some buf \<and> length buf = unat (pkt_size p)) \<and>
     (bytesValid p = [] \<or> length (bytesValid p) = unat (pkt_size p))"

lemma overlap_offsets:
  assumes "fits fs fsz" "fits vs vsz"
  defines "fe \<equiv> fs + ucast fsz - 1" and "ve \<equiv> vs + ucast vsz - 1"
  assumes "fs \<le> ve" "vs \<le> fe"
  shows "unat (if fs > vs then fs - vs else 0) = unat fs - unat vs \<and>
    unat (if fs < vs then vs - fs else 0) = unat vs - unat fs \<and>
    unat (min ve fe + 1 - max vs fs) =
      min (unat vs + unat vsz) (unat fs + unat fsz) - max (unat vs) (unat fs)"
proof -
  have e: "unat fe = unat fs + unat fsz - 1" "unat ve = unat vs + unat vsz - 1"
    unfolding fe_def ve_def using assms(1,2) by (simp_all only: fits_def unat_end)
  have mm: "unat (min ve fe) = min (unat ve) (unat fe)" "unat (max vs fs) = max (unat vs) (unat fs)"
    by (simp_all add: min_def max_def word_le_nat_alt)
  have le: "max vs fs \<le> min ve fe"
    using assms(1,2,5,6) e by (auto simp: word_le_nat_alt mm fits_def)
  have sz: "unat fsz < 2 ^ 32" using unsigned_less [of fsz, where 'a = nat] by simp
  have "unat (min ve fe - max vs fs) = unat (min ve fe) - unat (max vs fs)"
    using le by (rule unat_sub)
  then have d: "unat (min ve fe - max vs fs) = min (unat ve) (unat fe) - max (unat vs) (unat fs)"
    by (simp only: mm)
  have "unat (min ve fe - max vs fs) + 1 < 2 ^ 64"
    unfolding d using e sz by auto
  then have step: "unat (min ve fe - max vs fs + 1) = unat (min ve fe - max vs fs) + 1"
    by (subst unat_add_lem [THEN iffD1]) auto
  have eq: "min ve fe + 1 - max vs fs = min ve fe - max vs fs + 1" by simp
  have "max (unat vs) (unat fs) \<le> min (unat ve) (unat fe)" using le by (simp only: word_le_nat_alt mm)
  then have num: "min (unat ve) (unat fe) - max (unat vs) (unat fs) + 1 =
      min (unat vs + unat vsz) (unat fs + unat fsz) - max (unat vs) (unat fs)"
    unfolding e using assms(1,2) unfolding fits_def min_def max_def by (auto split: if_splits)
  have "unat (min ve fe + 1 - max vs fs) =
      min (unat vs + unat vsz) (unat fs + unat fsz) - max (unat vs) (unat fs)"
    unfolding eq step d num ..
  moreover have "unat (if fs > vs then fs - vs else 0) = unat fs - unat vs"
    "unat (if fs < vs then vs - fs else 0) = unat vs - unat fs"
    by (auto simp: unat_sub word_less_nat_alt word_le_nat_alt)
  ultimately show ?thesis by blast
qed

text \<open>\<open>overlay m n\<close> is the memory \<open>m\<close> with the bytes that \<open>n\<close> has for its addresses.\<close>

definition overlay :: "(nat \<Rightarrow> u8 option) \<Rightarrow> (nat \<Rightarrow> u8 option) \<Rightarrow> nat \<Rightarrow> u8 option" where
  "overlay m n x = (if m x = None then None else case n x of Some b \<Rightarrow> Some b | None \<Rightarrow> m x)"

lemma memcpy_overlay:
  assumes "unat da < unat sa + length src" "unat sa < unat da + length dst"
  shows "\<exists>r. memcpy dst (unat sa - unat da) src (unat da - unat sa)
      (min (unat sa + length src) (unat da + length dst) - max (unat sa) (unat da)) = Inr r \<and>
    length r = length dst \<and> at_addr da r = overlay (at_addr da dst) (at_addr sa src)"
proof -
  let ?n = "min (unat sa + length src) (unat da + length dst) - max (unat sa) (unat da)"
  obtain r where r: "memcpy dst (unat sa - unat da) src (unat da - unat sa) ?n = Inr r" "length r = length dst"
    "\<forall>i < length dst. r ! i = (if unat sa - unat da \<le> i \<and> i < unat sa - unat da + ?n
       then src ! (unat da - unat sa + (i - (unat sa - unat da))) else dst ! i)"
    using memcpy_ok [of "unat sa - unat da" ?n dst "unat da - unat sa" src] assms by fastforce
  have "at_addr da r x = overlay (at_addr da dst) (at_addr sa src) x" for x
  proof (cases "unat da \<le> x \<and> x < unat da + length dst")
    case True
    then have i: "x - unat da < length dst" by linarith
    show ?thesis
    proof (cases "unat sa \<le> x \<and> x < unat sa + length src")
      case in_src: True
      then have "unat sa - unat da \<le> x - unat da \<and> x - unat da < unat sa - unat da + ?n"
        "unat da - unat sa + (x - unat da - (unat sa - unat da)) = x - unat sa"
        using True assms by auto
      then show ?thesis using r(2,3) i True in_src by (simp add: at_addr_def overlay_def)
    next
      case not_src: False
      then have "\<not> (unat sa - unat da \<le> x - unat da \<and> x - unat da < unat sa - unat da + ?n)"
        using True assms by auto
      then show ?thesis using r(2,3) i True not_src by (auto simp: at_addr_def overlay_def)
    qed
  next
    case False
    then show ?thesis using r(2) by (auto simp: at_addr_def overlay_def)
  qed
  then show ?thesis using r(1,2) by blast
qed

lemma overlay_disjoint:
  "unat sa + length src \<le> unat da \<or> unat da + length dst \<le> unat sa \<Longrightarrow>
   overlay (at_addr da dst) (at_addr sa src) = at_addr da dst"
  by (auto simp: fun_eq_iff overlay_def at_addr_def)

text \<open>The offsets of the code for two ranges that meet, and the test that they do.\<close>

lemma meets_iff:
  assumes "fits fs fsz" "fits vs vsz"
  shows "(fs > vs + ucast vsz - 1 \<or> vs > fs + ucast fsz - 1) \<longleftrightarrow>
    unat vs + unat vsz \<le> unat fs \<or> unat fs + unat fsz \<le> unat vs"
  using assms unat_end [of fsz fs] unat_end [of vsz vs] by (auto simp: fits_def word_less_nat_alt)

lemma functional_read_hit:
  assumes "functional_ready p" "pkt_data p = Some buf" "fits a sz" "length d = unat sz"
    "testCmdAttrib (pkt_cmd p) IsRead" "\<not> testCmdAttrib (pkt_cmd p) IsPrint"
    "unat (pkt_addr p) < unat a + unat sz" "unat a < unat (pkt_addr p) + unat (pkt_size p)"
  shows "\<exists>ok buf' bv. trySatisfyFunctional p a (pkt_secure p) sz (Some d) =
      Inr (ok, p\<lparr>pkt_data := Some buf', bytesValid := bv\<rparr>, Some d) \<and>
    length buf' = length buf \<and> length bv = unat (pkt_size p) \<and>
    at_addr (pkt_addr p) buf' = overlay (at_addr (pkt_addr p) buf) (at_addr a d) \<and>
    (\<forall>i < unat (pkt_size p). bv ! i = (byte_valid p i \<or> at_addr a d (unat (pkt_addr p) + i) \<noteq> None)) \<and>
    (ok \<longleftrightarrow> (\<forall>i < unat (pkt_size p). bv ! i))"
proof -
  let ?fs = "pkt_addr p" and ?fsz = "pkt_size p"
  let ?n = "min (unat a + unat sz) (unat ?fs + unat ?fsz) - max (unat a) (unat ?fs)"
  let ?bv0 = "if bytesValid p = [] then replicate (unat ?fsz) False else bytesValid p"
  let ?m = "mark_valid ?bv0 (unat a - unat ?fs) ?n (unat ?fsz)"
  have rd: "fits ?fs ?fsz" "length buf = unat ?fsz" "length ?bv0 = unat ?fsz"
    "getAddr p = Inr ?fs" "getSize p = Inr ?fsz" "getPtr p = Inr buf"
    using assms(1,2) by (auto simp: functional_ready_def getAddr_def getSize_def getPtr_def)
  have meet: "\<not> (?fs > a + ucast sz - 1 \<or> a > ?fs + ucast ?fsz - 1)"
    using meets_iff [OF rd(1) assms(3)] assms(7,8) by linarith
  then have off: "unat (if ?fs > a then ?fs - a else 0) = unat ?fs - unat a \<and>
    unat (if ?fs < a then a - ?fs else 0) = unat a - unat ?fs \<and>
    unat (min (a + ucast sz - 1) (?fs + ucast ?fsz - 1) + 1 - max a ?fs) = ?n"
    using overlap_offsets [OF rd(1) assms(3)] by (simp add: not_less)
  obtain buf' where b: "memcpy buf (unat a - unat ?fs) d (unat ?fs - unat a) ?n = Inr buf'" "length buf' = length buf"
    "at_addr ?fs buf' = overlay (at_addr ?fs buf) (at_addr a d)"
    using memcpy_overlay [of ?fs a d buf] assms(4,7,8) rd(2) by auto
  have m: "length (fst ?m) = unat ?fsz"
    "\<forall>i < unat ?fsz. fst ?m ! i = (?bv0 ! i \<or> (unat a - unat ?fs \<le> i \<and> i < unat a - unat ?fs + ?n))"
    "snd ?m \<longleftrightarrow> (\<forall>i < unat ?fsz. fst ?m ! i)"
    using mark_valid_ok [of "unat ?fsz" ?bv0 "unat a - unat ?fs" ?n] rd(3) assms(7,8) by auto
  have cover: "fst ?m ! i = (byte_valid p i \<or> at_addr a d (unat ?fs + i) \<noteq> None)" if "i < unat ?fsz" for i
  proof -
    have "?bv0 ! i = byte_valid p i" using that by (simp add: byte_valid_def)
    moreover have "(unat a - unat ?fs \<le> i \<and> i < unat a - unat ?fs + ?n) = (at_addr a d (unat ?fs + i) \<noteq> None)"
      using that assms(4,7,8) by (auto simp: at_addr_def)
    ultimately show ?thesis using m(2) that by blast
  qed
  have "trySatisfyFunctional p a (pkt_secure p) sz (Some d) =
      Inr (snd ?m, p\<lparr>pkt_data := Some buf', bytesValid := fst ?m\<rparr>, Some d)"
    using meet off b(1) rd(3,4,5,6) assms(5,6)
    by (simp add: trySatisfyFunctional_def Let_def case_prod_beta)
  then show ?thesis using b(2,3) m(1,3) cover by blast
qed

lemma functional_write_hit:
  assumes "functional_ready p" "pkt_data p = Some buf" "fits a sz" "length d = unat sz"
    "testCmdAttrib (pkt_cmd p) IsWrite" "\<not> testCmdAttrib (pkt_cmd p) IsRead" "\<not> testCmdAttrib (pkt_cmd p) IsPrint"
    "unat (pkt_addr p) < unat a + unat sz" "unat a < unat (pkt_addr p) + unat (pkt_size p)"
  shows "\<exists>d'. trySatisfyFunctional p a (pkt_secure p) sz (Some d) = Inr (False, p, Some d') \<and>
    length d' = length d \<and> at_addr a d' = overlay (at_addr a d) (at_addr (pkt_addr p) buf)"
proof -
  let ?fs = "pkt_addr p" and ?fsz = "pkt_size p"
  let ?n = "min (unat a + unat sz) (unat ?fs + unat ?fsz) - max (unat a) (unat ?fs)"
  have rd: "fits ?fs ?fsz" "length buf = unat ?fsz"
    "getAddr p = Inr ?fs" "getSize p = Inr ?fsz" "getConstPtr p = Inr buf"
    using assms(1,2) by (auto simp: functional_ready_def getAddr_def getSize_def getConstPtr_def)
  have meet: "\<not> (?fs > a + ucast sz - 1 \<or> a > ?fs + ucast ?fsz - 1)"
    using meets_iff [OF rd(1) assms(3)] assms(8,9) by linarith
  then have off: "unat (if ?fs > a then ?fs - a else 0) = unat ?fs - unat a \<and>
    unat (if ?fs < a then a - ?fs else 0) = unat a - unat ?fs \<and>
    unat (min (a + ucast sz - 1) (?fs + ucast ?fsz - 1) + 1 - max a ?fs) = ?n"
    using overlap_offsets [OF rd(1) assms(3)] by (simp add: not_less)
  obtain d' where b: "memcpy d (unat ?fs - unat a) buf (unat a - unat ?fs) ?n = Inr d'" "length d' = length d"
    "at_addr a d' = overlay (at_addr a d) (at_addr ?fs buf)"
    using memcpy_overlay [of a ?fs buf d] assms(4,8,9) rd(2) by (auto simp: min.commute max.commute)
  have "trySatisfyFunctional p a (pkt_secure p) sz (Some d) = Inr (False, p, Some d')"
    using meet off b(1) rd(3,4,5) assms(5,6,7)
    by (simp add: trySatisfyFunctional_def Let_def)
  then show ?thesis using b(2,3) by blast
qed

lemma not_print: "testCmdAttrib c IsRead \<or> testCmdAttrib c IsWrite \<Longrightarrow> \<not> testCmdAttrib c IsPrint"
  by (cases c) (simp_all add: cmd_table)

lemma functional_miss:
  assumes "functional_ready p" "fits a sz" "pkt_secure p \<noteq> s \<or> unat a + unat sz \<le> unat (pkt_addr p) \<or>
    unat (pkt_addr p) + unat (pkt_size p) \<le> unat a"
  shows "trySatisfyFunctional p a s sz data = Inr (False, p, data)"
proof -
  have rd: "fits (pkt_addr p) (pkt_size p)" "getAddr p = Inr (pkt_addr p)" "getSize p = Inr (pkt_size p)"
    using assms(1) by (auto simp: functional_ready_def getAddr_def getSize_def)
  show ?thesis using meets_iff [OF rd(1) assms(2)] assms(3) rd(2,3)
    by (auto simp: trySatisfyFunctional_def Let_def)
qed

text \<open>C26: a functional access moves exactly the bytes that the packet and the buffer share, and
  nothing outside either of them. A read copies them into the packet and marks them valid, and
  it answers that it is done only when every byte of the packet has been provided; a write
  copies them into the buffer and never ends the search. Accesses to the other security state
  touch nothing.\<close>

theorem functional_access_exact:
  assumes "functional_ready p" "pkt_data p = Some buf" "fits a sz" "length d = unat sz"
  shows "(pkt_secure p \<noteq> s \<longrightarrow> trySatisfyFunctional p a s sz (Some d) = Inr (False, p, Some d)) \<and>
    (pkt_secure p = s \<and> testCmdAttrib (pkt_cmd p) IsRead \<longrightarrow>
      (\<exists>ok p' buf'. trySatisfyFunctional p a s sz (Some d) = Inr (ok, p', Some d) \<and> functional_ready p' \<and>
         pkt_data p' = Some buf' \<and>
         at_addr (pkt_addr p) buf' = overlay (at_addr (pkt_addr p) buf) (at_addr a d) \<and>
         (\<forall>i < unat (pkt_size p). byte_valid p' i =
            (byte_valid p i \<or> at_addr a d (unat (pkt_addr p) + i) \<noteq> None)) \<and>
         (ok \<longrightarrow> (\<forall>i < unat (pkt_size p). byte_valid p' i)))) \<and>
    (pkt_secure p = s \<and> testCmdAttrib (pkt_cmd p) IsWrite \<and> \<not> testCmdAttrib (pkt_cmd p) IsRead \<longrightarrow>
      (\<exists>d'. trySatisfyFunctional p a s sz (Some d) = Inr (False, p, Some d') \<and> length d' = length d \<and>
         at_addr a d' = overlay (at_addr a d) (at_addr (pkt_addr p) buf)))"
proof (cases "pkt_secure p = s \<and> unat (pkt_addr p) < unat a + unat sz \<and> unat a < unat (pkt_addr p) + unat (pkt_size p)")
  case True
  have "\<exists>ok p' buf'. trySatisfyFunctional p a s sz (Some d) = Inr (ok, p', Some d) \<and> functional_ready p' \<and>
         pkt_data p' = Some buf' \<and>
         at_addr (pkt_addr p) buf' = overlay (at_addr (pkt_addr p) buf) (at_addr a d) \<and>
         (\<forall>i < unat (pkt_size p). byte_valid p' i =
            (byte_valid p i \<or> at_addr a d (unat (pkt_addr p) + i) \<noteq> None)) \<and>
         (ok \<longrightarrow> (\<forall>i < unat (pkt_size p). byte_valid p' i))" if rd: "testCmdAttrib (pkt_cmd p) IsRead"
  proof -
    obtain ok buf' bv where h: "trySatisfyFunctional p a s sz (Some d) =
        Inr (ok, p\<lparr>pkt_data := Some buf', bytesValid := bv\<rparr>, Some d)" "length buf' = length buf"
      "length bv = unat (pkt_size p)" "at_addr (pkt_addr p) buf' = overlay (at_addr (pkt_addr p) buf) (at_addr a d)"
      "\<forall>i < unat (pkt_size p). bv ! i = (byte_valid p i \<or> at_addr a d (unat (pkt_addr p) + i) \<noteq> None)"
      "ok \<longleftrightarrow> (\<forall>i < unat (pkt_size p). bv ! i)"
      using functional_read_hit [OF assms rd] not_print rd True by blast
    let ?p = "p\<lparr>pkt_data := Some buf', bytesValid := bv\<rparr>"
    have "functional_ready ?p" using assms(1,2) h(2,3) by (auto simp: functional_ready_def isMaskedWrite_def)
    moreover have "byte_valid ?p i = bv ! i" if "i < unat (pkt_size p)" for i
      using that h(3) by (auto simp: byte_valid_def)
    ultimately show ?thesis using h by (intro exI [of _ ok] exI [of _ ?p] exI [of _ buf']) auto
  qed
  moreover have "\<exists>d'. trySatisfyFunctional p a s sz (Some d) = Inr (False, p, Some d') \<and> length d' = length d \<and>
         at_addr a d' = overlay (at_addr a d) (at_addr (pkt_addr p) buf)"
    if "testCmdAttrib (pkt_cmd p) IsWrite" "\<not> testCmdAttrib (pkt_cmd p) IsRead"
    using functional_write_hit [OF assms that] not_print that True by blast
  ultimately show ?thesis using True by blast
next
  case False
  then have miss: "trySatisfyFunctional p a s sz (Some d) = Inr (False, p, Some d)"
    using functional_miss [OF assms(1,3)] by (metis not_less)
  have len: "length buf = unat (pkt_size p)" using assms(1,2) by (auto simp: functional_ready_def)
  have "overlay (at_addr (pkt_addr p) buf) (at_addr a d) = at_addr (pkt_addr p) buf \<and>
      overlay (at_addr a d) (at_addr (pkt_addr p) buf) = at_addr a d \<and>
      (\<forall>i < unat (pkt_size p). at_addr a d (unat (pkt_addr p) + i) = None)" if "pkt_secure p = s"
  proof -
    have "unat a + length d \<le> unat (pkt_addr p) \<or> unat (pkt_addr p) + length buf \<le> unat a"
      using False that assms(4) len by auto
    then show ?thesis using len
      by (intro conjI overlay_disjoint) (auto simp: at_addr_def)
  qed
  then show ?thesis using miss assms(1,2) by auto
qed

theorem functional_access_exact_witness:
  "\<exists>buf'. trySatisfyFunctional \<lparr>pkt_cmd = ReadReq, pkt_flags = 0x1300, pkt_req = \<lparr>req_flags = 0, req_paddr = None,
       req_size = None, req_masked = False\<rparr>, pkt_addr = 0x100, pkt_secure = False, pkt_size = 2,
       pkt_data = Some [0, 0], bytesValid = [], is_prefetch_hint_pkt = False, ddio_prefetch_destination = -1,
       is_block_io = False, is_ddio_pkt = False, is_ddio_header = False\<rparr> 0x101 False 2 (Some [7, 8]) =
     Inr (False, \<lparr>pkt_cmd = ReadReq, pkt_flags = 0x1300, pkt_req = \<lparr>req_flags = 0, req_paddr = None,
       req_size = None, req_masked = False\<rparr>, pkt_addr = 0x100, pkt_secure = False, pkt_size = 2,
       pkt_data = Some buf', bytesValid = [False, True], is_prefetch_hint_pkt = False, ddio_prefetch_destination = -1,
       is_block_io = False, is_ddio_pkt = False, is_ddio_header = False\<rparr>, Some [7, 8]) \<and> at_addr 0x100 buf' 0x101 = Some 7 \<and> at_addr 0x100 buf' 0x100 = Some 0"
proof -
  let ?p = "\<lparr>pkt_cmd = ReadReq, pkt_flags = 0x1300, pkt_req = \<lparr>req_flags = 0, req_paddr = None,
       req_size = None, req_masked = False\<rparr>, pkt_addr = 0x100, pkt_secure = False, pkt_size = 2,
       pkt_data = Some [0, 0], bytesValid = [], is_prefetch_hint_pkt = False, ddio_prefetch_destination = -1,
       is_block_io = False, is_ddio_pkt = False, is_ddio_header = False\<rparr>"
  have h: "functional_ready ?p" "pkt_data ?p = Some [0, 0]" "fits 0x101 2" "length [7, 8 :: u8] = unat (2 :: u32)"
    by (simp_all add: functional_ready_def isSet_def VALID_ADDR_def VALID_SIZE_def STATIC_DATA_def
        DYNAMIC_DATA_def isMaskedWrite_def fits_def)
  have "testCmdAttrib ReadReq IsRead" by (simp add: cmd_table)
  then obtain ok p' buf' where r: "trySatisfyFunctional ?p 0x101 False 2 (Some [7, 8]) = Inr (ok, p', Some [7, 8])"
    "pkt_data p' = Some buf'" "at_addr 0x100 buf' = overlay (at_addr 0x100 [0, 0]) (at_addr 0x101 [7, 8])"
    using functional_access_exact [OF h, of False] by auto
  have "trySatisfyFunctional ?p 0x101 False 2 (Some [7, 8]) =
      Inr (False, ?p\<lparr>pkt_data := Some [0, 7], bytesValid := [False, True]\<rparr>, Some [7, 8])"
    by code_simp
  then show ?thesis using r by (intro exI [of _ "[0, 7]"]) (auto simp: overlay_def at_addr_def)
qed

end
