(* ===== verification/Snoop_Filter.thy ===== *)
theory Snoop_Filter
  imports Mem_Packet "HOL-Library.AList"
begin

text \<open>
  \<^verbatim>\<open>src/gem5/src/mem/snoop_filter.cc\<close> and \<^verbatim>\<open>snoop_filter.hh\<close>: the directory that a coherent
  crossbar keeps of the lines above it. Every public operation is modelled, with its panics and
  asserts as errors; statistics and tracing are left out. The hash map of entries is an
  association list, the iterator stored between \<^verbatim>\<open>lookupRequest\<close> and \<^verbatim>\<open>finishRequest\<close> is the
  key it points to, and reading through an iterator whose entry is gone is \<^const>\<open>Out_Of_Range\<close>.
  The operations are shown to refine updates of two sets of ports per line, and a step relation
  that couples the filter with the caches above it shows that no panic is reached and no
  cache that holds a line is left out of a snoop.
\<close>

section \<open>State\<close>

type_synonym snoop_mask = "256 word"

record response_port =
  port_id :: int
  port_snooping :: bool

record snoop_item =
  requested :: snoop_mask
  holder :: snoop_mask

record snoop_filter =
  isForL3X :: bool
  cachedLocations :: "(addr \<times> snoop_item) list"
  lookup_it :: "addr option"
  retryItem :: snoop_item
  cpuSidePorts :: "response_port list"
  localResponsePortIds :: "int list"
  linesize :: u32
  lookupLatency :: u64
  maxEntryCount :: nat

definition SnoopItem :: snoop_item where
  "SnoopItem = \<lparr>requested = 0, holder = 0\<rparr>"

definition SnoopFilter :: "bool \<Rightarrow> u32 \<Rightarrow> u64 \<Rightarrow> nat \<Rightarrow> snoop_filter" where
  "SnoopFilter is_for_l3x line_size latency max_capacity =
     \<lparr>isForL3X = is_for_l3x, cachedLocations = [], lookup_it = None, retryItem = SnoopItem,
      cpuSidePorts = [], localResponsePortIds = [], linesize = line_size, lookupLatency = latency,
      maxEntryCount = max_capacity div unat line_size\<rparr>"

definition resize :: "'a list \<Rightarrow> nat \<Rightarrow> 'a \<Rightarrow> 'a list" where
  "resize xs n v = take n xs @ replicate (n - length xs) v"

fun register_ports :: "response_port list \<Rightarrow> int \<Rightarrow> snoop_filter \<Rightarrow> (int \<times> snoop_filter) result" where
  "register_ports [] next_id sf = Inr (next_id, sf)" |
  "register_ports (p # ps) next_id sf =
     (if port_snooping p then
        guardR (0 \<le> port_id p \<and> nat (port_id p) < length (localResponsePortIds sf)) Out_Of_Range
          (register_ports ps (next_id + 1)
            (sf\<lparr>cpuSidePorts := cpuSidePorts sf @ [p],
                localResponsePortIds := (localResponsePortIds sf)[nat (port_id p) := next_id]\<rparr>))
      else register_ports ps next_id sf)"

definition setCPUSidePorts :: "response_port list \<Rightarrow> snoop_filter \<Rightarrow> snoop_filter result" where
  "setCPUSidePorts ps sf =
     bindR (register_ports ps 0 (sf\<lparr>localResponsePortIds := resize (localResponsePortIds sf) (length ps) (-1)\<rparr>))
       (\<lambda>(n, sf). guardR (\<not> n > 256) Fatal_Error (Inr sf))"

section \<open>Masks and port lists\<close>

definition mask_bit :: "int \<Rightarrow> snoop_mask" where
  "mask_bit i = (if i < 0 then 0 else push_bit (nat i) 1)"

definition portToMask :: "snoop_filter \<Rightarrow> response_port \<Rightarrow> snoop_mask result" where
  "portToMask sf p = guardR (port_id p \<noteq> -1) Assert_Failed
     (if \<not> port_snooping p then Inr 0
      else guardR (0 \<le> port_id p \<and> nat (port_id p) < length (localResponsePortIds sf)) Out_Of_Range
        (Inr (mask_bit (localResponsePortIds sf ! nat (port_id p)))))"

fun ports_in_mask :: "snoop_filter \<Rightarrow> snoop_mask \<Rightarrow> response_port list \<Rightarrow> response_port list result" where
  "ports_in_mask sf port_mask [] = Inr []" |
  "ports_in_mask sf port_mask (p # ps) = bindR (portToMask sf p) (\<lambda>m.
     bindR (ports_in_mask sf port_mask ps) (\<lambda>res. Inr (if port_mask AND m \<noteq> 0 then p # res else res)))"

definition maskToPortList :: "snoop_filter \<Rightarrow> snoop_mask \<Rightarrow> response_port list result" where
  "maskToPortList sf port_mask = ports_in_mask sf port_mask (cpuSidePorts sf)"

definition snoopSelected :: "snoop_filter \<Rightarrow> snoop_mask \<Rightarrow> ((response_port list \<times> u64) \<times> snoop_filter) result" where
  "snoopSelected sf m = bindR (maskToPortList sf m) (\<lambda>ps. Inr ((ps, lookupLatency sf), sf))"

definition snoopDown :: "snoop_filter \<Rightarrow> ((response_port list \<times> u64) \<times> snoop_filter) result" where
  "snoopDown sf = Inr (([], lookupLatency sf), sf)"

section \<open>Operations\<close>

definition put_item :: "addr \<Rightarrow> snoop_item \<Rightarrow> snoop_filter \<Rightarrow> snoop_filter" where
  "put_item l item sf = sf\<lparr>cachedLocations := AList.update l item (cachedLocations sf)\<rparr>"

definition eraseIfNullEntry :: "addr \<Rightarrow> snoop_filter \<Rightarrow> snoop_filter result" where
  "eraseIfNullEntry l sf = (case map_of (cachedLocations sf) l of
     None \<Rightarrow> Inl Out_Of_Range
   | Some item \<Rightarrow> Inr (if requested item OR holder item = 0
       then sf\<lparr>cachedLocations := AList.delete l (cachedLocations sf)\<rparr> else sf))"

definition line_addr :: "snoop_filter \<Rightarrow> packet \<Rightarrow> addr result" where
  "line_addr sf cpkt = bindR (getBlockAddr cpkt (linesize sf)) (\<lambda>a. bindR (isSecure cpkt) (\<lambda>s.
     Inr (if s then a OR 1 else a)))"

definition dest_mask :: "snoop_filter \<Rightarrow> packet \<Rightarrow> snoop_mask" where
  "dest_mask sf cpkt =
     (if is_prefetch_hint_pkt cpkt \<and> isForL3X sf \<and> ddio_prefetch_destination cpkt > -1
      then push_bit (nat (ddio_prefetch_destination cpkt)) 1 else 0)"

definition update_requester :: "packet \<Rightarrow> snoop_mask \<Rightarrow> snoop_item \<Rightarrow> snoop_item result" where
  "update_requester cpkt req_port item =
     (if testCmdAttrib (pkt_cmd cpkt) NeedsResponse then
        (if \<not> cacheResponding cpkt then
           guardR (\<not> requested item AND req_port \<noteq> 0) Panic_Error
             (Inr (item\<lparr>requested := requested item OR req_port\<rparr>))
         else guardR (\<not> holder item AND req_port = 0) Panic_Error (Inr item))
      else guardR (testCmdAttrib (pkt_cmd cpkt) IsEviction) Assert_Failed
        (guardR (\<not> (holder item AND req_port = 0 \<and> \<not> isBlockIO_const cpkt)) Panic_Error
          (Inr (if \<not> isBlockCached cpkt then item\<lparr>holder := holder item AND NOT req_port\<rparr> else item))))"

definition lookupRequest ::
  "snoop_filter \<Rightarrow> packet \<Rightarrow> response_port \<Rightarrow> ((response_port list \<times> u64) \<times> snoop_filter) result" where
  "lookupRequest sf cpkt cpu_side_port =
     (let allocate = \<not> isUncacheable (pkt_req cpkt) \<and> port_snooping cpu_side_port \<and>
                     testCmdAttrib (pkt_cmd cpkt) FromCache in
      bindR (line_addr sf cpkt) (\<lambda>l. bindR (portToMask sf cpu_side_port) (\<lambda>req_port.
      (let is_hit = map_of (cachedLocations sf) l \<noteq> None in
       if \<not> is_hit \<and> \<not> allocate then snoopDown (sf\<lparr>lookup_it := None\<rparr>)
       else
        (let sf = (if is_hit then sf else put_item l SnoopItem sf)\<lparr>lookup_it := Some l\<rparr>;
             sf_item = the (map_of (cachedLocations sf) l);
             destMask = dest_mask sf cpkt;
             interested = holder sf_item OR requested sf_item OR destMask;
             sf = sf\<lparr>retryItem := sf_item\<rparr>
         in bindR (if \<not> allocate then Inr sf
                   else bindR (update_requester cpkt req_port sf_item) (\<lambda>item. Inr (put_item l item sf)))
              (\<lambda>sf. snoopSelected sf ((interested AND NOT req_port) OR destMask)))))))"

definition finishRequest :: "bool \<Rightarrow> addr \<Rightarrow> bool \<Rightarrow> snoop_filter \<Rightarrow> snoop_filter result" where
  "finishRequest will_retry a is_secure sf = (case lookup_it sf of
     None \<Rightarrow> Inr sf
   | Some it \<Rightarrow>
      (let l = a AND NOT (ucast (linesize sf - 1)); l = (if is_secure then l OR 1 else l) in
       guardR (map_of (cachedLocations sf) it \<noteq> None) Out_Of_Range
         (guardR (it = l) Assert_Failed
           (eraseIfNullEntry it (if will_retry then put_item it (retryItem sf) sf else sf)))))"

definition lookupSnoop :: "snoop_filter \<Rightarrow> packet \<Rightarrow> ((response_port list \<times> u64) \<times> snoop_filter) result" where
  "lookupSnoop sf cpkt =
     guardR (testCmdAttrib (pkt_cmd cpkt) IsRequest) Assert_Failed
     (bindR (line_addr sf cpkt) (\<lambda>l. (case map_of (cachedLocations sf) l of
        None \<Rightarrow> guardR (\<not> length (cachedLocations sf) \<ge> maxEntryCount sf) Panic_Error (snoopDown sf)
      | Some sf_item \<Rightarrow>
         (let interested = holder sf_item OR requested sf_item in
          guardR (cmd_isWriteback (pkt_cmd cpkt) \<or> isUncacheable (pkt_req cpkt) \<or>
                  testCmdAttrib (pkt_cmd cpkt) IsInvalidate = testCmdAttrib (pkt_cmd cpkt) NeedsWritable \<or>
                  isCacheMaintenance (pkt_req cpkt)) Assert_Failed
          (bindR (if testCmdAttrib (pkt_cmd cpkt) IsInvalidate \<and> requested sf_item = 0
                  then eraseIfNullEntry l (put_item l (sf_item\<lparr>holder := 0\<rparr>) sf) else Inr sf)
            (\<lambda>sf. snoopSelected sf interested))))))"

definition updateSnoopResponse ::
  "snoop_filter \<Rightarrow> packet \<Rightarrow> response_port \<Rightarrow> response_port \<Rightarrow> snoop_filter result" where
  "updateSnoopResponse sf cpkt rsp_port req_port =
     guardR (testCmdAttrib (pkt_cmd cpkt) IsResponse) Assert_Failed
     (guardR (cacheResponding cpkt) Assert_Failed
     (if isUncacheable (pkt_req cpkt) \<or> \<not> port_snooping req_port then Inr sf
      else bindR (line_addr sf cpkt) (\<lambda>l. bindR (portToMask sf rsp_port) (\<lambda>rsp_mask.
        bindR (portToMask sf req_port) (\<lambda>req_mask.
          (let sf_item = (case map_of (cachedLocations sf) l of None \<Rightarrow> SnoopItem | Some i \<Rightarrow> i) in
           guardR (\<not> holder sf_item AND rsp_mask = 0) Panic_Error
           (guardR (\<not> requested sf_item AND req_mask = 0) Panic_Error
             (let sf_item = (if \<not> hasSharers cpkt then sf_item\<lparr>holder := 0\<rparr> else sf_item);
                  item = sf_item\<lparr>holder := holder sf_item OR req_mask,
                                requested := requested sf_item AND NOT req_mask\<rparr>
              in guardR (\<not> cmd_isWriteback (pkt_cmd cpkt)) Assert_Failed
                 (guardR (requested item OR holder item \<noteq> 0) Assert_Failed
                   (Inr (put_item l item sf)))))))))))"

definition updateSnoopForward :: "snoop_filter \<Rightarrow> packet \<Rightarrow> snoop_filter result" where
  "updateSnoopForward sf cpkt =
     guardR (testCmdAttrib (pkt_cmd cpkt) IsResponse) Assert_Failed
     (guardR (cacheResponding cpkt) Assert_Failed
     (bindR (line_addr sf cpkt) (\<lambda>l. (case map_of (cachedLocations sf) l of
        None \<Rightarrow> Inr sf
      | Some sf_item \<Rightarrow> if \<not> hasSharers cpkt then eraseIfNullEntry l (put_item l (sf_item\<lparr>holder := 0\<rparr>) sf)
          else Inr sf))))"

definition updateResponse :: "snoop_filter \<Rightarrow> packet \<Rightarrow> response_port \<Rightarrow> snoop_filter result" where
  "updateResponse sf cpkt cpu_side_port =
     guardR (testCmdAttrib (pkt_cmd cpkt) IsResponse) Assert_Failed
     (if isUncacheable (pkt_req cpkt) \<or> \<not> port_snooping cpu_side_port then Inr sf
      else bindR (line_addr sf cpkt) (\<lambda>l. (case map_of (cachedLocations sf) l of
        None \<Rightarrow> Inr sf
      | Some sf_item \<Rightarrow> bindR (portToMask sf cpu_side_port) (\<lambda>response_mask.
          guardR (\<not> requested sf_item AND response_mask = 0) Panic_Error
          (let item = sf_item\<lparr>requested := requested sf_item AND NOT response_mask\<rparr> in
           if isCacheMaintenance (pkt_req cpkt) then
             eraseIfNullEntry l (put_item l
               (if testCmdAttrib (pkt_cmd cpkt) IsInvalidate
                then item\<lparr>holder := holder item AND NOT response_mask\<rparr> else item) sf)
           else (let item = item\<lparr>holder := holder item OR response_mask\<rparr> in
                 guardR (holder item OR requested item \<noteq> 0) Assert_Failed (Inr (put_item l item sf))))))))"

section \<open>Masks as sets\<close>

definition bits_of :: "snoop_mask \<Rightarrow> nat set" where
  "bits_of m = {i. bit m i}"

lemma bits_of_or [simp]: "bits_of (m OR n) = bits_of m \<union> bits_of n"
  by (auto simp: bits_of_def bit_simps)

lemma bits_of_0 [simp]: "bits_of 0 = {}"
  by (simp add: bits_of_def)

lemma bits_of_eq_0: "bits_of m = {} \<longleftrightarrow> m = 0"
  by (auto simp: bits_of_def intro: bit_word_eqI)

lemma bits_of_port: "k < 256 \<Longrightarrow> bits_of (mask_bit (int k)) = {k}"
  by (auto simp: bits_of_def bit_simps mask_bit_def)

lemma bits_of_minus: "bits_of (m AND NOT n) = bits_of m - bits_of n"
  by (auto simp: bits_of_def bit_simps dest: bit_imp_le_length)

lemma bits_of_and: "bits_of (m AND n) = bits_of m \<inter> bits_of n"
  by (auto simp: bits_of_def bit_simps)

lemma and_port_eq_0: "k < 256 \<Longrightarrow> m AND mask_bit (int k) = 0 \<longleftrightarrow> k \<notin> bits_of m"
  by (subst bits_of_eq_0 [symmetric]) (simp only: bits_of_and bits_of_port, blast)

lemmas mask_sets = bits_of_port bits_of_minus and_port_eq_0

section \<open>Invariants\<close>

definition registered :: "snoop_filter \<Rightarrow> bool" where
  "registered sf \<longleftrightarrow>
     (\<forall>k < length (cpuSidePorts sf). port_snooping (cpuSidePorts sf ! k) \<and> 0 \<le> port_id (cpuSidePorts sf ! k) \<and>
        nat (port_id (cpuSidePorts sf ! k)) < length (localResponsePortIds sf) \<and>
        localResponsePortIds sf ! nat (port_id (cpuSidePorts sf ! k)) = int k)"

definition ports_ok :: "snoop_filter \<Rightarrow> bool" where
  "ports_ok sf \<longleftrightarrow> length (cpuSidePorts sf) \<le> 256 \<and> registered sf"

definition not_null :: "addr \<times> snoop_item \<Rightarrow> bool" where
  "not_null e \<longleftrightarrow> requested (snd e) OR holder (snd e) \<noteq> 0"

definition sf_ok_but :: "addr set \<Rightarrow> snoop_filter \<Rightarrow> bool" where
  "sf_ok_but L sf \<longleftrightarrow> ports_ok sf \<and> distinct (map fst (cachedLocations sf)) \<and>
     (\<forall>l item. map_of (cachedLocations sf) l = Some item \<longrightarrow> l \<notin> L \<longrightarrow> not_null (l, item))"

abbreviation sf_ok :: "snoop_filter \<Rightarrow> bool" where
  "sf_ok \<equiv> sf_ok_but {}"

text \<open>The directory: for every line the ports with a request in flight and the ports that may
  hold it, by their position in \<^verbatim>\<open>cpuSidePorts\<close>.\<close>

type_synonym directory = "addr \<Rightarrow> nat set \<times> nat set"

definition dir :: "snoop_filter \<Rightarrow> directory" where
  "dir sf l = (case map_of (cachedLocations sf) l of None \<Rightarrow> ({}, {})
     | Some item \<Rightarrow> (bits_of (requested item), bits_of (holder item)))"

definition same_config :: "snoop_filter \<Rightarrow> snoop_filter \<Rightarrow> bool" where
  "same_config sf sf' \<longleftrightarrow> cpuSidePorts sf' = cpuSidePorts sf \<and> localResponsePortIds sf' = localResponsePortIds sf \<and>
     linesize sf' = linesize sf \<and> isForL3X sf' = isForL3X sf \<and> maxEntryCount sf' = maxEntryCount sf \<and>
     lookupLatency sf' = lookupLatency sf"

lemma same_config_refl [simp]: "same_config sf sf"
  by (simp add: same_config_def)

lemma portToMask_port:
  assumes "ports_ok sf" "k < length (cpuSidePorts sf)"
  shows "portToMask sf (cpuSidePorts sf ! k) = Inr (mask_bit (int k)) \<and> k < 256"
  using assms by (auto simp: ports_ok_def registered_def portToMask_def)

definition selected :: "snoop_filter \<Rightarrow> nat set \<Rightarrow> response_port list" where
  "selected sf K = map ((!) (cpuSidePorts sf)) (filter (\<lambda>k. k \<in> K) [0..<length (cpuSidePorts sf)])"

lemma maskToPortList_selected:
  assumes "ports_ok sf"
  shows "maskToPortList sf m = Inr (selected sf (bits_of m))"
proof -
  have "ports_in_mask sf m (map ((!) (cpuSidePorts sf)) ks) =
      Inr (map ((!) (cpuSidePorts sf)) (filter (\<lambda>k. k \<in> bits_of m) ks))"
    if "\<forall>k \<in> set ks. k < length (cpuSidePorts sf)" for ks
    using that
  proof (induction ks)
    case (Cons k ks)
    then show ?case using portToMask_port [OF assms, of k] and_port_eq_0 [of k m] by simp
  qed simp
  from this [of "[0..<length (cpuSidePorts sf)]"] show ?thesis
    by (simp add: maskToPortList_def selected_def map_nth)
qed

lemma snoopSelected_ok:
  "ports_ok sf \<Longrightarrow> snoopSelected sf m = Inr ((selected sf (bits_of m), lookupLatency sf), sf)"
  by (simp add: snoopSelected_def maskToPortList_selected)

lemma in_selected: "k < length (cpuSidePorts sf) \<Longrightarrow> k \<in> K \<Longrightarrow> cpuSidePorts sf ! k \<in> set (selected sf K)"
  by (auto simp: selected_def)

lemma selected_same: "same_config sf sf' \<Longrightarrow> selected sf' K = selected sf K"
  by (simp add: selected_def same_config_def)

section \<open>Entry updates\<close>

lemma put_item_ok:
  assumes "sf_ok_but L sf"
  shows "sf_ok_but (insert l L) (put_item l item sf) \<and> (not_null (l, item) \<longrightarrow> sf_ok_but (L - {l}) (put_item l item sf)) \<and>
    map_of (cachedLocations (put_item l item sf)) l = Some item \<and>
    dir (put_item l item sf) = (dir sf)(l := (bits_of (requested item), bits_of (holder item))) \<and>
    same_config sf (put_item l item sf) \<and> lookup_it (put_item l item sf) = lookup_it sf \<and>
    retryItem (put_item l item sf) = retryItem sf"
  using assms
  by (auto simp: sf_ok_but_def put_item_def update_conv distinct_update dir_def same_config_def ports_ok_def registered_def
      fun_eq_iff split: if_splits)

lemma erase_ok:
  assumes "sf_ok_but (insert l L) sf" "map_of (cachedLocations sf) l = Some item"
  shows "\<exists>sf'. eraseIfNullEntry l sf = Inr sf' \<and> sf_ok_but (L - {l}) sf' \<and> dir sf' = dir sf \<and> same_config sf sf' \<and>
    lookup_it sf' = lookup_it sf"
proof (cases "requested item OR holder item = 0")
  case True
  have "requested item = 0" "holder item = 0"
    using True by (auto simp: bit_eq_iff bit_simps)
  then have "dir (sf\<lparr>cachedLocations := AList.delete l (cachedLocations sf)\<rparr>) = dir sf"
    using assms(2) by (auto simp: dir_def fun_eq_iff delete_conv')
  then show ?thesis using assms True
    by (auto simp: eraseIfNullEntry_def sf_ok_but_def ports_ok_def registered_def same_config_def delete_conv' distinct_delete
        split: if_splits)
next
  case False
  then show ?thesis using assms
    by (auto simp: eraseIfNullEntry_def sf_ok_but_def not_null_def simp del: map_of_eq_Some_iff) (metis option.inject)
qed

lemma put_erase_ok:
  assumes "sf_ok sf"
  shows "\<exists>sf'. eraseIfNullEntry l (put_item l item sf) = Inr sf' \<and> sf_ok sf' \<and>
    dir sf' = (dir sf)(l := (bits_of (requested item), bits_of (holder item))) \<and> same_config sf sf'"
proof -
  have p: "sf_ok_but (insert l {}) (put_item l item sf)" "map_of (cachedLocations (put_item l item sf)) l = Some item"
    "dir (put_item l item sf) = (dir sf)(l := (bits_of (requested item), bits_of (holder item)))"
    "same_config sf (put_item l item sf)"
    using put_item_ok [OF assms, of l item] by auto
  show ?thesis using erase_ok [OF p(1,2)] p(3,4) by (auto simp: same_config_def)
qed

section \<open>Requests refine the directory\<close>

definition line_of :: "snoop_filter \<Rightarrow> packet \<Rightarrow> addr" where
  "line_of sf pkt = (let a = pkt_addr pkt AND NOT (ucast (linesize sf - 1)) in if pkt_secure pkt then a OR 1 else a)"

definition has_addr :: "packet \<Rightarrow> bool" where
  "has_addr pkt \<longleftrightarrow> isSet (pkt_flags pkt) VALID_ADDR"

lemma line_addr_ok: "has_addr pkt \<Longrightarrow> line_addr sf pkt = Inr (line_of sf pkt)"
  by (simp add: has_addr_def line_addr_def line_of_def getBlockAddr_def getAddr_def isSecure_def Let_def)

text \<open>A request as the crossbar handles it: the lookup, then the report whether the request was
  sent or will be retried.\<close>

definition request_txn ::
  "snoop_filter \<Rightarrow> packet \<Rightarrow> response_port \<Rightarrow> bool \<Rightarrow> (response_port list \<times> snoop_filter) result" where
  "request_txn sf pkt p will_retry = bindR (lookupRequest sf pkt p) (\<lambda>((ps, lat), sf1).
     bindR (finishRequest will_retry (pkt_addr pkt) (pkt_secure pkt) sf1) (\<lambda>sf2. Inr (ps, sf2)))"

definition allocates :: "packet \<Rightarrow> bool" where
  "allocates pkt \<longleftrightarrow> \<not> isUncacheable (pkt_req pkt) \<and> testCmdAttrib (pkt_cmd pkt) FromCache"

fun spec_request :: "packet \<Rightarrow> nat \<Rightarrow> nat set \<times> nat set \<Rightarrow> nat set \<times> nat set" where
  "spec_request pkt k (R, H) =
     (if testCmdAttrib (pkt_cmd pkt) NeedsResponse then (if \<not> cacheResponding pkt then (insert k R, H) else (R, H))
      else if \<not> isBlockCached pkt then (R, H - {k}) else (R, H))"

fun request_legal :: "packet \<Rightarrow> nat \<Rightarrow> nat set \<times> nat set \<Rightarrow> bool" where
  "request_legal pkt k (R, H) \<longleftrightarrow>
     (if testCmdAttrib (pkt_cmd pkt) NeedsResponse then (if \<not> cacheResponding pkt then k \<notin> R else k \<in> H)
      else testCmdAttrib (pkt_cmd pkt) IsEviction \<and> (k \<in> H \<or> isBlockIO_const pkt))"

fun interested :: "nat set \<times> nat set \<Rightarrow> nat set" where
  "interested (R, H) = R \<union> H"

lemma update_requester_refines:
  assumes "k < 256" "request_legal pkt k (bits_of (requested item), bits_of (holder item))"
  shows "\<exists>item'. update_requester pkt (mask_bit (int k)) item = Inr item' \<and>
      (bits_of (requested item'), bits_of (holder item')) =
        spec_request pkt k (bits_of (requested item), bits_of (holder item))"
  using assms by (auto simp: update_requester_def mask_sets guardR_def split: if_splits)

lemma update_requester_illegal:
  assumes "k < 256" "\<not> request_legal pkt k (bits_of (requested item), bits_of (holder item))"
  shows "\<exists>e. update_requester pkt (mask_bit (int k)) item = Inl e"
  using assms by (auto simp: update_requester_def mask_sets guardR_def split: if_splits)

declare spec_request.simps [simp del] request_legal.simps [simp del]

lemma finish_ok:
  assumes "sf_ok_but {l} sf" "map_of (cachedLocations sf) l = Some item" "lookup_it sf = Some l" "l = line_of sf pkt"
  shows "\<exists>sf'. finishRequest retry (pkt_addr pkt) (pkt_secure pkt) sf = Inr sf' \<and> sf_ok sf' \<and> same_config sf sf' \<and>
    dir sf' = (if retry then (dir sf)(l := (bits_of (requested (retryItem sf)), bits_of (holder (retryItem sf)))) else dir sf)"
proof (cases retry)
  case True
  have p: "sf_ok_but (insert l {}) (put_item l (retryItem sf) sf)"
    "map_of (cachedLocations (put_item l (retryItem sf) sf)) l = Some (retryItem sf)"
    "dir (put_item l (retryItem sf) sf) = (dir sf)(l := (bits_of (requested (retryItem sf)), bits_of (holder (retryItem sf))))"
    "same_config sf (put_item l (retryItem sf) sf)"
    using put_item_ok [OF assms(1), of l "retryItem sf"] by auto
  have "finishRequest retry (pkt_addr pkt) (pkt_secure pkt) sf = eraseIfNullEntry l (put_item l (retryItem sf) sf)"
    using True assms(2,3,4) by (simp add: finishRequest_def line_of_def Let_def)
  then show ?thesis using erase_ok [OF p(1,2)] p(3,4) True by (auto simp: same_config_def)
next
  case False
  have "finishRequest retry (pkt_addr pkt) (pkt_secure pkt) sf = eraseIfNullEntry l sf"
    using False assms(2,3,4) by (simp add: finishRequest_def line_of_def Let_def)
  then show ?thesis using erase_ok [of l "{}", OF _ assms(2)] assms(1) False by auto
qed

lemma sf_ok_but_aux [simp]:
  "sf_ok_but L (sf\<lparr>lookup_it := x\<rparr>) = sf_ok_but L sf" "sf_ok_but L (sf\<lparr>retryItem := i\<rparr>) = sf_ok_but L sf"
  "dir (sf\<lparr>lookup_it := x\<rparr>) = dir sf" "dir (sf\<lparr>retryItem := i\<rparr>) = dir sf"
  "same_config sf0 (sf\<lparr>lookup_it := x\<rparr>) = same_config sf0 sf" "same_config sf0 (sf\<lparr>retryItem := i\<rparr>) = same_config sf0 sf"
  "ports_ok (sf\<lparr>lookup_it := x\<rparr>) = ports_ok sf" "ports_ok (sf\<lparr>retryItem := i\<rparr>) = ports_ok sf"
  "line_of (sf\<lparr>lookup_it := x\<rparr>) = line_of sf" "line_of (sf\<lparr>retryItem := i\<rparr>) = line_of sf"
  by (simp_all add: sf_ok_but_def dir_def same_config_def ports_ok_def registered_def fun_eq_iff line_of_def)

lemma line_of_same: "same_config sf sf' \<Longrightarrow> line_of sf' = line_of sf"
  by (simp add: same_config_def line_of_def fun_eq_iff)

text \<open>The state in which the entry exists and the iterator is set, before the requester is
  recorded.\<close>

lemma entry_ready:
  fixes l :: addr
  assumes "sf_ok sf"
  defines "sf1 \<equiv> (if map_of (cachedLocations sf) l \<noteq> None then sf else put_item l SnoopItem sf)\<lparr>lookup_it := Some l\<rparr>"
  shows "\<exists>item. map_of (cachedLocations sf1) l = Some item \<and> sf_ok_but {l} sf1 \<and> same_config sf sf1 \<and>
    dir sf l = (bits_of (requested item), bits_of (holder item)) \<and> dir sf1 = dir sf"
proof (cases "map_of (cachedLocations sf) l")
  case None
  have n: "(dir sf)(l := ({}, {})) = dir sf" using None by (auto simp: dir_def fun_eq_iff)
  have "sf1 = (put_item l SnoopItem sf)\<lparr>lookup_it := Some l\<rparr>" using None by (simp add: sf1_def)
  moreover have "map_of (cachedLocations (put_item l SnoopItem sf)) l = Some SnoopItem"
    "sf_ok_but {l} (put_item l SnoopItem sf)" "same_config sf (put_item l SnoopItem sf)" "dir (put_item l SnoopItem sf) = dir sf"
    using put_item_ok [OF assms(1), of l SnoopItem] n by (auto simp: SnoopItem_def)
  ultimately show ?thesis using None by (intro exI [of _ SnoopItem]) (simp add: dir_def SnoopItem_def)
next
  case (Some item)
  then show ?thesis using assms(1)
    by (intro exI [of _ item]) (auto simp: sf1_def dir_def sf_ok_but_def same_config_def ports_ok_def registered_def)
qed

definition routed :: "snoop_filter \<Rightarrow> packet \<Rightarrow> nat set \<Rightarrow> nat set \<Rightarrow> nat set" where
  "routed sf pkt src K = (K \<union> bits_of (dest_mask sf pkt)) - src \<union> bits_of (dest_mask sf pkt)"

lemma dest_mask_same: "same_config sf sf' \<Longrightarrow> dest_mask sf' pkt = dest_mask sf pkt"
  by (simp add: same_config_def dest_mask_def)

lemma sf_ok_ports: "sf_ok_but L sf \<Longrightarrow> ports_ok sf"
  by (simp add: sf_ok_but_def)

text \<open>The lookup of a request that allocates, up to the report of the crossbar.\<close>

lemma lookup_allocating:
  assumes "sf_ok sf" "k < length (cpuSidePorts sf)" "has_addr pkt" "allocates pkt"
    "request_legal pkt k (dir sf (line_of sf pkt))"
  shows "\<exists>sf1 item. lookupRequest sf pkt (cpuSidePorts sf ! k) =
      Inr ((selected sf (routed sf pkt {k} (interested (dir sf (line_of sf pkt)))), lookupLatency sf), sf1) \<and>
    sf_ok_but {line_of sf pkt} sf1 \<and> same_config sf sf1 \<and> lookup_it sf1 = Some (line_of sf pkt) \<and>
    map_of (cachedLocations sf1) (line_of sf pkt) = Some item \<and>
    dir sf1 = (dir sf)(line_of sf pkt := spec_request pkt k (dir sf (line_of sf pkt))) \<and>
    dir sf (line_of sf pkt) = (bits_of (requested (retryItem sf1)), bits_of (holder (retryItem sf1)))"
proof -
  let ?l = "line_of sf pkt" and ?p = "cpuSidePorts sf ! k"
  let ?sf1 = "(if map_of (cachedLocations sf) ?l \<noteq> None then sf else put_item ?l SnoopItem sf)\<lparr>lookup_it := Some ?l\<rparr>"
  obtain item where e: "map_of (cachedLocations ?sf1) ?l = Some item" "sf_ok_but {?l} ?sf1" "same_config sf ?sf1"
    "dir sf ?l = (bits_of (requested item), bits_of (holder item))" "dir ?sf1 = dir sf"
    using entry_ready [OF assms(1), of ?l] by blast
  let ?sf2 = "?sf1\<lparr>retryItem := item\<rparr>"
  have pk: "portToMask sf ?p = Inr (mask_bit (int k))" "k < 256" "port_snooping ?p"
    using portToMask_port [OF sf_ok_ports [OF assms(1)] assms(2)] assms(1,2) by (auto simp: sf_ok_but_def ports_ok_def registered_def)
  obtain item' where u: "update_requester pkt (mask_bit (int k)) item = Inr item'"
    "(bits_of (requested item'), bits_of (holder item')) = spec_request pkt k (dir sf ?l)"
    using update_requester_refines [OF pk(2), of pkt item] assms(5) e(4) by auto
  let ?sf3 = "put_item ?l item' ?sf2"
  have p3: "sf_ok_but {?l} ?sf3" "map_of (cachedLocations ?sf3) ?l = Some item'" "same_config ?sf2 ?sf3"
    "dir ?sf3 = (dir sf)(?l := spec_request pkt k (dir sf ?l))" "lookup_it ?sf3 = Some ?l" "retryItem ?sf3 = item"
    using put_item_ok [of "{?l}" ?sf2 ?l item'] e(2,5) u(2) by auto
  have c: "same_config sf ?sf3" using e(3) p3(3) by (simp add: same_config_def)
  have "lookupRequest sf pkt ?p = snoopSelected ?sf3
      (((holder item OR requested item OR dest_mask ?sf1 pkt) AND NOT (mask_bit (int k))) OR dest_mask ?sf1 pkt)"
    using assms(3,4) e(1) pk(1,3) u(1)
    by (auto simp: lookupRequest_def line_addr_ok Let_def allocates_def)
  also have "\<dots> = Inr ((selected sf (routed sf pkt {k} (interested (dir sf ?l))), lookupLatency sf), ?sf3)"
    unfolding dest_mask_same [OF e(3)] snoopSelected_ok [OF sf_ok_ports [OF p3(1)]] selected_same [OF c]
    using c e(4) pk(2) by (simp add: same_config_def mask_sets routed_def Un_ac)
  finally show ?thesis using p3 c e(4) by (intro exI [of _ ?sf3] exI [of _ item']) simp
qed

lemma request_refines:
  assumes "sf_ok sf" "k < length (cpuSidePorts sf)" "has_addr pkt" "allocates pkt"
    "request_legal pkt k (dir sf (line_of sf pkt))"
  shows "\<exists>sf'. request_txn sf pkt (cpuSidePorts sf ! k) retry =
      Inr (selected sf (routed sf pkt {k} (interested (dir sf (line_of sf pkt)))), sf') \<and> sf_ok sf' \<and> same_config sf sf' \<and>
    dir sf' = (if retry then dir sf else (dir sf)(line_of sf pkt := spec_request pkt k (dir sf (line_of sf pkt))))"
proof -
  let ?l = "line_of sf pkt"
  obtain sf1 item where l: "lookupRequest sf pkt (cpuSidePorts sf ! k) =
      Inr ((selected sf (routed sf pkt {k} (interested (dir sf ?l))), lookupLatency sf), sf1)"
    "sf_ok_but {?l} sf1" "same_config sf sf1" "lookup_it sf1 = Some ?l" "map_of (cachedLocations sf1) ?l = Some item"
    "dir sf1 = (dir sf)(?l := spec_request pkt k (dir sf ?l))"
    "dir sf ?l = (bits_of (requested (retryItem sf1)), bits_of (holder (retryItem sf1)))"
    using lookup_allocating [OF assms] by blast
  obtain sf' where f: "finishRequest retry (pkt_addr pkt) (pkt_secure pkt) sf1 = Inr sf'" "sf_ok sf'" "same_config sf1 sf'"
    "dir sf' = (if retry then (dir sf1)(?l := dir sf ?l) else dir sf1)"
    using finish_ok [OF l(2,5,4), of pkt retry] line_of_same [OF l(3)] l(7) by auto
  have "same_config sf sf'" using l(3) f(3) by (simp add: same_config_def)
  moreover have "dir sf' = (if retry then dir sf else (dir sf)(?l := spec_request pkt k (dir sf ?l)))"
    using f(4) l(6) by auto
  ultimately show ?thesis using l(1) f(1,2) by (simp add: request_txn_def)
qed

text \<open>An illegal request stops the simulation.\<close>

lemma request_illegal:
  assumes "sf_ok sf" "k < length (cpuSidePorts sf)" "has_addr pkt" "allocates pkt"
    "\<not> request_legal pkt k (dir sf (line_of sf pkt))"
  shows "\<exists>e. request_txn sf pkt (cpuSidePorts sf ! k) retry = Inl e"
proof -
  let ?l = "line_of sf pkt" and ?p = "cpuSidePorts sf ! k"
  let ?sf1 = "(if map_of (cachedLocations sf) ?l \<noteq> None then sf else put_item ?l SnoopItem sf)\<lparr>lookup_it := Some ?l\<rparr>"
  obtain item where e: "map_of (cachedLocations ?sf1) ?l = Some item"
    "dir sf ?l = (bits_of (requested item), bits_of (holder item))"
    using entry_ready [OF assms(1), of ?l] by blast
  have pk: "portToMask sf ?p = Inr (mask_bit (int k))" "k < 256" "port_snooping ?p"
    using portToMask_port [OF sf_ok_ports [OF assms(1)] assms(2)] assms(1,2) by (auto simp: sf_ok_but_def ports_ok_def registered_def)
  obtain err where "update_requester pkt (mask_bit (int k)) item = Inl err"
    using update_requester_illegal [OF pk(2), of pkt item] assms(5) e(2) by auto
  then have "lookupRequest sf pkt ?p = Inl err"
    using assms(3,4) e(1) pk(1,3)
    by (auto simp: lookupRequest_def line_addr_ok Let_def allocates_def)
  then show ?thesis by (simp add: request_txn_def)
qed

text \<open>A request that does not allocate leaves the directory alone.\<close>

lemma request_not_allocating:
  assumes "sf_ok sf" "has_addr pkt" "portToMask sf p = Inr m" "\<not> (allocates pkt \<and> port_snooping p)"
  shows "\<exists>ps sf'. request_txn sf pkt p retry = Inr (ps, sf') \<and> sf_ok sf' \<and> same_config sf sf' \<and> dir sf' = dir sf \<and>
    set (selected sf (interested (dir sf (line_of sf pkt)) - bits_of m)) \<subseteq> set ps"
proof -
  let ?l = "line_of sf pkt"
  show ?thesis
  proof (cases "map_of (cachedLocations sf) ?l")
    case None
    then have "request_txn sf pkt p retry = Inr ([], sf\<lparr>lookup_it := None\<rparr>)"
      using assms(2,3,4) by (auto simp: request_txn_def lookupRequest_def line_addr_ok Let_def snoopDown_def
          finishRequest_def allocates_def)
    moreover have "interested (dir sf ?l) = {}" using None by (simp add: dir_def)
    ultimately show ?thesis using assms(1) by (simp add: selected_def)
  next
    case (Some item)
    let ?sf1 = "sf\<lparr>lookup_it := Some ?l, retryItem := item\<rparr>"
    let ?m = "((holder item OR requested item OR dest_mask sf pkt) AND NOT m) OR dest_mask sf pkt"
    have d: "dest_mask (sf\<lparr>lookup_it := Some ?l\<rparr>) pkt = dest_mask sf pkt" by (simp add: dest_mask_def)
    have "lookupRequest sf pkt p = snoopSelected ?sf1 ?m"
      using assms(2,3,4) Some by (auto simp: lookupRequest_def line_addr_ok Let_def allocates_def d)
    also have "\<dots> = Inr ((selected sf (bits_of ?m), lookupLatency sf), ?sf1)"
      using snoopSelected_ok [of ?sf1 ?m] sf_ok_ports [of "{}" ?sf1] assms(1) by (simp add: selected_def)
    finally have lk: "lookupRequest sf pkt p = Inr ((selected sf (bits_of ?m), lookupLatency sf), ?sf1)" .
    have sub: "interested (dir sf ?l) - bits_of m \<subseteq> bits_of ?m"
      using Some by (auto simp: dir_def bits_of_minus)
    have "sf_ok_but {?l} ?sf1" using assms(1) by (auto simp: sf_ok_but_def)
    then obtain sf' where f: "finishRequest retry (pkt_addr pkt) (pkt_secure pkt) ?sf1 = Inr sf'" "sf_ok sf'"
      "same_config ?sf1 sf'" "dir sf' = (if retry then (dir ?sf1)(?l := (bits_of (requested item), bits_of (holder item))) else dir ?sf1)"
      using finish_ok [of ?l ?sf1 item pkt retry] Some by auto
    have "dir sf' = dir sf" using f(4) Some by (auto simp: dir_def fun_eq_iff)
    moreover have "same_config sf sf'" using f(3) by (simp add: same_config_def)
    moreover have "set (selected sf (interested (dir sf ?l) - bits_of m)) \<subseteq> set (selected sf (bits_of ?m))"
      using sub by (auto simp: selected_def)
    ultimately show ?thesis using lk f(1,2) by (simp add: request_txn_def)
  qed
qed

section \<open>Snoops and responses refine the directory\<close>

definition snoopable :: "packet \<Rightarrow> bool" where
  "snoopable pkt \<longleftrightarrow> has_addr pkt \<and> testCmdAttrib (pkt_cmd pkt) IsRequest \<and>
     (cmd_isWriteback (pkt_cmd pkt) \<or> isUncacheable (pkt_req pkt) \<or>
      testCmdAttrib (pkt_cmd pkt) IsInvalidate = testCmdAttrib (pkt_cmd pkt) NeedsWritable \<or>
      isCacheMaintenance (pkt_req pkt))"

definition has_room :: "snoop_filter \<Rightarrow> addr \<Rightarrow> bool" where
  "has_room sf l \<longleftrightarrow> map_of (cachedLocations sf) l \<noteq> None \<or> length (cachedLocations sf) < maxEntryCount sf"

lemma snoop_refines:
  assumes "sf_ok sf" "snoopable pkt" "has_room sf (line_of sf pkt)"
  shows "\<exists>sf'. lookupSnoop sf pkt =
      Inr ((selected sf (interested (dir sf (line_of sf pkt))), lookupLatency sf), sf') \<and> sf_ok sf' \<and> same_config sf sf' \<and>
    dir sf' = (if testCmdAttrib (pkt_cmd pkt) IsInvalidate \<and> fst (dir sf (line_of sf pkt)) = {}
               then (dir sf)(line_of sf pkt := ({}, {})) else dir sf)"
proof (cases "map_of (cachedLocations sf) (line_of sf pkt)")
  case None
  then have "dir sf (line_of sf pkt) = ({}, {})" by (simp add: dir_def)
  moreover from this have "(dir sf)(line_of sf pkt := ({}, {})) = dir sf" by (metis fun_upd_triv)
  ultimately show ?thesis using None assms
    by (simp add: lookupSnoop_def snoopable_def line_addr_ok has_room_def snoopDown_def selected_def)
next
  case (Some item)
  let ?l = "line_of sf pkt"
  have d: "dir sf ?l = (bits_of (requested item), bits_of (holder item))" using Some by (simp add: dir_def)
  show ?thesis
  proof (cases "testCmdAttrib (pkt_cmd pkt) IsInvalidate \<and> requested item = 0")
    case True
    obtain sf' where e: "eraseIfNullEntry ?l (put_item ?l (item\<lparr>holder := 0\<rparr>) sf) = Inr sf'" "sf_ok sf'"
      "dir sf' = (dir sf)(?l := ({}, {}))" "same_config sf sf'"
      using put_erase_ok [OF assms(1), of ?l "item\<lparr>holder := 0\<rparr>"] True by auto
    have "lookupSnoop sf pkt = snoopSelected sf' (holder item OR requested item)"
      using assms(2) Some True e(1) by (simp add: lookupSnoop_def snoopable_def line_addr_ok)
    also have "\<dots> = Inr ((selected sf (interested (dir sf ?l)), lookupLatency sf), sf')"
      unfolding snoopSelected_ok [OF sf_ok_ports [OF e(2)]] selected_same [OF e(4)]
      using e(4) d by (simp add: same_config_def Un_commute)
    finally show ?thesis using e(2,3,4) True d by simp
  next
    case False
    have "lookupSnoop sf pkt = snoopSelected sf (holder item OR requested item)"
      using assms(2) Some False by (auto simp: lookupSnoop_def snoopable_def line_addr_ok Let_def)
    also have "\<dots> = Inr ((selected sf (interested (dir sf ?l)), lookupLatency sf), sf)"
      unfolding snoopSelected_ok [OF sf_ok_ports [OF assms(1)]] using d by (simp add: Un_commute)
    finally show ?thesis using assms(1) False d by (auto simp: bits_of_eq_0)
  qed
qed

lemma response_not_writeback: "testCmdAttrib c IsResponse \<Longrightarrow> \<not> cmd_isWriteback c"
  by (cases c) (simp_all add: cmd_isWriteback_def cmd_table)

lemma fst_snd_dir:
  "map_of (cachedLocations sf) l = Some item \<Longrightarrow> dir sf l = (bits_of (requested item), bits_of (holder item))"
  by (simp add: dir_def)

lemma snoop_response_refines:
  assumes "sf_ok sf" "j < length (cpuSidePorts sf)" "k < length (cpuSidePorts sf)" "has_addr pkt"
    "testCmdAttrib (pkt_cmd pkt) IsResponse" "cacheResponding pkt" "\<not> isUncacheable (pkt_req pkt)"
    "j \<in> snd (dir sf (line_of sf pkt))" "k \<in> fst (dir sf (line_of sf pkt))"
  shows "\<exists>sf'. updateSnoopResponse sf pkt (cpuSidePorts sf ! j) (cpuSidePorts sf ! k) = Inr sf' \<and> sf_ok sf' \<and>
    same_config sf sf' \<and> dir sf' = (dir sf)(line_of sf pkt :=
      (fst (dir sf (line_of sf pkt)) - {k}, insert k (if hasSharers pkt then snd (dir sf (line_of sf pkt)) else {})))"
proof -
  let ?l = "line_of sf pkt"
  obtain item where i: "map_of (cachedLocations sf) ?l = Some item"
    using assms(8) by (auto simp: dir_def split: option.splits)
  let ?item = "(if \<not> hasSharers pkt then item\<lparr>holder := 0\<rparr> else item)"
  let ?new = "?item\<lparr>holder := holder ?item OR mask_bit (int k), requested := requested ?item AND NOT (mask_bit (int k))\<rparr>"
  have pj: "portToMask sf (cpuSidePorts sf ! j) = Inr (mask_bit (int j))" "j < 256"
    using portToMask_port [OF sf_ok_ports [OF assms(1)] assms(2)] by auto
  have pk: "portToMask sf (cpuSidePorts sf ! k) = Inr (mask_bit (int k))" "k < 256" "port_snooping (cpuSidePorts sf ! k)"
    using portToMask_port [OF sf_ok_ports [OF assms(1)] assms(3)] assms(1,3) by (auto simp: sf_ok_but_def ports_ok_def registered_def)
  have any: "requested ?new OR holder ?new \<noteq> 0"
    using bits_of_port [OF pk(2)] by (subst bits_of_eq_0 [symmetric]) simp
  have "updateSnoopResponse sf pkt (cpuSidePorts sf ! j) (cpuSidePorts sf ! k) = Inr (put_item ?l ?new sf)"
    using assms(4-9) i any pj pk fst_snd_dir [OF i] response_not_writeback
    by (auto simp: updateSnoopResponse_def line_addr_ok and_port_eq_0 Let_def split: if_splits)
  moreover have "sf_ok (put_item ?l ?new sf)" "same_config sf (put_item ?l ?new sf)"
    "dir (put_item ?l ?new sf) = (dir sf)(?l := (bits_of (requested ?new), bits_of (holder ?new)))"
    using put_item_ok [OF assms(1), of ?l ?new] any by (auto simp: not_null_def)
  ultimately show ?thesis using fst_snd_dir [OF i] pk(2)
    by (intro exI [of _ "put_item ?l ?new sf"]) (auto simp: mask_sets)
qed

lemma snoop_forward_refines:
  assumes "sf_ok sf" "has_addr pkt" "testCmdAttrib (pkt_cmd pkt) IsResponse" "cacheResponding pkt"
  shows "\<exists>sf'. updateSnoopForward sf pkt = Inr sf' \<and> sf_ok sf' \<and> same_config sf sf' \<and>
    dir sf' = (if hasSharers pkt then dir sf else (dir sf)(line_of sf pkt := (fst (dir sf (line_of sf pkt)), {})))"
proof (cases "map_of (cachedLocations sf) (line_of sf pkt)")
  case None
  then have "dir sf (line_of sf pkt) = ({}, {})" by (simp add: dir_def)
  then have "(dir sf)(line_of sf pkt := (fst (dir sf (line_of sf pkt)), {})) = dir sf" by (metis fst_conv fun_upd_triv)
  then show ?thesis using None assms by (simp add: updateSnoopForward_def line_addr_ok)
next
  case (Some item)
  then show ?thesis
    using put_erase_ok [OF assms(1), of "line_of sf pkt" "item\<lparr>holder := 0\<rparr>"] assms fst_snd_dir [OF Some]
    by (auto simp: updateSnoopForward_def line_addr_ok)
qed

definition after_response :: "packet \<Rightarrow> nat \<Rightarrow> nat set \<Rightarrow> nat set" where
  "after_response pkt k H = (if isCacheMaintenance (pkt_req pkt)
     then (if testCmdAttrib (pkt_cmd pkt) IsInvalidate then H - {k} else H) else insert k H)"

lemma response_refines:
  assumes "sf_ok sf" "k < length (cpuSidePorts sf)" "has_addr pkt" "testCmdAttrib (pkt_cmd pkt) IsResponse"
    "\<not> isUncacheable (pkt_req pkt)" "k \<in> fst (dir sf (line_of sf pkt))"
  shows "\<exists>sf'. updateResponse sf pkt (cpuSidePorts sf ! k) = Inr sf' \<and> sf_ok sf' \<and> same_config sf sf' \<and>
    dir sf' = (dir sf)(line_of sf pkt := (fst (dir sf (line_of sf pkt)) - {k},
      after_response pkt k (snd (dir sf (line_of sf pkt)))))"
proof -
  let ?l = "line_of sf pkt"
  obtain item where i: "map_of (cachedLocations sf) ?l = Some item"
    using assms(6) by (auto simp: dir_def split: option.splits)
  let ?m = "mask_bit (int k)"
  let ?item = "item\<lparr>requested := requested item AND NOT ?m\<rparr>"
  have pk: "portToMask sf (cpuSidePorts sf ! k) = Inr ?m" "k < 256" "port_snooping (cpuSidePorts sf ! k)"
    using portToMask_port [OF sf_ok_ports [OF assms(1)] assms(2)] assms(1,2) by (auto simp: sf_ok_but_def ports_ok_def registered_def)
  note d = fst_snd_dir [OF i]
  show ?thesis
  proof (cases "isCacheMaintenance (pkt_req pkt)")
    case True
    let ?new = "if testCmdAttrib (pkt_cmd pkt) IsInvalidate then ?item\<lparr>holder := holder ?item AND NOT ?m\<rparr> else ?item"
    have "updateResponse sf pkt (cpuSidePorts sf ! k) = eraseIfNullEntry ?l (put_item ?l ?new sf)"
      using assms(3-6) i pk d True by (simp add: updateResponse_def line_addr_ok and_port_eq_0 Let_def)
    then show ?thesis using put_erase_ok [OF assms(1), of ?l ?new] True d pk(2)
      by (auto simp: after_response_def mask_sets split: if_splits)
  next
    case False
    let ?new = "?item\<lparr>holder := holder ?item OR ?m\<rparr>"
    have any: "requested ?new OR holder ?new \<noteq> 0"
      using bits_of_port [OF pk(2)] by (subst bits_of_eq_0 [symmetric]) simp
    have "updateResponse sf pkt (cpuSidePorts sf ! k) = Inr (put_item ?l ?new sf)"
      using assms(3-6) i pk d False any
      by (simp add: updateResponse_def line_addr_ok and_port_eq_0 Let_def or.commute)
    then show ?thesis using put_item_ok [OF assms(1), of ?l ?new] any False d pk(2)
      by (auto simp: after_response_def mask_sets not_null_def)
  qed
qed

section \<open>The filter and the caches above it\<close>

text \<open>
  \<open>held l\<close> are the ports whose caches hold the line \<open>l\<close>, \<open>pend l\<close> the ports that wait for
  a response for it. The steps are the events of the crossbar; their guards are what the caches
  guarantee: one request per line and port at a time, evictions and cache-to-cache responses
  only from a cache that has the line, responses only to a request. An invalidating snoop
  takes the line away from exactly the caches the filter forwards it to, and a cache may drop
  a line silently.
\<close>

record coherent =
  flt :: snoop_filter
  held :: "addr \<Rightarrow> nat set"
  pend :: "addr \<Rightarrow> nat set"

definition ports :: "coherent \<Rightarrow> response_port list" where
  "ports s = cpuSidePorts (flt s)"

definition line :: "coherent \<Rightarrow> packet \<Rightarrow> addr" where
  "line s pkt = line_of (flt s) pkt"

definition is_request :: "coherent \<Rightarrow> nat \<Rightarrow> packet \<Rightarrow> bool" where
  "is_request s k pkt \<longleftrightarrow> k < length (ports s) \<and> has_addr pkt \<and> allocates pkt \<and>
     (if testCmdAttrib (pkt_cmd pkt) NeedsResponse
      then (if cacheResponding pkt then k \<in> held s (line s pkt) else k \<notin> pend s (line s pkt))
      else testCmdAttrib (pkt_cmd pkt) IsEviction \<and> k \<in> held s (line s pkt))"

definition is_answer :: "coherent \<Rightarrow> nat \<Rightarrow> packet \<Rightarrow> bool" where
  "is_answer s k pkt \<longleftrightarrow> k < length (ports s) \<and> has_addr pkt \<and> testCmdAttrib (pkt_cmd pkt) IsResponse \<and>
     \<not> isUncacheable (pkt_req pkt) \<and> k \<in> pend s (line s pkt)"

definition after_request :: "coherent \<Rightarrow> nat \<Rightarrow> packet \<Rightarrow> bool \<Rightarrow> snoop_filter \<Rightarrow> coherent" where
  "after_request s k pkt retry f' =
     (let s = s\<lparr>flt := f'\<rparr>; l = line_of f' pkt in
      if retry then s
      else if testCmdAttrib (pkt_cmd pkt) NeedsResponse
      then (if cacheResponding pkt then s else s\<lparr>pend := (pend s)(l := insert k (pend s l))\<rparr>)
      else if isBlockCached pkt then s else s\<lparr>held := (held s)(l := held s l - {k})\<rparr>)"

inductive coh_step :: "coherent \<Rightarrow> coherent \<Rightarrow> bool" where
  request: "is_request s k pkt \<Longrightarrow> request_txn (flt s) pkt (ports s ! k) retry = Inr (ps, f') \<Longrightarrow>
    coh_step s (after_request s k pkt retry f')" |
  other_request: "has_addr pkt \<Longrightarrow> \<not> (allocates pkt \<and> port_snooping p) \<Longrightarrow> portToMask (flt s) p = Inr m \<Longrightarrow>
    request_txn (flt s) pkt p retry = Inr (ps, f') \<Longrightarrow> coh_step s (s\<lparr>flt := f'\<rparr>)" |
  snoop: "snoopable pkt \<Longrightarrow> lookupSnoop (flt s) pkt = Inr ((ps, lat), f') \<Longrightarrow>
    coh_step s (s\<lparr>flt := f', held := (if testCmdAttrib (pkt_cmd pkt) IsInvalidate
      then (held s)(line s pkt := {k \<in> held s (line s pkt). ports s ! k \<notin> set ps}) else held s)\<rparr>)" |
  cache_response: "is_answer s k pkt \<Longrightarrow> cacheResponding pkt \<Longrightarrow> j \<in> held s (line s pkt) \<Longrightarrow>
    updateSnoopResponse (flt s) pkt (ports s ! j) (ports s ! k) = Inr f' \<Longrightarrow>
    coh_step s (s\<lparr>flt := f', pend := (pend s)(line s pkt := pend s (line s pkt) - {k}),
      held := (held s)(line s pkt := insert k (if hasSharers pkt then held s (line s pkt) else {}))\<rparr>)" |
  forward: "has_addr pkt \<Longrightarrow> testCmdAttrib (pkt_cmd pkt) IsResponse \<Longrightarrow> cacheResponding pkt \<Longrightarrow>
    updateSnoopForward (flt s) pkt = Inr f' \<Longrightarrow>
    coh_step s (s\<lparr>flt := f', held := (if hasSharers pkt then held s else (held s)(line s pkt := {}))\<rparr>)" |
  response: "is_answer s k pkt \<Longrightarrow> updateResponse (flt s) pkt (ports s ! k) = Inr f' \<Longrightarrow>
    coh_step s (s\<lparr>flt := f', pend := (pend s)(line s pkt := pend s (line s pkt) - {k}),
      held := (held s)(line s pkt := after_response pkt k (held s (line s pkt)))\<rparr>)" |
  drop: "coh_step s (s\<lparr>held := (held s)(l := held s l - {k})\<rparr>)"

definition coh_init :: "coherent \<Rightarrow> bool" where
  "coh_init s \<longleftrightarrow> ports_ok (flt s) \<and> cachedLocations (flt s) = [] \<and> held s = (\<lambda>l. {}) \<and> pend s = (\<lambda>l. {})"

inductive coh_reach :: "coherent \<Rightarrow> coherent \<Rightarrow> bool" where
  start: "coh_init s \<Longrightarrow> coh_reach s s" |
  step: "coh_reach s t \<Longrightarrow> coh_step t u \<Longrightarrow> coh_reach s u"

definition coh_inv :: "coherent \<Rightarrow> bool" where
  "coh_inv s \<longleftrightarrow> sf_ok (flt s) \<and>
     (\<forall>l. pend s l = fst (dir (flt s) l) \<and> held s l \<subseteq> snd (dir (flt s) l) \<and> held s l \<subseteq> {..<length (ports s)})"

lemma coh_invD: "coh_inv s \<Longrightarrow> sf_ok (flt s)" "coh_inv s \<Longrightarrow> pend s l = fst (dir (flt s) l)"
  "coh_inv s \<Longrightarrow> held s l \<subseteq> snd (dir (flt s) l)" "coh_inv s \<Longrightarrow> held s l \<subseteq> {..<length (ports s)}"
  by (simp_all add: coh_inv_def)

lemma coh_inv_same:
  "coh_inv s \<Longrightarrow> sf_ok f' \<Longrightarrow> same_config (flt s) f' \<Longrightarrow> dir f' = dir (flt s) \<Longrightarrow> coh_inv (s\<lparr>flt := f'\<rparr>)"
  by (simp add: coh_inv_def ports_def same_config_def)

text \<open>A step that changes the directory at one line keeps the invariant if it does so in step
  with the caches.\<close>

lemma coh_inv_line:
  assumes "coh_inv s" "sf_ok f'" "same_config (flt s) f'" "dir f' = (dir (flt s))(l := (P, H))"
    "P = P'" "A \<subseteq> H" "A \<subseteq> {..<length (ports s)}"
  shows "coh_inv (s\<lparr>flt := f', pend := (pend s)(l := P'), held := (held s)(l := A)\<rparr>)"
  using assms by (simp add: coh_inv_def ports_def same_config_def)

lemma request_legal_if:
  assumes "coh_inv s" "is_request s k pkt"
  shows "request_legal pkt k (dir (flt s) (line_of (flt s) pkt))"
  using assms coh_invD(2,3) [OF assms(1), of "line_of (flt s) pkt"]
  by (cases "dir (flt s) (line_of (flt s) pkt)") (auto simp: is_request_def request_legal.simps line_def split: if_splits)

lemma request_ok:
  assumes "coh_inv s" "is_request s k pkt"
  shows "\<exists>f'. request_txn (flt s) pkt (ports s ! k) retry =
      Inr (selected (flt s) (routed (flt s) pkt {k} (interested (dir (flt s) (line s pkt)))), f') \<and>
    coh_inv (after_request s k pkt retry f')"
proof -
  let ?l = "line_of (flt s) pkt"
  have k: "k < length (cpuSidePorts (flt s))" "has_addr pkt" "allocates pkt"
    using assms(2) by (auto simp: is_request_def ports_def)
  obtain f' where f: "request_txn (flt s) pkt (ports s ! k) retry =
      Inr (selected (flt s) (routed (flt s) pkt {k} (interested (dir (flt s) ?l))), f')" "sf_ok f'" "same_config (flt s) f'"
    "dir f' = (if retry then dir (flt s) else (dir (flt s))(?l := spec_request pkt k (dir (flt s) ?l)))"
    using request_refines [OF coh_invD(1) [OF assms(1)] k request_legal_if [OF assms], of retry]
    by (auto simp: ports_def)
  obtain R H where d: "dir (flt s) ?l = (R, H)" by fastforce
  have l: "line_of f' = line_of (flt s)" using line_of_same [OF f(3)] .
  note inv = coh_invD(2-4) [OF assms(1), of ?l, unfolded d fst_conv snd_conv]
  have "coh_inv (after_request s k pkt retry f')"
  proof (cases retry)
    case True
    then show ?thesis using coh_inv_same [OF assms(1) f(2,3)] f(4) by (simp add: after_request_def Let_def)
  next
    case False
    then have d': "dir f' = (dir (flt s))(?l := spec_request pkt k (R, H))" using f(4) d by simp
    have gone: "held s ?l \<inter> (H - {k}) = held s ?l - {k}" using inv(2) by blast
    have e: "after_request s k pkt retry f' = s\<lparr>flt := f', pend := (pend s)(?l := fst (spec_request pkt k (R, H))),
        held := (held s)(?l := held s ?l \<inter> snd (spec_request pkt k (R, H)))\<rparr>"
      using False inv l gone by (auto simp: after_request_def Let_def spec_request.simps Int_absorb2)
    show ?thesis unfolding e
      using inv(3) by (intro coh_inv_line [OF assms(1) f(2,3), where H = "snd (spec_request pkt k (R, H))"]) (auto simp: d')
  qed
  then show ?thesis using f(1) by (auto simp: line_def)
qed

lemma snoop_ok:
  assumes "coh_inv s" "snoopable pkt" "has_room (flt s) (line s pkt)"
  shows "\<exists>f'. lookupSnoop (flt s) pkt =
      Inr ((selected (flt s) (interested (dir (flt s) (line s pkt))), lookupLatency (flt s)), f') \<and>
    sf_ok f' \<and> same_config (flt s) f' \<and>
    dir f' = (if testCmdAttrib (pkt_cmd pkt) IsInvalidate \<and> fst (dir (flt s) (line s pkt)) = {}
               then (dir (flt s))(line s pkt := ({}, {})) else dir (flt s))"
  using assms(3) unfolding line_def by (rule snoop_refines [OF coh_invD(1) [OF assms(1)] assms(2)])

lemma held_selected:
  assumes "coh_inv s" "k \<in> held s l"
  shows "ports s ! k \<in> set (selected (flt s) (interested (dir (flt s) l)))"
  using assms coh_invD(3,4) [OF assms(1), of l]
  by (cases "dir (flt s) l") (auto simp: ports_def intro!: in_selected)

lemma coh_inv_drop: "coh_inv s \<Longrightarrow> A \<subseteq> held s l \<Longrightarrow> coh_inv (s\<lparr>held := (held s)(l := A)\<rparr>)"
  by (auto simp: coh_inv_def ports_def)

lemma snoop_inv:
  assumes "coh_inv s" "snoopable pkt" "lookupSnoop (flt s) pkt = Inr ((ps, lat), f')"
  shows "coh_inv (s\<lparr>flt := f', held := (if testCmdAttrib (pkt_cmd pkt) IsInvalidate
      then (held s)(line s pkt := {k \<in> held s (line s pkt). ports s ! k \<notin> set ps}) else held s)\<rparr>)"
proof -
  let ?l = "line s pkt"
  have room: "has_room (flt s) ?l"
    using assms(2,3) by (auto simp: lookupSnoop_def snoopable_def has_room_def line_def line_addr_ok split: option.splits)
  have f: "ps = selected (flt s) (interested (dir (flt s) ?l))" "sf_ok f'" "same_config (flt s) f'"
    "dir f' = (if testCmdAttrib (pkt_cmd pkt) IsInvalidate \<and> fst (dir (flt s) ?l) = {}
               then (dir (flt s))(?l := ({}, {})) else dir (flt s))"
    using snoop_ok [OF assms(1,2) room] assms(3) by auto
  have none: "{k \<in> held s ?l. ports s ! k \<notin> set ps} = {}" using held_selected [OF assms(1)] f(1) by blast
  show ?thesis
  proof (cases "testCmdAttrib (pkt_cmd pkt) IsInvalidate")
    case False
    then show ?thesis using coh_inv_same [OF assms(1) f(2,3)] f(4) by simp
  next
    case inv: True
    show ?thesis
    proof (cases "fst (dir (flt s) ?l) = {}")
      case True
      have p: "(pend s)(?l := {}) = pend s" using True coh_invD(2) [OF assms(1), of ?l] by (metis fun_upd_triv)
      have "coh_inv (s\<lparr>flt := f', pend := (pend s)(?l := {}), held := (held s)(?l := {})\<rparr>)"
        using f(4) inv True by (intro coh_inv_line [OF assms(1) f(2,3)]) auto
      then show ?thesis unfolding none using inv p by simp
    next
      case False
      then have "coh_inv (s\<lparr>flt := f'\<rparr>)" using coh_inv_same [OF assms(1) f(2,3)] f(4) by simp
      from coh_inv_drop [OF this, of "{}" ?l] show ?thesis unfolding none using inv by simp
    qed
  qed
qed

lemma cache_response_ok:
  assumes "coh_inv s" "is_answer s k pkt" "cacheResponding pkt" "j \<in> held s (line s pkt)"
  shows "\<exists>f'. updateSnoopResponse (flt s) pkt (ports s ! j) (ports s ! k) = Inr f' \<and>
    coh_inv (s\<lparr>flt := f', pend := (pend s)(line s pkt := pend s (line s pkt) - {k}),
      held := (held s)(line s pkt := insert k (if hasSharers pkt then held s (line s pkt) else {}))\<rparr>)"
proof -
  let ?l = "line s pkt"
  note inv = coh_invD(2-4) [OF assms(1), of ?l]
  have k: "j < length (cpuSidePorts (flt s))" "k < length (cpuSidePorts (flt s))" "has_addr pkt"
    "testCmdAttrib (pkt_cmd pkt) IsResponse" "\<not> isUncacheable (pkt_req pkt)"
    "j \<in> snd (dir (flt s) ?l)" "k \<in> fst (dir (flt s) ?l)"
    using assms(2,4) inv by (auto simp: is_answer_def ports_def)
  obtain f' where f: "updateSnoopResponse (flt s) pkt (ports s ! j) (ports s ! k) = Inr f'" "sf_ok f'" "same_config (flt s) f'"
    "dir f' = (dir (flt s))(?l := (fst (dir (flt s) ?l) - {k}, insert k (if hasSharers pkt then snd (dir (flt s) ?l) else {})))"
    using snoop_response_refines [OF coh_invD(1) [OF assms(1)] k(1,2,3,4) assms(3) k(5)] k(6,7)
    by (auto simp: ports_def line_def)
  have "coh_inv (s\<lparr>flt := f', pend := (pend s)(?l := pend s ?l - {k}),
      held := (held s)(?l := insert k (if hasSharers pkt then held s ?l else {}))\<rparr>)"
    using inv k(2) by (intro coh_inv_line [OF assms(1) f(2,3,4)]) (auto simp: ports_def)
  then show ?thesis using f(1) by blast
qed

lemma response_ok:
  assumes "coh_inv s" "is_answer s k pkt"
  shows "\<exists>f'. updateResponse (flt s) pkt (ports s ! k) = Inr f' \<and>
    coh_inv (s\<lparr>flt := f', pend := (pend s)(line s pkt := pend s (line s pkt) - {k}),
      held := (held s)(line s pkt := after_response pkt k (held s (line s pkt)))\<rparr>)"
proof -
  let ?l = "line s pkt"
  note inv = coh_invD(2-4) [OF assms(1), of ?l]
  have k: "k < length (cpuSidePorts (flt s))" "has_addr pkt" "testCmdAttrib (pkt_cmd pkt) IsResponse"
    "\<not> isUncacheable (pkt_req pkt)" "k \<in> fst (dir (flt s) ?l)"
    using assms(2) inv by (auto simp: is_answer_def ports_def)
  obtain f' where f: "updateResponse (flt s) pkt (ports s ! k) = Inr f'" "sf_ok f'" "same_config (flt s) f'"
    "dir f' = (dir (flt s))(?l := (fst (dir (flt s) ?l) - {k}, after_response pkt k (snd (dir (flt s) ?l))))"
    using response_refines [OF coh_invD(1) [OF assms(1)] k(1,2,3,4)] k(5) by (auto simp: ports_def line_def)
  have "coh_inv (s\<lparr>flt := f', pend := (pend s)(?l := pend s ?l - {k}),
      held := (held s)(?l := after_response pkt k (held s ?l))\<rparr>)"
    using inv k(1) by (intro coh_inv_line [OF assms(1) f(2,3,4)]) (auto simp: ports_def after_response_def)
  then show ?thesis using f(1) by blast
qed

lemma forward_inv:
  assumes "coh_inv s" "has_addr pkt" "testCmdAttrib (pkt_cmd pkt) IsResponse" "cacheResponding pkt"
    "updateSnoopForward (flt s) pkt = Inr f'"
  shows "coh_inv (s\<lparr>flt := f', held := (if hasSharers pkt then held s else (held s)(line s pkt := {}))\<rparr>)"
proof -
  let ?l = "line s pkt"
  have f: "sf_ok f'" "same_config (flt s) f'"
    "dir f' = (if hasSharers pkt then dir (flt s) else (dir (flt s))(?l := (fst (dir (flt s) ?l), {})))"
    using snoop_forward_refines [OF coh_invD(1) [OF assms(1)] assms(2,3,4)] assms(5) by (auto simp: line_def)
  show ?thesis
  proof (cases "hasSharers pkt")
    case True
    then show ?thesis using coh_inv_same [OF assms(1) f(1,2)] f(3) by simp
  next
    case False
    have "(pend s)(?l := fst (dir (flt s) ?l)) = pend s" using coh_invD(2) [OF assms(1), of ?l] by (metis fun_upd_triv)
    moreover have "coh_inv (s\<lparr>flt := f', pend := (pend s)(?l := fst (dir (flt s) ?l)), held := (held s)(?l := {})\<rparr>)"
      using f(3) False by (intro coh_inv_line [OF assms(1) f(1,2)]) auto
    ultimately show ?thesis using False by simp
  qed
qed

lemma coh_step_inv:
  assumes "coh_step s t" "coh_inv s"
  shows "coh_inv t"
  using assms
proof (cases rule: coh_step.cases)
  case (request k pkt retry ps f')
  then show ?thesis using request_ok [OF assms(2), of k pkt retry] by auto
next
  case (other_request pkt p m retry ps f')
  then show ?thesis
    using request_not_allocating [OF coh_invD(1) [OF assms(2)] other_request(2,4,3), of retry] coh_inv_same [OF assms(2)]
    by auto
next
  case (snoop pkt ps lat f')
  then show ?thesis using snoop_inv [OF assms(2)] by simp
next
  case (cache_response k pkt j f')
  then show ?thesis using cache_response_ok [OF assms(2)] by fastforce
next
  case (forward pkt f')
  then show ?thesis using forward_inv [OF assms(2)] by simp
next
  case (response k pkt f')
  then show ?thesis using response_ok [OF assms(2)] by fastforce
next
  case (drop l k)
  then show ?thesis using coh_inv_drop [OF assms(2)] by auto
qed

lemma coh_reach_inv: "coh_reach s t \<Longrightarrow> coh_inv t"
proof (induction rule: coh_reach.induct)
  case (start s)
  then show ?case by (auto simp: coh_init_def coh_inv_def sf_ok_but_def dir_def)
next
  case (step s t u)
  then show ?case using coh_step_inv by blast
qed

text \<open>C1: no false negatives. In every reachable state of the filter and the caches above it, a
  request or snoop for a line is answered, without a panic, by a list of ports that contains every
  other port that holds the line or waits for it; a response is accepted; and an invalidating
  snoop that is forwarded to that list leaves no copy of the line.\<close>

theorem snoop_filter_covers_holders:
  assumes "coh_reach s0 s"
  shows "(is_request s k pkt \<longrightarrow>
      (\<exists>ps f'. request_txn (flt s) pkt (ports s ! k) retry = Inr (ps, f') \<and>
         (\<forall>j. j \<noteq> k \<longrightarrow> j < length (ports s) \<longrightarrow> j \<in> held s (line s pkt) \<or> j \<in> pend s (line s pkt) \<longrightarrow>
            ports s ! j \<in> set ps))) \<and>
    (snoopable pkt \<and> has_room (flt s) (line s pkt) \<longrightarrow>
      (\<exists>ps lat f'. lookupSnoop (flt s) pkt = Inr ((ps, lat), f') \<and>
         (\<forall>j. j < length (ports s) \<longrightarrow> j \<in> held s (line s pkt) \<or> j \<in> pend s (line s pkt) \<longrightarrow> ports s ! j \<in> set ps) \<and>
         {j \<in> held s (line s pkt). ports s ! j \<notin> set ps} = {})) \<and>
    (is_answer s k pkt \<longrightarrow> (\<exists>f'. updateResponse (flt s) pkt (ports s ! k) = Inr f') \<and>
      (cacheResponding pkt \<and> i \<in> held s (line s pkt) \<longrightarrow>
        (\<exists>f'. updateSnoopResponse (flt s) pkt (ports s ! i) (ports s ! k) = Inr f')))"
proof -
  have inv: "coh_inv s" using assms by (rule coh_reach_inv)
  let ?l = "line s pkt"
  have known: "j \<in> interested (dir (flt s) ?l)" if "j \<in> held s ?l \<or> j \<in> pend s ?l" for j
    using that coh_invD(2,3) [OF inv, of ?l] by (cases "dir (flt s) ?l") auto
  have "\<exists>ps f'. request_txn (flt s) pkt (ports s ! k) retry = Inr (ps, f') \<and>
         (\<forall>j. j \<noteq> k \<longrightarrow> j < length (ports s) \<longrightarrow> j \<in> held s ?l \<or> j \<in> pend s ?l \<longrightarrow> ports s ! j \<in> set ps)"
    if "is_request s k pkt"
    using request_ok [OF inv that, of retry] known by (fastforce simp: ports_def routed_def intro!: in_selected)
  moreover have "\<exists>ps lat f'. lookupSnoop (flt s) pkt = Inr ((ps, lat), f') \<and>
         (\<forall>j. j < length (ports s) \<longrightarrow> j \<in> held s ?l \<or> j \<in> pend s ?l \<longrightarrow> ports s ! j \<in> set ps) \<and>
         {j \<in> held s ?l. ports s ! j \<notin> set ps} = {}" if snp: "snoopable pkt" and room: "has_room (flt s) ?l"
  proof -
    obtain f' where f: "lookupSnoop (flt s) pkt =
        Inr ((selected (flt s) (interested (dir (flt s) ?l)), lookupLatency (flt s)), f')"
      using snoop_ok [OF inv snp room] by blast
    show ?thesis
      using f known held_selected [OF inv, of _ ?l] 
      by (intro exI conjI) (auto simp: ports_def intro: in_selected)
  qed
  ultimately show ?thesis using response_ok [OF inv, of k pkt] cache_response_ok [OF inv, of k pkt i] by blast
qed

section \<open>Registration of the ports\<close>

lemma register_ports_ok:
  assumes "registered sf" "n = int (length (cpuSidePorts sf))" "distinct (map port_id (cpuSidePorts sf @ ps))"
    "\<forall>p \<in> set ps. 0 \<le> port_id p \<and> nat (port_id p) < length (localResponsePortIds sf)"
  shows "\<exists>sf'. register_ports ps n sf = Inr (int (length (cpuSidePorts sf')), sf') \<and> registered sf' \<and>
    cpuSidePorts sf' = cpuSidePorts sf @ filter port_snooping ps \<and> cachedLocations sf' = cachedLocations sf"
  using assms
proof (induction ps arbitrary: n sf)
  case (Cons p ps)
  show ?case
  proof (cases "port_snooping p")
    case True
    let ?sf = "sf\<lparr>cpuSidePorts := cpuSidePorts sf @ [p],
      localResponsePortIds := (localResponsePortIds sf)[nat (port_id p) := n]\<rparr>"
    have other: "nat (port_id (cpuSidePorts sf ! k)) \<noteq> nat (port_id p)" if "k < length (cpuSidePorts sf)" for k
    proof -
      have "cpuSidePorts sf ! k \<in> set (cpuSidePorts sf)" using that by simp
      then have "port_id (cpuSidePorts sf ! k) \<noteq> port_id p" using Cons.prems(3) by (auto simp: image_iff)
      moreover have "0 \<le> port_id (cpuSidePorts sf ! k)" using Cons.prems(1) that by (simp add: registered_def)
      ultimately show ?thesis using Cons.prems(4) by auto
    qed
    have "registered ?sf"
      using Cons.prems(1,2,4) True other by (auto simp: registered_def nth_append less_Suc_eq nth_list_update_neq [OF not_sym])
    then obtain sf' where "register_ports ps (n + 1) ?sf = Inr (int (length (cpuSidePorts sf')), sf')" "registered sf'"
      "cpuSidePorts sf' = cpuSidePorts ?sf @ filter port_snooping ps" "cachedLocations sf' = cachedLocations ?sf"
      using Cons.IH [of ?sf "n + 1"] Cons.prems by auto
    then show ?thesis using True Cons.prems(4) by auto
  next
    case False
    then show ?thesis using Cons.IH [OF Cons.prems(1,2)] Cons.prems by auto
  qed
qed simp

text \<open>the constructor and \<^verbatim>\<open>setCPUSidePorts\<close> establish the state from which the filter is
  correct: for ports numbered from zero without gaps or repetitions the registration succeeds
  exactly when at most 256 of them snoop, and then every snooping port has its own bit.\<close>

lemma setCPUSidePorts_registers:
  assumes "distinct (map port_id ps)" "\<forall>p \<in> set ps. 0 \<le> port_id p \<and> nat (port_id p) < length ps"
  defines "n \<equiv> length (filter port_snooping ps)"
  shows "if n \<le> 256
    then \<exists>sf. setCPUSidePorts ps (SnoopFilter l3x line_size latency cap) = Inr sf \<and>
      cpuSidePorts sf = filter port_snooping ps \<and>
      coh_init \<lparr>flt = sf, held = \<lambda>l. {}, pend = \<lambda>l. {}\<rparr> \<and>
      (\<forall>k < n. portToMask sf (cpuSidePorts sf ! k) = Inr (push_bit k 1))
    else setCPUSidePorts ps (SnoopFilter l3x line_size latency cap) = Inl Fatal_Error"
proof -
  let ?sf0 = "(SnoopFilter l3x line_size latency cap)\<lparr>localResponsePortIds :=
    resize (localResponsePortIds (SnoopFilter l3x line_size latency cap)) (length ps) (-1)\<rparr>"
  have "registered ?sf0" "cpuSidePorts ?sf0 = []" "length (localResponsePortIds ?sf0) = length ps" "cachedLocations ?sf0 = []"
    by (simp_all add: registered_def SnoopFilter_def resize_def)
  then obtain sf where sf: "register_ports ps 0 ?sf0 = Inr (int (length (cpuSidePorts sf)), sf)" "registered sf"
    "cpuSidePorts sf = filter port_snooping ps" "cachedLocations sf = []"
    using register_ports_ok [of ?sf0 0 ps] assms(1,2) by auto
  have set: "setCPUSidePorts ps (SnoopFilter l3x line_size latency cap) =
      guardR (\<not> int (length (cpuSidePorts sf)) > 256) Fatal_Error (Inr sf)"
    using sf(1) by (simp add: setCPUSidePorts_def)
  show ?thesis
  proof (cases "n \<le> 256")
    case True
    then have ok: "ports_ok sf" using sf(2,3) by (simp add: ports_ok_def n_def)
    have "portToMask sf (cpuSidePorts sf ! k) = Inr (push_bit k 1)" if "k < n" for k
      using portToMask_port [OF ok, of k] that sf(3) by (simp add: n_def mask_bit_def)
    then show ?thesis using True set sf(3,4) ok by (auto simp: coh_init_def n_def)
  next
    case False
    then show ?thesis using set sf(3) by (simp add: n_def)
  qed
qed

lemma setCPUSidePorts_registers_witness:
  "\<exists>sf. setCPUSidePorts [\<lparr>port_id = 1, port_snooping = True\<rparr>, \<lparr>port_id = 0, port_snooping = False\<rparr>]
      (SnoopFilter False 64 1 1024) = Inr sf \<and> portToMask sf \<lparr>port_id = 1, port_snooping = True\<rparr> = Inr 1"
proof -
  let ?ps = "[\<lparr>port_id = 1, port_snooping = True\<rparr>, \<lparr>port_id = 0, port_snooping = False\<rparr>]"
  have "distinct (map port_id ?ps)" "\<forall>p \<in> set ?ps. 0 \<le> port_id p \<and> nat (port_id p) < length ?ps" by simp_all
  from setCPUSidePorts_registers [OF this, of False 64 1 1024] show ?thesis by auto
qed

text \<open>C23: the handling of a request from a cache refines two sets per line. It goes through exactly
  when the directory allows it (no second request of a port for a line, no eviction of a line the
  port does not hold unless the block comes from I/O), it is forwarded to the interested ports
  other than the sender and to the prefetch destination, it records the request or removes the
  holder, and when the crossbar reports a retry the directory is as it was before the lookup.\<close>

theorem request_refines_directory:
  assumes "sf_ok sf" "k < length (cpuSidePorts sf)" "has_addr pkt" "allocates pkt"
  shows "if request_legal pkt k (dir sf (line_of sf pkt))
    then \<exists>sf'. request_txn sf pkt (cpuSidePorts sf ! k) retry =
        Inr (selected sf (routed sf pkt {k} (interested (dir sf (line_of sf pkt)))), sf') \<and> sf_ok sf' \<and> same_config sf sf' \<and>
      dir sf' = (if retry then dir sf else (dir sf)(line_of sf pkt := spec_request pkt k (dir sf (line_of sf pkt))))
    else \<exists>e. request_txn sf pkt (cpuSidePorts sf ! k) retry = Inl e"
  using request_refines [OF assms] request_illegal [OF assms] by presburger

section \<open>A concrete run\<close>

definition run_filter :: "(addr \<times> snoop_item) list \<Rightarrow> addr option \<Rightarrow> snoop_filter" where
  "run_filter locs it = \<lparr>isForL3X = False, cachedLocations = locs, lookup_it = it, retryItem = \<lparr>requested = 0, holder = 0\<rparr>,
     cpuSidePorts = [\<lparr>port_id = 0, port_snooping = True\<rparr>, \<lparr>port_id = 1, port_snooping = True\<rparr>],
     localResponsePortIds = [0, 1], linesize = 64, lookupLatency = 1, maxEntryCount = 16\<rparr>"

definition run_pkt :: "command \<Rightarrow> packet" where
  "run_pkt c = \<lparr>pkt_cmd = c, pkt_flags = 0x100, pkt_req = \<lparr>req_flags = 0, req_paddr = None, req_size = None,
     req_masked = False\<rparr>, pkt_addr = 0x1004, pkt_secure = False, pkt_size = 4, pkt_data = None, bytesValid = [],
     is_prefetch_hint_pkt = False, ddio_prefetch_destination = -1, is_block_io = False, is_ddio_pkt = False, is_ddio_header = False\<rparr>"

definition run_start :: coherent where
  "run_start = \<lparr>flt = run_filter [] None, held = \<lambda>l. {}, pend = \<lambda>l. {}\<rparr>"

text \<open>Port 0 has read the line at address 4096.\<close>

definition run_held :: coherent where
  "run_held = \<lparr>flt = run_filter [(4096, \<lparr>requested = 0, holder = 1\<rparr>)] (Some 4096),
     held = (\<lambda>l. {})(4096 := {0}), pend = \<lambda>l. {}\<rparr>"

lemma run_lines [simp]: "line_of (run_filter locs it) (run_pkt c) = 4096"
  by (simp add: line_of_def run_filter_def run_pkt_def)

lemma run_pkt_simps [simp]:
  "has_addr (run_pkt c)" "pkt_cmd (run_pkt c) = c" "\<not> isUncacheable (pkt_req (run_pkt c))" "\<not> cacheResponding (run_pkt c)"
  "\<not> isCacheMaintenance (pkt_req (run_pkt c))"
  by (simp_all add: run_pkt_def has_addr_def isUncacheable_def cacheResponding_def isCacheMaintenance_def isSet_def
      VALID_ADDR_def UNCACHEABLE_def CACHE_RESPONDING_def CLEAN_def INVALIDATE_def)

lemma run_lengths [simp]: "length (cpuSidePorts (run_filter locs it)) = 2"
  by (simp add: run_filter_def)

lemma run_held_reachable: "coh_reach run_start run_held"
proof -
  let ?f1 = "run_filter [(4096, \<lparr>requested = 1, holder = 0\<rparr>)] (Some 4096)"
  let ?s1 = "\<lparr>flt = ?f1, held = \<lambda>l. {}, pend = (\<lambda>l. {})(4096 := {0})\<rparr>"
  have att: "testCmdAttrib ReadSharedReq NeedsResponse" "testCmdAttrib ReadSharedReq FromCache" "testCmdAttrib ReadResp IsResponse"
    by (simp_all add: cmd_table)
  have "coh_init run_start"
    by (auto simp: coh_init_def run_start_def run_filter_def ports_ok_def registered_def less_Suc_eq numeral_2_eq_2)
  then have r0: "coh_reach run_start run_start" by (rule coh_reach.start)
  have "request_txn (run_filter [] None) (run_pkt ReadSharedReq) (cpuSidePorts (run_filter [] None) ! 0) False = Inr ([], ?f1)"
    by code_simp
  moreover have "is_request run_start 0 (run_pkt ReadSharedReq)"
    using att by (simp add: is_request_def run_start_def ports_def line_def allocates_def)
  ultimately have "coh_step run_start (after_request run_start 0 (run_pkt ReadSharedReq) False ?f1)"
    by (intro coh_step.request) (auto simp: run_start_def ports_def)
  also have "after_request run_start 0 (run_pkt ReadSharedReq) False ?f1 = ?s1"
    using att by (simp add: after_request_def Let_def run_start_def)
  finally have r1: "coh_reach run_start ?s1" using r0 coh_reach.step by blast
  have "updateResponse ?f1 (run_pkt ReadResp) (cpuSidePorts ?f1 ! 0) =
      Inr (run_filter [(4096, \<lparr>requested = 0, holder = 1\<rparr>)] (Some 4096))"
    by code_simp
  moreover have "is_answer ?s1 0 (run_pkt ReadResp)"
    using att by (simp add: is_answer_def ports_def line_def)
  ultimately have "coh_step ?s1 (?s1\<lparr>flt := run_filter [(4096, \<lparr>requested = 0, holder = 1\<rparr>)] (Some 4096),
      pend := (pend ?s1)(line ?s1 (run_pkt ReadResp) := pend ?s1 (line ?s1 (run_pkt ReadResp)) - {0}),
      held := (held ?s1)(line ?s1 (run_pkt ReadResp) := after_response (run_pkt ReadResp) 0 (held ?s1 (line ?s1 (run_pkt ReadResp))))\<rparr>)"
    by (intro coh_step.response) (auto simp: ports_def)
  then have "coh_step ?s1 run_held" by (simp add: run_held_def line_def after_response_def fun_upd_idem)
  then show ?thesis using r1 coh_reach.step by blast
qed

theorem snoop_filter_covers_holders_witness:
  "\<exists>ps f'. request_txn (flt run_held) (run_pkt ReadSharedReq) (ports run_held ! 1) False = Inr (ps, f') \<and>
     ports run_held ! 0 \<in> set ps"
proof -
  have "is_request run_held 1 (run_pkt ReadSharedReq)"
    by (simp add: is_request_def run_held_def ports_def line_def allocates_def cmd_table)
  then show ?thesis
    using snoop_filter_covers_holders [OF run_held_reachable, of 1 "run_pkt ReadSharedReq" False]
    by (auto simp: run_held_def ports_def line_def)
qed

theorem request_refines_directory_witness:
  "\<exists>sf'. request_txn (run_filter [(4096, \<lparr>requested = 0, holder = 1\<rparr>)] (Some 4096)) (run_pkt CleanEvict)
       (cpuSidePorts (run_filter [(4096, \<lparr>requested = 0, holder = 1\<rparr>)] (Some 4096)) ! 0) False =
     Inr (selected (run_filter [(4096, \<lparr>requested = 0, holder = 1\<rparr>)] (Some 4096)) {}, sf') \<and> dir sf' 4096 = ({}, {})"
proof -
  let ?sf = "run_filter [(4096, \<lparr>requested = 0, holder = 1\<rparr>)] (Some 4096)"
  have att: "\<not> testCmdAttrib CleanEvict NeedsResponse" "testCmdAttrib CleanEvict IsEviction" "testCmdAttrib CleanEvict FromCache"
    by (simp_all add: cmd_table)
  have "not_null (4096, \<lparr>requested = 0, holder = 1\<rparr>)" by (simp add: not_null_def)
  then have ok: "sf_ok ?sf" "0 < length (cpuSidePorts ?sf)" "has_addr (run_pkt CleanEvict)" "allocates (run_pkt CleanEvict)"
    using att by (auto simp: sf_ok_but_def run_filter_def ports_ok_def registered_def less_Suc_eq allocates_def split: if_splits)
  have "bits_of 1 = {0}" using bits_of_port [of 0] by (simp add: mask_bit_def)
  then have d: "dir ?sf 4096 = ({}, {0})" by (simp add: dir_def run_filter_def)
  have "dest_mask ?sf (run_pkt CleanEvict) = 0" "\<not> isBlockCached (run_pkt CleanEvict)"
    by (simp_all add: dest_mask_def run_pkt_def isBlockCached_def isSet_def BLOCK_CACHED_def)
  then show ?thesis
    using request_refines_directory [OF ok, of False] att d by (auto simp: routed_def request_legal.simps spec_request.simps)
qed

end
