(* ===== verification/Rob.thy ===== *)
theory Rob
  imports Gem5_Prelude
begin

text \<open>
  \<^verbatim>\<open>src/gem5/src/cpu/o3/rob.cc\<close> and \<^verbatim>\<open>rob.hh\<close>: the reorder buffer of the out-of-order
  core, shared between hardware threads. A thread's list of instructions is a list, oldest
  first; the iterators \<^verbatim>\<open>head\<close> and \<^verbatim>\<open>tail\<close> are the thread and sequence number they point
  to, \<^verbatim>\<open>squashIt\<close> is a position that becomes dangling when its instruction is erased. Of an
  instruction only what the buffer reads and writes is kept; pinned register counters and the
  removal from the list of the CPU are left out. Whether the CPU is taking a thread down
  (\<^verbatim>\<open>isThreadExiting\<close>) is an argument. \<^verbatim>\<open>activeThreads\<close> points to a list the CPU owns; the model
  holds the list it points to, and \<^verbatim>\<open>robStatus\<close>, which the constructor leaves uninitialised
  and only \<^verbatim>\<open>squash\<close> writes, starts as \<open>Idle\<close>.
\<close>

section \<open>State\<close>

record dyn_inst =
  di_seqNum :: u64
  di_threadNumber :: nat
  di_squashed :: bool
  di_canCommit :: bool
  di_inROB :: bool
  di_committed :: bool

datatype inst_it = It_End | It_At nat | It_Dangling

datatype smt_policy = Dynamic | Partitioned | Threshold

datatype rob_status = Running | Idle | ROBSquashing

record rob =
  robPolicy :: smt_policy
  numEntries :: u32
  squashWidth :: u32
  numThreads :: nat
  activeThreads :: "nat list"
  threadEntries :: "u32 list"
  maxEntries :: "u32 list"
  instList :: "dyn_inst list list"
  rob_head :: "(nat \<times> u64) option"
  rob_tail :: "(nat \<times> u64) option"
  squashIt :: "inst_it list"
  numInstsInROB :: int
  squashedSeqNum :: "u64 list"
  doneSquashing :: "bool list"
  robStatus :: "rob_status list"

definition rob_resetState :: "rob \<Rightarrow> rob" where
  "rob_resetState r = r\<lparr>threadEntries := replicate MaxThreads 0, squashIt := replicate MaxThreads It_End,
     squashedSeqNum := replicate MaxThreads 0, doneSquashing := replicate MaxThreads True,
     numInstsInROB := 0, rob_head := None, rob_tail := None\<rparr>"

definition ROB :: "smt_policy \<Rightarrow> u32 \<Rightarrow> u32 \<Rightarrow> nat \<Rightarrow> u32 \<Rightarrow> rob result" where
  "ROB policy entries width threads threshold =
     guardR (policy = Partitioned \<longrightarrow> threads \<noteq> 0) Out_Of_Range
     (guardR (threads \<le> MaxThreads) Out_Of_Range
     (let amount = (case policy of Dynamic \<Rightarrow> entries | Partitioned \<Rightarrow> entries div of_nat threads | Threshold \<Rightarrow> threshold)
      in Inr (rob_resetState \<lparr>robPolicy = policy, numEntries = entries, squashWidth = width, numThreads = threads,
          activeThreads = [], threadEntries = [],
          maxEntries = replicate threads amount @ replicate (MaxThreads - threads) 0,
          instList = replicate MaxThreads [], rob_head = None, rob_tail = None, squashIt = [], numInstsInROB = 0,
          squashedSeqNum = [], doneSquashing = [], robStatus = replicate MaxThreads Idle\<rparr>)))"

definition setActiveThreads :: "nat list \<Rightarrow> rob \<Rightarrow> rob" where
  "setActiveThreads ts r = r\<lparr>activeThreads := ts\<rparr>"

definition rob_takeOverFrom :: "rob \<Rightarrow> rob" where
  "rob_takeOverFrom r = rob_resetState r"

definition rob_isEmpty :: "rob \<Rightarrow> bool" where
  "rob_isEmpty r \<longleftrightarrow> numInstsInROB r = 0"

definition rob_isEmpty_tid :: "nat \<Rightarrow> rob \<Rightarrow> bool" where
  "rob_isEmpty_tid tid r \<longleftrightarrow> threadEntries r ! tid = 0"

definition rob_drainSanityCheck :: "rob \<Rightarrow> unit result" where
  "rob_drainSanityCheck r = guardR (list_all (\<lambda>tid. instList r ! tid = []) [0..<numThreads r]) Assert_Failed
     (guardR (rob_isEmpty r) Assert_Failed (Inr ()))"

fun reset_loop :: "rob \<Rightarrow> nat list \<Rightarrow> u32 list \<Rightarrow> u32 list" where
  "reset_loop r [] me = me" |
  "reset_loop r (tid # ts) me = reset_loop r ts
     (if robPolicy r = Partitioned then me[tid := numEntries r div of_nat (length (activeThreads r))]
      else if robPolicy r = Threshold \<and> length (activeThreads r) = 1 then me[tid := numEntries r] else me)"

definition resetEntries :: "rob \<Rightarrow> rob" where
  "resetEntries r = (if robPolicy r \<noteq> Dynamic \<or> numThreads r > 1
     then r\<lparr>maxEntries := reset_loop r (activeThreads r) (maxEntries r)\<rparr> else r)"

definition entryAmount :: "nat \<Rightarrow> rob \<Rightarrow> u32 result" where
  "entryAmount num_threads r = (if robPolicy r = Partitioned
     then guardR (num_threads \<noteq> 0) Out_Of_Range (Inr (numEntries r div of_nat num_threads)) else Inr 0)"

definition countInsts_tid :: "nat \<Rightarrow> rob \<Rightarrow> nat" where
  "countInsts_tid tid r = length (instList r ! tid)"

definition countInsts :: "rob \<Rightarrow> nat" where
  "countInsts r = sum_list (map (\<lambda>tid. countInsts_tid tid r) [0..<numThreads r])"

definition isDoneSquashing :: "nat \<Rightarrow> rob \<Rightarrow> bool" where
  "isDoneSquashing tid r \<longleftrightarrow> doneSquashing r ! tid"

definition rob_isFull :: "rob \<Rightarrow> bool" where
  "rob_isFull r \<longleftrightarrow> (of_int (numInstsInROB r) :: u32) = numEntries r"

definition rob_isFull_tid :: "nat \<Rightarrow> rob \<Rightarrow> bool" where
  "rob_isFull_tid tid r \<longleftrightarrow> threadEntries r ! tid = numEntries r"

definition rob_numFreeEntries :: "rob \<Rightarrow> u32" where
  "rob_numFreeEntries r = numEntries r - of_int (numInstsInROB r)"

definition rob_numFreeEntries_tid :: "nat \<Rightarrow> rob \<Rightarrow> u32" where
  "rob_numFreeEntries_tid tid r = maxEntries r ! tid - threadEntries r ! tid"

section \<open>Insertion and retirement\<close>

definition insertInst :: "dyn_inst \<Rightarrow> rob \<Rightarrow> rob result" where
  "insertInst inst r =
     guardR (\<not> rob_isFull r) Assert_Failed
     (let tid = di_threadNumber inst in
      guardR (tid < MaxThreads) Out_Of_Range
      (let was_empty = (instList r ! tid = []);
           inst = inst\<lparr>di_inROB := True\<rparr>;
           r1 = r\<lparr>instList := (instList r)[tid := instList r ! tid @ [inst]]\<rparr> in
       bindR (if numInstsInROB r = 0
              then guardR was_empty Assert_Failed (Inr (r1\<lparr>rob_head := Some (tid, di_seqNum inst)\<rparr>)) else Inr r1)
       (\<lambda>r. Inr (r\<lparr>rob_tail := Some (tid, di_seqNum inst), numInstsInROB := numInstsInROB r + 1,
                  threadEntries := (threadEntries r)[tid := threadEntries r ! tid + 1]\<rparr>))))"

fun update_head_loop :: "dyn_inst list list \<Rightarrow> nat list \<Rightarrow> (nat \<times> u64) option \<Rightarrow> (nat \<times> u64) option" where
  "update_head_loop insts [] hd_it = hd_it" |
  "update_head_loop insts (tid # ts) hd_it = update_head_loop insts ts
     (case insts ! tid of [] \<Rightarrow> hd_it
      | inst # _ \<Rightarrow> (case hd_it of None \<Rightarrow> Some (tid, di_seqNum inst)
          | Some (_, lowest_num) \<Rightarrow> if di_seqNum inst < lowest_num then Some (tid, di_seqNum inst) else hd_it))"

definition updateHead :: "rob \<Rightarrow> rob" where
  "updateHead r = r\<lparr>rob_head := update_head_loop (instList r) (activeThreads r) None\<rparr>"

fun update_tail_loop :: "dyn_inst list list \<Rightarrow> nat list \<Rightarrow> (nat \<times> u64) option \<Rightarrow> (nat \<times> u64) option" where
  "update_tail_loop insts [] tl_it = tl_it" |
  "update_tail_loop insts (tid # ts) tl_it = update_tail_loop insts ts
     (if insts ! tid = [] then tl_it
      else (case tl_it of None \<Rightarrow> Some (tid, di_seqNum (last (insts ! tid)))
          | Some (_, n) \<Rightarrow> if di_seqNum (last (insts ! tid)) > n then Some (tid, di_seqNum (last (insts ! tid))) else tl_it))"

definition updateTail :: "rob \<Rightarrow> rob" where
  "updateTail r = r\<lparr>rob_tail := update_tail_loop (instList r) (activeThreads r) None\<rparr>"

definition it_after_erase_front :: "inst_it \<Rightarrow> inst_it" where
  "it_after_erase_front it = (case it of It_At 0 \<Rightarrow> It_Dangling | It_At (Suc i) \<Rightarrow> It_At i | _ \<Rightarrow> it)"

definition retireHead :: "nat \<Rightarrow> rob \<Rightarrow> (dyn_inst \<times> rob) result" where
  "retireHead tid r =
     guardR (numInstsInROB r > 0) Assert_Failed
     (case instList r ! tid of [] \<Rightarrow> Inl Out_Of_Range
      | head_inst # rest \<Rightarrow>
         guardR (di_canCommit head_inst) Assert_Failed
         (Inr (head_inst\<lparr>di_inROB := False, di_committed := True\<rparr>,
           updateHead (r\<lparr>instList := (instList r)[tid := rest],
             squashIt := (squashIt r)[tid := it_after_erase_front (squashIt r ! tid)],
             numInstsInROB := numInstsInROB r - 1,
             threadEntries := (threadEntries r)[tid := threadEntries r ! tid - 1]\<rparr>))))"

definition isHeadReady :: "nat \<Rightarrow> rob \<Rightarrow> bool result" where
  "isHeadReady tid r = (if threadEntries r ! tid \<noteq> 0
     then (case instList r ! tid of [] \<Rightarrow> Inl Out_Of_Range | inst # _ \<Rightarrow> Inr (di_canCommit inst))
     else Inr False)"

fun can_commit_loop :: "rob \<Rightarrow> nat list \<Rightarrow> bool result" where
  "can_commit_loop r [] = Inr False" |
  "can_commit_loop r (tid # ts) = bindR (isHeadReady tid r) (\<lambda>b. if b then Inr True else can_commit_loop r ts)"

definition canCommit :: "rob \<Rightarrow> bool result" where
  "canCommit r = can_commit_loop r (activeThreads r)"

text \<open>\<^const>\<open>None\<close> is the dummy instruction.\<close>

definition readHeadInst :: "nat \<Rightarrow> rob \<Rightarrow> dyn_inst option result" where
  "readHeadInst tid r = (if threadEntries r ! tid \<noteq> 0
     then (case instList r ! tid of [] \<Rightarrow> Inl Out_Of_Range
           | inst # _ \<Rightarrow> guardR (di_inROB inst) Assert_Failed (Inr (Some inst)))
     else Inr None)"

definition readTailInst :: "nat \<Rightarrow> rob \<Rightarrow> dyn_inst result" where
  "readTailInst tid r = (if instList r ! tid = [] then Inl Out_Of_Range else Inr (last (instList r ! tid)))"

definition findInst :: "nat \<Rightarrow> u64 \<Rightarrow> rob \<Rightarrow> dyn_inst option" where
  "findInst tid squash_inst r = find (\<lambda>i. di_seqNum i = squash_inst) (instList r ! tid)"

section \<open>Squashing\<close>

definition mark_squashed :: "dyn_inst \<Rightarrow> dyn_inst" where
  "mark_squashed i = i\<lparr>di_squashed := True, di_canCommit := True\<rparr>"

text \<open>The loop of \<^verbatim>\<open>doSquash\<close> from position \<open>i\<close>: the list, the iterator, whether the loop returned
  at the head of the list, and \<^verbatim>\<open>robTailUpdate\<close>.\<close>

fun squash_loop :: "nat \<Rightarrow> u64 \<Rightarrow> dyn_inst list \<Rightarrow> nat \<Rightarrow> bool \<Rightarrow> dyn_inst list \<times> inst_it \<times> bool \<times> bool" where
  "squash_loop 0 sq l i tu = (l, It_At i, False, tu)" |
  "squash_loop (Suc n) sq l i tu =
     (if di_seqNum (l ! i) > sq
      then (let l = l[i := mark_squashed (l ! i)] in
            if i = 0 then (l, It_End, True, tu)
            else squash_loop n sq l (i - 1) (tu \<or> i = length l - 1))
      else (l, It_At i, False, tu))"

definition finish_squash :: "nat \<Rightarrow> rob \<Rightarrow> rob" where
  "finish_squash tid r = r\<lparr>squashIt := (squashIt r)[tid := It_End], doneSquashing := (doneSquashing r)[tid := True]\<rparr>"

definition doSquash :: "bool \<Rightarrow> nat \<Rightarrow> rob \<Rightarrow> rob result" where
  "doSquash exiting tid r =
     (case squashIt r ! tid of It_End \<Rightarrow> Inl Assert_Failed | It_Dangling \<Rightarrow> Inl Out_Of_Range
      | It_At i \<Rightarrow>
        (let l = instList r ! tid; sq = squashedSeqNum r ! tid in
         guardR (i < length l) Out_Of_Range
         (if di_seqNum (l ! i) < sq then Inr (finish_squash tid r)
          else (let numInstsToSquash = (if exiting then numEntries r else squashWidth r);
                    (l', it, returned, robTailUpdate) = squash_loop (unat numInstsToSquash) sq l i False;
                    r = r\<lparr>instList := (instList r)[tid := l'], squashIt := (squashIt r)[tid := it]\<rparr>
                in if returned then Inr (finish_squash tid r)
                   else (let r = (case it of It_At j \<Rightarrow> if di_seqNum (l' ! j) \<le> sq then finish_squash tid r else r
                                  | _ \<Rightarrow> r)
                         in Inr (if robTailUpdate then updateTail r else r))))))"

definition rob_squash :: "bool \<Rightarrow> u64 \<Rightarrow> nat \<Rightarrow> rob \<Rightarrow> rob result" where
  "rob_squash exiting squash_num tid r =
     (if rob_isEmpty_tid tid r then Inr r
      else (let r = r\<lparr>robStatus := (robStatus r)[tid := ROBSquashing], doneSquashing := (doneSquashing r)[tid := False],
                      squashedSeqNum := (squashedSeqNum r)[tid := squash_num]\<rparr>
            in if instList r ! tid \<noteq> []
               then doSquash exiting tid (r\<lparr>squashIt := (squashIt r)[tid := It_At (length (instList r ! tid) - 1)]\<rparr>)
               else Inr r))"

section \<open>The invariant\<close>

definition seqs :: "dyn_inst list \<Rightarrow> u64 list" where
  "seqs l = map di_seqNum l"

definition rob_shape :: "rob \<Rightarrow> bool" where
  "rob_shape r \<longleftrightarrow> length (threadEntries r) = MaxThreads \<and> length (instList r) = MaxThreads \<and>
     length (squashIt r) = MaxThreads \<and> length (squashedSeqNum r) = MaxThreads \<and> length (doneSquashing r) = MaxThreads"

fun it_ok :: "inst_it \<Rightarrow> nat \<Rightarrow> bool \<Rightarrow> bool" where
  "it_ok It_End n fin = fin" |
  "it_ok (It_At i) n fin = (i < n \<and> \<not> fin)" |
  "it_ok It_Dangling n fin = False"

definition thread_inv :: "rob \<Rightarrow> nat \<Rightarrow> bool" where
  "thread_inv r tid \<longleftrightarrow>
     unat (threadEntries r ! tid) = length (instList r ! tid) \<and>
     sorted_wrt (<) (seqs (instList r ! tid)) \<and>
     list_all (\<lambda>i. di_inROB i \<and> di_threadNumber i = tid) (instList r ! tid) \<and>
     it_ok (squashIt r ! tid) (length (instList r ! tid)) (doneSquashing r ! tid)"

definition rob_inv :: "rob \<Rightarrow> bool" where
  "rob_inv r \<longleftrightarrow> rob_shape r \<and> (\<forall>tid < MaxThreads. thread_inv r tid) \<and>
     numInstsInROB r = int (sum_list (map length (instList r))) \<and> numInstsInROB r \<le> uint (numEntries r)"

lemma rob_invD:
  assumes "rob_inv r"
  shows "rob_shape r" "tid < MaxThreads \<Longrightarrow> thread_inv r tid"
    "numInstsInROB r = int (sum_list (map length (instList r)))" "numInstsInROB r \<le> uint (numEntries r)"
  using assms by (auto simp: rob_inv_def)

lemma uint_u32_less: "uint (w :: u32) < 2 ^ 32"
  using unsigned_less [of w, where 'a = int] by simp

lemma rob_isFull_iff:
  assumes "rob_inv r"
  shows "rob_isFull r \<longleftrightarrow> numInstsInROB r = uint (numEntries r)"
proof -
  have n: "0 \<le> numInstsInROB r" "numInstsInROB r < 2 ^ 32"
    using rob_invD(3,4) [OF assms] uint_u32_less [of "numEntries r"] by auto
  then have "uint (of_int (numInstsInROB r) :: u32) = numInstsInROB r"
    by (simp add: uint_word_of_int_eq take_bit_int_eq_self)
  then show ?thesis by (auto simp: rob_isFull_def word_uint_eq_iff)
qed

text \<open>The sum of the list lengths after one list has changed.\<close>

lemma total_update:
  assumes "tid < length ls"
  shows "int (sum_list (map length (ls[tid := l]))) = int (sum_list (map length ls)) - int (length (ls ! tid)) + int (length l)"
  using sum_list_update_nat [of tid "map length ls" "length l"] assms by (simp add: map_update flip: of_nat_add)

lemma length_le_total: "tid < length ls \<Longrightarrow> length (ls ! tid) \<le> sum_list (map length ls)"
  using member_le_sum_list [of "length (ls ! tid)" "map length ls"] by auto

lemma total_eq_0: "sum_list (map length ls) = 0 \<Longrightarrow> tid < length ls \<Longrightarrow> ls ! tid = []"
  using length_le_total [of tid ls] by auto

lemma thread_inv_other:
  assumes "thread_inv r t" "t \<noteq> tid" "threadEntries r' ! t = threadEntries r ! t" "instList r' ! t = instList r ! t"
    "squashIt r' ! t = squashIt r ! t" "doneSquashing r' ! t = doneSquashing r ! t"
  shows "thread_inv r' t"
  using assms by (simp add: thread_inv_def)

definition insert_ready :: "dyn_inst \<Rightarrow> rob \<Rightarrow> bool" where
  "insert_ready inst r \<longleftrightarrow> di_threadNumber inst < MaxThreads \<and> numInstsInROB r < uint (numEntries r) \<and>
     (\<forall>i \<in> set (instList r ! di_threadNumber inst). di_seqNum i < di_seqNum inst)"

lemma insertInst_ok:
  assumes "rob_inv r" "insert_ready inst r"
  shows "\<exists>r'. insertInst inst r = Inr r' \<and> rob_inv r' \<and>
    instList r' = (instList r)[di_threadNumber inst := instList r ! di_threadNumber inst @ [inst\<lparr>di_inROB := True\<rparr>]] \<and>
    activeThreads r' = activeThreads r"
proof -
  let ?tid = "di_threadNumber inst" and ?inst = "inst\<lparr>di_inROB := True\<rparr>"
  let ?r = "r\<lparr>instList := (instList r)[?tid := instList r ! ?tid @ [?inst]],
    rob_head := (if numInstsInROB r = 0 then Some (?tid, di_seqNum inst) else rob_head r),
    rob_tail := Some (?tid, di_seqNum inst), numInstsInROB := numInstsInROB r + 1,
    threadEntries := (threadEntries r)[?tid := threadEntries r ! ?tid + 1]\<rparr>"
  have t: "?tid < MaxThreads" "numInstsInROB r < uint (numEntries r)" using assms(2) by (auto simp: insert_ready_def)
  have sh: "rob_shape r" "?tid < length (instList r)" "?tid < length (threadEntries r)"
    using rob_invD(1) [OF assms(1)] t by (auto simp: rob_shape_def)
  have nf: "\<not> rob_isFull r" using rob_isFull_iff [OF assms(1)] t(2) by simp
  have emp: "instList r ! ?tid = []" if "numInstsInROB r = 0"
    using that rob_invD(3) [OF assms(1)] total_eq_0 [of "instList r"] sh(2) by simp
  have ins: "insertInst inst r = Inr ?r"
    using nf t(1) emp by (auto simp: insertInst_def Let_def)
  have "int (length (instList r ! ?tid)) + 1 < 2 ^ 32"
    using length_le_total [OF sh(2)] rob_invD(3) [OF assms(1)] t(2) uint_u32_less [of "numEntries r"] by linarith
  then have "unat (threadEntries r ! ?tid) + 1 < 2 ^ 32"
    using rob_invD(2) [OF assms(1) t(1)] by (simp add: thread_inv_def)
  then have cnt: "unat (threadEntries r ! ?tid + 1) = unat (threadEntries r ! ?tid) + 1"
    by (subst unat_add_lem [THEN iffD1]) auto
  have "thread_inv ?r ?tid"
    using rob_invD(2) [OF assms(1) t(1)] sh assms(2) cnt
    by (cases "squashIt r ! ?tid") (auto simp: thread_inv_def seqs_def sorted_wrt_append insert_ready_def rob_shape_def)
  moreover have "thread_inv ?r t" if "t < MaxThreads" "t \<noteq> ?tid" for t
    by (rule thread_inv_other [OF rob_invD(2) [OF assms(1) that(1)] that(2)]) (use that in auto)
  ultimately have "\<forall>t < MaxThreads. thread_inv ?r t" by blast
  moreover have "int (sum_list (map length (instList ?r))) = numInstsInROB r + 1"
    using total_update [OF sh(2), of "instList r ! ?tid @ [?inst]"] rob_invD(3) [OF assms(1)] by simp
  ultimately have "rob_inv ?r" using sh(1) t(2) by (simp add: rob_inv_def rob_shape_def)
  then show ?thesis using ins by auto
qed

definition retire_ready :: "nat \<Rightarrow> rob \<Rightarrow> bool" where
  "retire_ready tid r \<longleftrightarrow> tid < MaxThreads \<and> doneSquashing r ! tid \<and>
     (case instList r ! tid of [] \<Rightarrow> False | i # _ \<Rightarrow> di_canCommit i)"

lemma updateHead_frame [simp]:
  "rob_inv (updateHead r) = rob_inv r" "instList (updateHead r) = instList r"
  "activeThreads (updateHead r) = activeThreads r"
  by (simp_all add: updateHead_def rob_inv_def rob_shape_def thread_inv_def)

lemma updateTail_frame [simp]:
  "rob_inv (updateTail r) = rob_inv r" "instList (updateTail r) = instList r"
  "squashIt (updateTail r) = squashIt r" "doneSquashing (updateTail r) = doneSquashing r"
  "squashedSeqNum (updateTail r) = squashedSeqNum r" "squashWidth (updateTail r) = squashWidth r"
  "activeThreads (updateTail r) = activeThreads r"
  by (simp_all add: updateTail_def rob_inv_def rob_shape_def thread_inv_def)

lemma retireHead_ok:
  assumes "rob_inv r" "retire_ready tid r"
  shows "\<exists>r'. retireHead tid r = Inr ((hd (instList r ! tid))\<lparr>di_inROB := False, di_committed := True\<rparr>, r') \<and> rob_inv r' \<and>
    instList r' = (instList r)[tid := tl (instList r ! tid)] \<and> activeThreads r' = activeThreads r \<and>
    rob_head r' = update_head_loop (instList r') (activeThreads r') None"
proof -
  obtain i rest where l: "instList r ! tid = i # rest" "di_canCommit i" and tid: "tid < MaxThreads" "doneSquashing r ! tid"
    using assms(2) by (auto simp: retire_ready_def split: list.splits)
  let ?r = "r\<lparr>instList := (instList r)[tid := rest], squashIt := (squashIt r)[tid := it_after_erase_front (squashIt r ! tid)],
    numInstsInROB := numInstsInROB r - 1, threadEntries := (threadEntries r)[tid := threadEntries r ! tid - 1]\<rparr>"
  have sh: "rob_shape r" "tid < length (instList r)" using rob_invD(1) [OF assms(1)] tid by (auto simp: rob_shape_def)
  note inv = rob_invD(2) [OF assms(1) tid(1)]
  have pos: "numInstsInROB r > 0" using length_le_total [OF sh(2)] rob_invD(3) [OF assms(1)] l(1) by simp
  have ret: "retireHead tid r = Inr (i\<lparr>di_inROB := False, di_committed := True\<rparr>, updateHead ?r)"
    using l pos by (simp add: retireHead_def)
  have e: "squashIt r ! tid = It_End" using inv tid(2) by (cases "squashIt r ! tid") (auto simp: thread_inv_def)
  have "unat (threadEntries r ! tid - 1) = unat (threadEntries r ! tid) - 1"
    using inv l(1) by (subst unat_sub) (auto simp: thread_inv_def word_le_nat_alt)
  then have "thread_inv ?r tid"
    using inv sh l(1) e tid by (simp add: thread_inv_def seqs_def rob_shape_def it_after_erase_front_def)
  moreover have "thread_inv ?r t" if "t < MaxThreads" "t \<noteq> tid" for t
    by (rule thread_inv_other [OF rob_invD(2) [OF assms(1) that(1)] that(2)]) (use that in auto)
  ultimately have "\<forall>t < MaxThreads. thread_inv ?r t" by blast
  moreover have "int (sum_list (map length (instList ?r))) = numInstsInROB r - 1"
    using total_update [OF sh(2), of rest] rob_invD(3) [OF assms(1)] l(1) by simp
  ultimately have "rob_inv ?r" using sh(1) rob_invD(4) [OF assms(1)] by (simp add: rob_inv_def rob_shape_def)
  then show ?thesis using ret l(1) by (simp add: updateHead_def rob_inv_def rob_shape_def thread_inv_def)
qed

section \<open>Squashing\<close>

text \<open>The list with every instruction from position \<open>m\<close> on marked; the number of instructions that
  stay.\<close>

definition squashed_from :: "nat \<Rightarrow> dyn_inst list \<Rightarrow> dyn_inst list" where
  "squashed_from m l = take m l @ map mark_squashed (drop m l)"

definition kept :: "u64 \<Rightarrow> dyn_inst list \<Rightarrow> nat" where
  "kept sq l = length (takeWhile (\<lambda>i. di_seqNum i \<le> sq) l)"

lemma mark_squashed_simps [simp]:
  "di_seqNum (mark_squashed i) = di_seqNum i" "di_inROB (mark_squashed i) = di_inROB i"
  "di_threadNumber (mark_squashed i) = di_threadNumber i" "mark_squashed (mark_squashed i) = mark_squashed i"
  by (simp_all add: mark_squashed_def)

lemma squashed_from_simps [simp]:
  "length (squashed_from m l) = length l" "seqs (squashed_from m l) = seqs l" "squashed_from (length l) l = l"
  "list_all (\<lambda>i. di_inROB i \<and> di_threadNumber i = t) (squashed_from m l) = list_all (\<lambda>i. di_inROB i \<and> di_threadNumber i = t) l"
proof -
  show "seqs (squashed_from m l) = seqs l"
    by (simp add: squashed_from_def seqs_def comp_def) (metis append_take_drop_id map_append)
  let ?P = "\<lambda>i. di_inROB i \<and> di_threadNumber i = t"
  have "list_all ?P (squashed_from m l) \<longleftrightarrow> list_all ?P (take m l @ drop m l)"
    unfolding squashed_from_def list_all_append by (simp add: list.pred_map comp_def)
  then show "list_all ?P (squashed_from m l) = list_all ?P l" by simp
qed (simp_all add: squashed_from_def)

lemma nth_squashed_from: "i < length l \<Longrightarrow> squashed_from m l ! i = (if m \<le> i then mark_squashed (l ! i) else l ! i)"
  by (auto simp: squashed_from_def nth_append min_def)

lemma squashed_from_step:
  "i < length l \<Longrightarrow> (squashed_from (Suc i) l)[i := mark_squashed (squashed_from (Suc i) l ! i)] = squashed_from i l"
  by (rule nth_equalityI) (auto simp: nth_squashed_from nth_list_update_eq_if)

lemma kept_le: "kept sq l \<le> length l"
  by (simp add: kept_def length_takeWhile_le)

lemma kept_iff:
  assumes "sorted_wrt (<) (seqs l)" "i < length l"
  shows "di_seqNum (l ! i) > sq \<longleftrightarrow> kept sq l \<le> i"
proof
  assume "di_seqNum (l ! i) > sq"
  then have "\<not> di_seqNum (l ! i) \<le> sq" by simp
  then show "kept sq l \<le> i"
    using nth_length_takeWhile set_takeWhileD takeWhile_nth [of i "\<lambda>i. di_seqNum i \<le> sq" l]
    by (metis kept_def not_less nth_mem)
next
  assume k: "kept sq l \<le> i"
  then have kl: "kept sq l < length l" using assms(2) by simp
  then have "\<not> di_seqNum (l ! kept sq l) \<le> sq" using nth_length_takeWhile [of "\<lambda>i. di_seqNum i \<le> sq" l] by (simp add: kept_def)
  moreover have "di_seqNum (l ! kept sq l) \<le> di_seqNum (l ! i)"
    using assms k by (cases "kept sq l = i") (auto simp: sorted_wrt_iff_nth_less seqs_def order_le_less)
  ultimately show "di_seqNum (l ! i) > sq" by (meson not_le order_less_le_trans)
qed

lemma squashed_kept:
  assumes "sorted_wrt (<) (seqs l)"
  shows "squashed_from (kept sq l) l = map (\<lambda>i. if di_seqNum i > sq then mark_squashed i else i) l"
  using kept_iff [OF assms] by (intro nth_equalityI) (auto simp: nth_squashed_from)

lemma squash_loop_effect:
  assumes "sorted_wrt (<) (seqs l)" "i < length l" "kept sq l \<le> Suc i"
  shows "\<exists>tu'. squash_loop n sq (squashed_from (Suc i) l) i tu =
    (if kept sq l = 0 \<and> Suc i \<le> n then (squashed_from 0 l, It_End, True, tu')
     else (squashed_from (max (kept sq l) (Suc i - n)) l, It_At (max (kept sq l) (Suc i - n) - 1), False, tu'))"
  using assms(2,3)
proof (induction n arbitrary: i tu)
  case 0
  then show ?case by (auto simp: max_def)
next
  case (Suc n)
  have seq: "di_seqNum (squashed_from (Suc i) l ! i) = di_seqNum (l ! i)" using Suc.prems(1) by (simp add: nth_squashed_from)
  show ?case
  proof (cases "di_seqNum (l ! i) > sq")
    case False
    then have "kept sq l = Suc i" using kept_iff [OF assms(1) Suc.prems(1)] Suc.prems(2) by simp
    then show ?thesis using False seq by (auto simp: max_def)
  next
    case True
    then have k: "kept sq l \<le> i" using kept_iff [OF assms(1) Suc.prems(1)] by simp
    show ?thesis
    proof (cases i)
      case 0
      then show ?thesis using True seq k squashed_from_step [OF Suc.prems(1)] by (auto simp: Let_def)
    next
      case (Suc j)
      then have step: "squash_loop (Suc n) sq (squashed_from (Suc i) l) i tu =
          squash_loop n sq (squashed_from (Suc j) l) j (tu \<or> i = length l - 1)"
        using True seq squashed_from_step [OF Suc.prems(1)] by (simp add: Let_def)
      have "j < length l" "kept sq l \<le> Suc j" using Suc.prems(1) Suc k by auto
      then show ?thesis unfolding step using Suc.IH [of j "tu \<or> i = length l - 1"] Suc by (simp only: Suc_le_mono diff_Suc_Suc)
    qed
  qed
qed

text \<open>A state in which thread \<open>tid\<close> has its list \<open>l\<close> marked down to position \<open>i\<close>.\<close>

definition squashing :: "rob \<Rightarrow> nat \<Rightarrow> dyn_inst list \<Rightarrow> u64 \<Rightarrow> nat \<Rightarrow> bool" where
  "squashing r tid l sq m \<longleftrightarrow> rob_inv r \<and> tid < MaxThreads \<and> squashedSeqNum r ! tid = sq \<and>
     instList r ! tid = squashed_from m l \<and> kept sq l \<le> m \<and>
     (if doneSquashing r ! tid then m = kept sq l else 0 < m \<and> m \<le> length l \<and> squashIt r ! tid = It_At (m - 1))"

definition same_threads :: "nat \<Rightarrow> rob \<Rightarrow> rob \<Rightarrow> bool" where
  "same_threads tid r r' \<longleftrightarrow> (\<forall>t. t \<noteq> tid \<longrightarrow> instList r' ! t = instList r ! t) \<and> squashWidth r' = squashWidth r \<and>
     numEntries r' = numEntries r \<and> numInstsInROB r' = numInstsInROB r"

lemma rob_inv_thread:
  assumes "rob_inv r" "tid < MaxThreads" "length l' = length (instList r ! tid)" "seqs l' = seqs (instList r ! tid)"
    "list_all (\<lambda>i. di_inROB i \<and> di_threadNumber i = tid) l'" "it_ok it (length l') fin"
    "r' = r\<lparr>instList := (instList r)[tid := l'], squashIt := (squashIt r)[tid := it], doneSquashing := (doneSquashing r)[tid := fin]\<rparr>"
  shows "rob_inv r'"
proof -
  have sh: "rob_shape r" "tid < length (instList r)" using rob_invD(1) [OF assms(1)] assms(2) by (auto simp: rob_shape_def)
  have "thread_inv r' tid"
    using rob_invD(2) [OF assms(1,2)] sh assms(2-7) by (simp add: thread_inv_def rob_shape_def)
  moreover have "thread_inv r' t" if "t < MaxThreads" "t \<noteq> tid" for t
    by (rule thread_inv_other [OF rob_invD(2) [OF assms(1) that(1)] that(2)]) (use that assms(7) in auto)
  ultimately have "\<forall>t < MaxThreads. thread_inv r' t" by blast
  moreover have "int (sum_list (map length (instList r'))) = numInstsInROB r"
    using total_update [OF sh(2), of l'] rob_invD(3) [OF assms(1)] assms(3,7) by simp
  ultimately show ?thesis using sh(1) rob_invD(4) [OF assms(1)] assms(7) by (simp add: rob_inv_def rob_shape_def)
qed

lemma updateTail_squashing:
  "squashing (updateTail r) tid l sq m = squashing r tid l sq m" "same_threads tid r (updateTail r') = same_threads tid r r'"
  by (simp_all add: squashing_def) (simp add: same_threads_def updateTail_def)

lemma doSquash_loop:
  assumes "squashIt r ! tid = It_At i" "i < length (instList r ! tid)" "\<not> di_seqNum (instList r ! tid ! i) < squashedSeqNum r ! tid"
    "squash_loop (unat (if ex then numEntries r else squashWidth r)) (squashedSeqNum r ! tid) (instList r ! tid) i False = (l', it, ret, tu)"
  shows "ret \<Longrightarrow> doSquash ex tid r = Inr (finish_squash tid (r\<lparr>instList := (instList r)[tid := l'], squashIt := (squashIt r)[tid := it]\<rparr>))"
    and "\<not> ret \<Longrightarrow> it = It_At j \<Longrightarrow> doSquash ex tid r = Inr (let r' = r\<lparr>instList := (instList r)[tid := l'], squashIt := (squashIt r)[tid := it]\<rparr>;
      r' = (if di_seqNum (l' ! j) \<le> squashedSeqNum r ! tid then finish_squash tid r' else r') in if tu then updateTail r' else r')"
  using assms by (auto simp: doSquash_def Let_def split: prod.splits)

lemma doSquash_step:
  fixes ex :: bool
  assumes "squashing r tid l sq m" "\<not> doneSquashing r ! tid"
  defines "n \<equiv> unat (if ex then numEntries r else squashWidth r)"
  shows "\<exists>r'. doSquash ex tid r = Inr r' \<and> squashing r' tid l sq (max (kept sq l) (m - n)) \<and> same_threads tid r r' \<and>
    (doneSquashing r' ! tid \<longleftrightarrow> m - n \<le> kept sq l)"
proof -
  have a: "rob_inv r" "tid < MaxThreads" "squashedSeqNum r ! tid = sq" "instList r ! tid = squashed_from m l"
    "kept sq l \<le> m" "0 < m" "m \<le> length l" "squashIt r ! tid = It_At (m - 1)"
    using assms(1,2) by (auto simp: squashing_def)
  let ?k = "max (kept sq l) (m - n)" and ?i = "m - 1"
  have i: "?i < length l" "Suc ?i = m" using a by auto
  note inv = rob_invD(2) [OF a(1,2)]
  have sorted: "sorted_wrt (<) (seqs l)" and allt: "list_all (\<lambda>i. di_inROB i \<and> di_threadNumber i = tid) l"
    using inv a(4) by (auto simp: thread_inv_def)
  have sh: "tid < length (instList r)" "tid < length (squashIt r)" "tid < length (doneSquashing r)"
    using rob_invD(1) [OF a(1)] a(2) by (auto simp: rob_shape_def)
  have len: "length (instList r ! tid) = length l" using a(4) by simp
  have seq: "di_seqNum (squashed_from m l ! ?i) = di_seqNum (l ! ?i)" using i a(6) by (simp add: nth_squashed_from)
  let ?r = "\<lambda>l' it fin. r\<lparr>instList := (instList r)[tid := l'], squashIt := (squashIt r)[tid := it],
    doneSquashing := (doneSquashing r)[tid := fin]\<rparr>"
  have inv': "rob_inv (?r (squashed_from k l) it fin)" if "it_ok it (length l) fin" for k it fin
    using that allt a(4) by (intro rob_inv_thread [OF a(1,2) _ _ _ _ refl]) auto
  have fin: "squashing (?r (squashed_from ?k l) It_End True) tid l sq ?k" if "?k = kept sq l"
    using that inv' [of It_End True] a(2,3) sh by (simp add: squashing_def)
  have same: "same_threads tid r (?r l' it f)" for l' it f by (auto simp: same_threads_def)
  have nfin: "(doneSquashing r)[tid := False] = doneSquashing r" using assms(2) by (metis list_update_id)
  show ?thesis
  proof (cases "di_seqNum (l ! ?i) < sq")
    case True
    then have k: "kept sq l = m" using kept_iff [OF sorted i(1), of sq] a(5,6) by (auto simp: not_less)
    have "doSquash ex tid r = Inr (?r (squashed_from ?k l) It_End True)"
      using True a(3,8) i seq k len by (simp add: doSquash_def Let_def finish_squash_def flip: a(4))
    then show ?thesis using fin same k sh by auto
  next
    case False
    obtain tu where lp: "squash_loop n sq (squashed_from m l) ?i False =
        (if kept sq l = 0 \<and> m \<le> n then (squashed_from 0 l, It_End, True, tu)
         else (squashed_from ?k l, It_At (?k - 1), False, tu))"
      using squash_loop_effect [OF sorted i(1), of sq n False, unfolded i(2)] a(5) by blast
    show ?thesis
    proof (cases "kept sq l = 0 \<and> m \<le> n")
      case True
      then have "doSquash ex tid r = Inr (?r (squashed_from ?k l) It_End True)"
        using False a(3,4,8) i seq lp by (simp add: doSquash_def Let_def finish_squash_def n_def)
      then show ?thesis using fin same True sh by auto
    next
      case more: False
      then have k: "0 < ?k" "?k - 1 < length l" using a(5,7) i by (auto simp: max_def)
      have le: "di_seqNum (squashed_from ?k l ! (?k - 1)) \<le> sq \<longleftrightarrow> ?k = kept sq l"
        using kept_iff [OF sorted k(2), of sq] k by (auto simp: nth_squashed_from not_less [symmetric])
      let ?r' = "if ?k = kept sq l then ?r (squashed_from ?k l) It_End True
        else ?r (squashed_from ?k l) (It_At (?k - 1)) False"
      have lp': "squash_loop n sq (squashed_from m l) ?i False = (squashed_from ?k l, It_At (?k - 1), False, tu)"
        unfolding lp using more by (rule if_not_P)
      have "doSquash ex tid r = Inr (let r' = r\<lparr>instList := (instList r)[tid := squashed_from ?k l], squashIt := (squashIt r)[tid := It_At (?k - 1)]\<rparr>;
          r' = (if ?k = kept sq l then finish_squash tid r' else r') in if tu then updateTail r' else r')"
        using doSquash_loop(2) [of r tid ?i ex "squashed_from ?k l" "It_At (?k - 1)" False tu "?k - 1", folded n_def]
          False a(3,4,8) i seq lp'
        by (simp only: le not_False_eq_True simp_thms len squashed_from_simps)
      also have "\<dots> = Inr (if tu then updateTail ?r' else ?r')"
        using nfin by (simp add: Let_def finish_squash_def)
      finally have "doSquash ex tid r = Inr (if tu then updateTail ?r' else ?r')" .
      moreover have "squashing ?r' tid l sq ?k"
      proof (cases "?k = kept sq l")
        case False
        then have mk: "?k = m - n" "kept sq l \<le> m - n" "m - n \<noteq> kept sq l" by (auto simp: max_def split: if_splits)
        show ?thesis unfolding mk(1)
          using inv' [of "It_At (m - n - 1)" False "m - n"] k a sh mk by (simp add: squashing_def)
      qed (use fin in simp)
      then have "squashing (if tu then updateTail ?r' else ?r') tid l sq ?k"
        by (cases tu) (simp_all only: if_True if_False updateTail_squashing)
      moreover have "same_threads tid r ?r'" using same by presburger
      then have "same_threads tid r (if tu then updateTail ?r' else ?r')"
        by (cases tu) (simp_all only: if_True if_False updateTail_squashing)
      moreover have "doneSquashing ?r' ! tid \<longleftrightarrow> m - n \<le> kept sq l" using sh by (auto simp: max_def)
      then have "doneSquashing (if tu then updateTail ?r' else ?r') ! tid \<longleftrightarrow> m - n \<le> kept sq l"
        by (cases tu) (simp_all only: if_True if_False updateTail_frame)
      ultimately show ?thesis by blast
    qed
  qed
qed

text \<open>The cycles of a squash: \<^verbatim>\<open>Commit::tick\<close> calls \<^verbatim>\<open>doSquash\<close> once per cycle until the thread
  is done.\<close>

fun squash_cycles :: "nat \<Rightarrow> nat \<Rightarrow> rob \<Rightarrow> rob result" where
  "squash_cycles 0 tid r = Inr r" |
  "squash_cycles (Suc n) tid r = (if doneSquashing r ! tid then Inr r
     else bindR (doSquash False tid r) (squash_cycles n tid))"

lemma squash_cycles_step:
  assumes "squashing r tid l sq m"
  shows "\<exists>r' m'. squash_cycles n tid r = Inr r' \<and> squashing r' tid l sq m' \<and> same_threads tid r r' \<and>
    (m - n * unat (squashWidth r) < kept sq l + (if 0 < n then 1 else 0) \<longrightarrow> 0 < n \<longrightarrow> doneSquashing r' ! tid)"
  using assms
proof (induction n arbitrary: r m)
  case 0
  then show ?case by (auto simp: same_threads_def)
next
  case (Suc n)
  show ?case
  proof (cases "doneSquashing r ! tid")
    case True
    then show ?thesis using Suc.prems by (auto simp: same_threads_def)
  next
    case False
    let ?m = "max (kept sq l) (m - unat (squashWidth r))"
    obtain r1 where r1: "doSquash False tid r = Inr r1" "squashing r1 tid l sq ?m" "same_threads tid r r1"
      "doneSquashing r1 ! tid \<longleftrightarrow> m - unat (squashWidth r) \<le> kept sq l"
      using doSquash_step [OF Suc.prems False, of False] by auto
    obtain r' m' where r': "squash_cycles n tid r1 = Inr r'" "squashing r' tid l sq m'" "same_threads tid r1 r'"
      "?m - n * unat (squashWidth r1) < kept sq l + (if 0 < n then 1 else 0) \<longrightarrow> 0 < n \<longrightarrow> doneSquashing r' ! tid"
      using Suc.IH [OF r1(2)] by blast
    have w: "squashWidth r1 = squashWidth r" using r1(3) by (simp add: same_threads_def)
    have "doneSquashing r' ! tid" if "m - Suc n * unat (squashWidth r) \<le> kept sq l"
    proof (cases "n = 0")
      case True
      then show ?thesis using that r1(4) r'(1) by simp
    next
      case False
      have "?m - n * unat (squashWidth r) \<le> kept sq l" using that by (auto simp: max_def)
      then show ?thesis using r'(4) False w by simp
    qed
    moreover have "same_threads tid r r'" using r1(3) r'(3) by (simp add: same_threads_def)
    ultimately show ?thesis using r1(1) r'(1,2) False by auto
  qed
qed

lemma rob_squash_starts:
  assumes "rob_inv r" "tid < MaxThreads" "instList r ! tid \<noteq> []"
  shows "\<exists>r'. rob_squash False sq tid r = Inr r' \<and>
    squashing r' tid (instList r ! tid) sq (max (kept sq (instList r ! tid)) (length (instList r ! tid) - unat (squashWidth r))) \<and>
    same_threads tid r r'"
proof -
  let ?l = "instList r ! tid"
  let ?r = "r\<lparr>robStatus := (robStatus r)[tid := ROBSquashing], doneSquashing := (doneSquashing r)[tid := False],
    squashedSeqNum := (squashedSeqNum r)[tid := sq], squashIt := (squashIt r)[tid := It_At (length ?l - 1)]\<rparr>"
  note inv = rob_invD(2) [OF assms(1,2)]
  have sh: "tid < length (squashIt r)" "tid < length (doneSquashing r)" "tid < length (squashedSeqNum r)" "rob_shape r"
    using rob_invD(1) [OF assms(1)] assms(2) by (auto simp: rob_shape_def)
  have ne: "\<not> rob_isEmpty_tid tid r" using inv assms(3) by (auto simp: thread_inv_def rob_isEmpty_tid_def)
  have "rob_inv (r\<lparr>instList := (instList r)[tid := ?l], squashIt := (squashIt r)[tid := It_At (length ?l - 1)],
      doneSquashing := (doneSquashing r)[tid := False]\<rparr>)"
    using inv assms(3) by (intro rob_inv_thread [OF assms(1,2) _ _ _ _ refl]) (auto simp: thread_inv_def)
  then have "rob_inv ?r" by (simp add: rob_inv_def rob_shape_def thread_inv_def)
  then have st: "squashing ?r tid ?l sq (length ?l)"
    using assms(2,3) sh kept_le by (simp add: squashing_def)
  then obtain r' where "doSquash False tid ?r = Inr r'"
    "squashing r' tid ?l sq (max (kept sq ?l) (length ?l - unat (squashWidth r)))" "same_threads tid ?r r'"
    using doSquash_step [OF st, of False] sh by auto
  then show ?thesis using ne assms(3) by (simp add: rob_squash_def Let_def same_threads_def)
qed

section \<open>Program order\<close>

lemma mark_update:
  assumes "i < length l"
  shows "seqs (l[i := mark_squashed (l ! i)]) = seqs l"
    "list_all (\<lambda>i. di_inROB i \<and> di_threadNumber i = t) (l[i := mark_squashed (l ! i)]) = list_all (\<lambda>i. di_inROB i \<and> di_threadNumber i = t) l"
proof -
  show "seqs (l[i := mark_squashed (l ! i)]) = seqs l" using assms by (auto simp: seqs_def nth_list_update_eq_if intro!: nth_equalityI)
  show "list_all (\<lambda>i. di_inROB i \<and> di_threadNumber i = t) (l[i := mark_squashed (l ! i)]) = list_all (\<lambda>i. di_inROB i \<and> di_threadNumber i = t) l"
    using assms by (auto simp: list_all_length nth_list_update_eq_if)
qed

lemma squash_loop_frame:
  assumes "i < length l" "squash_loop n sq l i tu = (l', it, ret, tu')"
  shows "length l' = length l \<and> seqs l' = seqs l \<and>
    list_all (\<lambda>i. di_inROB i \<and> di_threadNumber i = t) l' = list_all (\<lambda>i. di_inROB i \<and> di_threadNumber i = t) l \<and>
    (if ret then it = It_End else \<exists>j < length l. it = It_At j)"
  using assms
proof (induction n sq l i tu rule: squash_loop.induct)
  case (2 n sq l i tu)
  let ?l = "l[i := mark_squashed (l ! i)]"
  show ?case
  proof (cases "di_seqNum (l ! i) > sq \<and> i \<noteq> 0")
    case True
    then have "squash_loop n sq ?l (i - 1) (tu \<or> i = length l - 1) = (l', it, ret, tu')"
      using "2.prems"(2) by (simp add: Let_def)
    then show ?thesis using "2.IH" [OF _ refl] True "2.prems"(1) mark_update [OF "2.prems"(1)] by (auto split: if_splits)
  next
    case False
    then show ?thesis using "2.prems" mark_update [OF "2.prems"(1)] by (auto simp: Let_def split: if_splits)
  qed
qed auto

lemma finish_squash_inv:
  assumes "rob_inv r" "tid < MaxThreads"
  shows "rob_inv (finish_squash tid r)"
proof -
  have "finish_squash tid r = r\<lparr>instList := (instList r)[tid := instList r ! tid], squashIt := (squashIt r)[tid := It_End],
      doneSquashing := (doneSquashing r)[tid := True]\<rparr>" by (simp add: finish_squash_def)
  then show ?thesis
    using rob_invD(2) [OF assms] by (intro rob_inv_thread [OF assms, of "instList r ! tid" It_End True]) (auto simp: thread_inv_def)
qed

definition same_seqs :: "rob \<Rightarrow> rob \<Rightarrow> bool" where
  "same_seqs r r' \<longleftrightarrow> (\<forall>t < MaxThreads. seqs (instList r' ! t) = seqs (instList r ! t))"

lemma doSquash_frame:
  assumes "rob_inv r" "tid < MaxThreads" "\<not> doneSquashing r ! tid"
  shows "\<exists>r'. doSquash ex tid r = Inr r' \<and> rob_inv r' \<and> same_seqs r r'"
proof -
  note inv = rob_invD(2) [OF assms(1,2)]
  obtain i where i: "squashIt r ! tid = It_At i" "i < length (instList r ! tid)"
    using inv assms(3) by (cases "squashIt r ! tid") (auto simp: thread_inv_def)
  have sh: "tid < length (instList r)" "rob_shape r" using rob_invD(1) [OF assms(1)] assms(2) by (auto simp: rob_shape_def)
  show ?thesis
  proof (cases "di_seqNum (instList r ! tid ! i) < squashedSeqNum r ! tid")
    case True
    then have "doSquash ex tid r = Inr (finish_squash tid r)" using i by (simp add: doSquash_def Let_def)
    then show ?thesis using finish_squash_inv [OF assms(1,2)] by (auto simp: same_seqs_def finish_squash_def)
  next
    case False
    obtain l' it ret tu where lp: "squash_loop (unat (if ex then numEntries r else squashWidth r)) (squashedSeqNum r ! tid)
        (instList r ! tid) i False = (l', it, ret, tu)" by (metis prod_cases4)
    let ?r = "r\<lparr>instList := (instList r)[tid := l'], squashIt := (squashIt r)[tid := it]\<rparr>"
    note f = squash_loop_frame [OF i(2) lp, of tid]
    have ss: "same_seqs r ?r" using f by (auto simp: same_seqs_def nth_list_update_eq_if sh)
    show ?thesis
    proof (cases ret)
      case True
      have "rob_inv (finish_squash tid ?r)"
        using f inv True by (intro rob_inv_thread [OF assms(1,2), of l' It_End True]) (auto simp: finish_squash_def thread_inv_def)
      then show ?thesis using doSquash_loop(1) [OF i False lp] True ss by (auto simp: same_seqs_def finish_squash_def)
    next
      case nret: False
      then obtain j where j: "it = It_At j" "j < length (instList r ! tid)" using f by auto
      have nfin: "(doneSquashing r)[tid := False] = doneSquashing r" using assms(3) by (metis list_update_id)
      have "rob_inv (r\<lparr>instList := (instList r)[tid := l'], squashIt := (squashIt r)[tid := it], doneSquashing := (doneSquashing r)[tid := False]\<rparr>)"
        using f inv j by (intro rob_inv_thread [OF assms(1,2) _ _ _ _ refl]) (auto simp: thread_inv_def)
      then have "rob_inv ?r" using nfin by simp
      then have "rob_inv (if di_seqNum (l' ! j) \<le> squashedSeqNum r ! tid then finish_squash tid ?r else ?r)" (is "rob_inv ?r2")
        using finish_squash_inv [of ?r tid] assms(2) by simp
      moreover have "same_seqs r ?r2" using ss by (simp add: same_seqs_def finish_squash_def)
      moreover have "same_seqs r (updateTail ?r2) = same_seqs r ?r2" by (simp add: same_seqs_def)
      ultimately show ?thesis using doSquash_loop(2) [OF i False lp nret j(1)] by (auto simp: Let_def)
    qed
  qed
qed

lemma rob_squash_frame:
  assumes "rob_inv r" "tid < MaxThreads"
  shows "\<exists>r'. rob_squash ex sq tid r = Inr r' \<and> rob_inv r' \<and> same_seqs r r'"
proof (cases "rob_isEmpty_tid tid r")
  case True
  then show ?thesis using assms(1) by (simp add: rob_squash_def same_seqs_def)
next
  case False
  let ?l = "instList r ! tid"
  note inv = rob_invD(2) [OF assms]
  have ne: "?l \<noteq> []" using False inv by (auto simp: rob_isEmpty_tid_def thread_inv_def unat_eq_0)
  let ?r = "r\<lparr>robStatus := (robStatus r)[tid := ROBSquashing], doneSquashing := (doneSquashing r)[tid := False],
    squashedSeqNum := (squashedSeqNum r)[tid := sq], squashIt := (squashIt r)[tid := It_At (length ?l - 1)]\<rparr>"
  have "rob_inv (r\<lparr>instList := (instList r)[tid := ?l], squashIt := (squashIt r)[tid := It_At (length ?l - 1)],
      doneSquashing := (doneSquashing r)[tid := False]\<rparr>)"
    using inv ne by (intro rob_inv_thread [OF assms _ _ _ _ refl]) (auto simp: thread_inv_def)
  then have "rob_inv ?r" by (simp add: rob_inv_def rob_shape_def thread_inv_def)
  moreover have "\<not> doneSquashing ?r ! tid" using rob_invD(1) [OF assms(1)] assms(2) by (simp add: rob_shape_def)
  ultimately obtain r' where "doSquash ex tid ?r = Inr r'" "rob_inv r'" "same_seqs ?r r'"
    using doSquash_frame [of ?r tid ex] assms(2) by blast
  then show ?thesis using False ne by (simp add: rob_squash_def Let_def same_seqs_def)
qed

text \<open>
  The life of a reorder buffer: instructions enter with sequence numbers above all earlier ones of
  their thread, execution marks them ready, squashes start and go on, and ready heads retire. The
  list collects the retired instructions.
\<close>

definition thread_log :: "nat \<Rightarrow> dyn_inst list \<Rightarrow> dyn_inst list" where
  "thread_log tid log = filter (\<lambda>i. di_threadNumber i = tid) log"

inductive rob_run :: "dyn_inst list \<Rightarrow> rob \<Rightarrow> bool" where
  start: "ROB policy entries width threads threshold = Inr r \<Longrightarrow> rob_run [] (setActiveThreads ts r)" |
  insert: "rob_run log r \<Longrightarrow> insert_ready inst r \<Longrightarrow>
    \<forall>i \<in> set (thread_log (di_threadNumber inst) log). di_seqNum i < di_seqNum inst \<Longrightarrow>
    insertInst inst r = Inr r' \<Longrightarrow> rob_run log r'" |
  complete: "rob_run log r \<Longrightarrow> tid < MaxThreads \<Longrightarrow> j < length (instList r ! tid) \<Longrightarrow>
    rob_run log (r\<lparr>instList := (instList r)[tid := (instList r ! tid)[j := (instList r ! tid ! j)\<lparr>di_canCommit := True\<rparr>]]\<rparr>)" |
  squash: "rob_run log r \<Longrightarrow> tid < MaxThreads \<Longrightarrow> rob_squash ex sq tid r = Inr r' \<Longrightarrow> rob_run log r'" |
  do_squash: "rob_run log r \<Longrightarrow> tid < MaxThreads \<Longrightarrow> \<not> doneSquashing r ! tid \<Longrightarrow> doSquash ex tid r = Inr r' \<Longrightarrow> rob_run log r'" |
  retire: "rob_run log r \<Longrightarrow> retire_ready tid r \<Longrightarrow> retireHead tid r = Inr (i, r') \<Longrightarrow> rob_run (log @ [i]) r'"

definition in_order :: "dyn_inst list \<Rightarrow> rob \<Rightarrow> nat \<Rightarrow> bool" where
  "in_order log r tid \<longleftrightarrow> sorted_wrt (<) (seqs (thread_log tid log) @ seqs (instList r ! tid))"

lemma rob_inv_init:
  assumes "ROB policy entries width threads threshold = Inr r"
  shows "rob_inv (setActiveThreads ts r)"
proof -
  have "sum_list (map length (replicate n ([] :: dyn_inst list))) = 0" for n by (induction n) auto
  then show ?thesis using assms
    by (auto simp: ROB_def rob_resetState_def setActiveThreads_def rob_inv_def rob_shape_def thread_inv_def seqs_def Let_def)
qed

lemma same_seqs_order: "same_seqs r r' \<Longrightarrow> tid < MaxThreads \<Longrightarrow> in_order log r' tid = in_order log r tid"
  by (simp add: same_seqs_def in_order_def)

lemma complete_inv:
  assumes "rob_inv r" "tid < MaxThreads" "j < length (instList r ! tid)"
  defines "r' \<equiv> r\<lparr>instList := (instList r)[tid := (instList r ! tid)[j := (instList r ! tid ! j)\<lparr>di_canCommit := True\<rparr>]]\<rparr>"
  shows "rob_inv r' \<and> same_seqs r r'"
proof -
  let ?l = "(instList r ! tid)[j := (instList r ! tid ! j)\<lparr>di_canCommit := True\<rparr>]"
  note inv = rob_invD(2) [OF assms(1,2)]
  have sh: "tid < length (instList r)" using rob_invD(1) [OF assms(1)] assms(2) by (simp add: rob_shape_def)
  have l: "seqs ?l = seqs (instList r ! tid)" using assms(3)
    by (auto simp: seqs_def nth_list_update_eq_if intro!: nth_equalityI)
  have all: "list_all (\<lambda>i. di_inROB i \<and> di_threadNumber i = tid) ?l"
    using inv assms(3) by (auto simp: thread_inv_def list_all_length nth_list_update_eq_if)
  have eq: "r' = r\<lparr>instList := (instList r)[tid := ?l], squashIt := (squashIt r)[tid := squashIt r ! tid],
      doneSquashing := (doneSquashing r)[tid := doneSquashing r ! tid]\<rparr>" by (simp add: r'_def)
  have "rob_inv r'"
    using inv l all by (intro rob_inv_thread [OF assms(1,2) _ _ _ _ eq]) (auto simp: thread_inv_def)
  moreover have "same_seqs r r'" using l by (auto simp: same_seqs_def r'_def nth_list_update_eq_if sh)
  ultimately show ?thesis by simp
qed

lemma rob_run_inv: "rob_run log r \<Longrightarrow> rob_inv r \<and> (\<forall>tid < MaxThreads. in_order log r tid)"
proof (induction rule: rob_run.induct)
  case (start policy entries width threads threshold r ts)
  then show ?case using rob_inv_init [OF start]
    by (auto simp: in_order_def thread_log_def seqs_def ROB_def rob_resetState_def setActiveThreads_def Let_def)
next
  case (insert log r inst r')
  then have i: "rob_inv r'" "instList r' = (instList r)[di_threadNumber inst := instList r ! di_threadNumber inst @ [inst\<lparr>di_inROB := True\<rparr>]]"
    using insertInst_ok [of r inst] by auto
  have "in_order log r' tid" if "tid < MaxThreads" for tid
    using insert.IH insert.hyps(2,3) that i(2) rob_invD(1) [of r]
    by (auto simp: in_order_def seqs_def sorted_wrt_append insert_ready_def nth_list_update_eq_if rob_shape_def)
  then show ?case using i(1) by blast
next
  case (complete log r tid j)
  then show ?case using complete_inv [of r tid j] same_seqs_order by blast
next
  case (squash log r tid ex sq r')
  then show ?case using rob_squash_frame [of r tid ex sq] same_seqs_order by fastforce
next
  case (do_squash log r tid ex r')
  then show ?case using doSquash_frame [of r tid ex] same_seqs_order by fastforce
next
  case (retire log r tid i r')
  then have t: "tid < MaxThreads" "instList r ! tid \<noteq> []" by (auto simp: retire_ready_def split: list.splits)
  have i: "i = (hd (instList r ! tid))\<lparr>di_inROB := False, di_committed := True\<rparr>" "rob_inv r'"
    "instList r' = (instList r)[tid := tl (instList r ! tid)]"
    using retireHead_ok [of r tid] retire by auto
  have "thread_inv r tid" using rob_invD(2) [of r tid] retire.IH t(1) by simp
  then have th: "di_threadNumber i = tid" "seqs (instList r ! tid) = di_seqNum i # seqs (tl (instList r ! tid))"
    using t(2) i(1) by (auto simp: thread_inv_def seqs_def list_all_iff neq_Nil_conv)
  have "in_order (log @ [i]) r' k" if "k < MaxThreads" for k
    using retire.IH that i(3) th t(1) rob_invD(1) [of r]
    by (cases "k = tid") (auto simp: in_order_def thread_log_def seqs_def rob_shape_def)
  then show ?case using i(2) by blast
qed

lemma squash_completes_aux:
  assumes "rob_inv r" "tid < MaxThreads" "instList r ! tid \<noteq> []"
    "length (instList r ! tid) \<le> Suc n * unat (squashWidth r)" "0 < n"
  shows "\<exists>r'. bindR (rob_squash False sq tid r) (squash_cycles n tid) = Inr r' \<and> rob_inv r' \<and> doneSquashing r' ! tid \<and>
    instList r' ! tid = map (\<lambda>i. if di_seqNum i > sq then mark_squashed i else i) (instList r ! tid) \<and>
    (\<forall>t. t \<noteq> tid \<longrightarrow> instList r' ! t = instList r ! t) \<and> numInstsInROB r' = numInstsInROB r"
proof -
  let ?l = "instList r ! tid" and ?w = "unat (squashWidth r)"
  let ?m = "max (kept sq ?l) (length ?l - ?w)"
  obtain r1 where r1: "rob_squash False sq tid r = Inr r1" "squashing r1 tid ?l sq ?m" "same_threads tid r r1"
    using rob_squash_starts [OF assms(1-3)] by blast
  obtain r' m' where r': "squash_cycles n tid r1 = Inr r'" "squashing r' tid ?l sq m'" "same_threads tid r1 r'"
    "?m - n * unat (squashWidth r1) < kept sq ?l + (if 0 < n then 1 else 0) \<longrightarrow> 0 < n \<longrightarrow> doneSquashing r' ! tid"
    using squash_cycles_step [OF r1(2)] by blast
  have "?m - n * ?w \<le> kept sq ?l" using assms(4) by (auto simp: max_def)
  then have fin: "doneSquashing r' ! tid" using r'(4) r1(3) assms(5) by (simp add: same_threads_def)
  have "sorted_wrt (<) (seqs ?l)" using rob_invD(2) [OF assms(1,2)] by (simp add: thread_inv_def)
  then have "instList r' ! tid = map (\<lambda>i. if di_seqNum i > sq then mark_squashed i else i) ?l"
    using r'(2) fin squashed_kept by (simp add: squashing_def)
  then show ?thesis using r1(1,3) r'(1,2,3) fin by (auto simp: squashing_def same_threads_def)
qed

text \<open>C10: a squash reaches its end. Started for a thread with instructions and continued for as many
  cycles as the list needs at \<^verbatim>\<open>squashWidth\<close> instructions per cycle, it is done, has
  marked exactly the instructions younger than the given sequence number as squashed and ready to
  drain, and has left the other threads and the number of instructions alone.\<close>

theorem squash_completes:
  assumes "rob_inv r" "tid < MaxThreads" "instList r ! tid \<noteq> []"
    "length (instList r ! tid) \<le> Suc n * unat (squashWidth r)" "0 < n"
  shows "\<exists>r'. bindR (rob_squash False sq tid r) (squash_cycles n tid) = Inr r' \<and> rob_inv r' \<and> doneSquashing r' ! tid \<and>
    instList r' ! tid = map (\<lambda>i. if di_seqNum i > sq then mark_squashed i else i) (instList r ! tid) \<and>
    (\<forall>t. t \<noteq> tid \<longrightarrow> instList r' ! t = instList r ! t) \<and> numInstsInROB r' = numInstsInROB r"
  using assms by (rule squash_completes_aux)

definition rob_example :: rob where
  "rob_example = \<lparr>robPolicy = Dynamic, numEntries = 8, squashWidth = 1, numThreads = 1, activeThreads = [0],
     threadEntries = [3, 0, 0, 0], maxEntries = [8, 0, 0, 0],
     instList = [map (\<lambda>n. \<lparr>di_seqNum = n, di_threadNumber = 0, di_squashed = False, di_canCommit = False,
       di_inROB = True, di_committed = False\<rparr>) [1, 2, 3], [], [], []],
     rob_head = Some (0, 1), rob_tail = Some (0, 3), squashIt = replicate 4 It_End, numInstsInROB = 3,
     squashedSeqNum = [0, 0, 0, 0], doneSquashing = replicate 4 True, robStatus = replicate 4 Running\<rparr>"

lemma lt_MaxThreads_cases:
  "tid < MaxThreads \<Longrightarrow> tid = 0 \<or> tid = 1 \<or> tid = 2 \<or> tid = 3"
  unfolding MaxThreads_def by linarith

lemma replicate_MaxThreads: "replicate 4 x = [x, x, x, x]"
  by (simp add: numeral_eq_Suc)

lemma rob_example_inv: "rob_inv rob_example"
proof -
  have "thread_inv rob_example tid" if "tid < MaxThreads" for tid
    using lt_MaxThreads_cases [OF that]
    by (elim disjE) (simp_all add: rob_example_def thread_inv_def seqs_def replicate_MaxThreads)
  then show ?thesis
    by (simp add: rob_inv_def rob_shape_def) (simp add: rob_example_def MaxThreads_def)
qed

theorem squash_completes_witness:
  "\<exists>r'. bindR (rob_squash False 1 0 rob_example) (squash_cycles 2 0) = Inr r' \<and> doneSquashing r' ! 0 \<and>
     map di_squashed (instList r' ! 0) = [False, True, True]"
proof -
  have "instList rob_example ! 0 \<noteq> []" "length (instList rob_example ! 0) \<le> Suc 2 * unat (squashWidth rob_example)"
    by (simp_all add: rob_example_def)
  from squash_completes [OF rob_example_inv _ this, of 1] show ?thesis
    by (auto simp: MaxThreads_def) (auto simp: rob_example_def mark_squashed_def)
qed

text \<open>C5: the reorder buffer keeps program order. However instructions enter, complete, are squashed and
  retire, the instructions a thread has retired, followed by those it still has in the buffer,
  are in the order of their sequence numbers; the counters agree with the lists and stay
  within the capacity; and no assertion of the code fails.\<close>

theorem rob_keeps_program_order:
  assumes "rob_run log r"
  shows "(tid < MaxThreads \<longrightarrow> sorted_wrt (<) (map di_seqNum (filter (\<lambda>i. di_threadNumber i = tid) log @ instList r ! tid)) \<and>
      unat (threadEntries r ! tid) = length (instList r ! tid) \<and>
      (\<exists>r'. rob_squash ex sq tid r = Inr r') \<and> (\<not> doneSquashing r ! tid \<longrightarrow> (\<exists>r'. doSquash ex tid r = Inr r'))) \<and>
    numInstsInROB r = int (sum_list (map length (instList r))) \<and> numInstsInROB r \<le> uint (numEntries r) \<and>
    (insert_ready inst r \<longrightarrow> (\<exists>r'. insertInst inst r = Inr r')) \<and>
    (retire_ready tid r \<longrightarrow> (\<exists>i r'. retireHead tid r = Inr (i, r')))"
proof -
  have inv: "rob_inv r" and ord: "\<forall>tid < MaxThreads. in_order log r tid" using rob_run_inv [OF assms] by auto
  have "tid < MaxThreads \<Longrightarrow> sorted_wrt (<) (map di_seqNum (filter (\<lambda>i. di_threadNumber i = tid) log @ instList r ! tid)) \<and>
      unat (threadEntries r ! tid) = length (instList r ! tid)"
    using ord rob_invD(2) [OF inv] by (auto simp: in_order_def thread_log_def seqs_def thread_inv_def)
  then show ?thesis
    using rob_squash_frame [OF inv] doSquash_frame [OF inv] insertInst_ok [OF inv] retireHead_ok [OF inv] rob_invD(3,4) [OF inv]
    by blast
qed

theorem rob_keeps_program_order_witness:
  "\<exists>r. ROB Partitioned 8 1 2 0 = Inr r \<and> unat (threadEntries (setActiveThreads [0, 1] r) ! 1) = 0 \<and>
     (\<exists>r'. insertInst \<lparr>di_seqNum = 1, di_threadNumber = 0, di_squashed = False, di_canCommit = False,
       di_inROB = False, di_committed = False\<rparr> (setActiveThreads [0, 1] r) = Inr r')"
proof -
  let ?i = "\<lparr>di_seqNum = 1, di_threadNumber = 0, di_squashed = False, di_canCommit = False, di_inROB = False, di_committed = False\<rparr>"
  obtain r where r: "ROB Partitioned 8 1 2 0 = Inr r" by (auto simp: ROB_def MaxThreads_def Let_def)
  then have run: "rob_run [] (setActiveThreads [0, 1] r)" by (rule rob_run.start)
  have "instList (setActiveThreads [0, 1] r) ! 1 = []" "insert_ready ?i (setActiveThreads [0, 1] r)"
    using r by (auto simp: ROB_def MaxThreads_def Let_def rob_resetState_def setActiveThreads_def insert_ready_def)
  then show ?thesis
    using r rob_keeps_program_order [OF run, of 1 False 0 ?i] by (auto simp: MaxThreads_def)
qed

section \<open>The oldest instruction\<close>

lemma update_head_loop_min:
  "\<forall>t \<in> set ts. sorted_wrt (<) (seqs (insts ! t)) \<Longrightarrow>
   case update_head_loop insts ts h of
     None \<Rightarrow> h = None \<and> (\<forall>t \<in> set ts. insts ! t = [])
   | Some (tid, n) \<Rightarrow> (h = Some (tid, n) \<or> tid \<in> set ts \<and> insts ! tid \<noteq> [] \<and> di_seqNum (hd (insts ! tid)) = n) \<and>
       (\<forall>t m. h = Some (t, m) \<longrightarrow> n \<le> m) \<and> (\<forall>t \<in> set ts. \<forall>i \<in> set (insts ! t). n \<le> di_seqNum i)"
proof (induction ts arbitrary: h)
  case (Cons t ts)
  let ?h = "case insts ! t of [] \<Rightarrow> h
      | inst # _ \<Rightarrow> (case h of None \<Rightarrow> Some (t, di_seqNum inst)
          | Some (_, lowest_num) \<Rightarrow> if di_seqNum inst < lowest_num then Some (t, di_seqNum inst) else h)"
  have srt: "\<forall>i \<in> set (insts ! t). di_seqNum (hd (insts ! t)) \<le> di_seqNum i"
    using Cons.prems by (cases "insts ! t") (auto simp: seqs_def order_le_less)
  note IH = Cons.IH [of ?h]
  show ?case
  proof (cases "update_head_loop insts ts ?h")
    case None
    then show ?thesis using IH Cons.prems by (auto split: list.splits option.splits prod.splits if_splits)
  next
    case (Some a)
    then obtain tid n where a: "update_head_loop insts ts ?h = Some (tid, n)" by (cases a) auto
    then show ?thesis using IH Cons.prems srt
      by (cases "insts ! t"; cases h)
        (auto split: prod.splits if_splits simp: not_less intro: order_trans dest: order.strict_implies_order, (meson order_trans)+)
  qed
qed (auto split: option.splits)

text \<open>after a retirement the global head is the oldest instruction of the active threads: no active
  thread has an older one, and there is no head exactly when none of them has any.\<close>

lemma retire_updates_oldest:
  assumes "rob_inv r" "retire_ready tid r" "set (activeThreads r) \<subseteq> {..<MaxThreads}"
  shows "\<exists>i r'. retireHead tid r = Inr (i, r') \<and>
    (case rob_head r' of None \<Rightarrow> \<forall>t \<in> set (activeThreads r'). instList r' ! t = []
     | Some (h, n) \<Rightarrow> h \<in> set (activeThreads r') \<and> instList r' ! h \<noteq> [] \<and> di_seqNum (hd (instList r' ! h)) = n \<and>
         (\<forall>t \<in> set (activeThreads r'). \<forall>x \<in> set (instList r' ! t). n \<le> di_seqNum x))"
proof -
  obtain r' where r': "retireHead tid r = Inr ((hd (instList r ! tid))\<lparr>di_inROB := False, di_committed := True\<rparr>, r')" "rob_inv r'"
    "activeThreads r' = activeThreads r" "rob_head r' = update_head_loop (instList r') (activeThreads r') None"
    using retireHead_ok [OF assms(1,2)] by blast
  have "\<forall>t \<in> set (activeThreads r'). sorted_wrt (<) (seqs (instList r' ! t))"
    using rob_invD(2) [OF r'(2)] assms(3) r'(3) by (auto simp: thread_inv_def)
  from update_head_loop_min [OF this, of None] show ?thesis
    using r'(1,4) by (auto split: option.splits)
qed

lemma retire_updates_oldest_witness:
  "\<exists>i r'. retireHead 0 (rob_example\<lparr>instList := [map (\<lambda>n. \<lparr>di_seqNum = n, di_threadNumber = 0, di_squashed = False,
       di_canCommit = True, di_inROB = True, di_committed = False\<rparr>) [1, 2, 3], [], [], []]\<rparr>) = Inr (i, r') \<and>
     rob_head r' = Some (0, 2)"
proof -
  let ?r = "rob_example\<lparr>instList := [map (\<lambda>n. \<lparr>di_seqNum = n, di_threadNumber = 0, di_squashed = False,
       di_canCommit = True, di_inROB = True, di_committed = False\<rparr>) [1, 2, 3], [], [], []]\<rparr>"
  have "thread_inv ?r tid" if "tid < MaxThreads" for tid
    using lt_MaxThreads_cases [OF that]
    by (elim disjE) (simp_all add: rob_example_def thread_inv_def seqs_def replicate_MaxThreads)
  then have inv: "rob_inv ?r"
    by (simp add: rob_inv_def rob_shape_def) (simp add: rob_example_def MaxThreads_def)
  have rd: "retire_ready 0 ?r" "set (activeThreads ?r) \<subseteq> {..<MaxThreads}"
    by (simp_all add: retire_ready_def rob_example_def MaxThreads_def)
  obtain i r' where o: "retireHead 0 ?r = Inr (i, r')"
    "case rob_head r' of None \<Rightarrow> \<forall>t \<in> set (activeThreads r'). instList r' ! t = []
     | Some (h, n) \<Rightarrow> h \<in> set (activeThreads r') \<and> instList r' ! h \<noteq> [] \<and> di_seqNum (hd (instList r' ! h)) = n \<and>
         (\<forall>t \<in> set (activeThreads r'). \<forall>x \<in> set (instList r' ! t). n \<le> di_seqNum x)"
    using retire_updates_oldest [OF inv rd] by blast
  from o(1) have "activeThreads r' = [0]" "seqs (instList r' ! 0) = [2, 3]"
    by (auto simp: retireHead_def rob_example_def updateHead_def seqs_def)
  then have "rob_head r' = Some (0, 2)"
    using o(2) by (cases "instList r' ! 0") (auto simp: seqs_def split: option.splits)
  then show ?thesis using o(1) by blast
qed

section \<open>Partitions\<close>

lemma reset_loop_partitioned:
  assumes "robPolicy r = Partitioned" "set ts \<subseteq> {..<length me}"
  shows "reset_loop r ts me ! t = (if t \<in> set ts then numEntries r div of_nat (length (activeThreads r)) else me ! t)"
  using assms(2)
proof (induction ts arbitrary: me)
  case (Cons a ts)
  then show ?case using assms(1) Cons.IH [of "me[a := numEntries r div of_nat (length (activeThreads r))]"] by auto
qed simp

lemma unat_div_of_nat_le:
  assumes "n < 2 ^ 32"
  shows "n * unat ((w :: u32) div of_nat n) \<le> unat w"
proof -
  have "unat (of_nat n :: u32) = n" using assms by (simp add: unat_of_nat take_bit_nat_eq_self)
  then show ?thesis by (simp add: unat_div_distrib)
qed

text \<open>dividing the buffer between the active threads never promises more entries than there are: after
  \<^verbatim>\<open>resetEntries\<close> under the partitioned policy the shares of the active threads are equal and
  their sum is at most the capacity, and no other thread's share has changed.\<close>

lemma resetEntries_partition:
  assumes "robPolicy r = Partitioned" "distinct (activeThreads r)" "set (activeThreads r) \<subseteq> {..<MaxThreads}"
    "length (maxEntries r) = MaxThreads"
  shows "sum_list (map (\<lambda>t. unat (maxEntries (resetEntries r) ! t)) (activeThreads r)) \<le> unat (numEntries r) \<and>
    (\<forall>t \<in> set (activeThreads r). unat (maxEntries (resetEntries r) ! t) = unat (numEntries r) div length (activeThreads r)) \<and>
    (\<forall>t. t \<notin> set (activeThreads r) \<longrightarrow> maxEntries (resetEntries r) ! t = maxEntries r ! t)"
proof -
  let ?q = "numEntries r div of_nat (length (activeThreads r))"
  have "length (activeThreads r) \<le> MaxThreads"
    using card_mono [OF _ assms(3)] assms(2) by (simp add: distinct_card)
  then have n: "length (activeThreads r) < 2 ^ 32" by (simp add: MaxThreads_def)
  have me: "maxEntries (resetEntries r) = reset_loop r (activeThreads r) (maxEntries r)"
    using assms(1) by (simp add: resetEntries_def)
  have eq: "maxEntries (resetEntries r) ! t = ?q" if "t \<in> set (activeThreads r)" for t
    using reset_loop_partitioned [OF assms(1), of "activeThreads r" "maxEntries r"] that assms(3,4) me by simp
  then have "map (\<lambda>t. unat (maxEntries (resetEntries r) ! t)) (activeThreads r) = replicate (length (activeThreads r)) (unat ?q)"
    by (intro replicate_eqI) auto
  then have "sum_list (map (\<lambda>t. unat (maxEntries (resetEntries r) ! t)) (activeThreads r)) \<le> unat (numEntries r)"
    using unat_div_of_nat_le [OF n, of "numEntries r"] by (simp add: sum_list_replicate)
  moreover have "unat ?q = unat (numEntries r) div length (activeThreads r)"
    using n by (simp add: unat_div_distrib unat_of_nat take_bit_nat_eq_self)
  ultimately show ?thesis
    using eq reset_loop_partitioned [OF assms(1), of "activeThreads r" "maxEntries r"] assms(3,4) me by simp
qed

lemma resetEntries_partition_witness:
  "unat (maxEntries (resetEntries (rob_example\<lparr>robPolicy := Partitioned, activeThreads := [0, 2, 3]\<rparr>)) ! 2) = 2"
proof -
  have "unat (maxEntries (resetEntries (rob_example\<lparr>robPolicy := Partitioned, activeThreads := [0, 2, 3]\<rparr>)) ! 2) =
      unat (numEntries rob_example) div 3"
    using resetEntries_partition [of "rob_example\<lparr>robPolicy := Partitioned, activeThreads := [0, 2, 3]\<rparr>"]
    by (simp add: rob_example_def MaxThreads_def)
  then show ?thesis by (simp add: rob_example_def)
qed

text \<open>When a thread becomes active the shares shrink below what the others already hold, and the number
  of free entries of such a thread wraps around to nearly \<open>2 ^ 32\<close>.\<close>

lemma numFreeEntries_tid_wraps:
  assumes "maxEntries r ! tid < threadEntries r ! tid"
  shows "unat (rob_numFreeEntries_tid tid r) = 2 ^ 32 - (unat (threadEntries r ! tid) - unat (maxEntries r ! tid))"
proof -
  have "\<not> threadEntries r ! tid \<le> maxEntries r ! tid" using assms by (simp add: not_le)
  then show ?thesis
    using unsigned_less [of "threadEntries r ! tid", where 'a = nat] assms
    by (simp add: rob_numFreeEntries_tid_def unat_sub_if' word_less_nat_alt)
qed

lemma numFreeEntries_tid_wraps_reachable:
  "rob_numFreeEntries_tid 0 (resetEntries (rob_example\<lparr>robPolicy := Partitioned, activeThreads := [0, 1, 2, 3]\<rparr>)) = 0xFFFFFFFF"
  by (simp add: rob_numFreeEntries_tid_def resetEntries_def rob_example_def)

text \<open>A thread that fills its share is not reported full: the test compares with the capacity of the
  whole buffer.\<close>

lemma isFull_tid_ignores_partition:
  defines "r \<equiv> resetEntries (rob_example\<lparr>robPolicy := Partitioned, numEntries := 6, activeThreads := [0, 1]\<rparr>)"
  shows "threadEntries r ! 0 = maxEntries r ! 0" "\<not> rob_isFull_tid 0 r"
  by (simp_all add: r_def rob_isFull_tid_def resetEntries_def rob_example_def)

end
