(* ===== verification/Rename.thy ===== *)
theory Rename
  imports Gem5_Prelude "HOL-Library.Multiset"
begin

text \<open>
  Register renaming of the out-of-order core: register identifiers
  (\<^verbatim>\<open>src/gem5/src/cpu/reg_class.hh\<close>), the identifiers of the physical register file
  (\<^verbatim>\<open>src/gem5/src/cpu/o3/regfile.cc\<close>), the free lists (\<^verbatim>\<open>free_list.hh\<close>), the rename maps
  (\<^verbatim>\<open>rename_map.hh\<close>, \<^verbatim>\<open>rename_map.cc\<close>), the scoreboard (\<^verbatim>\<open>scoreboard.hh\<close>), the history buffer
  of the rename stage (\<^verbatim>\<open>rename.cc\<close>) and the way the CPU sets them up (\<^verbatim>\<open>cpu.cc\<close>).

  A pointer to a physical register is its class and its position in the vector of that class;
  the objects pointed to are a store. A null pointer in a map is \<^const>\<open>None\<close>. The register
  classes of the instruction set (their sizes and zero registers) and the flattening of register
  identifiers are arguments. \<^verbatim>\<open>NumVecElemPerVecReg\<close> is the one of Arm. Switching between the two
  vector renaming modes, which moves register contents, is not modelled.
\<close>

section \<open>Registers\<close>

datatype reg_class = IntRegClass | FloatRegClass | VecRegClass | VecElemClass | VecPredRegClass
  | CCRegClass | MiscRegClass

record reg_id =
  regClass :: reg_class
  regIdx :: u16
  elemIdx :: u16
  numPinnedWrites :: int

definition IllegalElemIndex :: u16 where "IllegalElemIndex = - 1"

definition NumVecElemPerVecReg :: nat where "NumVecElemPerVecReg = 64"

definition RegId :: "reg_class \<Rightarrow> u16 \<Rightarrow> reg_id result" where
  "RegId c i = guardR (c \<noteq> VecElemClass) Panic_Error
     (Inr \<lparr>regClass = c, regIdx = i, elemIdx = IllegalElemIndex, numPinnedWrites = 0\<rparr>)"

definition RegId_elem :: "reg_class \<Rightarrow> u16 \<Rightarrow> u16 \<Rightarrow> reg_id result" where
  "RegId_elem c i e = guardR ((e = IllegalElemIndex) \<longleftrightarrow> (c \<noteq> VecElemClass)) Panic_Error
     (Inr \<lparr>regClass = c, regIdx = i, elemIdx = e, numPinnedWrites = 0\<rparr>)"

definition RegId_eq :: "reg_id \<Rightarrow> reg_id \<Rightarrow> bool" where
  "RegId_eq a b \<longleftrightarrow> regClass a = regClass b \<and> regIdx a = regIdx b \<and> elemIdx a = elemIdx b"

definition flatIndex :: "reg_id \<Rightarrow> u16" where
  "flatIndex r = (if regClass r = VecElemClass then of_nat NumVecElemPerVecReg * regIdx r + elemIdx r else regIdx r)"

type_synonym phys_ptr = "reg_class \<times> nat"

record phys_reg =
  pr_class :: reg_class
  pr_index :: u16
  pr_elem :: u16
  pr_flatIdx :: u16
  pr_numPinnedWrites :: int
  pr_toComplete :: int
  pr_pinned :: bool

type_synonym reg_store = "phys_ptr \<Rightarrow> phys_reg"

definition setNumPinnedWrites :: "int \<Rightarrow> phys_reg \<Rightarrow> phys_reg" where
  "setNumPinnedWrites n p = p\<lparr>pr_pinned := (n \<noteq> 0), pr_numPinnedWrites := n\<rparr>"

definition decrNumPinnedWrites :: "phys_reg \<Rightarrow> phys_reg" where
  "decrNumPinnedWrites p = p\<lparr>pr_numPinnedWrites := pr_numPinnedWrites p - 1\<rparr>"

definition isFixedMapping :: "phys_reg \<Rightarrow> bool" where
  "isFixedMapping p \<longleftrightarrow> pr_class p = MiscRegClass"

datatype vec_mode = Full | Elem

text \<open>The numbers of physical registers the CPU is configured with.\<close>

record reg_file =
  numPhysicalIntRegs :: nat
  numPhysicalFloatRegs :: nat
  numPhysicalVecRegs :: nat
  numPhysicalVecPredRegs :: nat
  numPhysicalCCRegs :: nat
  numMiscRegs :: nat
  rf_vecMode :: vec_mode

fun numPhysRegs :: "reg_file \<Rightarrow> reg_class \<Rightarrow> nat" where
  "numPhysRegs rf IntRegClass = numPhysicalIntRegs rf" |
  "numPhysRegs rf FloatRegClass = numPhysicalFloatRegs rf" |
  "numPhysRegs rf VecRegClass = numPhysicalVecRegs rf" |
  "numPhysRegs rf VecElemClass = numPhysicalVecRegs rf * NumVecElemPerVecReg" |
  "numPhysRegs rf VecPredRegClass = numPhysicalVecPredRegs rf" |
  "numPhysRegs rf CCRegClass = numPhysicalCCRegs rf" |
  "numPhysRegs rf MiscRegClass = numMiscRegs rf"

fun flat_base :: "reg_file \<Rightarrow> reg_class \<Rightarrow> nat" where
  "flat_base rf IntRegClass = 0" |
  "flat_base rf FloatRegClass = numPhysicalIntRegs rf" |
  "flat_base rf VecRegClass = numPhysicalIntRegs rf + numPhysicalFloatRegs rf" |
  "flat_base rf VecElemClass = numPhysicalIntRegs rf + numPhysicalFloatRegs rf + numPhysicalVecRegs rf" |
  "flat_base rf VecPredRegClass = numPhysicalIntRegs rf + numPhysicalFloatRegs rf + numPhysicalVecRegs rf +
     numPhysicalVecRegs rf * NumVecElemPerVecReg" |
  "flat_base rf CCRegClass = numPhysicalIntRegs rf + numPhysicalFloatRegs rf + numPhysicalVecRegs rf +
     numPhysicalVecRegs rf * NumVecElemPerVecReg + numPhysicalVecPredRegs rf" |
  "flat_base rf MiscRegClass = 0"

definition totalNumPhysRegs :: "reg_file \<Rightarrow> nat" where
  "totalNumPhysRegs rf = numPhysicalIntRegs rf + numPhysicalFloatRegs rf + numPhysicalVecRegs rf +
     numPhysicalVecRegs rf * NumVecElemPerVecReg + numPhysicalVecPredRegs rf + numPhysicalCCRegs rf"

text \<open>The vectors of identifiers the register file's constructor fills, as positions and as the objects
  at those positions.\<close>

definition getRegIds :: "reg_file \<Rightarrow> reg_class \<Rightarrow> phys_ptr list" where
  "getRegIds rf c = map (Pair c) [0..<numPhysRegs rf c]"

definition PhysRegFile :: "reg_file \<Rightarrow> reg_store" where
  "PhysRegFile rf = (\<lambda>(c, i).
     \<lparr>pr_class = c, pr_index = of_nat (if c = VecElemClass then i div NumVecElemPerVecReg else i),
      pr_elem = (if c = VecElemClass then of_nat (i mod NumVecElemPerVecReg) else IllegalElemIndex),
      pr_flatIdx = (if c = MiscRegClass then 0 else of_nat (flat_base rf c + i)),
      pr_numPinnedWrites = 0, pr_toComplete = 0, pr_pinned = False\<rparr>)"

section \<open>Free lists\<close>

text \<open>\<^verbatim>\<open>SimpleFreeList\<close> is a queue of pointers, the front first.\<close>

definition sfl_getReg :: "phys_ptr list \<Rightarrow> (phys_ptr \<times> phys_ptr list) result" where
  "sfl_getReg fl = (case fl of [] \<Rightarrow> Inl Assert_Failed | p # ps \<Rightarrow> Inr (p, ps))"

definition sfl_addReg :: "phys_ptr \<Rightarrow> phys_ptr list \<Rightarrow> phys_ptr list" where
  "sfl_addReg p fl = fl @ [p]"

definition sfl_addRegs :: "phys_ptr list \<Rightarrow> phys_ptr list \<Rightarrow> phys_ptr list" where
  "sfl_addRegs ps fl = fl @ ps"

definition sfl_numFreeRegs :: "phys_ptr list \<Rightarrow> u32" where
  "sfl_numFreeRegs fl = of_nat (length fl)"

record free_list =
  intList :: "phys_ptr list"
  floatList :: "phys_ptr list"
  vecList :: "phys_ptr list"
  vecElemList :: "phys_ptr list"
  predList :: "phys_ptr list"
  ccList :: "phys_ptr list"

fun fl_sel :: "reg_class \<Rightarrow> free_list \<Rightarrow> phys_ptr list" where
  "fl_sel IntRegClass fl = intList fl" |
  "fl_sel FloatRegClass fl = floatList fl" |
  "fl_sel VecRegClass fl = vecList fl" |
  "fl_sel VecElemClass fl = vecElemList fl" |
  "fl_sel VecPredRegClass fl = predList fl" |
  "fl_sel CCRegClass fl = ccList fl" |
  "fl_sel MiscRegClass fl = []"

fun fl_upd :: "reg_class \<Rightarrow> phys_ptr list \<Rightarrow> free_list \<Rightarrow> free_list" where
  "fl_upd IntRegClass l fl = fl\<lparr>intList := l\<rparr>" |
  "fl_upd FloatRegClass l fl = fl\<lparr>floatList := l\<rparr>" |
  "fl_upd VecRegClass l fl = fl\<lparr>vecList := l\<rparr>" |
  "fl_upd VecElemClass l fl = fl\<lparr>vecElemList := l\<rparr>" |
  "fl_upd VecPredRegClass l fl = fl\<lparr>predList := l\<rparr>" |
  "fl_upd CCRegClass l fl = fl\<lparr>ccList := l\<rparr>" |
  "fl_upd MiscRegClass l fl = fl"

definition fl_addReg :: "phys_ptr \<Rightarrow> free_list \<Rightarrow> free_list result" where
  "fl_addReg p fl = guardR (fst p \<noteq> MiscRegClass) Panic_Error
     (Inr (fl_upd (fst p) (sfl_addReg p (fl_sel (fst p) fl)) fl))"

definition fl_addRegs :: "phys_ptr list \<Rightarrow> free_list \<Rightarrow> free_list result" where
  "fl_addRegs ps fl = (if ps = [] then Inr fl
     else guardR (fst (hd ps) = fst (last ps)) Panic_Error
       (guardR (fst (hd ps) \<noteq> MiscRegClass) Panic_Error
         (Inr (fl_upd (fst (hd ps)) (sfl_addRegs ps (fl_sel (fst (hd ps)) fl)) fl))))"

text \<open>\<^verbatim>\<open>getIntReg\<close> and its siblings, by class.\<close>

definition fl_getReg :: "reg_class \<Rightarrow> free_list \<Rightarrow> (phys_ptr \<times> free_list) result" where
  "fl_getReg c fl = bindR (sfl_getReg (fl_sel c fl)) (\<lambda>(p, ps). Inr (p, fl_upd c ps fl))"

definition initFreeList :: "reg_file \<Rightarrow> free_list \<Rightarrow> free_list result" where
  "initFreeList rf fl =
     bindR (fl_addRegs (getRegIds rf IntRegClass) fl) (\<lambda>fl.
     bindR (fl_addRegs (getRegIds rf FloatRegClass) fl) (\<lambda>fl.
     bindR (fl_addRegs (getRegIds rf (if rf_vecMode rf = Full then VecRegClass else VecElemClass)) fl) (\<lambda>fl.
     bindR (fl_addRegs (getRegIds rf VecPredRegClass) fl) (\<lambda>fl.
     fl_addRegs (getRegIds rf CCRegClass) fl))))"

definition UnifiedFreeList :: "reg_file \<Rightarrow> free_list result" where
  "UnifiedFreeList rf = initFreeList rf
     \<lparr>intList = [], floatList = [], vecList = [], vecElemList = [], predList = [], ccList = []\<rparr>"

section \<open>Rename maps\<close>

record simple_map =
  sm_map :: "phys_ptr option list"
  sm_zeroReg :: reg_id

record reg_class_info =
  rci_size :: nat
  rci_zeroReg :: u16

type_synonym reg_classes = "reg_class \<Rightarrow> reg_class_info"

definition sm_init :: "reg_class_info \<Rightarrow> simple_map \<Rightarrow> simple_map result" where
  "sm_init info m = guardR (sm_map m = []) Assert_Failed
     (bindR (RegId IntRegClass (rci_zeroReg info)) (\<lambda>z.
        Inr \<lparr>sm_map = replicate (rci_size info) None, sm_zeroReg = z\<rparr>))"

definition sm_lookup :: "reg_id \<Rightarrow> simple_map \<Rightarrow> phys_ptr option result" where
  "sm_lookup r m = guardR (unat (flatIndex r) \<le> length (sm_map m)) Assert_Failed
     (guardR (unat (flatIndex r) < length (sm_map m)) Out_Of_Range (Inr (sm_map m ! unat (flatIndex r))))"

definition sm_setEntry :: "reg_id \<Rightarrow> phys_ptr \<Rightarrow> simple_map \<Rightarrow> simple_map result" where
  "sm_setEntry r p m = guardR (unat (flatIndex r) \<le> length (sm_map m)) Assert_Failed
     (guardR (unat (flatIndex r) < length (sm_map m)) Out_Of_Range
       (Inr (m\<lparr>sm_map := (sm_map m)[unat (flatIndex r) := Some p]\<rparr>)))"

definition sm_rename :: "reg_id \<Rightarrow> simple_map \<Rightarrow> phys_ptr list \<Rightarrow> reg_store \<Rightarrow>
    ((phys_ptr \<times> phys_ptr) \<times> simple_map \<times> phys_ptr list \<times> reg_store) result" where
  "sm_rename arch_reg m fl regs =
     guardR (unat (flatIndex arch_reg) < length (sm_map m)) Out_Of_Range
     (case sm_map m ! unat (flatIndex arch_reg) of None \<Rightarrow> Inl Out_Of_Range
      | Some prev_reg \<Rightarrow>
        if RegId_eq arch_reg (sm_zeroReg m)
        then guardR (pr_index (regs prev_reg) = regIdx (sm_zeroReg m)) Assert_Failed
          (Inr ((prev_reg, prev_reg), m, fl, regs))
        else if pr_numPinnedWrites (regs prev_reg) > 0
        then guardR (numPinnedWrites arch_reg = 0) Assert_Failed
          (Inr ((prev_reg, prev_reg), m, fl, regs(prev_reg := decrNumPinnedWrites (regs prev_reg))))
        else bindR (sfl_getReg fl) (\<lambda>(renamed_reg, fl).
          Inr ((renamed_reg, prev_reg), m\<lparr>sm_map := (sm_map m)[unat (flatIndex arch_reg) := Some renamed_reg]\<rparr>, fl,
            regs(renamed_reg := (setNumPinnedWrites (numPinnedWrites arch_reg) (regs renamed_reg))
              \<lparr>pr_toComplete := numPinnedWrites arch_reg + 1\<rparr>))))"

record unified_map =
  intMap :: simple_map
  floatMap :: simple_map
  ccMap :: simple_map
  vecMap :: simple_map
  vecElemMap :: simple_map
  predMap :: simple_map
  um_vecMode :: vec_mode
  um_regFile :: reg_file

fun um_sel :: "reg_class \<Rightarrow> unified_map \<Rightarrow> simple_map" where
  "um_sel IntRegClass u = intMap u" |
  "um_sel FloatRegClass u = floatMap u" |
  "um_sel VecRegClass u = vecMap u" |
  "um_sel VecElemClass u = vecElemMap u" |
  "um_sel VecPredRegClass u = predMap u" |
  "um_sel CCRegClass u = ccMap u" |
  "um_sel MiscRegClass u = \<lparr>sm_map = [], sm_zeroReg = sm_zeroReg (intMap u)\<rparr>"

fun um_upd :: "reg_class \<Rightarrow> simple_map \<Rightarrow> unified_map \<Rightarrow> unified_map" where
  "um_upd IntRegClass m u = u\<lparr>intMap := m\<rparr>" |
  "um_upd FloatRegClass m u = u\<lparr>floatMap := m\<rparr>" |
  "um_upd VecRegClass m u = u\<lparr>vecMap := m\<rparr>" |
  "um_upd VecElemClass m u = u\<lparr>vecElemMap := m\<rparr>" |
  "um_upd VecPredRegClass m u = u\<lparr>predMap := m\<rparr>" |
  "um_upd CCRegClass m u = u\<lparr>ccMap := m\<rparr>" |
  "um_upd MiscRegClass m u = u"

text \<open>The assertions on the vector mode in the switches of the unified map.\<close>

definition mode_ok :: "reg_class \<Rightarrow> unified_map \<Rightarrow> bool" where
  "mode_ok c u \<longleftrightarrow> (c = VecRegClass \<longrightarrow> um_vecMode u = Full) \<and> (c = VecElemClass \<longrightarrow> um_vecMode u = Elem)"

definition um_init :: "reg_classes \<Rightarrow> reg_file \<Rightarrow> vec_mode \<Rightarrow> unified_map result" where
  "um_init rcs rf mode =
     (let empty_map = \<lparr>sm_map = [], sm_zeroReg = \<lparr>regClass = IntRegClass, regIdx = 0, elemIdx = IllegalElemIndex, numPinnedWrites = 0\<rparr>\<rparr> in
      bindR (sm_init (rcs IntRegClass) empty_map) (\<lambda>im.
      bindR (sm_init (rcs FloatRegClass) empty_map) (\<lambda>fm.
      bindR (sm_init (rcs VecRegClass) empty_map) (\<lambda>vm.
      bindR (sm_init (rcs VecElemClass) empty_map) (\<lambda>em.
      bindR (sm_init (rcs VecPredRegClass) empty_map) (\<lambda>pm.
      bindR (sm_init (rcs CCRegClass) empty_map) (\<lambda>cm.
      Inr \<lparr>intMap = im, floatMap = fm, ccMap = cm, vecMap = vm, vecElemMap = em, predMap = pm,
        um_vecMode = mode, um_regFile = rf\<rparr>)))))))"

definition um_lookup :: "reg_id \<Rightarrow> unified_map \<Rightarrow> phys_ptr option result" where
  "um_lookup r u = (if regClass r = MiscRegClass
     then guardR (unat (flatIndex r) < numMiscRegs (um_regFile u)) Out_Of_Range (Inr (Some (MiscRegClass, unat (flatIndex r))))
     else guardR (mode_ok (regClass r) u) Assert_Failed (sm_lookup r (um_sel (regClass r) u)))"

definition um_setEntry :: "reg_id \<Rightarrow> phys_ptr \<Rightarrow> unified_map \<Rightarrow> unified_map result" where
  "um_setEntry r p u = guardR (fst p = regClass r) Assert_Failed
     (if regClass r = MiscRegClass
      then bindR (um_lookup r u) (\<lambda>q. guardR (q = Some p) Assert_Failed (Inr u))
      else guardR (mode_ok (regClass r) u) Assert_Failed
        (bindR (sm_setEntry r p (um_sel (regClass r) u)) (\<lambda>m. Inr (um_upd (regClass r) m u))))"

definition um_rename :: "reg_id \<Rightarrow> unified_map \<Rightarrow> free_list \<Rightarrow> reg_store \<Rightarrow>
    ((phys_ptr \<times> phys_ptr) \<times> unified_map \<times> free_list \<times> reg_store) result" where
  "um_rename r u fl regs = (if regClass r = MiscRegClass
     then bindR (um_lookup r u) (\<lambda>q. case q of None \<Rightarrow> Inl Out_Of_Range | Some p \<Rightarrow> Inr ((p, p), u, fl, regs))
     else guardR (mode_ok (regClass r) u) Assert_Failed
       (bindR (sm_rename r (um_sel (regClass r) u) (fl_sel (regClass r) fl) regs)
         (\<lambda>(info, m, l, regs). Inr (info, um_upd (regClass r) m u, fl_upd (regClass r) l fl, regs))))"

definition numFreeEntries :: "unified_map \<Rightarrow> free_list \<Rightarrow> u32" where
  "numFreeEntries u fl = Min (set [sfl_numFreeRegs (intList fl), sfl_numFreeRegs (floatList fl),
     if um_vecMode u = Full then sfl_numFreeRegs (vecList fl) else sfl_numFreeRegs (vecElemList fl),
     sfl_numFreeRegs (predList fl)])"


section \<open>Scoreboard\<close>

record scoreboard =
  sb_zeroReg :: u16
  regScoreBoard :: "bool list"

definition Scoreboard :: "nat \<Rightarrow> u16 \<Rightarrow> scoreboard" where
  "Scoreboard n z = \<lparr>sb_zeroReg = z, regScoreBoard = replicate n True\<rparr>"

definition sb_is_zero :: "scoreboard \<Rightarrow> phys_reg \<Rightarrow> bool" where
  "sb_is_zero sb p \<longleftrightarrow> pr_class p = IntRegClass \<and> pr_index p = sb_zeroReg sb"

definition sb_getReg :: "phys_reg \<Rightarrow> scoreboard \<Rightarrow> bool result" where
  "sb_getReg p sb = guardR (unat (pr_flatIdx p) < length (regScoreBoard sb)) Assert_Failed
     (if isFixedMapping p then Inr True
      else (let ready = regScoreBoard sb ! unat (pr_flatIdx p)
            in guardR (sb_is_zero sb p \<longrightarrow> ready) Assert_Failed (Inr ready)))"

definition sb_setReg :: "phys_reg \<Rightarrow> scoreboard \<Rightarrow> scoreboard result" where
  "sb_setReg p sb = guardR (unat (pr_flatIdx p) < length (regScoreBoard sb)) Assert_Failed
     (Inr (if isFixedMapping p then sb else sb\<lparr>regScoreBoard := (regScoreBoard sb)[unat (pr_flatIdx p) := True]\<rparr>))"

definition sb_unsetReg :: "phys_reg \<Rightarrow> scoreboard \<Rightarrow> scoreboard result" where
  "sb_unsetReg p sb = guardR (unat (pr_flatIdx p) < length (regScoreBoard sb)) Assert_Failed
     (Inr (if isFixedMapping p \<or> sb_is_zero sb p then sb
           else sb\<lparr>regScoreBoard := (regScoreBoard sb)[unat (pr_flatIdx p) := False]\<rparr>))"

section \<open>The rename stage\<close>

record rename_history =
  hb_seq :: u64
  hb_arch :: reg_id
  hb_new :: phys_ptr
  hb_prev :: phys_ptr

text \<open>The state the stage works on: the free lists and registers shared by the threads, the rename map
  and the history buffer of each thread (youngest first), and the map of the commit stage.\<close>

record rename_state =
  rs_free :: free_list
  rs_regs :: reg_store
  rs_score :: scoreboard
  rs_map :: "unified_map list"
  rs_commit_map :: "unified_map list"
  rs_hist :: "rename_history list list"

fun rename_dest_loop :: "(reg_id \<Rightarrow> reg_id) \<Rightarrow> u64 \<Rightarrow> nat \<Rightarrow> reg_id list \<Rightarrow> rename_state \<Rightarrow>
    ((phys_ptr \<times> phys_ptr) list \<times> rename_state) result" where
  "rename_dest_loop flatten seq tid [] s = Inr ([], s)" |
  "rename_dest_loop flatten seq tid (dest_reg # rs) s =
     (let flat_dest_regid = (flatten dest_reg)\<lparr>numPinnedWrites := numPinnedWrites dest_reg\<rparr> in
      bindR (um_rename flat_dest_regid (rs_map s ! tid) (rs_free s) (rs_regs s)) (\<lambda>((new, prev), u, fl, regs).
      bindR (sb_unsetReg (regs new) (rs_score s)) (\<lambda>sb.
      bindR (rename_dest_loop flatten seq tid rs
        (s\<lparr>rs_free := fl, rs_regs := regs, rs_score := sb, rs_map := (rs_map s)[tid := u],
           rs_hist := (rs_hist s)[tid := \<lparr>hb_seq = seq, hb_arch = flat_dest_regid, hb_new = new, hb_prev = prev\<rparr> # rs_hist s ! tid]\<rparr>))
      (\<lambda>(infos, s). Inr ((new, prev) # infos, s)))))"

definition renameDestRegs :: "(reg_id \<Rightarrow> reg_id) \<Rightarrow> u64 \<Rightarrow> reg_id list \<Rightarrow> nat \<Rightarrow> rename_state \<Rightarrow>
    ((phys_ptr \<times> phys_ptr) list \<times> rename_state) result" where
  "renameDestRegs flatten seq dests tid s = rename_dest_loop flatten seq tid dests s"

fun renameSrcRegs :: "(reg_id \<Rightarrow> reg_id) \<Rightarrow> reg_id list \<Rightarrow> nat \<Rightarrow> rename_state \<Rightarrow> (phys_ptr \<times> bool) list result" where
  "renameSrcRegs flatten [] tid s = Inr []" |
  "renameSrcRegs flatten (src_reg # rs) tid s =
     bindR (um_lookup (flatten src_reg) (rs_map s ! tid)) (\<lambda>q.
     case q of None \<Rightarrow> Inl Out_Of_Range
     | Some renamed_reg \<Rightarrow>
       bindR (sb_getReg (rs_regs s renamed_reg) (rs_score s)) (\<lambda>ready.
       bindR (renameSrcRegs flatten rs tid s) (\<lambda>l. Inr ((renamed_reg, ready) # l))))"

fun squash_history :: "u64 \<Rightarrow> rename_history list \<Rightarrow> unified_map \<Rightarrow> free_list \<Rightarrow>
    (rename_history list \<times> unified_map \<times> free_list) result" where
  "squash_history sn [] u fl = Inr ([], u, fl)" |
  "squash_history sn (h # hs) u fl =
     (if hb_seq h > sn
      then (if hb_new h \<noteq> hb_prev h
            then bindR (um_setEntry (hb_arch h) (hb_prev h) u) (\<lambda>u.
                 bindR (fl_addReg (hb_new h) fl) (\<lambda>fl. squash_history sn hs u fl))
            else squash_history sn hs u fl)
      else Inr (h # hs, u, fl))"

definition rename_doSquash :: "u64 \<Rightarrow> nat \<Rightarrow> rename_state \<Rightarrow> rename_state result" where
  "rename_doSquash sn tid s =
     bindR (squash_history sn (rs_hist s ! tid) (rs_map s ! tid) (rs_free s)) (\<lambda>(hs, u, fl).
       Inr (s\<lparr>rs_hist := (rs_hist s)[tid := hs], rs_map := (rs_map s)[tid := u], rs_free := fl\<rparr>))"

text \<open>The walk of \<^verbatim>\<open>removeFromHistory\<close> from the oldest entry: the argument is the buffer reversed.\<close>

fun commit_history :: "u64 \<Rightarrow> rename_history list \<Rightarrow> free_list \<Rightarrow> (rename_history list \<times> free_list) result" where
  "commit_history sn [] fl = Inr ([], fl)" |
  "commit_history sn (h # hs) fl =
     (if hb_seq h \<le> sn
      then bindR (if hb_new h \<noteq> hb_prev h then fl_addReg (hb_prev h) fl else Inr fl) (commit_history sn hs)
      else Inr (h # hs, fl))"

definition removeFromHistory :: "u64 \<Rightarrow> nat \<Rightarrow> rename_state \<Rightarrow> rename_state result" where
  "removeFromHistory sn tid s =
     bindR (commit_history sn (rev (rs_hist s ! tid)) (rs_free s)) (\<lambda>(hs, fl).
       Inr (s\<lparr>rs_hist := (rs_hist s)[tid := rev hs], rs_free := fl\<rparr>))"

section \<open>Setting up the maps\<close>

fun collectR :: "'a result list \<Rightarrow> 'a list result" where
  "collectR [] = Inr []" |
  "collectR (x # xs) = bindR x (\<lambda>y. bindR (collectR xs) (\<lambda>ys. Inr (y # ys)))"

text \<open>The architectural registers of a class in the order the constructor of the CPU maps them.\<close>

definition class_regs :: "reg_classes \<Rightarrow> reg_class \<Rightarrow> reg_id list result" where
  "class_regs rcs c = collectR (map (\<lambda>i. RegId c (of_nat i)) [0..<rci_size (rcs c)])"

definition elem_regs :: "reg_classes \<Rightarrow> reg_id list result" where
  "elem_regs rcs =
     (let numVecs = rci_size (rcs VecRegClass); numElems = rci_size (rcs VecElemClass) in
      guardR (numVecs \<noteq> 0) Out_Of_Range
      (let elemsPerVec = numElems div numVecs in
       collectR (concat (map (\<lambda>i. map (\<lambda>l. RegId_elem VecElemClass (of_nat i) (of_nat l)) [0..<elemsPerVec]) [0..<numVecs]))))"

fun init_regs :: "reg_id list \<Rightarrow> nat \<Rightarrow> rename_state \<Rightarrow> rename_state result" where
  "init_regs [] tid s = Inr s" |
  "init_regs (rid # rids) tid s =
     bindR (fl_getReg (regClass rid) (rs_free s)) (\<lambda>(phys_reg, fl).
     bindR (um_setEntry rid phys_reg (rs_map s ! tid)) (\<lambda>u.
     bindR (um_setEntry rid phys_reg (rs_commit_map s ! tid)) (\<lambda>cu.
     init_regs rids tid (s\<lparr>rs_free := fl, rs_map := (rs_map s)[tid := u], rs_commit_map := (rs_commit_map s)[tid := cu]\<rparr>))))"

definition init_thread :: "reg_classes \<Rightarrow> vec_mode \<Rightarrow> nat \<Rightarrow> rename_state \<Rightarrow> rename_state result" where
  "init_thread rcs mode tid s =
     bindR (class_regs rcs IntRegClass) (\<lambda>l. bindR (init_regs l tid s) (\<lambda>s.
     bindR (class_regs rcs FloatRegClass) (\<lambda>l. bindR (init_regs l tid s) (\<lambda>s.
     bindR (if mode = Full then class_regs rcs VecRegClass else elem_regs rcs) (\<lambda>l. bindR (init_regs l tid s) (\<lambda>s.
     bindR (class_regs rcs VecPredRegClass) (\<lambda>l. bindR (init_regs l tid s) (\<lambda>s.
     bindR (class_regs rcs CCRegClass) (\<lambda>l. init_regs l tid s)))))))))"

fun init_threads :: "reg_classes \<Rightarrow> vec_mode \<Rightarrow> nat list \<Rightarrow> rename_state \<Rightarrow> rename_state result" where
  "init_threads rcs mode [] s = Inr s" |
  "init_threads rcs mode (tid # ts) s = bindR (init_thread rcs mode tid s) (init_threads rcs mode ts)"

definition cpu_rename_init :: "reg_classes \<Rightarrow> reg_file \<Rightarrow> nat \<Rightarrow> nat \<Rightarrow> rename_state result" where
  "cpu_rename_init rcs rf numThreads active_threads =
     bindR (UnifiedFreeList rf) (\<lambda>fl.
     guardR (active_threads \<le> numThreads) Fatal_Error
     (guardR (active_threads \<le> MaxThreads) Panic_Error
     (guardR (numThreads \<noteq> 0 \<and>
       numPhysicalIntRegs rf \<ge> numThreads * rci_size (rcs IntRegClass) \<and>
       numPhysicalFloatRegs rf \<ge> numThreads * rci_size (rcs FloatRegClass) \<and>
       numPhysicalVecRegs rf \<ge> numThreads * rci_size (rcs VecRegClass) \<and>
       numPhysicalVecPredRegs rf \<ge> numThreads * rci_size (rcs VecPredRegClass) \<and>
       numPhysicalCCRegs rf \<ge> numThreads * rci_size (rcs CCRegClass)) Assert_Failed
     (bindR (um_init rcs rf (rf_vecMode rf)) (\<lambda>u.
      init_threads rcs (rf_vecMode rf) [0..<active_threads]
        \<lparr>rs_free = fl, rs_regs = PhysRegFile rf,
         rs_score = Scoreboard (totalNumPhysRegs rf) (rci_zeroReg (rcs IntRegClass)),
         rs_map = replicate numThreads u, rs_commit_map = replicate numThreads u, rs_hist = replicate numThreads []\<rparr>)))))"

section \<open>Reading and writing the maps and lists by class\<close>

lemma fl_sel_upd [simp]: "fl_sel c (fl_upd d l fl) = (if c = d \<and> c \<noteq> MiscRegClass then l else fl_sel c fl)"
  by (cases c; cases d) auto

lemma fl_upd_same [simp]: "fl_upd c (fl_sel c fl) fl = fl"
  by (cases c) auto

lemma um_sel_upd [simp]: "c \<noteq> MiscRegClass \<Longrightarrow> um_sel c (um_upd d m u) = (if c = d then m else um_sel c u)"
  by (cases c; cases d) auto

lemma um_upd_same [simp]: "um_upd c (um_sel c u) u = u"
  by (cases c) auto

lemma um_upd_upd [simp]: "um_upd c m (um_upd c n u) = um_upd c m u"
  by (cases c) auto

lemma um_upd_fields [simp]: "um_vecMode (um_upd c m u) = um_vecMode u" "um_regFile (um_upd c m u) = um_regFile u"
  by (cases c; simp)+

text \<open>An entry of the unified map, and the map with an entry replaced.\<close>

definition um_entry :: "reg_id \<Rightarrow> unified_map \<Rightarrow> phys_ptr option" where
  "um_entry r u = (if regClass r = MiscRegClass then Some (MiscRegClass, unat (flatIndex r))
     else sm_map (um_sel (regClass r) u) ! unat (flatIndex r))"

definition um_put :: "reg_id \<Rightarrow> phys_ptr \<Rightarrow> unified_map \<Rightarrow> unified_map" where
  "um_put r p u = (if regClass r = MiscRegClass then u
     else um_upd (regClass r) ((um_sel (regClass r) u)\<lparr>sm_map := (sm_map (um_sel (regClass r) u))[unat (flatIndex r) := Some p]\<rparr>) u)"

definition arch_ok :: "reg_id \<Rightarrow> unified_map \<Rightarrow> bool" where
  "arch_ok r u \<longleftrightarrow> mode_ok (regClass r) u \<and> (if regClass r = MiscRegClass then unat (flatIndex r) < numMiscRegs (um_regFile u)
     else unat (flatIndex r) < length (sm_map (um_sel (regClass r) u)))"

lemma mode_ok_put [simp]: "mode_ok c (um_put r p u) = mode_ok c u"
  by (simp add: mode_ok_def um_put_def)

lemma arch_ok_put [simp]: "arch_ok r' (um_put r p u) = arch_ok r' u"
  by (auto simp: arch_ok_def um_put_def mode_ok_def)

lemma um_entry_put_same: "arch_ok r u \<Longrightarrow> regClass r \<noteq> MiscRegClass \<Longrightarrow> um_entry r (um_put r p u) = Some p"
  by (simp add: um_entry_def um_put_def arch_ok_def)

lemma um_put_put [simp]: "um_put r p (um_put r q u) = um_put r p u"
  by (simp add: um_put_def)

lemma um_put_entry: "arch_ok r u \<Longrightarrow> um_entry r u = Some p \<Longrightarrow> um_put r p u = u"
  by (auto simp: um_put_def um_entry_def arch_ok_def) (metis list_update_id simple_map.surjective simple_map.update_convs(1) um_upd_same)

lemma um_setEntry_ok:
  assumes "arch_ok r u" "fst p = regClass r" "regClass r \<noteq> MiscRegClass"
  shows "um_setEntry r p u = Inr (um_put r p u)"
  using assms by (simp add: um_setEntry_def arch_ok_def um_put_def sm_setEntry_def)

lemma um_setEntryD:
  assumes "um_setEntry r p u = Inr u'"
  shows "arch_ok r u" "fst p = regClass r" "u' = um_put r p u" "regClass r = MiscRegClass \<Longrightarrow> um_entry r u = Some p"
  using assms
  by (auto simp: um_setEntry_def um_lookup_def sm_setEntry_def bindR_Inr_iff um_put_def arch_ok_def mode_ok_def um_entry_def split: if_splits)

lemma um_renameD:
  assumes "um_rename r u fl regs = Inr ((new, prev), u', fl', regs')"
  shows "arch_ok r u" "um_entry r u = Some prev"
    "new = prev \<and> u' = u \<and> fl' = fl \<or>
     regClass r \<noteq> MiscRegClass \<and> (\<exists>ps. fl_sel (regClass r) fl = new # ps \<and> fl' = fl_upd (regClass r) ps fl \<and> u' = um_put r new u)"
    "\<forall>p. pr_flatIdx (regs' p) = pr_flatIdx (regs p) \<and> pr_class (regs' p) = pr_class (regs p) \<and> pr_index (regs' p) = pr_index (regs p)"
  using assms
  by (auto simp: um_rename_def um_lookup_def sm_rename_def sfl_getReg_def bindR_Inr_iff um_put_def arch_ok_def mode_ok_def um_entry_def
      setNumPinnedWrites_def decrNumPinnedWrites_def split: if_splits option.splits list.splits)



section \<open>Conservation of physical registers\<close>

fun opt_mset :: "'a option \<Rightarrow> 'a multiset" where
  "opt_mset None = {#}" |
  "opt_mset (Some p) = {#p#}"

definition sm_mset :: "simple_map \<Rightarrow> phys_ptr multiset" where
  "sm_mset m = sum_list (map opt_mset (sm_map m))"

definition um_mset :: "unified_map \<Rightarrow> phys_ptr multiset" where
  "um_mset u = sm_mset (intMap u) + sm_mset (floatMap u) + sm_mset (ccMap u) + sm_mset (vecMap u) +
     sm_mset (vecElemMap u) + sm_mset (predMap u)"

definition fl_mset :: "free_list \<Rightarrow> phys_ptr multiset" where
  "fl_mset fl = mset (intList fl) + mset (floatList fl) + mset (vecList fl) + mset (vecElemList fl) + mset (predList fl) + mset (ccList fl)"

text \<open>The registers a history entry keeps from being reused: the previous mapping, when there was a change.\<close>

definition hist_mset :: "rename_history list \<Rightarrow> phys_ptr multiset" where
  "hist_mset h = mset (map hb_prev (filter (\<lambda>e. hb_new e \<noteq> hb_prev e) h))"

definition reg_mset :: "rename_state \<Rightarrow> phys_ptr multiset" where
  "reg_mset s = fl_mset (rs_free s) + sum_list (map um_mset (rs_map s)) + sum_list (map hist_mset (rs_hist s))"

lemma fl_mset_upd: "c \<noteq> MiscRegClass \<Longrightarrow> fl_mset (fl_upd c l fl) + mset (fl_sel c fl) = fl_mset fl + mset l"
  by (cases c) (auto simp: fl_mset_def ac_simps)

lemma um_mset_upd: "c \<noteq> MiscRegClass \<Longrightarrow> um_mset (um_upd c m u) + sm_mset (um_sel c u) = um_mset u + sm_mset m"
  by (cases c) (auto simp: um_mset_def ac_simps)

lemma mset_exchange:
  fixes X :: "'a multiset"
  assumes "X + S = U + M" "M + O' = S + P"
  shows "X + O' = U + P"
proof -
  have "(X + O') + S = (U + M) + O'" using assms(1) by (metis add.assoc add.commute)
  also have "\<dots> = (U + P) + S" using assms(2) by (metis add.assoc add.commute)
  finally show ?thesis by simp
qed

lemma um_mset_put:
  assumes "arch_ok r u" "regClass r \<noteq> MiscRegClass"
  shows "um_mset (um_put r p u) + opt_mset (um_entry r u) = um_mset u + {#p#}"
proof -
  let ?m = "um_sel (regClass r) u" and ?i = "unat (flatIndex r)"
  have "sm_mset (?m\<lparr>sm_map := (sm_map ?m)[?i := Some p]\<rparr>) + opt_mset (sm_map ?m ! ?i) = sm_mset ?m + {#p#}"
    using sum_list_update_add [of ?i "map opt_mset (sm_map ?m)" "{#p#}"] assms
    by (simp add: sm_mset_def map_update arch_ok_def)
  then show ?thesis
    using mset_exchange [OF um_mset_upd [OF assms(2), of "?m\<lparr>sm_map := (sm_map ?m)[?i := Some p]\<rparr>" u]] assms(2)
    by (simp only: um_put_def um_entry_def if_False)
qed

lemma fl_addReg_mset:
  assumes "fl_addReg p fl = Inr fl'"
  shows "fl_mset fl' = fl_mset fl + {#p#}"
  using assms fl_mset_upd [of "fst p" "sfl_addReg p (fl_sel (fst p) fl)" fl] by (auto simp: fl_addReg_def sfl_addReg_def)

text \<open>The part of the registers one thread's operation touches.\<close>

definition local_mset :: "free_list \<Rightarrow> unified_map \<Rightarrow> rename_history list \<Rightarrow> phys_ptr multiset" where
  "local_mset fl u h = fl_mset fl + um_mset u + hist_mset h"

definition set_thread :: "nat \<Rightarrow> free_list \<Rightarrow> unified_map \<Rightarrow> rename_history list \<Rightarrow> rename_state \<Rightarrow> rename_state" where
  "set_thread tid fl u h s = s\<lparr>rs_free := fl, rs_map := (rs_map s)[tid := u], rs_hist := (rs_hist s)[tid := h]\<rparr>"

lemma reg_mset_set_thread:
  assumes "tid < length (rs_map s)" "tid < length (rs_hist s)"
  shows "reg_mset (set_thread tid fl u h s) + local_mset (rs_free s) (rs_map s ! tid) (rs_hist s ! tid) = reg_mset s + local_mset fl u h"
proof (rule multiset_eqI)
  fix x
  have "sum_list (map um_mset ((rs_map s)[tid := u])) + um_mset (rs_map s ! tid) = sum_list (map um_mset (rs_map s)) + um_mset u"
    using sum_list_update_add [of tid "map um_mset (rs_map s)" "um_mset u"] assms(1) by (simp add: map_update)
  then have m: "count (sum_list (map um_mset ((rs_map s)[tid := u]))) x + count (um_mset (rs_map s ! tid)) x =
      count (sum_list (map um_mset (rs_map s))) x + count (um_mset u) x" by (metis count_union)
  have "sum_list (map hist_mset ((rs_hist s)[tid := h])) + hist_mset (rs_hist s ! tid) = sum_list (map hist_mset (rs_hist s)) + hist_mset h"
    using sum_list_update_add [of tid "map hist_mset (rs_hist s)" "hist_mset h"] assms(2) by (simp add: map_update)
  then have h: "count (sum_list (map hist_mset ((rs_hist s)[tid := h]))) x + count (hist_mset (rs_hist s ! tid)) x =
      count (sum_list (map hist_mset (rs_hist s))) x + count (hist_mset h) x" by (metis count_union)
  show "count (reg_mset (set_thread tid fl u h s) + local_mset (rs_free s) (rs_map s ! tid) (rs_hist s ! tid)) x =
      count (reg_mset s + local_mset fl u h) x"
    using m h by (simp add: reg_mset_def local_mset_def set_thread_def)
qed

lemma local_le_reg:
  assumes "tid < length (rs_map s)" "tid < length (rs_hist s)"
  shows "count (local_mset (rs_free s) (rs_map s ! tid) (rs_hist s ! tid)) p \<le> count (reg_mset s) p"
proof -
  have "sum_list (map um_mset (rs_map s)) = sum_list ((map um_mset (rs_map s))[tid := {#}]) + um_mset (rs_map s ! tid)"
    using sum_list_update_add [of tid "map um_mset (rs_map s)" "{#}"] assms(1) by simp
  moreover have "sum_list (map hist_mset (rs_hist s)) = sum_list ((map hist_mset (rs_hist s))[tid := {#}]) + hist_mset (rs_hist s ! tid)"
    using sum_list_update_add [of tid "map hist_mset (rs_hist s)" "{#}"] assms(2) by simp
  ultimately show ?thesis by (simp add: reg_mset_def local_mset_def)
qed

definition fl_typed :: "free_list \<Rightarrow> bool" where
  "fl_typed fl \<longleftrightarrow> (\<forall>c. \<forall>p \<in> set (fl_sel c fl). fst p = c)"

definition um_typed :: "unified_map \<Rightarrow> bool" where
  "um_typed u \<longleftrightarrow> (\<forall>c p. c \<noteq> MiscRegClass \<longrightarrow> Some p \<in> set (sm_map (um_sel c u)) \<longrightarrow> fst p = c)"

text \<open>The history of a thread explains its map: undoing the entries one by one, each finds the register
  it installed in its place.\<close>

fun hist_chain :: "unified_map \<Rightarrow> rename_history list \<Rightarrow> bool" where
  "hist_chain u [] = True" |
  "hist_chain u (e # h) = (arch_ok (hb_arch e) u \<and> um_entry (hb_arch e) u = Some (hb_new e) \<and>
     fst (hb_prev e) = regClass (hb_arch e) \<and> (regClass (hb_arch e) = MiscRegClass \<longrightarrow> hb_prev e = hb_new e) \<and>
     hist_chain (um_put (hb_arch e) (hb_prev e) u) h)"

lemma um_typedD:
  assumes "um_typed u" "arch_ok r u" "um_entry r u = Some p"
  shows "fst p = regClass r"
  using assms by (auto simp: um_typed_def um_entry_def arch_ok_def split: if_splits) (metis nth_mem surjective_pairing fst_conv)+

lemma um_typed_put: "um_typed u \<Longrightarrow> fst p = regClass r \<Longrightarrow> um_typed (um_put r p u)"
  by (auto simp: um_typed_def um_put_def dest!: set_update_subset_insert')

lemma fl_typed_upd: "fl_typed fl \<Longrightarrow> (\<And>p. p \<in> set l \<Longrightarrow> fst p = c) \<Longrightarrow> fl_typed (fl_upd c l fl)"
  by (auto simp: fl_typed_def)

lemma fl_addReg_ok:
  assumes "fst p \<noteq> MiscRegClass" "fl_typed fl"
  shows "\<exists>fl'. fl_addReg p fl = Inr fl' \<and> fl_typed fl' \<and> fl_mset fl' = fl_mset fl + {#p#}"
proof -
  have "fl_typed (fl_upd (fst p) (sfl_addReg p (fl_sel (fst p) fl)) fl)"
    using assms(2) by (intro fl_typed_upd) (auto simp: sfl_addReg_def fl_typed_def)
  then show ?thesis using assms fl_addReg_mset [of p fl] by (auto simp: fl_addReg_def)
qed

lemma um_entry_in:
  assumes "arch_ok r u" "um_entry r u = Some p" "regClass r \<noteq> MiscRegClass" "fst p \<noteq> MiscRegClass"
  shows "p \<in># um_mset u"
proof -
  have "um_mset (um_put r (MiscRegClass, 0) u) + {#p#} = um_mset u + {#(MiscRegClass, 0)#}"
    using um_mset_put [OF assms(1,3), of "(MiscRegClass, 0)"] assms(2) by simp
  then have "p \<in># um_mset u + {#(MiscRegClass, 0)#}"
    using union_single_eq_member [of p "um_mset (um_put r (MiscRegClass, 0) u)"] by (simp add: add.commute)
  then show ?thesis using assms(4) by auto
qed

lemma rename_local:
  fixes sn :: u64
  assumes "um_rename r u fl regs = Inr ((new, prev), u', fl', regs')" "hist_chain u h" "um_typed u" "fl_typed fl"
    "\<And>p. count (local_mset fl u h) p \<le> 1"
  defines "e \<equiv> \<lparr>hb_seq = sn, hb_arch = r, hb_new = new, hb_prev = prev\<rparr>"
  shows "local_mset fl' u' (e # h) = local_mset fl u h" "hist_chain u' (e # h)" "um_typed u'" "fl_typed fl'"
    "um_put r prev u' = u"
proof -
  note D = um_renameD [OF assms(1)]
  have prev: "fst prev = regClass r" using um_typedD [OF assms(3) D(1,2)] .
  have put: "um_put r prev u = u" using um_put_entry [OF D(1,2)] .
  have "local_mset fl' u' (e # h) = local_mset fl u h \<and> hist_chain u' (e # h) \<and> um_typed u' \<and> fl_typed fl' \<and> um_put r prev u' = u"
    using D(3)
  proof
    assume "new = prev \<and> u' = u \<and> fl' = fl"
    then show ?thesis using assms(2-4) D(1,2) prev put by (simp add: e_def local_mset_def hist_mset_def)
  next
    assume "regClass r \<noteq> MiscRegClass \<and> (\<exists>ps. fl_sel (regClass r) fl = new # ps \<and> fl' = fl_upd (regClass r) ps fl \<and> u' = um_put r new u)"
    then obtain ps where ps: "regClass r \<noteq> MiscRegClass" "fl_sel (regClass r) fl = new # ps" "fl' = fl_upd (regClass r) ps fl"
      "u' = um_put r new u" by blast
    have fl: "fl_mset fl = fl_mset fl' + {#new#}"
      using fl_mset_upd [OF ps(1), of ps fl] ps(2,3) by simp
    have um: "um_mset u' + {#prev#} = um_mset u + {#new#}"
      using um_mset_put [OF D(1) ps(1), of new] D(2) ps(4) by simp
    have ne: "new \<noteq> prev"
    proof
      assume eq: "new = prev"
      have "1 \<le> count (um_mset u) prev" using um_entry_in [OF D(1,2) ps(1)] prev ps(1) by simp
      moreover have "1 \<le> count (fl_mset fl) prev" using fl eq by simp
      ultimately have "2 \<le> count (local_mset fl u h) prev" unfolding local_mset_def count_union by linarith
      then show False using assms(5) [of prev] by simp
    qed
    have new: "fst new = regClass r" using assms(4) ps(2) by (simp add: fl_typed_def)
    have "local_mset fl' u' (e # h) = local_mset fl u h"
      using fl arg_cong [OF um, of "\<lambda>m. m + (fl_mset fl' + hist_mset h)"] ne
      by (simp add: local_mset_def hist_mset_def e_def ac_simps)
    moreover have "fl_typed fl'"
      using assms(4) ps(2,3) by (auto intro!: fl_typed_upd simp: fl_typed_def)
    ultimately show ?thesis
      using ps assms(2,3) prev new put um_entry_put_same [OF D(1) ps(1)] um_typed_put D(1) by (simp add: e_def)
  qed
  then show "local_mset fl' u' (e # h) = local_mset fl u h" "hist_chain u' (e # h)" "um_typed u'" "fl_typed fl'"
    "um_put r prev u' = u" by auto
qed

lemma squash_local:
  assumes "hist_chain u h" "um_typed u" "fl_typed fl"
  shows "\<exists>u' fl'. squash_history sn h u fl = Inr (dropWhile (\<lambda>e. hb_seq e > sn) h, u', fl') \<and>
    local_mset fl' u' (dropWhile (\<lambda>e. hb_seq e > sn) h) = local_mset fl u h \<and>
    hist_chain u' (dropWhile (\<lambda>e. hb_seq e > sn) h) \<and> um_typed u' \<and> fl_typed fl' \<and>
    u' = foldl (\<lambda>u e. um_put (hb_arch e) (hb_prev e) u) u (takeWhile (\<lambda>e. hb_seq e > sn) h)"
  using assms
proof (induction h arbitrary: u fl)
  case (Cons e h)
  let ?u = "um_put (hb_arch e) (hb_prev e) u"
  have e: "arch_ok (hb_arch e) u" "um_entry (hb_arch e) u = Some (hb_new e)" "fst (hb_prev e) = regClass (hb_arch e)"
    "regClass (hb_arch e) = MiscRegClass \<longrightarrow> hb_prev e = hb_new e" "hist_chain ?u h"
    using Cons.prems(1) by simp_all
  have u: "um_typed ?u" using um_typed_put Cons.prems(2) e(3) by blast
  consider "\<not> hb_seq e > sn" | "hb_seq e > sn" "hb_new e = hb_prev e" | "hb_seq e > sn" "hb_new e \<noteq> hb_prev e" by blast
  then show ?case
  proof cases
    case 1
    then show ?thesis using Cons.prems by simp
  next
    case 2
    have "?u = u" using um_put_entry [OF e(1,2)] 2(2) by simp
    then show ?thesis using Cons.IH [OF e(5) u Cons.prems(3)] 2 by (simp add: local_mset_def hist_mset_def)
  next
    case 3
    then have c: "regClass (hb_arch e) \<noteq> MiscRegClass" using e(4) by auto
    have new: "fst (hb_new e) \<noteq> MiscRegClass" using um_typedD [OF Cons.prems(2) e(1,2)] c by simp
    obtain fl1 where fl1: "fl_addReg (hb_new e) fl = Inr fl1" "fl_typed fl1" "fl_mset fl1 = fl_mset fl + {#hb_new e#}"
      using fl_addReg_ok [OF new Cons.prems(3)] by blast
    have "um_mset ?u + {#hb_new e#} = um_mset u + {#hb_prev e#}"
      using um_mset_put [OF e(1) c, of "hb_prev e"] e(2) by simp
    from arg_cong [OF this, of "\<lambda>m. m + (fl_mset fl + hist_mset h)"]
    have "local_mset fl1 ?u h = local_mset fl u (e # h)"
      using fl1(3) 3(2) by (simp add: local_mset_def hist_mset_def ac_simps)
    then show ?thesis
      using Cons.IH [OF e(5) u fl1(2)] 3 fl1(1) um_setEntry_ok [OF e(1,3) c] by simp
  qed
qed simp

lemma hist_chain_append: "hist_chain u (h @ h') \<Longrightarrow> hist_chain u h"
  by (induction h arbitrary: u) auto

lemma hist_chain_prevs: "hist_chain u h \<Longrightarrow> e \<in> set h \<Longrightarrow> hb_new e \<noteq> hb_prev e \<Longrightarrow> fst (hb_prev e) \<noteq> MiscRegClass"
  by (induction h arbitrary: u) auto

lemma commit_local:
  assumes "\<And>e. e \<in> set h \<Longrightarrow> hb_new e \<noteq> hb_prev e \<Longrightarrow> fst (hb_prev e) \<noteq> MiscRegClass" "fl_typed fl"
  shows "\<exists>fl'. commit_history sn h fl = Inr (dropWhile (\<lambda>e. hb_seq e \<le> sn) h, fl') \<and> fl_typed fl' \<and>
    fl_mset fl' + hist_mset (dropWhile (\<lambda>e. hb_seq e \<le> sn) h) = fl_mset fl + hist_mset h"
  using assms
proof (induction h arbitrary: fl)
  case (Cons e h)
  have IH: "\<exists>fl'. commit_history sn h fl1 = Inr (dropWhile (\<lambda>e. hb_seq e \<le> sn) h, fl') \<and> fl_typed fl' \<and>
      fl_mset fl' + hist_mset (dropWhile (\<lambda>e. hb_seq e \<le> sn) h) = fl_mset fl1 + hist_mset h" if "fl_typed fl1" for fl1
    using Cons.IH Cons.prems(1) that by auto
  show ?case
  proof (cases "hb_seq e \<le> sn \<and> hb_new e \<noteq> hb_prev e")
    case True
    then obtain fl1 where "fl_addReg (hb_prev e) fl = Inr fl1" "fl_typed fl1" "fl_mset fl1 = fl_mset fl + {#hb_prev e#}"
      using fl_addReg_ok [OF Cons.prems(1) [of e] Cons.prems(2)] by auto
    then show ?thesis using IH [of fl1] True by (auto simp: hist_mset_def)
  next
    case False
    then show ?thesis using IH [OF Cons.prems(2)] Cons.prems(2) by (auto simp: hist_mset_def)
  qed
qed simp

lemma hist_mset_rev [simp]: "hist_mset (rev h) = hist_mset h"
  by (simp add: hist_mset_def rev_filter rev_map)

text \<open>The invariant: the classes are respected, every history explains its map, and no register occurs
  twice among the free, mapped and remembered ones.\<close>

definition rename_inv :: "rename_state \<Rightarrow> bool" where
  "rename_inv s \<longleftrightarrow> length (rs_hist s) = length (rs_map s) \<and> fl_typed (rs_free s) \<and>
     (\<forall>t < length (rs_map s). um_typed (rs_map s ! t) \<and> hist_chain (rs_map s ! t) (rs_hist s ! t)) \<and>
     (\<forall>p. count (reg_mset s) p \<le> 1)"

lemma rename_inv_set_thread:
  assumes "rename_inv s" "tid < length (rs_map s)" "fl_typed fl" "um_typed u" "hist_chain u h"
    "local_mset fl u h = local_mset (rs_free s) (rs_map s ! tid) (rs_hist s ! tid)"
  shows "rename_inv (set_thread tid fl u h s)" "reg_mset (set_thread tid fl u h s) = reg_mset s"
proof -
  show r: "reg_mset (set_thread tid fl u h s) = reg_mset s"
    using reg_mset_set_thread [of tid s fl u h] assms(1,2,6) by (simp add: rename_inv_def)
  show "rename_inv (set_thread tid fl u h s)"
    unfolding rename_inv_def r using assms by (auto simp: rename_inv_def set_thread_def nth_list_update_eq_if)
qed

lemma rename_invD:
  assumes "rename_inv s" "tid < length (rs_map s)"
  shows "tid < length (rs_hist s)" "fl_typed (rs_free s)" "um_typed (rs_map s ! tid)" "hist_chain (rs_map s ! tid) (rs_hist s ! tid)"
    "count (local_mset (rs_free s) (rs_map s ! tid) (rs_hist s ! tid)) p \<le> 1"
proof -
  show *: "tid < length (rs_hist s)" using assms by (simp add: rename_inv_def)
  show "fl_typed (rs_free s)" "um_typed (rs_map s ! tid)" "hist_chain (rs_map s ! tid) (rs_hist s ! tid)"
    using assms by (auto simp: rename_inv_def)
  have "count (reg_mset s) p \<le> 1" using assms(1) unfolding rename_inv_def by blast
  then show "count (local_mset (rs_free s) (rs_map s ! tid) (rs_hist s ! tid)) p \<le> 1"
    using local_le_reg [OF assms(2) *, of p] by (rule le_trans [rotated])
qed

lemma rename_inv_regs [simp]: "rename_inv (s\<lparr>rs_regs := r, rs_score := sb\<rparr>) = rename_inv s"
  by (simp add: rename_inv_def reg_mset_def)

lemma reg_mset_regs [simp]: "reg_mset (s\<lparr>rs_regs := r, rs_score := sb\<rparr>) = reg_mset s"
  by (simp add: reg_mset_def)

lemma rename_inv_commit_map [simp]: "rename_inv (s\<lparr>rs_commit_map := m\<rparr>) = rename_inv s" "reg_mset (s\<lparr>rs_commit_map := m\<rparr>) = reg_mset s"
  by (simp_all add: rename_inv_def reg_mset_def)

lemma doSquash_ok:
  assumes "rename_inv s" "tid < length (rs_map s)"
  shows "\<exists>s'. rename_doSquash sn tid s = Inr s' \<and> rename_inv s' \<and> reg_mset s' = reg_mset s \<and>
    rs_hist s' = (rs_hist s)[tid := dropWhile (\<lambda>e. hb_seq e > sn) (rs_hist s ! tid)] \<and>
    rs_map s' = (rs_map s)[tid := foldl (\<lambda>u e. um_put (hb_arch e) (hb_prev e) u) (rs_map s ! tid)
      (takeWhile (\<lambda>e. hb_seq e > sn) (rs_hist s ! tid))]"
proof -
  note D = rename_invD [OF assms]
  let ?h = "dropWhile (\<lambda>e. hb_seq e > sn) (rs_hist s ! tid)"
  obtain u fl where *: "squash_history sn (rs_hist s ! tid) (rs_map s ! tid) (rs_free s) = Inr (?h, u, fl)"
    "local_mset fl u ?h = local_mset (rs_free s) (rs_map s ! tid) (rs_hist s ! tid)" "hist_chain u ?h" "um_typed u" "fl_typed fl"
    "u = foldl (\<lambda>u e. um_put (hb_arch e) (hb_prev e) u) (rs_map s ! tid) (takeWhile (\<lambda>e. hb_seq e > sn) (rs_hist s ! tid))"
    using squash_local [OF D(4,3,2)] by blast
  have "rename_doSquash sn tid s = Inr (set_thread tid fl u ?h s)"
    using *(1) by (simp add: rename_doSquash_def set_thread_def)
  then show ?thesis
    using rename_inv_set_thread [OF assms *(5,4,3,2)] *(6) by (simp add: set_thread_def)
qed

lemma removeFromHistory_ok:
  assumes "rename_inv s" "tid < length (rs_map s)"
  shows "\<exists>s'. removeFromHistory sn tid s = Inr s' \<and> rename_inv s' \<and> reg_mset s' = reg_mset s \<and>
    rs_hist s' = (rs_hist s)[tid := rev (dropWhile (\<lambda>e. hb_seq e \<le> sn) (rev (rs_hist s ! tid)))] \<and> rs_map s' = rs_map s"
proof -
  note D = rename_invD [OF assms]
  let ?d = "dropWhile (\<lambda>e. hb_seq e \<le> sn) (rev (rs_hist s ! tid))"
  obtain fl where *: "commit_history sn (rev (rs_hist s ! tid)) (rs_free s) = Inr (?d, fl)" "fl_typed fl"
    "fl_mset fl + hist_mset ?d = fl_mset (rs_free s) + hist_mset (rev (rs_hist s ! tid))"
    using commit_local [OF _ D(2), of "rev (rs_hist s ! tid)"] hist_chain_prevs [OF D(4)] by fastforce
  have "rs_hist s ! tid = rev ?d @ rev (takeWhile (\<lambda>e. hb_seq e \<le> sn) (rev (rs_hist s ! tid)))"
    by (metis rev_append rev_rev_ident takeWhile_dropWhile_id)
  then have ch: "hist_chain (rs_map s ! tid) (rev ?d)" using D(4) hist_chain_append by metis
  have loc: "local_mset fl (rs_map s ! tid) (rev ?d) = local_mset (rs_free s) (rs_map s ! tid) (rs_hist s ! tid)"
    using arg_cong [OF *(3), of "\<lambda>m. m + um_mset (rs_map s ! tid)"] by (simp add: local_mset_def ac_simps)
  have "removeFromHistory sn tid s = Inr (set_thread tid fl (rs_map s ! tid) (rev ?d) s)"
    using *(1) by (simp add: removeFromHistory_def set_thread_def)
  then show ?thesis
    using rename_inv_set_thread [OF assms *(2) D(3) ch loc] by (simp add: set_thread_def)
qed

text \<open>Frame conditions of an operation of thread \<open>tid\<close>.\<close>

definition other_threads :: "nat \<Rightarrow> rename_state \<Rightarrow> rename_state \<Rightarrow> bool" where
  "other_threads tid s s' \<longleftrightarrow> length (rs_map s') = length (rs_map s) \<and> length (rs_hist s') = length (rs_hist s) \<and>
     (\<forall>t. t \<noteq> tid \<longrightarrow> rs_map s' ! t = rs_map s ! t \<and> rs_hist s' ! t = rs_hist s ! t) \<and> rs_commit_map s' = rs_commit_map s"

lemma dest_step:
  assumes "um_rename r (rs_map s ! tid) (rs_free s) (rs_regs s) = Inr ((new, prev), u, fl, regs)" "rename_inv s" "tid < length (rs_map s)"
  shows "rename_inv (set_thread tid fl u (\<lparr>hb_seq = seq, hb_arch = r, hb_new = new, hb_prev = prev\<rparr> # rs_hist s ! tid)
      (s\<lparr>rs_regs := regs2, rs_score := sb\<rparr>))"
    "reg_mset (set_thread tid fl u (\<lparr>hb_seq = seq, hb_arch = r, hb_new = new, hb_prev = prev\<rparr> # rs_hist s ! tid)
      (s\<lparr>rs_regs := regs2, rs_score := sb\<rparr>)) = reg_mset s"
    "new \<in># reg_mset s \<or> fst new = MiscRegClass" "um_put r prev u = rs_map s ! tid"
proof -
  note D = rename_invD [OF assms(2,3)]
  note L = rename_local(1,2) [OF assms(1) D(4,3,2,5), where sn = seq] rename_local(3-5) [OF assms(1) D(4,3,2,5)]
  show "rename_inv (set_thread tid fl u (\<lparr>hb_seq = seq, hb_arch = r, hb_new = new, hb_prev = prev\<rparr> # rs_hist s ! tid)
      (s\<lparr>rs_regs := regs2, rs_score := sb\<rparr>))"
    "reg_mset (set_thread tid fl u (\<lparr>hb_seq = seq, hb_arch = r, hb_new = new, hb_prev = prev\<rparr> # rs_hist s ! tid)
      (s\<lparr>rs_regs := regs2, rs_score := sb\<rparr>)) = reg_mset s"
    using rename_inv_set_thread [of "s\<lparr>rs_regs := regs2, rs_score := sb\<rparr>" tid fl u] L assms(2,3) by auto
  show "um_put r prev u = rs_map s ! tid" using L(5) .
  note R = um_renameD [OF assms(1)]
  have "new \<in># local_mset (rs_free s) (rs_map s ! tid) (rs_hist s ! tid) \<or> fst new = MiscRegClass"
  proof (cases "fst new = MiscRegClass")
    case False
    have "new \<in># fl_mset (rs_free s) \<or> new \<in># um_mset (rs_map s ! tid)"
      using R(3)
    proof
      assume n: "new = prev \<and> u = rs_map s ! tid \<and> fl = rs_free s"
      then have "regClass r \<noteq> MiscRegClass" using False um_typedD [OF D(3) R(1,2)] by auto
      then show ?thesis using n um_entry_in [OF R(1,2)] False by auto
    next
      assume "regClass r \<noteq> MiscRegClass \<and> (\<exists>ps. fl_sel (regClass r) (rs_free s) = new # ps \<and> fl = fl_upd (regClass r) ps (rs_free s) \<and>
        u = um_put r new (rs_map s ! tid))"
      then have "new \<in> set (fl_sel (regClass r) (rs_free s))" by auto
      then show ?thesis by (cases "regClass r") (auto simp: fl_mset_def)
    qed
    then show ?thesis by (auto simp: local_mset_def)
  qed simp
  then show "new \<in># reg_mset s \<or> fst new = MiscRegClass"
    using local_le_reg [OF assms(3) D(1), of new] by (metis count_greater_zero_iff less_le_trans)
qed

lemma rename_dest_loop_ok:
  assumes "rename_dest_loop flatten seq tid dests s = Inr (infos, s')" "rename_inv s" "tid < length (rs_map s)"
  shows "rename_inv s' \<and> reg_mset s' = reg_mset s \<and> other_threads tid s s' \<and>
    (\<exists>es. rs_hist s' ! tid = es @ rs_hist s ! tid \<and> (\<forall>e \<in> set es. hb_seq e = seq) \<and>
      foldl (\<lambda>u e. um_put (hb_arch e) (hb_prev e) u) (rs_map s' ! tid) es = rs_map s ! tid)"
  using assms
proof (induction dests arbitrary: s infos)
  case Nil
  then show ?case by (auto simp: other_threads_def)
next
  case (Cons d dests)
  let ?r = "(flatten d)\<lparr>numPinnedWrites := numPinnedWrites d\<rparr>"
  obtain new prev u fl regs sb infos' where
    r: "um_rename ?r (rs_map s ! tid) (rs_free s) (rs_regs s) = Inr ((new, prev), u, fl, regs)"
    and l: "rename_dest_loop flatten seq tid dests
        (s\<lparr>rs_free := fl, rs_regs := regs, rs_score := sb, rs_map := (rs_map s)[tid := u],
           rs_hist := (rs_hist s)[tid := \<lparr>hb_seq = seq, hb_arch = ?r, hb_new = new, hb_prev = prev\<rparr> # rs_hist s ! tid]\<rparr>) = Inr (infos', s')"
    using Cons.prems(1) by (auto simp: bindR_Inr_iff Let_def)
  define e where "e = \<lparr>hb_seq = seq, hb_arch = ?r, hb_new = new, hb_prev = prev\<rparr>"
  let ?s = "set_thread tid fl u (e # rs_hist s ! tid) (s\<lparr>rs_regs := regs, rs_score := sb\<rparr>)"
  note L = dest_step [OF r Cons.prems(2,3)]
  have inv: "rename_inv ?s" "reg_mset ?s = reg_mset s" using L(1,2) by (simp_all add: e_def)
  have "rename_dest_loop flatten seq tid dests ?s = Inr (infos', s')"
    using l by (cases s) (simp add: set_thread_def e_def)
  from Cons.IH [OF this inv(1)] obtain es where IH: "rename_inv s'" "reg_mset s' = reg_mset ?s" "other_threads tid ?s s'"
    "rs_hist s' ! tid = es @ e # rs_hist s ! tid" "\<forall>x \<in> set es. hb_seq x = seq"
    "foldl (\<lambda>u e. um_put (hb_arch e) (hb_prev e) u) (rs_map s' ! tid) es = u"
    using Cons.prems(3) rename_invD(1) [OF Cons.prems(2,3)] by (auto simp: set_thread_def)
  have "other_threads tid s s'" using IH(3) by (auto simp: other_threads_def set_thread_def)
  moreover have "foldl (\<lambda>u e. um_put (hb_arch e) (hb_prev e) u) (rs_map s' ! tid) (es @ [e]) = rs_map s ! tid"
    using IH(6) L(4) by (simp add: e_def)
  moreover have "rs_hist s' ! tid = (es @ [e]) @ rs_hist s ! tid" "\<forall>x \<in> set (es @ [e]). hb_seq x = seq"
    using IH(4,5) by (auto simp: e_def)
  ultimately show ?case using IH(1,2) inv(2) by metis
qed

section \<open>The initial state\<close>

definition reg_key :: "reg_id \<Rightarrow> reg_class \<times> u16" where
  "reg_key r = (regClass r, flatIndex r)"

lemma um_entry_put_other:
  assumes "reg_key r \<noteq> reg_key r'"
  shows "um_entry r (um_put r' p u) = um_entry r u"
  using assms by (auto simp: um_entry_def um_put_def reg_key_def nth_list_update_eq_if word_unat_eq_iff)

lemma um_entry_put:
  assumes "reg_key r = reg_key r'" "arch_ok r' u" "regClass r' \<noteq> MiscRegClass"
  shows "um_entry r (um_put r' p u) = Some p"
  using assms by (auto simp: um_entry_def um_put_def reg_key_def arch_ok_def)

lemma fl_getRegD:
  assumes "fl_getReg c fl = Inr (p, fl')" "c \<noteq> MiscRegClass"
  shows "fl_sel c fl = p # fl_sel c fl'" "\<And>d. d \<noteq> c \<Longrightarrow> fl_sel d fl' = fl_sel d fl" "fl_mset fl = fl_mset fl' + {#p#}"
    "fl_typed fl \<Longrightarrow> fl_typed fl'"
proof -
  obtain ps where ps: "fl_sel c fl = p # ps" "fl' = fl_upd c ps fl"
    using assms(1) by (auto simp: fl_getReg_def sfl_getReg_def bindR_Inr_iff split: list.splits)
  then show "fl_sel c fl = p # fl_sel c fl'" "\<And>d. d \<noteq> c \<Longrightarrow> fl_sel d fl' = fl_sel d fl" using assms(2) by auto
  show "fl_mset fl = fl_mset fl' + {#p#}" using fl_mset_upd [OF assms(2), of ps fl] ps by simp
  show "fl_typed fl \<Longrightarrow> fl_typed fl'" using ps by (auto simp: fl_typed_def)
qed

definition unmapped :: "reg_id list \<Rightarrow> unified_map \<Rightarrow> bool" where
  "unmapped rids u \<longleftrightarrow> distinct (map reg_key rids) \<and> (\<forall>r \<in> set rids. regClass r \<noteq> MiscRegClass \<and> um_entry r u = None)"

lemma unmapped_Cons:
  assumes "unmapped (r # rids) u"
  shows "unmapped rids (um_put r p u)"
  using assms by (auto simp: unmapped_def image_iff) (metis um_entry_put_other)

lemma init_regs_ok:
  assumes "init_regs rids tid s = Inr s'" "unmapped rids (rs_map s ! tid)" "rename_inv s" "tid < length (rs_map s)"
    "rs_hist s ! tid = []"
  shows "rename_inv s' \<and> reg_mset s' = reg_mset s \<and> rs_hist s' = rs_hist s \<and> rs_regs s' = rs_regs s \<and> rs_score s' = rs_score s \<and>
    (\<exists>u. rs_map s' = (rs_map s)[tid := u])"
  using assms
proof (induction rids arbitrary: s)
  case Nil
  then show ?case by (auto intro: exI [of _ "rs_map s ! tid"])
next
  case (Cons r rids)
  obtain p fl u cu where st: "fl_getReg (regClass r) (rs_free s) = Inr (p, fl)" "um_setEntry r p (rs_map s ! tid) = Inr u"
    "init_regs rids tid (s\<lparr>rs_free := fl, rs_map := (rs_map s)[tid := u], rs_commit_map := (rs_commit_map s)[tid := cu]\<rparr>) = Inr s'"
    using Cons.prems(1) by (auto simp: bindR_Inr_iff)
  note D = rename_invD [OF Cons.prems(3,4)]
  note S = um_setEntryD [OF st(2)]
  have c: "regClass r \<noteq> MiscRegClass" "um_entry r (rs_map s ! tid) = None" using Cons.prems(2) by (auto simp: unmapped_def)
  note F = fl_getRegD [OF st(1) c(1)]
  have m: "um_mset u = um_mset (rs_map s ! tid) + {#p#}" using um_mset_put [OF S(1) c(1), of p] c(2) S(3) by simp
  let ?s1 = "set_thread tid fl u [] s"
  let ?s = "?s1\<lparr>rs_commit_map := (rs_commit_map s)[tid := cu]\<rparr>"
  have "local_mset fl u [] = local_mset (rs_free s) (rs_map s ! tid) (rs_hist s ! tid)"
    using m F(3) Cons.prems(5) by (simp add: local_mset_def)
  then have i1: "rename_inv ?s1" "reg_mset ?s1 = reg_mset s"
    using rename_inv_set_thread [OF Cons.prems(3,4) F(4) [OF D(2)]] um_typed_put [OF D(3) S(2)] S(3) by auto
  then have i2: "rename_inv ?s" "reg_mset ?s = reg_mset s" by simp_all
  have h: "rs_hist ?s = rs_hist s" using Cons.prems(5) by (simp add: set_thread_def) (metis list_update_id)
  have "s\<lparr>rs_free := fl, rs_map := (rs_map s)[tid := u], rs_commit_map := (rs_commit_map s)[tid := cu]\<rparr> = ?s"
    using h by (cases s) (simp add: set_thread_def)
  then have run: "init_regs rids tid ?s = Inr s'" using st(3) by simp
  have um: "unmapped rids (rs_map ?s ! tid)" using unmapped_Cons [OF Cons.prems(2)] S(3) Cons.prems(4) by (simp add: set_thread_def)
  have "tid < length (rs_map ?s)" "rs_hist ?s ! tid = []" using Cons.prems(4,5) h by (simp_all add: set_thread_def)
  from Cons.IH [OF run um i2(1) this] show ?case
    using h i2(2) by (auto simp: set_thread_def)
qed

text \<open>The registers are handed out in the order of the free lists.\<close>

lemma init_regs_order:
  assumes "init_regs rids tid s = Inr s'" "unmapped rids (rs_map s ! tid)" "tid < length (rs_map s)" "c \<noteq> MiscRegClass"
  shows "fl_sel c (rs_free s) = map (\<lambda>r. the (um_entry r (rs_map s' ! tid))) (filter (\<lambda>r. regClass r = c) rids) @ fl_sel c (rs_free s') \<and>
    (\<forall>r \<in> set rids. um_entry r (rs_map s' ! tid) \<noteq> None) \<and>
    (\<forall>r. reg_key r \<notin> reg_key ` set rids \<longrightarrow> um_entry r (rs_map s' ! tid) = um_entry r (rs_map s ! tid))"
  using assms
proof (induction rids arbitrary: s)
  case (Cons r rids)
  obtain p fl u cu where st: "fl_getReg (regClass r) (rs_free s) = Inr (p, fl)" "um_setEntry r p (rs_map s ! tid) = Inr u"
    "init_regs rids tid (s\<lparr>rs_free := fl, rs_map := (rs_map s)[tid := u], rs_commit_map := (rs_commit_map s)[tid := cu]\<rparr>) = Inr s'"
    using Cons.prems(1) by (auto simp: bindR_Inr_iff)
  let ?s = "s\<lparr>rs_free := fl, rs_map := (rs_map s)[tid := u], rs_commit_map := (rs_commit_map s)[tid := cu]\<rparr>"
  note S = um_setEntryD [OF st(2)]
  have c: "regClass r \<noteq> MiscRegClass" "reg_key r \<notin> reg_key ` set rids" using Cons.prems(2) by (auto simp: unmapped_def)
  note F = fl_getRegD [OF st(1) c(1)]
  have "unmapped rids (rs_map ?s ! tid)" using unmapped_Cons [OF Cons.prems(2)] S(3) Cons.prems(3) by simp
  from Cons.IH [OF st(3) this _ Cons.prems(4)] Cons.prems(3)
  have IH: "fl_sel c fl = map (\<lambda>r. the (um_entry r (rs_map s' ! tid))) (filter (\<lambda>r. regClass r = c) rids) @ fl_sel c (rs_free s')"
    "\<forall>r \<in> set rids. um_entry r (rs_map s' ! tid) \<noteq> None"
    "\<forall>r. reg_key r \<notin> reg_key ` set rids \<longrightarrow> um_entry r (rs_map s' ! tid) = um_entry r u" by auto
  have r: "um_entry r (rs_map s' ! tid) = Some p"
    using IH(3) c um_entry_put [OF refl S(1) c(1)] S(3) by simp
  moreover have "\<forall>x. reg_key x \<notin> reg_key ` set (r # rids) \<longrightarrow> um_entry x (rs_map s' ! tid) = um_entry x (rs_map s ! tid)"
    using IH(3) S(3) um_entry_put_other [of _ r p "rs_map s ! tid"] by auto
  moreover have "fl_sel c (rs_free s) = map (\<lambda>r. the (um_entry r (rs_map s' ! tid))) (filter (\<lambda>r. regClass r = c) (r # rids)) @ fl_sel c (rs_free s')"
    using F(1,2) IH(1) r by (cases "regClass r = c") auto
  ultimately show ?case using IH(2) by simp
qed simp

lemma fl_addRegs_ids:
  assumes "c \<noteq> MiscRegClass"
  shows "fl_addRegs (getRegIds rf c) fl = Inr (fl_upd c (fl_sel c fl @ getRegIds rf c) fl)"
proof (cases "getRegIds rf c = []")
  case False
  then have "fst (hd (getRegIds rf c)) = c" "fst (last (getRegIds rf c)) = c"
    by (simp_all add: getRegIds_def hd_map last_map)
  then show ?thesis using assms False by (simp add: fl_addRegs_def sfl_addRegs_def)
qed (simp add: fl_addRegs_def)

text \<open>All physical registers that can be allocated in the mode of the register file.\<close>

definition all_regs :: "reg_file \<Rightarrow> phys_ptr list" where
  "all_regs rf = getRegIds rf IntRegClass @ getRegIds rf FloatRegClass @
     getRegIds rf (if rf_vecMode rf = Full then VecRegClass else VecElemClass) @ getRegIds rf VecPredRegClass @ getRegIds rf CCRegClass"

lemma distinct_all_regs: "distinct (all_regs rf)"
  by (auto simp: all_regs_def getRegIds_def distinct_map inj_on_def)

lemma UnifiedFreeList_ok:
  "\<exists>fl. UnifiedFreeList rf = Inr fl \<and> fl_mset fl = mset (all_regs rf) \<and> fl_typed fl \<and>
    (\<forall>c. c \<noteq> MiscRegClass \<longrightarrow> (c = VecRegClass \<longrightarrow> rf_vecMode rf = Full) \<longrightarrow> (c = VecElemClass \<longrightarrow> rf_vecMode rf = Elem) \<longrightarrow>
      fl_sel c fl = getRegIds rf c)"
proof -
  let ?fl = "\<lparr>intList = getRegIds rf IntRegClass, floatList = getRegIds rf FloatRegClass,
    vecList = (if rf_vecMode rf = Full then getRegIds rf VecRegClass else []),
    vecElemList = (if rf_vecMode rf = Full then [] else getRegIds rf VecElemClass),
    predList = getRegIds rf VecPredRegClass, ccList = getRegIds rf CCRegClass\<rparr>"
  have "UnifiedFreeList rf = Inr ?fl"
    by (simp add: UnifiedFreeList_def initFreeList_def fl_addRegs_ids)
  moreover have "fl_mset ?fl = mset (all_regs rf)" by (simp add: fl_mset_def all_regs_def)
  moreover have "\<forall>p \<in> set (fl_sel c ?fl). fst p = c" for c by (cases c) (auto simp: getRegIds_def)
  moreover have "c \<noteq> MiscRegClass \<Longrightarrow> (c = VecRegClass \<longrightarrow> rf_vecMode rf = Full) \<Longrightarrow> (c = VecElemClass \<longrightarrow> rf_vecMode rf = Elem) \<Longrightarrow>
      fl_sel c ?fl = getRegIds rf c" for c by (cases c) auto
  ultimately show ?thesis unfolding fl_typed_def by blast
qed

lemma um_init_ok:
  "\<exists>u. um_init rcs rf mode = Inr u \<and> um_mset u = {#} \<and> um_vecMode u = mode \<and> um_regFile u = rf \<and>
    (\<forall>c. c \<noteq> MiscRegClass \<longrightarrow> sm_map (um_sel c u) = replicate (rci_size (rcs c)) None \<and>
      sm_zeroReg (um_sel c u) = \<lparr>regClass = IntRegClass, regIdx = rci_zeroReg (rcs c), elemIdx = IllegalElemIndex, numPinnedWrites = 0\<rparr>)"
proof -
  define mk where "mk = (\<lambda>c. \<lparr>sm_map = replicate (rci_size (rcs c)) None,
    sm_zeroReg = \<lparr>regClass = IntRegClass, regIdx = rci_zeroReg (rcs c), elemIdx = IllegalElemIndex, numPinnedWrites = 0\<rparr>\<rparr>)"
  let ?u = "\<lparr>intMap = mk IntRegClass, floatMap = mk FloatRegClass, ccMap = mk CCRegClass, vecMap = mk VecRegClass,
    vecElemMap = mk VecElemClass, predMap = mk VecPredRegClass, um_vecMode = mode, um_regFile = rf\<rparr>"
  have "um_init rcs rf mode = Inr ?u" by (simp add: um_init_def sm_init_def RegId_def mk_def)
  moreover have "sum_list (replicate n {#}) = ({#} :: phys_ptr multiset)" for n by (induction n) auto
  then have "sm_mset (mk c) = {#}" for c by (simp add: sm_mset_def mk_def)
  then have "um_mset ?u = {#}" by (simp add: um_mset_def)
  moreover have "c \<noteq> MiscRegClass \<Longrightarrow> um_sel c ?u = mk c" for c by (cases c) auto
  ultimately show ?thesis by (intro exI [of _ ?u]) (simp add: mk_def)
qed

text \<open>What the instruction set has to provide: class sizes that fit a register index, and elements that
  fill the vectors.\<close>

definition classes_ok :: "reg_classes \<Rightarrow> vec_mode \<Rightarrow> bool" where
  "classes_ok rcs mode \<longleftrightarrow> (\<forall>c. rci_size (rcs c) < 2 ^ 16) \<and>
     (mode = Elem \<longrightarrow> rci_size (rcs VecElemClass) = rci_size (rcs VecRegClass) * NumVecElemPerVecReg)"

definition arch_reg :: "reg_class \<Rightarrow> nat \<Rightarrow> reg_id" where
  "arch_reg c i = \<lparr>regClass = c, regIdx = of_nat (if c = VecElemClass then i div NumVecElemPerVecReg else i),
     elemIdx = (if c = VecElemClass then of_nat (i mod NumVecElemPerVecReg) else IllegalElemIndex), numPinnedWrites = 0\<rparr>"

lemma collectR_Inr: "collectR (map (\<lambda>x. Inr (f x)) xs) = Inr (map f xs)"
  by (induction xs) auto

lemma class_regs_eq: "c \<noteq> VecElemClass \<Longrightarrow> class_regs rcs c = Inr (map (arch_reg c) [0..<rci_size (rcs c)])"
  by (simp add: class_regs_def RegId_def collectR_Inr arch_reg_def)

lemma concat_map_upt_div:
  assumes "0 < k"
  shows "concat (map (\<lambda>i. map (f i) [0..<k]) [0..<n]) = map (\<lambda>j. f (j div k) (j mod k)) [0..<n * k]"
proof (induction n)
  case (Suc n)
  have "[0..<Suc n * k] = [0..<n * k] @ map (\<lambda>l. l + n * k) [0..<k]"
    unfolding map_add_upt using upt_add_eq_append [of 0 "n * k" k] by (simp only: mult_Suc add.commute le0)
  moreover have "map (\<lambda>j. f (j div k) (j mod k)) (map (\<lambda>l. l + n * k) [0..<k]) = map (f n) [0..<k]"
    using assms by (auto simp: div_add1_eq)
  ultimately show ?case using Suc.IH by (simp del: upt_Suc map_map add: upt_Suc_append)
qed simp

lemma elem_regs_eq:
  assumes "elem_regs rcs = Inr l" "rci_size (rcs VecElemClass) = rci_size (rcs VecRegClass) * NumVecElemPerVecReg"
  shows "l = map (arch_reg VecElemClass) [0..<rci_size (rcs VecElemClass)]"
proof -
  have "(of_nat m :: u16) \<noteq> - 1" if "m < NumVecElemPerVecReg" for m
  proof
    assume "(of_nat m :: u16) = - 1"
    then have "unat (of_nat m :: u16) = unat (- 1 :: u16)" by (rule arg_cong)
    then have "unat (of_nat m :: u16) = 65535" by (simp only: unsigned_minus_1_eq_mask) (simp add: mask_eq_exp_minus_1)
    then show False using that by (simp add: unat_of_nat take_bit_nat_eq_self NumVecElemPerVecReg_def)
  qed
  then have ids: "map (\<lambda>j. RegId_elem VecElemClass (of_nat (j div NumVecElemPerVecReg)) (of_nat (j mod NumVecElemPerVecReg))) [0..<m] =
      map (\<lambda>x. Inr (arch_reg VecElemClass x)) [0..<m]" for m
    by (auto simp: RegId_elem_def arch_reg_def IllegalElemIndex_def NumVecElemPerVecReg_def)
  have n: "0 < NumVecElemPerVecReg" by (simp add: NumVecElemPerVecReg_def)
  have "rci_size (rcs VecRegClass) \<noteq> 0" using assms(1) by (simp add: elem_regs_def Let_def)
  then have "rci_size (rcs VecElemClass) div rci_size (rcs VecRegClass) = NumVecElemPerVecReg" using assms(2) by simp
  then have "Inr l = collectR (concat (map (\<lambda>i. map (\<lambda>m. RegId_elem VecElemClass (of_nat i) (of_nat m)) [0..<NumVecElemPerVecReg])
      [0..<rci_size (rcs VecRegClass)]))"
    using assms(1) by (simp add: elem_regs_def Let_def)
  then show ?thesis
    using collectR_Inr [of "arch_reg VecElemClass"] ids by (simp add: concat_map_upt_div [OF n] assms(2))
qed

definition init_classes :: "vec_mode \<Rightarrow> reg_class list" where
  "init_classes mode = [IntRegClass, FloatRegClass, if mode = Full then VecRegClass else VecElemClass, VecPredRegClass, CCRegClass]"

definition thread_regs :: "reg_classes \<Rightarrow> vec_mode \<Rightarrow> reg_id list" where
  "thread_regs rcs mode = concat (map (\<lambda>c. map (arch_reg c) [0..<rci_size (rcs c)]) (init_classes mode))"

lemma init_regs_append: "init_regs (l @ m) tid s = bindR (init_regs l tid s) (init_regs m tid)"
  by (induction l arbitrary: s) (auto simp: bindR_def split: sum.splits)

lemma init_thread_eq:
  assumes "init_thread rcs mode tid s = Inr s'" "classes_ok rcs mode"
  shows "init_regs (thread_regs rcs mode) tid s = Inr s'"
proof (cases mode)
  case Full
  then show ?thesis using assms(1)
    by (auto simp: init_thread_def class_regs_eq bindR_Inr_iff thread_regs_def init_classes_def init_regs_append)
next
  case Elem
  then show ?thesis using assms
    by (auto simp: init_thread_def class_regs_eq bindR_Inr_iff thread_regs_def init_classes_def init_regs_append classes_ok_def
        dest!: elem_regs_eq)
qed

lemma arch_reg_flat:
  assumes "i < 2 ^ 16"
  shows "unat (flatIndex (arch_reg c i)) = i" "regClass (arch_reg c i) = c"
proof -
  have "(64 :: u16) * of_nat (i div 64) + of_nat (i mod 64) = of_nat i"
    by (metis mult_div_mod_eq of_nat_add of_nat_mult of_nat_numeral)
  then have "flatIndex (arch_reg c i) = of_nat i"
    by (simp add: flatIndex_def arch_reg_def NumVecElemPerVecReg_def)
  then show "unat (flatIndex (arch_reg c i)) = i" using assms by (simp add: unat_of_nat take_bit_nat_eq_self)
  show "regClass (arch_reg c i) = c" by (simp add: arch_reg_def)
qed

lemma distinct_thread_keys:
  assumes "classes_ok rcs mode"
  shows "distinct (map reg_key (thread_regs rcs mode))"
proof -
  have sz: "rci_size (rcs c) < 2 ^ 16" for c using assms by (simp add: classes_ok_def)
  have inj: "reg_key (arch_reg c i) = reg_key (arch_reg d j) \<Longrightarrow> c = d \<and> i = j"
    if "i < rci_size (rcs c)" "j < rci_size (rcs d)" for c d i j
    using arch_reg_flat [of i c] arch_reg_flat [of j d] sz [of c] sz [of d] that by (auto simp: reg_key_def)
  have d1: "distinct (map (\<lambda>i. reg_key (arch_reg c i)) [0..<rci_size (rcs c)])" for c
    unfolding distinct_map by (auto intro!: inj_onI dest: inj)
  have d2: "set (map (\<lambda>i. reg_key (arch_reg c i)) [0..<rci_size (rcs c)]) \<inter> set (map (\<lambda>i. reg_key (arch_reg d i)) [0..<rci_size (rcs d)]) = {}"
    if "c \<noteq> d" for c d
    using that inj by fastforce
  have "distinct (concat (map (\<lambda>c. map (\<lambda>i. reg_key (arch_reg c i)) [0..<rci_size (rcs c)]) cs))" if "distinct cs" for cs
    using that
  proof (induction cs)
    case (Cons c cs)
    then have "set (map (\<lambda>i. reg_key (arch_reg c i)) [0..<rci_size (rcs c)]) \<inter>
        set (concat (map (\<lambda>c. map (\<lambda>i. reg_key (arch_reg c i)) [0..<rci_size (rcs c)]) cs)) = {}"
      using d2 [of c] by fastforce
    then show ?case using Cons d1 [of c] by (simp only: list.map concat.simps distinct_append distinct.simps)
  qed simp
  moreover have "distinct (init_classes mode)" by (simp add: init_classes_def)
  ultimately show ?thesis by (simp add: thread_regs_def map_concat comp_def)
qed

lemma thread_regs_unmapped:
  assumes "classes_ok rcs mode" "\<And>c. c \<noteq> MiscRegClass \<Longrightarrow> sm_map (um_sel c u) = replicate (rci_size (rcs c)) None"
  shows "unmapped (thread_regs rcs mode) u"
proof -
  have "regClass r \<noteq> MiscRegClass \<and> um_entry r u = None" if "r \<in> set (thread_regs rcs mode)" for r
  proof -
    from that obtain c i where r: "r = arch_reg c i" "i < rci_size (rcs c)" "c \<noteq> MiscRegClass"
      by (auto simp: thread_regs_def init_classes_def split: if_splits)
    have "i < 2 ^ 16" using assms(1) r(2) by (auto simp: classes_ok_def intro: less_trans)
    then show ?thesis using r assms(2) arch_reg_flat [of i c] by (simp add: um_entry_def)
  qed
  then show ?thesis using distinct_thread_keys [OF assms(1)] by (simp add: unmapped_def)
qed

lemma init_threads_inv:
  assumes "init_threads rcs mode ts s = Inr s'" "classes_ok rcs mode" "rename_inv s" "distinct ts" "set ts \<subseteq> {..<length (rs_map s)}"
    "\<And>t. t \<in> set ts \<Longrightarrow> unmapped (thread_regs rcs mode) (rs_map s ! t) \<and> rs_hist s ! t = []"
  shows "rename_inv s' \<and> reg_mset s' = reg_mset s"
  using assms(1,3-6)
proof (induction ts arbitrary: s)
  case (Cons t ts)
  obtain s1 where s1: "init_regs (thread_regs rcs mode) t s = Inr s1" "init_threads rcs mode ts s1 = Inr s'"
    using Cons.prems(1) init_thread_eq assms(2) by (auto simp: bindR_Inr_iff)
  obtain u where K: "rename_inv s1" "reg_mset s1 = reg_mset s" "rs_hist s1 = rs_hist s" "rs_map s1 = (rs_map s)[t := u]"
    using init_regs_ok [OF s1(1)] Cons.prems by auto
  have "rename_inv s' \<and> reg_mset s' = reg_mset s1"
    using Cons.prems(3-5) K(3,4) by (intro Cons.IH [OF s1(2) K(1)]) (auto simp: nth_list_update_eq_if)
  then show ?case using K(2) by simp
qed simp

definition rename_start :: "reg_classes \<Rightarrow> reg_file \<Rightarrow> nat \<Rightarrow> free_list \<Rightarrow> unified_map \<Rightarrow> rename_state" where
  "rename_start rcs rf n fl u = \<lparr>rs_free = fl, rs_regs = PhysRegFile rf,
     rs_score = Scoreboard (totalNumPhysRegs rf) (rci_zeroReg (rcs IntRegClass)),
     rs_map = replicate n u, rs_commit_map = replicate n u, rs_hist = replicate n []\<rparr>"

lemma cpu_rename_initD:
  assumes "cpu_rename_init rcs rf n a = Inr s" "classes_ok rcs (rf_vecMode rf)"
  obtains fl u where "UnifiedFreeList rf = Inr fl" "um_init rcs rf (rf_vecMode rf) = Inr u" "a \<le> n"
    "init_threads rcs (rf_vecMode rf) [0..<a] (rename_start rcs rf n fl u) = Inr s"
    "rename_inv (rename_start rcs rf n fl u)" "reg_mset (rename_start rcs rf n fl u) = mset (all_regs rf)"
    "\<And>t. t < a \<Longrightarrow> unmapped (thread_regs rcs (rf_vecMode rf)) (rs_map (rename_start rcs rf n fl u) ! t) \<and>
       rs_hist (rename_start rcs rf n fl u) ! t = []"
proof -
  obtain fl where fl: "UnifiedFreeList rf = Inr fl" "fl_mset fl = mset (all_regs rf)" "fl_typed fl"
    using UnifiedFreeList_ok by blast
  obtain u where u: "um_init rcs rf (rf_vecMode rf) = Inr u" "um_mset u = {#}"
    "\<And>c. c \<noteq> MiscRegClass \<Longrightarrow> sm_map (um_sel c u) = replicate (rci_size (rcs c)) None"
    using um_init_ok [of rcs rf "rf_vecMode rf"] by blast
  let ?s = "rename_start rcs rf n fl u"
  have run: "init_threads rcs (rf_vecMode rf) [0..<a] ?s = Inr s" "a \<le> n"
    using assms(1) fl(1) u(1) by (auto simp: cpu_rename_init_def rename_start_def)
  have z: "sum_list (replicate k {#}) = ({#} :: phys_ptr multiset)" for k by (induction k) auto
  have m: "reg_mset ?s = mset (all_regs rf)" using fl(2) u(2) z by (simp add: reg_mset_def hist_mset_def rename_start_def)
  have ut: "um_typed u" using u(3) by (auto simp: um_typed_def)
  have "count (mset (all_regs rf)) p \<le> 1" for p
    using distinct_all_regs [of rf] by (cases p) (simp add: distinct_count_atmost_1)
  then have inv: "rename_inv ?s" unfolding rename_inv_def m using fl(3) ut by (simp add: rename_start_def)
  have "unmapped (thread_regs rcs (rf_vecMode rf)) (rs_map ?s ! t) \<and> rs_hist ?s ! t = []" if "t < a" for t
    using thread_regs_unmapped [OF assms(2) u(3)] run(2) that by (simp add: rename_start_def)
  then show thesis using that fl(1) u(1) run m inv by blast
qed

lemma cpu_rename_init_inv:
  assumes "cpu_rename_init rcs rf n a = Inr s" "classes_ok rcs (rf_vecMode rf)"
  shows "rename_inv s \<and> reg_mset s = mset (all_regs rf)"
proof -
  obtain fl u where *: "a \<le> n" "init_threads rcs (rf_vecMode rf) [0..<a] (rename_start rcs rf n fl u) = Inr s"
    "rename_inv (rename_start rcs rf n fl u)" "reg_mset (rename_start rcs rf n fl u) = mset (all_regs rf)"
    "\<And>t. t < a \<Longrightarrow> unmapped (thread_regs rcs (rf_vecMode rf)) (rs_map (rename_start rcs rf n fl u) ! t) \<and>
       rs_hist (rename_start rcs rf n fl u) ! t = []"
    using cpu_rename_initD [OF assms] by blast
  have "set [0..<a] \<subseteq> {..<length (rs_map (rename_start rcs rf n fl u))}" using *(1) by (auto simp: rename_start_def)
  then show ?thesis using init_threads_inv [OF *(2) assms(2) *(3)] *(4,5) by simp
qed

section \<open>Properties\<close>

inductive rename_run :: "reg_file \<Rightarrow> rename_state \<Rightarrow> bool" for rf where
  start: "cpu_rename_init rcs rf n a = Inr s \<Longrightarrow> classes_ok rcs (rf_vecMode rf) \<Longrightarrow> rename_run rf s"
| rename: "rename_run rf s \<Longrightarrow> tid < length (rs_map s) \<Longrightarrow> renameDestRegs flatten seq dests tid s = Inr (infos, s') \<Longrightarrow> rename_run rf s'"
| squash: "rename_run rf s \<Longrightarrow> tid < length (rs_map s) \<Longrightarrow> rename_doSquash sn tid s = Inr s' \<Longrightarrow> rename_run rf s'"
| commit: "rename_run rf s \<Longrightarrow> tid < length (rs_map s) \<Longrightarrow> removeFromHistory sn tid s = Inr s' \<Longrightarrow> rename_run rf s'"

lemma rename_run_inv:
  assumes "rename_run rf s"
  shows "rename_inv s \<and> reg_mset s = mset (all_regs rf)"
  using assms
proof induction
  case (start rcs n a s)
  then show ?case using cpu_rename_init_inv by blast
next
  case (rename s tid flatten seq dests infos s')
  then show ?case using rename_dest_loop_ok [of flatten seq tid dests s infos s'] by (simp add: renameDestRegs_def)
next
  case (squash s tid sn s')
  then show ?case using doSquash_ok [of s tid sn] by auto
next
  case (commit s tid sn s')
  then show ?case using removeFromHistory_ok [of s tid sn] by auto
qed

text \<open>C6: no physical register is ever lost or freed twice. In every state the core reaches by renaming,
  squashing and committing instructions of its threads, the free registers, the registers the
  threads' maps name and the ones the history buffers keep are together exactly the physical
  registers, each once; and neither a squash nor a commit can fail.\<close>

theorem registers_conserved:
  assumes "rename_run rf s"
  shows "reg_mset s = mset (all_regs rf) \<and> distinct (all_regs rf) \<and>
    (tid < length (rs_map s) \<longrightarrow> (\<exists>s'. rename_doSquash sn tid s = Inr s') \<and> (\<exists>s'. removeFromHistory sn tid s = Inr s'))"
  using rename_run_inv [OF assms] distinct_all_regs doSquash_ok [of s tid sn] removeFromHistory_ok [of s tid sn] by blast

definition ex_classes :: reg_classes where
  "ex_classes c = (if c = IntRegClass then \<lparr>rci_size = 2, rci_zeroReg = 1\<rparr> else \<lparr>rci_size = 0, rci_zeroReg = - 1\<rparr>)"

definition ex_file :: reg_file where
  "ex_file = \<lparr>numPhysicalIntRegs = 8, numPhysicalFloatRegs = 0, numPhysicalVecRegs = 0, numPhysicalVecPredRegs = 0,
     numPhysicalCCRegs = 0, numMiscRegs = 0, rf_vecMode = Full\<rparr>"

definition ex_state :: rename_state where
  "ex_state = projr (cpu_rename_init ex_classes ex_file 2 2)"

lemma ex_state_eq: "cpu_rename_init ex_classes ex_file 2 2 = Inr ex_state"
proof -
  have "isl (cpu_rename_init ex_classes ex_file 2 2) = False" by code_simp
  then show ?thesis by (simp add: ex_state_def)
qed

lemma ex_state_run: "rename_run ex_file ex_state"
  by (rule rename_run.start [OF ex_state_eq]) (simp add: classes_ok_def ex_classes_def ex_file_def)

lemma ex_state_shape: "length (rs_map ex_state) = 2" "rs_hist ex_state = [[], []]"
  by code_simp+

theorem registers_conserved_witness:
  "reg_mset ex_state = mset (all_regs ex_file) \<and> (\<exists>s'. rename_doSquash 0 1 ex_state = Inr s')"
  using registers_conserved [OF ex_state_run, of 1 0] ex_state_shape(1) by auto

text \<open>Renaming the destinations of a sequence of instructions, of any threads.\<close>

fun rename_all :: "(reg_id \<Rightarrow> reg_id) \<Rightarrow> (nat \<times> u64 \<times> reg_id list) list \<Rightarrow> rename_state \<Rightarrow> rename_state result" where
  "rename_all flatten [] s = Inr s" |
  "rename_all flatten ((tid, seq, dests) # is) s =
     bindR (renameDestRegs flatten seq dests tid s) (\<lambda>(infos, s). rename_all flatten is s)"

lemma rename_all_ok:
  assumes "rename_all flatten is s = Inr s'" "rename_inv s" "\<forall>(t, _) \<in> set is. t < length (rs_map s)" "tid < length (rs_map s)"
    "\<forall>(t, sq, _) \<in> set is. t = tid \<longrightarrow> sq > sn"
  shows "rename_inv s' \<and> reg_mset s' = reg_mset s \<and> length (rs_map s') = length (rs_map s) \<and>
    (\<exists>es. rs_hist s' ! tid = es @ rs_hist s ! tid \<and> (\<forall>e \<in> set es. hb_seq e > sn) \<and>
      foldl (\<lambda>u e. um_put (hb_arch e) (hb_prev e) u) (rs_map s' ! tid) es = rs_map s ! tid)"
  using assms
proof (induction "is" arbitrary: s)
  case Nil
  then show ?case by auto
next
  case (Cons i "is")
  obtain t sq dests where i: "i = (t, sq, dests)" by (cases i)
  obtain infos s1 where s1: "rename_dest_loop flatten sq t dests s = Inr (infos, s1)" "rename_all flatten is s1 = Inr s'"
    using Cons.prems(1) i by (auto simp: bindR_Inr_iff renameDestRegs_def)
  have t: "t < length (rs_map s)" using Cons.prems(3) i by simp
  obtain es1 where K: "rename_inv s1" "reg_mset s1 = reg_mset s" "other_threads t s s1"
    "rs_hist s1 ! t = es1 @ rs_hist s ! t" "\<forall>e \<in> set es1. hb_seq e = sq"
    "foldl (\<lambda>u e. um_put (hb_arch e) (hb_prev e) u) (rs_map s1 ! t) es1 = rs_map s ! t"
    using rename_dest_loop_ok [OF s1(1) Cons.prems(2) t] by blast
  have len: "length (rs_map s1) = length (rs_map s)" using K(3) by (simp add: other_threads_def)
  obtain es where IH: "rename_inv s'" "reg_mset s' = reg_mset s1" "length (rs_map s') = length (rs_map s1)"
    "rs_hist s' ! tid = es @ rs_hist s1 ! tid" "\<forall>e \<in> set es. hb_seq e > sn"
    "foldl (\<lambda>u e. um_put (hb_arch e) (hb_prev e) u) (rs_map s' ! tid) es = rs_map s1 ! tid"
    using Cons.IH [OF s1(2) K(1)] Cons.prems(3-5) len by auto
  show ?case
  proof (cases "t = tid")
    case True
    then have "rs_hist s' ! tid = (es @ es1) @ rs_hist s ! tid" "\<forall>e \<in> set (es @ es1). hb_seq e > sn"
      "foldl (\<lambda>u e. um_put (hb_arch e) (hb_prev e) u) (rs_map s' ! tid) (es @ es1) = rs_map s ! tid"
      using IH(4-6) K(4-6) Cons.prems(5) i by auto
    then show ?thesis using IH(1-3) K(2) len by metis
  next
    case False
    then show ?thesis using IH K(2,3) len by (auto simp: other_threads_def)
  qed
qed

text \<open>C7: a squash undoes exactly the renames it has to. After any renames by any of the threads, squashing
  a thread back to a sequence number gives that thread the map and the history buffer it had when
  its last instruction up to that number was renamed, leaves the other threads as they are, and
  returns every register it took.\<close>

theorem squash_restores_map:
  assumes "rename_run rf s" "tid < length (rs_map s)" "\<forall>e \<in> set (rs_hist s ! tid). hb_seq e \<le> sn"
    "rename_all flatten is s = Inr s'" "\<forall>(t, _) \<in> set is. t < length (rs_map s)" "\<forall>(t, sq, _) \<in> set is. t = tid \<longrightarrow> sq > sn"
  shows "\<exists>s''. rename_doSquash sn tid s' = Inr s'' \<and> rs_map s'' ! tid = rs_map s ! tid \<and> rs_hist s'' ! tid = rs_hist s ! tid \<and>
    (\<forall>t. t \<noteq> tid \<longrightarrow> rs_map s'' ! t = rs_map s' ! t \<and> rs_hist s'' ! t = rs_hist s' ! t) \<and> reg_mset s'' = reg_mset s"
proof -
  have inv: "rename_inv s" using rename_run_inv [OF assms(1)] by simp
  obtain es where K: "rename_inv s'" "reg_mset s' = reg_mset s" "length (rs_map s') = length (rs_map s)"
    "rs_hist s' ! tid = es @ rs_hist s ! tid" "\<forall>e \<in> set es. hb_seq e > sn"
    "foldl (\<lambda>u e. um_put (hb_arch e) (hb_prev e) u) (rs_map s' ! tid) es = rs_map s ! tid"
    using rename_all_ok [OF assms(4) inv assms(5,2,6)] by blast
  have tid: "tid < length (rs_map s')" "tid < length (rs_hist s')"
    using K(1,3) assms(2) by (auto simp: rename_inv_def)
  have "\<not> hb_seq e > sn" if "rs_hist s ! tid = e # l" for e l using assms(3) that by auto
  then have "takeWhile (\<lambda>e. hb_seq e > sn) (rs_hist s ! tid) = []" "dropWhile (\<lambda>e. hb_seq e > sn) (rs_hist s ! tid) = rs_hist s ! tid"
    by (cases "rs_hist s ! tid"; force)+
  then have "takeWhile (\<lambda>e. hb_seq e > sn) (rs_hist s' ! tid) = es" "dropWhile (\<lambda>e. hb_seq e > sn) (rs_hist s' ! tid) = rs_hist s ! tid"
    using K(4,5) by (auto simp: takeWhile_append2 dropWhile_append2)
  then show ?thesis using doSquash_ok [OF K(1) tid(1), of sn] K(2,6) tid by auto
qed

theorem squash_restores_map_witness:
  "\<exists>s' s''. rename_all id [(0, 5, [arch_reg IntRegClass 0]), (1, 6, [arch_reg IntRegClass 0]), (0, 7, [arch_reg IntRegClass 0])] ex_state = Inr s' \<and>
     sm_map (intMap (rs_map s' ! 0)) \<noteq> sm_map (intMap (rs_map ex_state ! 0)) \<and>
     rename_doSquash 4 0 s' = Inr s'' \<and> rs_map s'' ! 0 = rs_map ex_state ! 0"
proof -
  let ?is = "[(0, 5, [arch_reg IntRegClass 0]), (1, 6, [arch_reg IntRegClass 0]), (0, 7, [arch_reg IntRegClass 0])] :: (nat \<times> u64 \<times> reg_id list) list"
  have "(case rename_all id ?is ex_state of Inr s' \<Rightarrow> sm_map (intMap (rs_map s' ! 0)) \<noteq> sm_map (intMap (rs_map ex_state ! 0)) | Inl _ \<Rightarrow> False)"
    by code_simp
  then obtain s' where s': "rename_all id ?is ex_state = Inr s'" "sm_map (intMap (rs_map s' ! 0)) \<noteq> sm_map (intMap (rs_map ex_state ! 0))"
    by (auto split: sum.splits)
  have "\<forall>(t, _) \<in> set ?is. t < length (rs_map ex_state)" "\<forall>(t, sq, _) \<in> set ?is. t = 0 \<longrightarrow> sq > 4"
    "\<forall>e \<in> set (rs_hist ex_state ! 0). hb_seq e \<le> 4" "0 < length (rs_map ex_state)"
    using ex_state_shape by auto
  from squash_restores_map [OF ex_state_run this(4,3) s'(1) this(1,2)] show ?thesis using s' by blast
qed

lemma filter_thread_regs:
  assumes "c \<in> set (init_classes mode)"
  shows "filter (\<lambda>r. regClass r = c) (thread_regs rcs mode) = map (arch_reg c) [0..<rci_size (rcs c)]"
proof -
  have *: "filter (\<lambda>r. regClass r = c) (map (arch_reg d) l) = (if d = c then map (arch_reg d) l else [])" for d l
    by (induction l) (auto simp: arch_reg_def)
  have "filter (\<lambda>r. regClass r = c) (concat (map (\<lambda>c. map (arch_reg c) [0..<rci_size (rcs c)]) cs)) = []" if "c \<notin> set cs" for cs
    using that by (induction cs) (auto simp: *)
  then have "filter (\<lambda>r. regClass r = c) (concat (map (\<lambda>c. map (arch_reg c) [0..<rci_size (rcs c)]) cs)) = map (arch_reg c) [0..<rci_size (rcs c)]"
    if "c \<in> set cs" "distinct cs" for cs
    using that by (induction cs) (auto simp: *)
  moreover have "distinct (init_classes mode)" by (simp add: init_classes_def)
  ultimately show ?thesis using assms by (simp add: thread_regs_def)
qed

lemma init_threads_order:
  assumes "init_threads rcs mode [k..<a] s = Inr s'" "classes_ok rcs mode" "rename_inv s" "a \<le> length (rs_map s)"
    "\<And>t. k \<le> t \<Longrightarrow> t < a \<Longrightarrow> unmapped (thread_regs rcs mode) (rs_map s ! t) \<and> rs_hist s ! t = []"
    "c \<in> set (init_classes mode)" "fl_sel c (rs_free s) = map (Pair c) [k * rci_size (rcs c)..<N]"
  shows "(\<forall>t. k \<le> t \<and> t < a \<longrightarrow> (\<forall>i < rci_size (rcs c). um_entry (arch_reg c i) (rs_map s' ! t) = Some (c, t * rci_size (rcs c) + i))) \<and>
    (\<forall>t < k. rs_map s' ! t = rs_map s ! t) \<and> rs_regs s' = rs_regs s"
  using assms(1,3-5,7)
proof (induction "a - k" arbitrary: k s)
  case 0
  then show ?case by auto
next
  case (Suc d)
  let ?sz = "rci_size (rcs c)"
  have k: "k < a" using Suc.hyps(2) by simp
  then have up: "[k..<a] = k # [Suc k..<a]" by (rule upt_conv_Cons)
  have cM: "c \<noteq> MiscRegClass" using assms(6) by (auto simp: init_classes_def split: if_splits)
  obtain s1 where s1: "init_regs (thread_regs rcs mode) k s = Inr s1" "init_threads rcs mode [Suc k..<a] s1 = Inr s'"
    using Suc.prems(1) init_thread_eq assms(2) up by (auto simp: bindR_Inr_iff)
  have pre: "unmapped (thread_regs rcs mode) (rs_map s ! k)" "rs_hist s ! k = []" "k < length (rs_map s)"
    using Suc.prems(3,4) k by auto
  obtain u where K: "rename_inv s1" "rs_hist s1 = rs_hist s" "rs_map s1 = (rs_map s)[k := u]" "rs_regs s1 = rs_regs s"
    using init_regs_ok [OF s1(1) pre(1) Suc.prems(2) pre(3,2)] by auto
  note O = init_regs_order [OF s1(1) pre(1,3) cM, unfolded filter_thread_regs [OF assms(6)] Suc.prems(5)]
  define es where "es = map (\<lambda>i. the (um_entry (arch_reg c i) (rs_map s1 ! k))) [0..<?sz]"
  have app: "map (Pair c) [k * ?sz..<N] = es @ fl_sel c (rs_free s1)" using O by (simp add: es_def comp_def)
  have len: "length es = ?sz" by (simp add: es_def)
  have "fl_sel c (rs_free s1) = drop ?sz (map (Pair c) [k * ?sz..<N])" using app len by simp
  then have fl: "fl_sel c (rs_free s1) = map (Pair c) [Suc k * ?sz..<N]" by (simp add: drop_map add.commute)
  have ent: "um_entry (arch_reg c i) (rs_map s1 ! k) = Some (c, k * ?sz + i)" if "i < ?sz" for i
  proof -
    have "arch_reg c i \<in> set (thread_regs rcs mode)" using that assms(6) by (force simp: thread_regs_def)
    then have "um_entry (arch_reg c i) (rs_map s1 ! k) \<noteq> None" using O by blast
    moreover have "es ! i = (map (Pair c) [k * ?sz..<N]) ! i" using app len that by (simp add: nth_append)
    moreover have "k * ?sz + i < N" using arg_cong [OF app, of length] len that by simp
    ultimately show ?thesis using that by (auto simp: es_def)
  qed
  have IH: "(\<forall>t. Suc k \<le> t \<and> t < a \<longrightarrow> (\<forall>i < ?sz. um_entry (arch_reg c i) (rs_map s' ! t) = Some (c, t * ?sz + i))) \<and>
    (\<forall>t < Suc k. rs_map s' ! t = rs_map s1 ! t) \<and> rs_regs s' = rs_regs s1"
    using Suc.hyps(2) Suc.prems(3,4) K fl by (intro Suc.hyps(1) [OF _ s1(2) K(1)]) (auto simp: nth_list_update_eq_if)
  then show ?case using ent K(3,4) pre(3) by (auto simp: less_Suc_eq dest: Suc_le_eq [THEN iffD2] le_neq_implies_less)
qed

text \<open>The CPU hands the physical registers out thread by thread: at start, register \<open>i\<close> of a class of
  thread \<open>t\<close> is mapped to the physical register at position \<open>t * size + i\<close> of that class.\<close>

lemma cpu_rename_init_order:
  assumes "cpu_rename_init rcs rf n a = Inr s" "classes_ok rcs (rf_vecMode rf)" "c \<in> set (init_classes (rf_vecMode rf))"
    "t < a" "i < rci_size (rcs c)"
  shows "um_entry (arch_reg c i) (rs_map s ! t) = Some (c, t * rci_size (rcs c) + i)" "rs_regs s = PhysRegFile rf"
proof -
  have c: "c \<noteq> MiscRegClass" "c = VecRegClass \<longrightarrow> rf_vecMode rf = Full" "c = VecElemClass \<longrightarrow> rf_vecMode rf = Elem"
    using assms(3) by (auto simp: init_classes_def split: if_splits) (metis vec_mode.exhaust)
  obtain fl where fl: "UnifiedFreeList rf = Inr fl" "fl_sel c fl = getRegIds rf c"
    using UnifiedFreeList_ok [of rf] c by blast
  obtain fl' u where *: "UnifiedFreeList rf = Inr fl'" "a \<le> n"
    "init_threads rcs (rf_vecMode rf) [0..<a] (rename_start rcs rf n fl' u) = Inr s" "rename_inv (rename_start rcs rf n fl' u)"
    "\<And>t. t < a \<Longrightarrow> unmapped (thread_regs rcs (rf_vecMode rf)) (rs_map (rename_start rcs rf n fl' u) ! t) \<and>
       rs_hist (rename_start rcs rf n fl' u) ! t = []"
    using cpu_rename_initD [OF assms(1,2)] by blast
  have f0: "fl_sel c (rs_free (rename_start rcs rf n fl' u)) = map (Pair c) [0 * rci_size (rcs c)..<numPhysRegs rf c]"
    using fl *(1) by (simp add: getRegIds_def rename_start_def)
  have "a \<le> length (rs_map (rename_start rcs rf n fl' u))" using *(2) by (simp add: rename_start_def)
  from init_threads_order [OF *(3) assms(2) *(4) this *(5) assms(3) f0]
  show "um_entry (arch_reg c i) (rs_map s ! t) = Some (c, t * rci_size (rcs c) + i)" "rs_regs s = PhysRegFile rf"
    using assms(4,5) by (auto simp: rename_start_def)
qed

lemma um_put_shape:
  assumes "c \<noteq> MiscRegClass"
  shows "sm_zeroReg (um_sel c (um_put r p u)) = sm_zeroReg (um_sel c u)"
    "length (sm_map (um_sel c (um_put r p u))) = length (sm_map (um_sel c u))"
  using assms by (auto simp: um_put_def)

lemma init_regs_shape:
  assumes "init_regs rids tid s = Inr s'" "c \<noteq> MiscRegClass" "tid < length (rs_map s)"
  shows "sm_zeroReg (um_sel c (rs_map s' ! t)) = sm_zeroReg (um_sel c (rs_map s ! t)) \<and>
    length (sm_map (um_sel c (rs_map s' ! t))) = length (sm_map (um_sel c (rs_map s ! t))) \<and> length (rs_map s') = length (rs_map s)"
  using assms
proof (induction rids arbitrary: s)
  case (Cons r rids)
  obtain p fl u cu where st: "um_setEntry r p (rs_map s ! tid) = Inr u"
    "init_regs rids tid (s\<lparr>rs_free := fl, rs_map := (rs_map s)[tid := u], rs_commit_map := (rs_commit_map s)[tid := cu]\<rparr>) = Inr s'"
    using Cons.prems(1) by (auto simp: bindR_Inr_iff)
  then show ?case
    using Cons.IH [OF st(2) Cons.prems(2)] Cons.prems(3) um_setEntryD(3) [OF st(1)] um_put_shape [OF Cons.prems(2)]
    by (auto simp: nth_list_update_eq_if)
qed simp

lemma init_threads_shape:
  assumes "init_threads rcs mode ts s = Inr s'" "classes_ok rcs mode" "c \<noteq> MiscRegClass" "set ts \<subseteq> {..<length (rs_map s)}"
  shows "sm_zeroReg (um_sel c (rs_map s' ! t)) = sm_zeroReg (um_sel c (rs_map s ! t)) \<and>
    length (sm_map (um_sel c (rs_map s' ! t))) = length (sm_map (um_sel c (rs_map s ! t)))"
  using assms(1,4)
proof (induction ts arbitrary: s)
  case (Cons k ts)
  obtain s1 where s1: "init_regs (thread_regs rcs mode) k s = Inr s1" "init_threads rcs mode ts s1 = Inr s'"
    using Cons.prems(1) init_thread_eq assms(2) by (auto simp: bindR_Inr_iff)
  have k: "k < length (rs_map s)" using Cons.prems(2) by simp
  then show ?case using init_regs_shape [OF s1(1) assms(3) k] Cons.IH [OF s1(2)] Cons.prems(2) by simp
qed simp

lemma cpu_rename_init_zero:
  assumes "cpu_rename_init rcs rf n a = Inr s" "classes_ok rcs (rf_vecMode rf)" "t < a"
  shows "sm_zeroReg (intMap (rs_map s ! t)) =
      \<lparr>regClass = IntRegClass, regIdx = rci_zeroReg (rcs IntRegClass), elemIdx = IllegalElemIndex, numPinnedWrites = 0\<rparr>"
    "length (sm_map (intMap (rs_map s ! t))) = rci_size (rcs IntRegClass)" "a * rci_size (rcs IntRegClass) \<le> numPhysicalIntRegs rf"
proof -
  obtain fl u where *: "um_init rcs rf (rf_vecMode rf) = Inr u" "a \<le> n"
    "init_threads rcs (rf_vecMode rf) [0..<a] (rename_start rcs rf n fl u) = Inr s"
    using cpu_rename_initD [OF assms(1,2)] by blast
  have "sm_map (um_sel IntRegClass u) = replicate (rci_size (rcs IntRegClass)) None \<and> sm_zeroReg (um_sel IntRegClass u) =
      \<lparr>regClass = IntRegClass, regIdx = rci_zeroReg (rcs IntRegClass), elemIdx = IllegalElemIndex, numPinnedWrites = 0\<rparr>"
    using um_init_ok [of rcs rf "rf_vecMode rf"] *(1) by auto
  moreover have "set [0..<a] \<subseteq> {..<length (rs_map (rename_start rcs rf n fl u))}" using *(2) by (auto simp: rename_start_def)
  note init_threads_shape [OF *(3) assms(2) _ this, of IntRegClass t]
  ultimately show "sm_zeroReg (intMap (rs_map s ! t)) =
      \<lparr>regClass = IntRegClass, regIdx = rci_zeroReg (rcs IntRegClass), elemIdx = IllegalElemIndex, numPinnedWrites = 0\<rparr>"
    "length (sm_map (intMap (rs_map s ! t))) = rci_size (rcs IntRegClass)"
    using *(2) assms(3) by (auto simp: rename_start_def)
  have "n * rci_size (rcs IntRegClass) \<le> numPhysicalIntRegs rf"
    using assms(1) by (auto simp: cpu_rename_init_def bindR_Inr_iff)
  then show "a * rci_size (rcs IntRegClass) \<le> numPhysicalIntRegs rf" using *(2) by (meson le_trans mult_le_mono1)
qed

text \<open>C28: writing the zero register works in the first thread only. The assertion that a write to the
  zero register finds the physical register of the same number holds for thread 0, and fails
  for every other thread of a core with simultaneous multithreading: their zero register was
  mapped further up when the CPU was set up.\<close>

theorem smt_zero_register:
  assumes "cpu_rename_init rcs rf n a = Inr s" "classes_ok rcs (rf_vecMode rf)" "t < a"
    "unat (rci_zeroReg (rcs IntRegClass)) < rci_size (rcs IntRegClass)" "numPhysicalIntRegs rf < 2 ^ 16"
  defines "z \<equiv> unat (rci_zeroReg (rcs IntRegClass))"
  shows "um_rename (arch_reg IntRegClass z) (rs_map s ! t) (rs_free s) (rs_regs s) =
    (if t = 0 then Inr (((IntRegClass, z), (IntRegClass, z)), rs_map s ! t, rs_free s, rs_regs s) else Inl Assert_Failed)"
proof -
  let ?sz = "rci_size (rcs IntRegClass)" and ?r = "arch_reg IntRegClass z"
  note Z = cpu_rename_init_zero [OF assms(1-3)]
  have z: "z < ?sz" "z < 2 ^ 16" using assms(4) unsigned_less [of "rci_zeroReg (rcs IntRegClass)", where 'a = nat] by (simp_all add: z_def)
  have ent: "um_entry ?r (rs_map s ! t) = Some (IntRegClass, t * ?sz + z)" "rs_regs s = PhysRegFile rf"
    using cpu_rename_init_order [OF assms(1,2) _ assms(3) z(1)] by (auto simp: init_classes_def)
  have flat: "unat (flatIndex ?r) = z" "regClass ?r = IntRegClass" using arch_reg_flat [OF z(2)] by auto
  have eq: "RegId_eq ?r (sm_zeroReg (intMap (rs_map s ! t)))"
    unfolding Z(1) by (simp add: RegId_eq_def arch_reg_def z_def)
  have "Suc t * ?sz \<le> a * ?sz" using assms(3) by (intro mult_le_mono1) simp
  then have "t * ?sz + z < 2 ^ 16" using Z(3) assms(5) z(1) by simp
  then have "unat (of_nat (t * ?sz + z) :: u16) = t * ?sz + z" by (simp only: unat_of_nat) (simp add: take_bit_nat_eq_self)
  then have "(of_nat (t * ?sz + z) :: u16) = rci_zeroReg (rcs IntRegClass) \<longleftrightarrow> t * ?sz + z = z"
    by (simp only: word_unat_eq_iff z_def)
  then have idx: "pr_index (rs_regs s (IntRegClass, t * ?sz + z)) = rci_zeroReg (rcs IntRegClass) \<longleftrightarrow> t = 0"
    using z(1) by (simp add: ent(2) PhysRegFile_def del: of_nat_add of_nat_mult)
  have e: "sm_map (intMap (rs_map s ! t)) ! z = Some (IntRegClass, t * ?sz + z)"
    using ent(1) flat by (simp add: um_entry_def)
  have "sm_rename ?r (intMap (rs_map s ! t)) l (rs_regs s) =
      (if t = 0 then Inr (((IntRegClass, z), (IntRegClass, z)), intMap (rs_map s ! t), l, rs_regs s) else Inl Assert_Failed)" for l
    using eq idx e flat(1) Z(1,2) z(1) by (auto simp: sm_rename_def)
  then show ?thesis using flat(2) by (simp add: um_rename_def mode_ok_def)
qed

theorem smt_zero_register_witness:
  "um_rename (arch_reg IntRegClass 1) (rs_map ex_state ! 1) (rs_free ex_state) (rs_regs ex_state) = Inl Assert_Failed \<and>
   um_rename (arch_reg IntRegClass 1) (rs_map ex_state ! 0) (rs_free ex_state) (rs_regs ex_state) \<noteq> Inl Assert_Failed"
proof -
  have "classes_ok ex_classes (rf_vecMode ex_file)" by (simp add: classes_ok_def ex_classes_def ex_file_def)
  from smt_zero_register [OF ex_state_eq this, of 1] smt_zero_register [OF ex_state_eq this, of 0]
  show ?thesis by (simp add: ex_classes_def ex_file_def)
qed

section \<open>Enough free registers\<close>










text \<open>The number of free entries leaves the condition-code registers out, and the bound checks of the maps
  let an index through that is one past the end.\<close>

lemma numFreeEntries_ignores_cc: "numFreeEntries u (fl\<lparr>ccList := l\<rparr>) = numFreeEntries u fl"
  by (simp add: numFreeEntries_def)

lemma lookup_past_end: "unat (flatIndex r) = length (sm_map m) \<Longrightarrow> sm_lookup r m = Inl Out_Of_Range"
  by (simp add: sm_lookup_def)

end
