(* ===== verification/Store_Set.thy ===== *)
theory Store_Set
  imports Intmath
begin

text \<open>
  \<^verbatim>\<open>src/gem5/src/cpu/o3/store_set.cc\<close> and \<^verbatim>\<open>store_set.hh\<close>: the predictor of memory
  dependences. The table of store set identifiers and the table of the last fetched store of a
  set are lists with their valid bits; \<^verbatim>\<open>storeList\<close>, a map ordered by descending sequence
  number, is the list of its entries in that order. The loop of \<^verbatim>\<open>squash\<close> makes no progress
  on an entry whose set was last written by an older store, so it is a partial function:
  \<^const>\<open>None\<close> is a loop that does not end. Table sizes are positive and fit an \<^verbatim>\<open>int\<close>.
\<close>

section \<open>State and operations\<close>

record store_set =
  SSIT :: "nat list"
  validSSIT :: "bool list"
  LFST :: "u64 list"
  validLFST :: "bool list"
  storeList :: "(u64 \<times> nat) list"
  clearPeriod :: u64
  SSITSize :: nat
  LFSTSize :: nat
  memOpsPred :: int

definition StoreSet :: "u64 \<Rightarrow> nat \<Rightarrow> nat \<Rightarrow> store_set result" where
  "StoreSet clear_period ssit lfst =
     guardR (isPowerOf2 (of_nat ssit)) Fatal_Error (guardR (isPowerOf2 (of_nat lfst)) Fatal_Error
     (Inr \<lparr>SSIT = replicate ssit 0, validSSIT = replicate ssit False, LFST = replicate lfst 0, validLFST = replicate lfst False,
       storeList = [], clearPeriod = clear_period, SSITSize = ssit, LFSTSize = lfst, memOpsPred = 0\<rparr>))"

definition vec_resize :: "nat \<Rightarrow> 'a \<Rightarrow> 'a list \<Rightarrow> 'a list" where
  "vec_resize n d l = take n l @ replicate (n - length l) d"

definition ss_init :: "u64 \<Rightarrow> nat \<Rightarrow> nat \<Rightarrow> store_set \<Rightarrow> store_set" where
  "ss_init clear_period ssit lfst s = s\<lparr>SSIT := vec_resize ssit 0 (SSIT s), validSSIT := replicate ssit False,
     LFST := replicate lfst 0, validLFST := replicate lfst False, clearPeriod := clear_period,
     SSITSize := ssit, LFSTSize := lfst, memOpsPred := 0\<rparr>"

definition calcIndex :: "store_set \<Rightarrow> addr \<Rightarrow> nat" where
  "calcIndex s PC = unat (drop_bit 2 PC AND (of_nat (SSITSize s) - 1))"

definition calcSSID :: "store_set \<Rightarrow> addr \<Rightarrow> nat" where
  "calcSSID s PC = unat ((PC XOR drop_bit 10 PC) mod of_nat (LFSTSize s)) mod 2 ^ 32"

definition violation :: "addr \<Rightarrow> addr \<Rightarrow> store_set \<Rightarrow> store_set result" where
  "violation store_PC load_PC s =
     (let load_index = calcIndex s load_PC; store_index = calcIndex s store_PC in
      guardR (load_index < SSITSize s \<and> store_index < SSITSize s) Assert_Failed
      (let valid_load_SSID = validSSIT s ! load_index; valid_store_SSID = validSSIT s ! store_index in
       if \<not> valid_load_SSID \<and> \<not> valid_store_SSID
       then (let new_set = calcSSID s load_PC;
                 s = s\<lparr>validSSIT := (validSSIT s)[load_index := True, store_index := True],
                       SSIT := (SSIT s)[load_index := new_set, store_index := new_set]\<rparr>
             in guardR (new_set < LFSTSize s) Assert_Failed (Inr s))
       else if valid_load_SSID \<and> \<not> valid_store_SSID
       then (let load_SSID = SSIT s ! load_index;
                 s = s\<lparr>validSSIT := (validSSIT s)[store_index := True], SSIT := (SSIT s)[store_index := load_SSID]\<rparr>
             in guardR (load_SSID < LFSTSize s) Assert_Failed (Inr s))
       else if \<not> valid_load_SSID \<and> valid_store_SSID
       then (let store_SSID = SSIT s ! store_index
             in Inr (s\<lparr>validSSIT := (validSSIT s)[load_index := True], SSIT := (SSIT s)[load_index := store_SSID]\<rparr>))
       else (let load_SSID = SSIT s ! load_index; store_SSID = SSIT s ! store_index in
             guardR (load_SSID < LFSTSize s \<and> store_SSID < LFSTSize s) Assert_Failed
             (Inr (if store_SSID > load_SSID then s\<lparr>SSIT := (SSIT s)[store_index := load_SSID]\<rparr>
                   else s\<lparr>SSIT := (SSIT s)[load_index := store_SSID]\<rparr>)))))"

definition ss_clear :: "store_set \<Rightarrow> store_set" where
  "ss_clear s = s\<lparr>validSSIT := replicate (SSITSize s) False, validLFST := replicate (LFSTSize s) False, storeList := []\<rparr>"

definition checkClear :: "store_set \<Rightarrow> store_set result" where
  "checkClear s = guardR (memOpsPred s + 1 < 2 ^ 31) Out_Of_Range
     (let s = s\<lparr>memOpsPred := memOpsPred s + 1\<rparr>
      in Inr (if of_int (memOpsPred s) > clearPeriod s then ss_clear (s\<lparr>memOpsPred := 0\<rparr>) else s))"

definition insertLoad :: "addr \<Rightarrow> u64 \<Rightarrow> store_set \<Rightarrow> store_set result" where
  "insertLoad load_PC load_seq_num s = checkClear s"

text \<open>Assignment through \<^verbatim>\<open>operator[]\<close> of a map in descending order of its keys.\<close>

fun map_put :: "u64 \<Rightarrow> nat \<Rightarrow> (u64 \<times> nat) list \<Rightarrow> (u64 \<times> nat) list" where
  "map_put k v [] = [(k, v)]" |
  "map_put k v ((k', v') # l) = (if k > k' then (k, v) # (k', v') # l else if k = k' then (k, v) # l else (k', v') # map_put k v l)"

definition insertStore :: "addr \<Rightarrow> u64 \<Rightarrow> store_set \<Rightarrow> store_set result" where
  "insertStore store_PC store_seq_num s =
     (let index = calcIndex s store_PC in
      bindR (checkClear s) (\<lambda>s.
      guardR (index < SSITSize s) Assert_Failed
      (if \<not> validSSIT s ! index then Inr s
       else (let store_SSID = SSIT s ! index in
             guardR (store_SSID < LFSTSize s) Assert_Failed
             (Inr (s\<lparr>LFST := (LFST s)[store_SSID := store_seq_num], validLFST := (validLFST s)[store_SSID := True],
                     storeList := map_put store_seq_num store_SSID (storeList s)\<rparr>))))))"

definition checkInst :: "addr \<Rightarrow> store_set \<Rightarrow> u64 result" where
  "checkInst PC s =
     (let index = calcIndex s PC in
      guardR (index < SSITSize s) Assert_Failed
      (if \<not> validSSIT s ! index then Inr 0
       else (let inst_SSID = SSIT s ! index in
             guardR (inst_SSID < LFSTSize s) Assert_Failed
             (if \<not> validLFST s ! inst_SSID then Inr 0 else Inr (LFST s ! inst_SSID)))))"

definition ss_issued :: "addr \<Rightarrow> u64 \<Rightarrow> bool \<Rightarrow> store_set \<Rightarrow> store_set result" where
  "ss_issued issued_PC issued_seq_num is_store s =
     (if \<not> is_store then Inr s
      else (let index = calcIndex s issued_PC in
            guardR (index < SSITSize s) Assert_Failed
            (let s = s\<lparr>storeList := filter (\<lambda>e. fst e \<noteq> issued_seq_num) (storeList s)\<rparr> in
             if \<not> validSSIT s ! index then Inr s
             else (let store_SSID = SSIT s ! index in
                   guardR (store_SSID < LFSTSize s) Assert_Failed
                   (Inr (if validLFST s ! store_SSID \<and> LFST s ! store_SSID = issued_seq_num
                         then s\<lparr>validLFST := (validLFST s)[store_SSID := False]\<rparr> else s))))))"

partial_function (option) squash_stores :: "u64 \<Rightarrow> store_set \<Rightarrow> store_set run" where
  "squash_stores squashed_num s =
     (case storeList s of [] \<Rightarrow> retO s
      | (n, idx) # l \<Rightarrow>
          if n \<le> squashed_num then retO s
          else if \<not> idx < length (LFST s) then Some (Inl Out_Of_Range)
          else if validLFST s ! idx \<and> LFST s ! idx > squashed_num
          then squash_stores squashed_num (s\<lparr>validLFST := (validLFST s)[idx := False], storeList := l\<rparr>)
          else if \<not> validLFST s ! idx \<and> LFST s ! idx > squashed_num then squash_stores squashed_num (s\<lparr>storeList := l\<rparr>)
          else squash_stores squashed_num s)"

definition ss_squash :: "u64 \<Rightarrow> nat \<Rightarrow> store_set \<Rightarrow> store_set run" where
  "ss_squash squashed_num tid s = squash_stores squashed_num s"

section \<open>The invariant\<close>

text \<open>The tables have their sizes, valid entries name a set, and every store in the list has a set whose
  last fetched store is not older.\<close>

definition ss_inv :: "store_set \<Rightarrow> bool" where
  "ss_inv s \<longleftrightarrow> length (SSIT s) = SSITSize s \<and> length (validSSIT s) = SSITSize s \<and>
     length (LFST s) = LFSTSize s \<and> length (validLFST s) = LFSTSize s \<and>
     0 < SSITSize s \<and> SSITSize s < 2 ^ 31 \<and> 0 < LFSTSize s \<and> LFSTSize s < 2 ^ 31 \<and>
     (\<forall>i < SSITSize s. validSSIT s ! i \<longrightarrow> SSIT s ! i < LFSTSize s) \<and>
     sorted_wrt (\<lambda>a b. fst a > fst b) (storeList s) \<and>
     (\<forall>(n, i) \<in> set (storeList s). i < LFSTSize s \<and> n \<le> LFST s ! i)"

lemma calcIndex_less:
  assumes "ss_inv s"
  shows "calcIndex s PC < SSITSize s"
proof -
  have "unat (of_nat (SSITSize s) - 1 :: u64) = SSITSize s - 1"
  proof -
    have "unat (of_nat (SSITSize s) :: u64) = SSITSize s" using assms by (simp add: ss_inv_def unat_of_nat take_bit_nat_eq_self)
    moreover have "(1 :: u64) \<le> of_nat (SSITSize s)" using assms calculation by (simp add: word_le_nat_alt ss_inv_def)
    ultimately show ?thesis by (simp add: unat_sub)
  qed
  moreover have "unat (drop_bit 2 PC AND (of_nat (SSITSize s) - 1)) \<le> unat (of_nat (SSITSize s) - 1 :: u64)"
    using word_and_le1 by (rule word_le_nat_alt [THEN iffD1])
  moreover have "0 < SSITSize s" using assms by (simp add: ss_inv_def)
  ultimately show ?thesis unfolding calcIndex_def by linarith
qed

lemma calcSSID_less:
  assumes "ss_inv s"
  shows "calcSSID s PC < LFSTSize s"
proof -
  have l: "unat (of_nat (LFSTSize s) :: u64) = LFSTSize s" using assms by (simp add: ss_inv_def unat_of_nat take_bit_nat_eq_self)
  have "unat ((PC XOR drop_bit 10 PC) mod of_nat (LFSTSize s)) < LFSTSize s"
    using assms l by (simp add: unat_mod_distrib ss_inv_def)
  then show ?thesis unfolding calcSSID_def by (meson le_less_trans mod_less_eq_dividend)
qed

lemma violation_ok:
  assumes "ss_inv s"
  shows "\<exists>s'. violation st ld s = Inr s' \<and> ss_inv s' \<and> validSSIT s' ! calcIndex s st \<and> validSSIT s' ! calcIndex s ld \<and>
    SSIT s' ! calcIndex s st = SSIT s' ! calcIndex s ld \<and> (\<forall>PC. calcIndex s' PC = calcIndex s PC) \<and>
    storeList s' = storeList s \<and> LFST s' = LFST s \<and> memOpsPred s' = memOpsPred s \<and> clearPeriod s' = clearPeriod s"
proof -
  let ?l = "calcIndex s ld" and ?t = "calcIndex s st"
  have i: "?l < SSITSize s" "?t < SSITSize s" "?l < length (SSIT s)" "?t < length (SSIT s)"
    "?l < length (validSSIT s)" "?t < length (validSSIT s)"
    using calcIndex_less [OF assms] assms by (auto simp: ss_inv_def)
  have new: "calcSSID s ld < LFSTSize s" using calcSSID_less [OF assms] .
  have ent: "validSSIT s ! ?l \<Longrightarrow> SSIT s ! ?l < LFSTSize s" "validSSIT s ! ?t \<Longrightarrow> SSIT s ! ?t < LFSTSize s"
    using assms i(1,2) by (auto simp: ss_inv_def)
  have ci: "calcIndex (s\<lparr>validSSIT := v, SSIT := w\<rparr>) PC = calcIndex s PC" "calcIndex (s\<lparr>SSIT := w\<rparr>) PC = calcIndex s PC" for v w PC
    by (simp_all add: calcIndex_def)
  consider "\<not> validSSIT s ! ?l" "\<not> validSSIT s ! ?t" | "validSSIT s ! ?l" "\<not> validSSIT s ! ?t"
    | "\<not> validSSIT s ! ?l" "validSSIT s ! ?t" | "validSSIT s ! ?l" "validSSIT s ! ?t" by blast
  then show ?thesis
  proof cases
    case 1
    then show ?thesis using i new assms by (auto simp: violation_def Let_def ci ss_inv_def nth_list_update_eq_if)
  next
    case 2
    then show ?thesis using i ent assms by (auto simp: violation_def Let_def ci ss_inv_def nth_list_update_eq_if)
  next
    case 3
    then show ?thesis using i ent assms by (auto simp: violation_def Let_def ci ss_inv_def nth_list_update_eq_if)
  next
    case 4
    then show ?thesis using i ent assms by (auto simp: violation_def Let_def ci ss_inv_def nth_list_update_eq_if)
  qed
qed

lemma checkClear_ok:
  assumes "ss_inv s" "memOpsPred s + 1 < 2 ^ 31"
  shows "\<exists>s'. checkClear s = Inr s' \<and> ss_inv s' \<and> set (storeList s') \<subseteq> set (storeList s) \<and> (\<forall>PC. calcIndex s' PC = calcIndex s PC) \<and>
    (of_int (memOpsPred s + 1) \<le> clearPeriod s \<longrightarrow> s' = s\<lparr>memOpsPred := memOpsPred s + 1\<rparr>)"
  using assms by (auto simp: checkClear_def ss_clear_def ss_inv_def calcIndex_def Let_def not_less)

lemma set_map_put: "set (map_put k v l) \<subseteq> insert (k, v) (set l)"
  by (induction k v l rule: map_put.induct) (auto split: if_splits)

lemma sorted_map_put: "sorted_wrt (\<lambda>a b. fst a > fst b) l \<Longrightarrow> sorted_wrt (\<lambda>a b. fst a > fst b) (map_put k v l)"
proof (induction l)
  case (Cons e l)
  obtain k' v' where e: "e = (k', v')" by (cases e)
  have "fst b < k'" if "b \<in> set (map_put k v l)" "k < k'" for b
    using set_map_put [of k v l] that Cons.prems e by auto
  then show ?case using Cons e by (auto simp: not_less_iff_gr_or_eq)
qed simp

lemma insertStore_ok:
  assumes "ss_inv s" "memOpsPred s + 1 < 2 ^ 31" "\<And>m i. (m, i) \<in> set (storeList s) \<Longrightarrow> m < n"
  shows "\<exists>s'. insertStore PC n s = Inr s' \<and> ss_inv s' \<and> (\<forall>(m, i) \<in> set (storeList s'). m \<le> n)"
proof -
  obtain s1 where s1: "checkClear s = Inr s1" "ss_inv s1" "set (storeList s1) \<subseteq> set (storeList s)" "\<And>PC. calcIndex s1 PC = calcIndex s PC"
    using checkClear_ok [OF assms(1,2)] by blast
  let ?i = "calcIndex s PC" and ?d = "SSIT s1 ! calcIndex s PC"
  have i: "?i < SSITSize s1" using calcIndex_less [OF s1(2), of PC] s1(4) by simp
  have old: "\<And>m j. (m, j) \<in> set (storeList s1) \<Longrightarrow> m < n" using s1(3) assms(3) by blast
  show ?thesis
  proof (cases "validSSIT s1 ! ?i")
    case False
    then show ?thesis using s1(1,2) i old by (auto simp: insertStore_def Let_def intro: less_imp_le)
  next
    case True
    let ?s = "s1\<lparr>LFST := (LFST s1)[?d := n], validLFST := (validLFST s1)[?d := True], storeList := map_put n ?d (storeList s1)\<rparr>"
    have d: "?d < LFSTSize s1" using s1(2) True i by (simp add: ss_inv_def)
    have run: "insertStore PC n s = Inr ?s" using s1(1) True d i by (simp add: insertStore_def Let_def)
    have L: "length (LFST s1) = LFSTSize s1" using s1(2) by (simp add: ss_inv_def)
    have mem: "j < LFSTSize s1 \<and> m \<le> (LFST s1)[?d := n] ! j \<and> m \<le> n" if "(m, j) \<in> set (map_put n ?d (storeList s1))" for m j
    proof -
      have "(m, j) = (n, ?d) \<or> (m, j) \<in> set (storeList s1)" using that set_map_put [of n ?d "storeList s1"] by blast
      then consider "m = n" "j = ?d" | "(m, j) \<in> set (storeList s1)" by auto
      then show ?thesis
      proof cases
        case 2
        then have "j < LFSTSize s1" "m \<le> LFST s1 ! j" using s1(2) by (auto simp: ss_inv_def)
        then show ?thesis using old [OF 2] by (auto simp: nth_list_update_eq_if)
      qed (use d L in auto)
    qed
    have "ss_inv ?s" using s1(2) sorted_map_put [of "storeList s1" n ?d] mem by (auto simp: ss_inv_def)
    then show ?thesis using run mem by auto
  qed
qed

lemma issued_ok:
  assumes "ss_inv s"
  shows "\<exists>s'. ss_issued PC n b s = Inr s' \<and> ss_inv s' \<and> set (storeList s') \<subseteq> set (storeList s)"
proof -
  let ?i = "calcIndex s PC"
  have i: "?i < SSITSize s" using calcIndex_less [OF assms] .
  have "ss_inv (s\<lparr>storeList := filter P (storeList s)\<rparr>)" for P using assms by (auto simp: ss_inv_def sorted_wrt_filter)
  moreover have "ss_inv (s\<lparr>storeList := filter P (storeList s), validLFST := (validLFST s)[j := v]\<rparr>)" for P j v
    using assms by (auto simp: ss_inv_def sorted_wrt_filter)
  moreover have "SSIT s ! ?i < LFSTSize s" if "validSSIT s ! ?i" using assms that i by (simp add: ss_inv_def)
  ultimately show ?thesis using assms i by (auto simp: ss_issued_def Let_def)
qed

text \<open>The loop of a squash ends on such a state, and what it leaves.\<close>

lemma squash_stores_ok:
  assumes "ss_inv s"
  shows "\<exists>s'. squash_stores sn s = Some (Inr s') \<and> ss_inv s' \<and> storeList s' = filter (\<lambda>e. fst e \<le> sn) (storeList s) \<and>
    (\<forall>i < LFSTSize s. validLFST s' ! i \<longleftrightarrow> validLFST s ! i \<and> (\<forall>(n, j) \<in> set (storeList s). j = i \<longrightarrow> n \<le> sn))"
  using assms
proof (induction "storeList s" arbitrary: s)
  case Nil
  then show ?case by (subst squash_stores.simps) (auto simp: retO_def)
next
  case (Cons e l)
  obtain n i where e: "e = (n, i)" by (cases e)
  have sl: "storeList s = (n, i) # l" using Cons.hyps(2) e by simp
  have i: "i < LFSTSize s" "i < length (LFST s)" "n \<le> LFST s ! i" "\<forall>(m, j) \<in> set l. m < n" "length (validLFST s) = LFSTSize s"
    using Cons.prems sl by (auto simp: ss_inv_def)
  show ?case
  proof (cases "n \<le> sn")
    case True
    then have "\<forall>(m, j) \<in> set (storeList s). m \<le> sn" using sl i(4) by (auto intro: less_imp_le less_le_trans)
    moreover from this have "filter (\<lambda>e. fst e \<le> sn) (storeList s) = storeList s" by (auto intro!: filter_True)
    moreover have "squash_stores sn s = Some (Inr s)" using sl True by (subst squash_stores.simps) (simp add: retO_def)
    ultimately show ?thesis using Cons.prems by (auto split: prod.splits)
  next
    case False
    then have y: "LFST s ! i > sn" using i(3) by (meson le_less_trans linorder_not_le less_le_trans)
    let ?s = "s\<lparr>validLFST := (validLFST s)[i := False], storeList := l\<rparr>"
    have "(validLFST s)[i := False] = validLFST s" if "\<not> validLFST s ! i" using that by (metis list_update_id)
    then have same: "s\<lparr>storeList := l\<rparr> = ?s" if "\<not> validLFST s ! i" using that by (cases s) simp
    have step: "squash_stores sn s = squash_stores sn ?s"
      using sl False y i(2) same by (subst squash_stores.simps) auto
    have inv: "ss_inv ?s" using Cons.prems sl by (auto simp: ss_inv_def)
    from Cons.hyps(1) [of ?s, OF _ inv] obtain s' where s': "squash_stores sn ?s = Some (Inr s')" "ss_inv s'"
      "storeList s' = filter (\<lambda>e. fst e \<le> sn) l"
      "\<forall>k < LFSTSize s. validLFST s' ! k \<longleftrightarrow> (validLFST s)[i := False] ! k \<and> (\<forall>(n, j) \<in> set l. j = k \<longrightarrow> n \<le> sn)" by auto
    have "validLFST s' ! k \<longleftrightarrow> validLFST s ! k \<and> (\<forall>(n, j) \<in> set (storeList s). j = k \<longrightarrow> n \<le> sn)" if "k < LFSTSize s" for k
      using s'(4) that sl False i(5) by (auto simp: nth_list_update_eq_if)
    then show ?thesis using step s' sl False by auto
  qed
qed

section \<open>Properties\<close>

text \<open>A run of the predictor of one thread: \<open>n\<close> is the youngest store inserted so far. Stores are
  inserted in program order.\<close>

inductive ss_run :: "store_set \<Rightarrow> u64 \<Rightarrow> bool" where
  start: "StoreSet cp a b = Inr s \<Longrightarrow> a < 2 ^ 31 \<Longrightarrow> b < 2 ^ 31 \<Longrightarrow> ss_run s 0"
| violated: "ss_run s n \<Longrightarrow> violation st ld s = Inr s' \<Longrightarrow> ss_run s' n"
| load: "ss_run s n \<Longrightarrow> memOpsPred s + 1 < 2 ^ 31 \<Longrightarrow> insertLoad PC m s = Inr s' \<Longrightarrow> ss_run s' n"
| store: "ss_run s n \<Longrightarrow> memOpsPred s + 1 < 2 ^ 31 \<Longrightarrow> n < m \<Longrightarrow> insertStore PC m s = Inr s' \<Longrightarrow> ss_run s' m"
| issue: "ss_run s n \<Longrightarrow> ss_issued PC m b s = Inr s' \<Longrightarrow> ss_run s' n"
| squash: "ss_run s n \<Longrightarrow> ss_squash sn tid s = Some (Inr s') \<Longrightarrow> ss_run s' n"
| cleared: "ss_run s n \<Longrightarrow> ss_run (ss_clear s) n"

lemma ss_run_inv:
  assumes "ss_run s n"
  shows "ss_inv s \<and> (\<forall>(m, i) \<in> set (storeList s). m \<le> n)"
  using assms
proof induction
  case (start cp a b s)
  have w: "of_nat a \<noteq> (0 :: u64)" "of_nat b \<noteq> (0 :: u64)" using start(1) by (auto simp: StoreSet_def isPowerOf2_def)
  have nz: "k \<noteq> 0" if "of_nat k \<noteq> (0 :: u64)" for k :: nat using that by (rule contrapos_nn) simp
  have "a \<noteq> 0" "b \<noteq> 0" using nz [OF w(1)] nz [OF w(2)] by auto
  then show ?case using start by (auto simp: StoreSet_def ss_inv_def)
next
  case (violated s n st ld s')
  then show ?case using violation_ok [of s st ld] by auto
next
  case (load s n PC m s')
  then show ?case using checkClear_ok [of s] by (auto simp: insertLoad_def)
next
  case (store s n m PC s')
  then show ?case using insertStore_ok [of s m PC] by (fastforce intro: le_less_trans)
next
  case (issue s n PC m b s')
  then show ?case using issued_ok [of s PC m b] by auto
next
  case (squash s n sn tid s')
  then show ?case using squash_stores_ok [of s sn] by (auto simp: ss_squash_def)
next
  case (cleared s n)
  then show ?case by (auto simp: ss_clear_def ss_inv_def)
qed

text \<open>C31: squashing the store sets ends. After any run that inserts the stores of the thread in program
  order, the loop of \<^verbatim>\<open>squash\<close> returns, the list of stores in flight is exactly the part up to the
  squash point, and the last fetched store of a set is forgotten exactly when the list had a
  younger store of that set.\<close>

theorem store_set_squash_ends:
  assumes "ss_run s n"
  shows "\<exists>s'. ss_squash sn tid s = Some (Inr s') \<and> storeList s' = filter (\<lambda>e. fst e \<le> sn) (storeList s) \<and>
    (\<forall>i < LFSTSize s. validLFST s' ! i \<longleftrightarrow> validLFST s ! i \<and> (\<forall>(n, j) \<in> set (storeList s). j = i \<longrightarrow> n \<le> sn))"
  using squash_stores_ok [of s sn] ss_run_inv [OF assms] by (auto simp: ss_squash_def)

definition ss_example :: store_set where
  "ss_example = projr (bindR (StoreSet 100 4 2) (\<lambda>s. bindR (violation 8 4 s) (\<lambda>s. bindR (insertStore 8 5 s) (insertStore 8 9))))"

lemma ss_example_eval: "storeList ss_example = [(9, 0), (5, 0)]" "memOpsPred ss_example = 2" "clearPeriod ss_example = 100"
  by (simp_all add: ss_example_def StoreSet_def violation_def insertStore_def checkClear_def calcIndex_def calcSSID_def isPowerOf2_def Let_def)

lemma ss_example_run: "ss_run ss_example 9"
proof -
  obtain s1 where s1: "StoreSet 100 4 2 = Inr s1" "memOpsPred s1 = 0"
    by (auto simp: StoreSet_def isPowerOf2_def)
  have inv: "ss_inv s1" using ss_run_inv [OF ss_run.start [OF s1(1)]] by simp
  obtain s2 where s2: "violation 8 4 s1 = Inr s2" "ss_inv s2" "storeList s2 = storeList s1" "memOpsPred s2 = 0"
    using violation_ok [OF inv, of 8 4] s1(2) by auto
  have r2: "ss_run s2 0" using ss_run.violated [OF ss_run.start [OF s1(1)] s2(1)] by simp
  have e: "storeList s2 = []" using s2(3) s1(1) by (auto simp: StoreSet_def isPowerOf2_def)
  obtain s3 where s3: "insertStore 8 5 s2 = Inr s3" using insertStore_ok [OF s2(2), of 5 8] s2(4) e by auto
  have r3: "ss_run s3 5" using ss_run.store [OF r2 _ _ s3] s2(4) by simp
  have m3: "memOpsPred s3 \<le> 1"
    using s3 s2(4) by (auto simp: insertStore_def checkClear_def bindR_Inr_iff ss_clear_def Let_def split: if_splits)
  have "k < 9" if "(k, i) \<in> set (storeList s3)" for k i using ss_run_inv [OF r3] that by (force intro: le_less_trans [of k 5 9])
  then obtain s4 where s4: "insertStore 8 9 s3 = Inr s4"
    using insertStore_ok [of s3 9 8] ss_run_inv [OF r3] m3 by auto
  have "ss_run s4 9" using ss_run.store [OF r3 _ _ s4] m3 by simp
  moreover have "ss_example = s4" by (simp add: ss_example_def s1(1) s2(1) s3 s4)
  ultimately show ?thesis by simp
qed

theorem store_set_squash_ends_witness:
  "\<exists>s'. ss_squash 6 0 ss_example = Some (Inr s') \<and> map fst (storeList s') = [5]"
proof -
  have "map fst (filter (\<lambda>e. fst e \<le> 6) (storeList ss_example)) = [5]"
    by (simp add: ss_example_eval)
  then show ?thesis using store_set_squash_ends [OF ss_example_run, of 6 0] by auto
qed

text \<open>C32: a load that was caught ahead of a store waits for the next instance of that store. After a
  violation between the two, as long as the predictor is not cleared, inserting the store makes
  it the answer for the load, until the store issues.\<close>

theorem violating_load_waits:
  assumes "ss_run s n" "n < m" "memOpsPred s + 1 < 2 ^ 31" "of_int (memOpsPred s + 1) \<le> clearPeriod s"
  shows "\<exists>s1 s2 s3. violation st ld s = Inr s1 \<and> insertStore st m s1 = Inr s2 \<and> checkInst ld s2 = Inr m \<and>
    ss_issued st m True s2 = Inr s3 \<and> checkInst ld s3 = Inr 0"
proof -
  have inv: "ss_inv s" "\<And>k i. (k, i) \<in> set (storeList s) \<Longrightarrow> k < m"
    using ss_run_inv [OF assms(1)] assms(2) by (auto intro: le_less_trans)
  obtain s1 where s1: "violation st ld s = Inr s1" "ss_inv s1" "validSSIT s1 ! calcIndex s st" "validSSIT s1 ! calcIndex s ld"
    "SSIT s1 ! calcIndex s st = SSIT s1 ! calcIndex s ld" "\<And>PC. calcIndex s1 PC = calcIndex s PC"
    "memOpsPred s1 = memOpsPred s" "clearPeriod s1 = clearPeriod s"
    using violation_ok [OF inv(1), of st ld] by blast
  define li where "li = calcIndex s1 ld"
  define si where "si = calcIndex s1 st"
  define d where "d = SSIT s1 ! li"
  have v: "validSSIT s1 ! li" "validSSIT s1 ! si" "SSIT s1 ! si = d" "li < SSITSize s1" "si < SSITSize s1"
    using s1(3-6) calcIndex_less [OF s1(2)] by (auto simp: li_def si_def d_def)
  have d: "d < LFSTSize s1" "d < length (LFST s1)" "d < length (validLFST s1)"
    using s1(2) v(1,4) by (auto simp: ss_inv_def d_def)
  have ci: "calcIndex s' ld = li \<and> calcIndex s' st = si" if "SSITSize s' = SSITSize s1" for s'
    using that by (simp add: calcIndex_def li_def si_def)
  have cc: "checkClear s1 = Inr (s1\<lparr>memOpsPred := memOpsPred s + 1\<rparr>)"
    using checkClear_ok [OF s1(2)] s1(7,8) assms(3,4) by auto
  define s2 where "s2 = s1\<lparr>memOpsPred := memOpsPred s + 1, LFST := (LFST s1)[d := m], validLFST := (validLFST s1)[d := True],
    storeList := map_put m d (storeList s1)\<rparr>"
  have f2: "SSITSize s2 = SSITSize s1" "LFSTSize s2 = LFSTSize s1" "SSIT s2 = SSIT s1" "validSSIT s2 = validSSIT s1"
    "LFST s2 ! d = m" "validLFST s2 ! d" "d < length (validLFST s2)" using d by (simp_all add: s2_def)
  define s3 where "s3 = s2\<lparr>storeList := filter (\<lambda>e. fst e \<noteq> m) (storeList s2), validLFST := (validLFST s2)[d := False]\<rparr>"
  have f3: "SSITSize s3 = SSITSize s1" "LFSTSize s3 = LFSTSize s1" "SSIT s3 = SSIT s1" "validSSIT s3 = validSSIT s1" "\<not> validLFST s3 ! d"
    using f2 by (simp_all add: s3_def)
  have "insertStore st m s1 = Inr s2"
    using cc v d(1) ci [of s1] by (simp add: insertStore_def Let_def s2_def)
  moreover have "checkInst ld s2 = Inr m"
    using v d(1) f2 ci [OF f2(1)] by (simp add: checkInst_def Let_def flip: d_def)
  moreover have "ss_issued st m True s2 = Inr s3"
    using v d(1) f2 ci [OF f2(1)] by (simp add: ss_issued_def Let_def s3_def)
  moreover have "checkInst ld s3 = Inr 0"
    using v d(1) f3 ci [OF f3(1)] by (simp add: checkInst_def Let_def flip: d_def)
  ultimately show ?thesis using s1(1) by blast
qed

theorem violating_load_waits_witness:
  "\<exists>s1 s2 s3. violation 12 16 ss_example = Inr s1 \<and> insertStore 12 10 s1 = Inr s2 \<and> checkInst 16 s2 = Inr 10 \<and>
    ss_issued 12 10 True s2 = Inr s3 \<and> checkInst 16 s3 = Inr 0"
proof -
  have "memOpsPred ss_example = 2 \<and> clearPeriod ss_example = 100" by (simp add: ss_example_eval)
  then show ?thesis using violating_load_waits [OF ss_example_run, of 10 12 16] by simp
qed

text \<open>Out of program order the loop can spin: a younger store of a set followed by an older one.\<close>

lemma squash_stores_spins:
  assumes "storeList s = (n, i) # l" "n > sn" "i < length (LFST s)" "LFST s ! i \<le> sn"
  shows "squash_stores sn s = None"
proof (rule ccontr)
  assume "squash_stores sn s \<noteq> None"
  then obtain y where "squash_stores sn s = Some y" by auto
  then have "\<not> (storeList s = (n, i) # l \<and> n > sn \<and> i < length (LFST s) \<and> LFST s ! i \<le> sn)"
  proof (induction rule: squash_stores.raw_induct [rotated, consumes 1])
    case (1 f sn s y)
    then show ?case by (auto split: if_splits)
  qed
  then show False using assms by simp
qed

end
