(* ===== verification/Branch_Pred.thy ===== *)
theory Branch_Pred
  imports Intmath Sat_Counter
begin

text \<open>
  The table-based branch predictors under \<^verbatim>\<open>src/gem5/src/cpu/pred\<close>: the direction
  predictors \<^verbatim>\<open>2bit_local.cc\<close>, \<^verbatim>\<open>bi_mode.cc\<close> and \<^verbatim>\<open>tournament.cc\<close>, the return address stack
  \<^verbatim>\<open>ras.cc\<close> and the branch target buffer \<^verbatim>\<open>btb.cc\<close>. The history object a predictor allocates
  for a branch is a value that is handed back to it. A program counter state, whose class
  belongs to the instruction set, is a type parameter with a zero. What a client needs of a
  direction predictor is the locale \<open>direction_predictor\<close>, interpreted for all three.
\<close>

section \<open>Return address stack\<close>

record 'pc ras =
  addrStack :: "'pc list"
  ras_numEntries :: nat
  usedEntries :: nat
  tos :: nat

definition ras_init :: "nat \<Rightarrow> ('pc::zero) ras" where
  "ras_init n = \<lparr>addrStack = replicate n 0, ras_numEntries = n, usedEntries = 0, tos = 0\<rparr>"

definition ras_reset :: "('pc::zero) ras \<Rightarrow> 'pc ras" where
  "ras_reset r = r\<lparr>usedEntries := 0, tos := 0, addrStack := replicate (ras_numEntries r) 0\<rparr>"

definition ras_top :: "'pc ras \<Rightarrow> 'pc" where
  "ras_top r = addrStack r ! tos r"

definition topIdx :: "'pc ras \<Rightarrow> nat" where
  "topIdx r = tos r"

definition incrTos :: "'pc ras \<Rightarrow> 'pc ras" where
  "incrTos r = (if tos r + 1 = ras_numEntries r then r\<lparr>tos := 0\<rparr> else r\<lparr>tos := tos r + 1\<rparr>)"

definition decrTos :: "'pc ras \<Rightarrow> 'pc ras" where
  "decrTos r = r\<lparr>tos := (if tos r = 0 then ras_numEntries r - 1 else tos r - 1)\<rparr>"

definition ras_push :: "'pc \<Rightarrow> 'pc ras \<Rightarrow> 'pc ras" where
  "ras_push return_addr r =
     (let r = incrTos r; r = r\<lparr>addrStack := (addrStack r)[tos r := return_addr]\<rparr>
      in if usedEntries r \<noteq> ras_numEntries r then r\<lparr>usedEntries := usedEntries r + 1\<rparr> else r)"

definition ras_pop :: "'pc ras \<Rightarrow> 'pc ras" where
  "ras_pop r = decrTos (if usedEntries r > 0 then r\<lparr>usedEntries := usedEntries r - 1\<rparr> else r)"

definition ras_restore :: "nat \<Rightarrow> 'pc \<Rightarrow> 'pc ras \<Rightarrow> 'pc ras" where
  "ras_restore top_entry_idx restored r =
     (let r = r\<lparr>tos := top_entry_idx, addrStack := (addrStack r)[top_entry_idx := restored]\<rparr>
      in if usedEntries r \<noteq> ras_numEntries r then r\<lparr>usedEntries := usedEntries r + 1\<rparr> else r)"

definition ras_empty :: "'pc ras \<Rightarrow> bool" where
  "ras_empty r \<longleftrightarrow> usedEntries r = 0"

definition ras_full :: "'pc ras \<Rightarrow> bool" where
  "ras_full r \<longleftrightarrow> usedEntries r = ras_numEntries r"

section \<open>Branch target buffer\<close>

record 'pc btb_entry =
  bt_tag :: addr
  bt_target :: 'pc
  bt_tid :: nat
  bt_valid :: bool

record 'pc btb =
  btb_entries :: "'pc btb_entry list"
  btb_numEntries :: u32
  idxMask :: u32
  tagMask :: u32
  btb_instShiftAmt :: nat
  tagShiftAmt :: nat
  log2NumThreads :: nat

definition DefaultBTB :: "u32 \<Rightarrow> nat \<Rightarrow> nat \<Rightarrow> u32 \<Rightarrow> ('pc::zero) btb result" where
  "DefaultBTB n tag_bits shift threads =
     bindR (floorLog2 4 (ucast threads)) (\<lambda>lt.
     guardR (isPowerOf2 (ucast n)) Fatal_Error
     (bindR (floorLog2 4 (ucast n)) (\<lambda>ln.
      Inr \<lparr>btb_entries = replicate (unat n) \<lparr>bt_tag = 0, bt_target = 0, bt_tid = 0, bt_valid = False\<rparr>,
        btb_numEntries = n, idxMask = n - 1, tagMask = push_bit tag_bits 1 - 1, btb_instShiftAmt = shift,
        tagShiftAmt = shift + ln, log2NumThreads = lt\<rparr>)))"

definition btb_reset :: "'pc btb \<Rightarrow> 'pc btb" where
  "btb_reset b = b\<lparr>btb_entries := map (\<lambda>e. e\<lparr>bt_valid := False\<rparr>) (btb_entries b)\<rparr>"

definition getIndex :: "addr \<Rightarrow> nat \<Rightarrow> 'pc btb \<Rightarrow> nat" where
  "getIndex instPC tid b = unat ((drop_bit (btb_instShiftAmt b) instPC XOR
     push_bit (tagShiftAmt b - btb_instShiftAmt b - log2NumThreads b) (of_nat tid)) AND ucast (idxMask b))"

definition getTag :: "addr \<Rightarrow> 'pc btb \<Rightarrow> addr" where
  "getTag instPC b = drop_bit (tagShiftAmt b) instPC AND ucast (tagMask b)"

definition btb_hit :: "addr \<Rightarrow> nat \<Rightarrow> 'pc btb \<Rightarrow> bool" where
  "btb_hit instPC tid b = (let e = btb_entries b ! getIndex instPC tid b
     in bt_valid e \<and> getTag instPC b = bt_tag e \<and> bt_tid e = tid)"

definition btb_valid :: "addr \<Rightarrow> nat \<Rightarrow> 'pc btb \<Rightarrow> bool result" where
  "btb_valid instPC tid b = guardR (getIndex instPC tid b < unat (btb_numEntries b)) Assert_Failed (Inr (btb_hit instPC tid b))"

definition btb_lookup :: "addr \<Rightarrow> nat \<Rightarrow> ('pc::zero) btb \<Rightarrow> 'pc result" where
  "btb_lookup instPC tid b = guardR (getIndex instPC tid b < unat (btb_numEntries b)) Assert_Failed
     (Inr (if btb_hit instPC tid b then bt_target (btb_entries b ! getIndex instPC tid b) else 0))"

definition btb_update :: "addr \<Rightarrow> 'pc \<Rightarrow> nat \<Rightarrow> 'pc btb \<Rightarrow> 'pc btb result" where
  "btb_update instPC target tid b = guardR (getIndex instPC tid b < unat (btb_numEntries b)) Assert_Failed
     (Inr (b\<lparr>btb_entries := (btb_entries b)[getIndex instPC tid b :=
        \<lparr>bt_tag = getTag instPC b, bt_target = target, bt_tid = tid, bt_valid = True\<rparr>]\<rparr>))"

section \<open>Local predictor\<close>

definition ctr_table :: "nat \<Rightarrow> nat \<Rightarrow> sat_counter list result" where
  "ctr_table n bits = bindR (SatCounter bits 0) (\<lambda>c. Inr (replicate n c))"

definition ctr_step :: "bool \<Rightarrow> nat \<Rightarrow> sat_counter list \<Rightarrow> sat_counter list" where
  "ctr_step taken i cs = cs[i := (if taken then sc_incr (cs ! i) else sc_decr (cs ! i))]"

record local_bp =
  lbp_localCtrBits :: nat
  lbp_localCtrs :: "sat_counter list"
  lbp_indexMask :: u32
  lbp_instShiftAmt :: nat

definition LocalBP :: "u32 \<Rightarrow> u32 \<Rightarrow> nat \<Rightarrow> local_bp result" where
  "LocalBP localPredictorSize localCtrBits shift =
     guardR (localCtrBits \<noteq> 0) Out_Of_Range
     (let sets = localPredictorSize div localCtrBits in
      bindR (ctr_table (unat sets) (unat localCtrBits)) (\<lambda>cs.
      guardR (isPowerOf2 (ucast localPredictorSize)) Fatal_Error
      (guardR (isPowerOf2 (ucast sets)) Fatal_Error
        (Inr \<lparr>lbp_localCtrBits = unat localCtrBits, lbp_localCtrs = cs, lbp_indexMask = sets - 1, lbp_instShiftAmt = shift\<rparr>))))"

definition getLocalIndex :: "addr \<Rightarrow> local_bp \<Rightarrow> nat" where
  "getLocalIndex branch_addr s = unat (drop_bit (lbp_instShiftAmt s) branch_addr AND ucast (lbp_indexMask s))"

definition getPrediction :: "u8 \<Rightarrow> local_bp \<Rightarrow> bool" where
  "getPrediction count s \<longleftrightarrow> drop_bit (lbp_localCtrBits s - 1) count \<noteq> 0"

definition lbp_lookup :: "nat \<Rightarrow> addr \<Rightarrow> local_bp \<Rightarrow> (bool \<times> unit \<times> local_bp) result" where
  "lbp_lookup tid branch_addr s = Inr (getPrediction (counter (lbp_localCtrs s ! getLocalIndex branch_addr s)) s, (), s)"

definition lbp_update :: "nat \<Rightarrow> addr \<Rightarrow> bool \<Rightarrow> unit \<Rightarrow> bool \<Rightarrow> local_bp \<Rightarrow> local_bp result" where
  "lbp_update tid branch_addr taken h squashed s = Inr (if squashed then s
     else s\<lparr>lbp_localCtrs := ctr_step taken (getLocalIndex branch_addr s) (lbp_localCtrs s)\<rparr>)"

definition lbp_uncondBranch :: "nat \<Rightarrow> addr \<Rightarrow> local_bp \<Rightarrow> unit \<times> local_bp" where
  "lbp_uncondBranch tid pc s = ((), s)"

definition lbp_btbUpdate :: "nat \<Rightarrow> addr \<Rightarrow> local_bp \<Rightarrow> local_bp" where
  "lbp_btbUpdate tid branch_addr s = s"

definition lbp_squash :: "nat \<Rightarrow> unit \<Rightarrow> local_bp \<Rightarrow> local_bp" where
  "lbp_squash tid h s = s"

section \<open>Bi-mode predictor\<close>

record bimode_history =
  bh_globalHistoryReg :: u32
  bh_takenUsed :: bool
  bh_takenPred :: bool
  bh_notTakenPred :: bool
  bh_finalPred :: bool

record bimode_bp =
  globalHistoryReg :: "u32 list"
  bm_historyRegisterMask :: u32
  bm_choicePredictorSize :: u32
  bm_choiceHistoryMask :: u32
  bm_globalPredictorSize :: u32
  bm_globalHistoryMask :: u32
  choiceCounters :: "sat_counter list"
  takenCounters :: "sat_counter list"
  notTakenCounters :: "sat_counter list"
  bm_choiceThreshold :: u32
  takenThreshold :: u32
  notTakenThreshold :: u32
  bm_instShiftAmt :: nat

text \<open>The threshold of counters of \<open>bits\<close> bits.\<close>

definition threshold :: "nat \<Rightarrow> u32" where
  "threshold bits = ucast (push_bit (bits - 1) (1 :: u64) - 1)"

definition BiModeBP :: "nat \<Rightarrow> u32 \<Rightarrow> nat \<Rightarrow> u32 \<Rightarrow> nat \<Rightarrow> nat \<Rightarrow> bimode_bp result" where
  "BiModeBP threads choiceSize choiceBits globalSize globalBits shift =
     bindR (ceilLog2 4 (ucast globalSize)) (\<lambda>hist_bits.
     bindR (ctr_table (unat choiceSize) choiceBits) (\<lambda>cc.
     bindR (ctr_table (unat globalSize) globalBits) (\<lambda>gc.
     guardR (isPowerOf2 (ucast choiceSize)) Fatal_Error
     (guardR (isPowerOf2 (ucast globalSize)) Fatal_Error
     (guardR (choiceBits \<noteq> 0 \<and> globalBits \<noteq> 0) Out_Of_Range
     (Inr \<lparr>globalHistoryReg = replicate threads 0, bm_historyRegisterMask = ucast (mask_u64 hist_bits),
        bm_choicePredictorSize = choiceSize, bm_choiceHistoryMask = choiceSize - 1,
        bm_globalPredictorSize = globalSize, bm_globalHistoryMask = globalSize - 1,
        choiceCounters = cc, takenCounters = gc, notTakenCounters = gc,
        bm_choiceThreshold = threshold choiceBits, takenThreshold = threshold globalBits,
        notTakenThreshold = threshold globalBits, bm_instShiftAmt = shift\<rparr>))))))"

definition over :: "sat_counter list \<Rightarrow> nat \<Rightarrow> u32 \<Rightarrow> bool" where
  "over cs i thr \<longleftrightarrow> unat (counter (cs ! i)) > unat thr"

definition bm_updateGlobalHistReg :: "nat \<Rightarrow> bool \<Rightarrow> bimode_bp \<Rightarrow> bimode_bp" where
  "bm_updateGlobalHistReg tid taken s =
     (let g = globalHistoryReg s ! tid; g = (if taken then push_bit 1 g OR 1 else push_bit 1 g)
      in s\<lparr>globalHistoryReg := (globalHistoryReg s)[tid := g AND bm_historyRegisterMask s]\<rparr>)"

definition bm_uncondBranch :: "nat \<Rightarrow> addr \<Rightarrow> bimode_bp \<Rightarrow> bimode_history \<times> bimode_bp" where
  "bm_uncondBranch tid pc s =
     (\<lparr>bh_globalHistoryReg = globalHistoryReg s ! tid, bh_takenUsed = True, bh_takenPred = True, bh_notTakenPred = True, bh_finalPred = True\<rparr>,
      bm_updateGlobalHistReg tid True s)"

definition bm_squash :: "nat \<Rightarrow> bimode_history \<Rightarrow> bimode_bp \<Rightarrow> bimode_bp" where
  "bm_squash tid h s = s\<lparr>globalHistoryReg := (globalHistoryReg s)[tid := bh_globalHistoryReg h]\<rparr>"

definition bm_choiceIdx :: "addr \<Rightarrow> bimode_bp \<Rightarrow> nat" where
  "bm_choiceIdx branchAddr s = unat (drop_bit (bm_instShiftAmt s) branchAddr AND ucast (bm_choiceHistoryMask s))"

definition bm_globalIdx :: "addr \<Rightarrow> u32 \<Rightarrow> bimode_bp \<Rightarrow> nat" where
  "bm_globalIdx branchAddr hist s =
     unat ((drop_bit (bm_instShiftAmt s) branchAddr XOR ucast hist) AND ucast (bm_globalHistoryMask s))"

definition bm_lookup :: "nat \<Rightarrow> addr \<Rightarrow> bimode_bp \<Rightarrow> (bool \<times> bimode_history \<times> bimode_bp) result" where
  "bm_lookup tid branchAddr s =
     (let ci = bm_choiceIdx branchAddr s; gi = bm_globalIdx branchAddr (globalHistoryReg s ! tid) s in
      guardR (ci < unat (bm_choicePredictorSize s)) Assert_Failed
      (guardR (gi < unat (bm_globalPredictorSize s)) Assert_Failed
      (let choicePrediction = over (choiceCounters s) ci (bm_choiceThreshold s);
           takenGHBPrediction = over (takenCounters s) gi (takenThreshold s);
           notTakenGHBPrediction = over (notTakenCounters s) gi (notTakenThreshold s);
           finalPrediction = (if choicePrediction then takenGHBPrediction else notTakenGHBPrediction)
       in Inr (finalPrediction,
            \<lparr>bh_globalHistoryReg = globalHistoryReg s ! tid, bh_takenUsed = choicePrediction, bh_takenPred = takenGHBPrediction,
             bh_notTakenPred = notTakenGHBPrediction, bh_finalPred = finalPrediction\<rparr>,
            bm_updateGlobalHistReg tid finalPrediction s))))"

definition bm_btbUpdate :: "nat \<Rightarrow> addr \<Rightarrow> bimode_bp \<Rightarrow> bimode_bp" where
  "bm_btbUpdate tid branchAddr s = s\<lparr>globalHistoryReg := (globalHistoryReg s)
     [tid := globalHistoryReg s ! tid AND (bm_historyRegisterMask s AND NOT 1)]\<rparr>"

definition bm_update :: "nat \<Rightarrow> addr \<Rightarrow> bool \<Rightarrow> bimode_history \<Rightarrow> bool \<Rightarrow> bimode_bp \<Rightarrow> bimode_bp result" where
  "bm_update tid branchAddr taken h squashed s =
     (if squashed
      then Inr (s\<lparr>globalHistoryReg := (globalHistoryReg s)[tid := push_bit 1 (bh_globalHistoryReg h) OR (if taken then 1 else 0)]\<rparr>)
      else (let ci = bm_choiceIdx branchAddr s; gi = bm_globalIdx branchAddr (bh_globalHistoryReg h) s in
        guardR (ci < unat (bm_choicePredictorSize s)) Assert_Failed
        (guardR (gi < unat (bm_globalPredictorSize s)) Assert_Failed
        (let s = (if bh_takenUsed h then s\<lparr>takenCounters := ctr_step taken gi (takenCounters s)\<rparr>
                  else s\<lparr>notTakenCounters := ctr_step taken gi (notTakenCounters s)\<rparr>)
         in Inr (if bh_finalPred h = taken
                 then (if bh_finalPred h = bh_takenUsed h then s\<lparr>choiceCounters := ctr_step taken ci (choiceCounters s)\<rparr> else s)
                 else s\<lparr>choiceCounters := ctr_step taken ci (choiceCounters s)\<rparr>)))))"

section \<open>Tournament predictor\<close>

record tournament_history =
  th_globalHistory :: u32
  th_localHistoryIdx :: u32
  th_localHistory :: u32
  th_localPredTaken :: bool
  th_globalPredTaken :: bool
  th_globalUsed :: bool

record tournament_bp =
  tb_localPredictorSize :: u32
  localPredictorMask :: u32
  tb_localCtrs :: "sat_counter list"
  localHistoryTable :: "u32 list"
  localHistoryTableSize :: u32
  globalCtrs :: "sat_counter list"
  globalHistory :: "u32 list"
  tb_globalHistoryMask :: u32
  tb_choiceHistoryMask :: u32
  tb_historyRegisterMask :: u32
  choiceCtrs :: "sat_counter list"
  localThreshold :: u32
  globalThreshold :: u32
  tb_choiceThreshold :: u32
  tb_instShiftAmt :: nat

definition invalidPredictorIndex :: u32 where "invalidPredictorIndex = - 1"

definition TournamentBP :: "nat \<Rightarrow> u32 \<Rightarrow> nat \<Rightarrow> u32 \<Rightarrow> u32 \<Rightarrow> nat \<Rightarrow> u32 \<Rightarrow> nat \<Rightarrow> nat \<Rightarrow> tournament_bp result" where
  "TournamentBP threads localSize localBits localTableSize globalSize globalBits choiceSize choiceBits shift =
     bindR (ctr_table (unat localSize) localBits) (\<lambda>lc.
     bindR (ceilLog2 4 (ucast localSize)) (\<lambda>localHistoryBits.
     bindR (ctr_table (unat globalSize) globalBits) (\<lambda>gc.
     bindR (ceilLog2 4 (ucast globalSize)) (\<lambda>gb.
     bindR (ceilLog2 4 (ucast choiceSize)) (\<lambda>cb.
     bindR (ctr_table (unat choiceSize) choiceBits) (\<lambda>cc.
     guardR (isPowerOf2 (ucast localSize)) Fatal_Error
     (guardR (isPowerOf2 (ucast globalSize)) Fatal_Error
     (guardR (isPowerOf2 (ucast localTableSize)) Fatal_Error
     (guardR (isPowerOf2 (ucast choiceSize)) Fatal_Error
     (let histMask = (ucast (mask_u64 (if gb > cb then gb else cb)) :: u32) in
      guardR (\<not> globalSize - 1 > histMask) Fatal_Error
      (guardR (\<not> choiceSize - 1 > histMask) Fatal_Error
      (guardR (localBits \<noteq> 0 \<and> globalBits \<noteq> 0 \<and> choiceBits \<noteq> 0) Out_Of_Range
      (Inr \<lparr>tb_localPredictorSize = localSize, localPredictorMask = ucast (mask_u64 localHistoryBits), tb_localCtrs = lc,
         localHistoryTable = replicate (unat localTableSize) 0, localHistoryTableSize = localTableSize, globalCtrs = gc,
         globalHistory = replicate threads 0, tb_globalHistoryMask = globalSize - 1, tb_choiceHistoryMask = choiceSize - 1,
         tb_historyRegisterMask = histMask, choiceCtrs = cc, localThreshold = threshold localBits,
         globalThreshold = threshold globalBits, tb_choiceThreshold = threshold choiceBits, tb_instShiftAmt = shift\<rparr>)))))))))))))"

definition calcLocHistIdx :: "addr \<Rightarrow> tournament_bp \<Rightarrow> nat" where
  "calcLocHistIdx branch_addr s = unat (drop_bit (tb_instShiftAmt s) branch_addr AND ucast (localHistoryTableSize s - 1))"

definition updateGlobalHist :: "nat \<Rightarrow> bool \<Rightarrow> tournament_bp \<Rightarrow> tournament_bp" where
  "updateGlobalHist tid taken s =
     (let g = push_bit 1 (globalHistory s ! tid); g = (if taken then g OR 1 else g)
      in s\<lparr>globalHistory := (globalHistory s)[tid := g AND tb_historyRegisterMask s]\<rparr>)"

definition updateLocalHist :: "nat \<Rightarrow> bool \<Rightarrow> tournament_bp \<Rightarrow> tournament_bp" where
  "updateLocalHist i taken s =
     (let l = push_bit 1 (localHistoryTable s ! i)
      in s\<lparr>localHistoryTable := (localHistoryTable s)[i := (if taken then l OR 1 else l)]\<rparr>)"

definition tb_btbUpdate :: "nat \<Rightarrow> addr \<Rightarrow> tournament_bp \<Rightarrow> tournament_bp" where
  "tb_btbUpdate tid branch_addr s =
     (let i = calcLocHistIdx branch_addr s in
      s\<lparr>globalHistory := (globalHistory s)[tid := globalHistory s ! tid AND (tb_historyRegisterMask s AND NOT 1)],
        localHistoryTable := (localHistoryTable s)[i := localHistoryTable s ! i AND (localPredictorMask s AND NOT 1)]\<rparr>)"

definition tb_lookup :: "nat \<Rightarrow> addr \<Rightarrow> tournament_bp \<Rightarrow> (bool \<times> tournament_history \<times> tournament_bp) result" where
  "tb_lookup tid branch_addr s =
     (let local_history_idx = calcLocHistIdx branch_addr s;
          local_predictor_idx = localHistoryTable s ! local_history_idx AND localPredictorMask s;
          local_prediction = over (tb_localCtrs s) (unat local_predictor_idx) (localThreshold s);
          global_prediction = over (globalCtrs s) (unat (globalHistory s ! tid AND tb_globalHistoryMask s)) (globalThreshold s);
          choice_prediction = over (choiceCtrs s) (unat (globalHistory s ! tid AND tb_choiceHistoryMask s)) (tb_choiceThreshold s);
          h = \<lparr>th_globalHistory = globalHistory s ! tid, th_localHistoryIdx = of_nat local_history_idx, th_localHistory = local_predictor_idx,
               th_localPredTaken = local_prediction, th_globalPredTaken = global_prediction, th_globalUsed = choice_prediction\<rparr>
      in guardR (local_history_idx < unat (localHistoryTableSize s)) Assert_Failed
         (let taken = (if choice_prediction then global_prediction else local_prediction)
          in Inr (taken, h, updateLocalHist local_history_idx taken (updateGlobalHist tid taken s))))"

definition tb_uncondBranch :: "nat \<Rightarrow> addr \<Rightarrow> tournament_bp \<Rightarrow> tournament_history \<times> tournament_bp" where
  "tb_uncondBranch tid pc s =
     (\<lparr>th_globalHistory = globalHistory s ! tid, th_localHistoryIdx = invalidPredictorIndex, th_localHistory = invalidPredictorIndex,
       th_localPredTaken = True, th_globalPredTaken = True, th_globalUsed = True\<rparr>,
      updateGlobalHist tid True s)"

definition tb_update :: "nat \<Rightarrow> addr \<Rightarrow> bool \<Rightarrow> tournament_history \<Rightarrow> bool \<Rightarrow> tournament_bp \<Rightarrow> tournament_bp result" where
  "tb_update tid branch_addr taken h squashed s =
     (let local_history_idx = calcLocHistIdx branch_addr s in
      guardR (local_history_idx < unat (localHistoryTableSize s)) Assert_Failed
      (let old_local_pred_valid = (th_localHistory h \<noteq> invalidPredictorIndex); bit = (if taken then 1 else 0) in
       if squashed
       then (let s = s\<lparr>globalHistory := (globalHistory s)[tid := (push_bit 1 (th_globalHistory h) OR bit) AND tb_historyRegisterMask s]\<rparr>
             in Inr (if old_local_pred_valid
                     then s\<lparr>localHistoryTable := (localHistoryTable s)[local_history_idx := push_bit 1 (th_localHistory h) OR bit]\<rparr> else s))
       else (let old_local_pred_index = unat (th_localHistory h AND localPredictorMask s) in
             guardR (old_local_pred_index < unat (tb_localPredictorSize s)) Assert_Failed
             (let ci = unat (th_globalHistory h AND tb_choiceHistoryMask s);
                  s = (if th_localPredTaken h \<noteq> th_globalPredTaken h \<and> old_local_pred_valid
                       then (if th_localPredTaken h = taken then s\<lparr>choiceCtrs := ctr_step False ci (choiceCtrs s)\<rparr>
                             else if th_globalPredTaken h = taken then s\<lparr>choiceCtrs := ctr_step True ci (choiceCtrs s)\<rparr> else s)
                       else s);
                  gi = unat (th_globalHistory h AND tb_globalHistoryMask s);
                  s = s\<lparr>globalCtrs := ctr_step taken gi (globalCtrs s)\<rparr>
              in Inr (if old_local_pred_valid then s\<lparr>tb_localCtrs := ctr_step taken old_local_pred_index (tb_localCtrs s)\<rparr> else s)))))"

definition tb_squash :: "nat \<Rightarrow> tournament_history \<Rightarrow> tournament_bp \<Rightarrow> tournament_bp" where
  "tb_squash tid h s =
     (let s = s\<lparr>globalHistory := (globalHistory s)[tid := th_globalHistory h]\<rparr>
      in if th_localHistoryIdx h \<noteq> invalidPredictorIndex
         then s\<lparr>localHistoryTable := (localHistoryTable s)[unat (th_localHistoryIdx h) := th_localHistory h]\<rparr> else s)"

section \<open>The return address stack as a bounded stack\<close>

definition ras_ok :: "'pc ras \<Rightarrow> bool" where
  "ras_ok r \<longleftrightarrow> length (addrStack r) = ras_numEntries r \<and> tos r < ras_numEntries r \<and> usedEntries r \<le> ras_numEntries r"

text \<open>The slot \<open>j\<close> places below the slot \<open>t\<close> of a ring of \<open>n\<close>, the youngest \<open>k\<close> entries, and
  the addresses in use, youngest first.\<close>

definition ring_slot :: "nat \<Rightarrow> nat \<Rightarrow> nat \<Rightarrow> nat" where
  "ring_slot n t j = (if j \<le> t then t - j else t + n - j)"

definition ras_view :: "nat \<Rightarrow> 'pc ras \<Rightarrow> 'pc list" where
  "ras_view k r = map (\<lambda>j. addrStack r ! ring_slot (ras_numEntries r) (tos r) j) [0..<k]"

definition ras_abs :: "'pc ras \<Rightarrow> 'pc list" where
  "ras_abs r = ras_view (usedEntries r) r"

definition ring_succ :: "nat \<Rightarrow> nat \<Rightarrow> nat" where "ring_succ n t = (if t + 1 = n then 0 else t + 1)"

definition ring_pred :: "nat \<Rightarrow> nat \<Rightarrow> nat" where "ring_pred n t = (if t = 0 then n - 1 else t - 1)"

lemma ring_inverse [simp]:
  assumes "t < n"
  shows "ring_pred n (ring_succ n t) = t" "ring_succ n (ring_pred n t) = t" "ring_succ n t < n" "ring_pred n t < n"
  using assms by (auto simp: ring_succ_def ring_pred_def)

lemma ring_slot_0 [simp]: "ring_slot n t 0 = t"
  by (simp add: ring_slot_def)

lemma ring_slot_less: "t < n \<Longrightarrow> j < n \<Longrightarrow> ring_slot n t j < n"
  by (auto simp: ring_slot_def)

lemma ring_slot_Suc: "t < n \<Longrightarrow> Suc j < n \<Longrightarrow> ring_slot n t (Suc j) = ring_slot n (ring_pred n t) j"
  by (auto simp: ring_slot_def ring_pred_def)

lemma ring_slot_inj: "t < n \<Longrightarrow> i < n \<Longrightarrow> j < n \<Longrightarrow> ring_slot n t i = ring_slot n t j \<longleftrightarrow> i = j"
  by (auto simp: ring_slot_def split: if_splits)

lemma ras_ops_fields [simp]:
  "ras_numEntries (ras_push x r) = ras_numEntries r" "tos (ras_push x r) = ring_succ (ras_numEntries r) (tos r)"
  "addrStack (ras_push x r) = (addrStack r)[ring_succ (ras_numEntries r) (tos r) := x]"
  "usedEntries (ras_push x r) = (if usedEntries r \<noteq> ras_numEntries r then usedEntries r + 1 else usedEntries r)"
  "ras_numEntries (ras_pop r) = ras_numEntries r" "tos (ras_pop r) = ring_pred (ras_numEntries r) (tos r)"
  "addrStack (ras_pop r) = addrStack r" "usedEntries (ras_pop r) = usedEntries r - 1"
  "ras_numEntries (ras_restore i x r) = ras_numEntries r" "tos (ras_restore i x r) = i"
  "addrStack (ras_restore i x r) = (addrStack r)[i := x]"
  "usedEntries (ras_restore i x r) = (if usedEntries r \<noteq> ras_numEntries r then usedEntries r + 1 else usedEntries r)"
  by (simp_all add: ras_push_def ras_pop_def ras_restore_def incrTos_def decrTos_def ring_succ_def ring_pred_def Let_def)

lemma ras_ops_ok [gem5_inv]:
  assumes "ras_ok r"
  shows "ras_ok (ras_push x r)" "ras_ok (ras_pop r)" "i < ras_numEntries r \<Longrightarrow> ras_ok (ras_restore i x r)"
  using assms by (auto simp: ras_ok_def)

lemma ras_init_ok: "0 < n \<Longrightarrow> ras_ok (ras_init n) \<and> ras_abs (ras_init n) = []"
  by (simp add: ras_ok_def ras_init_def ras_abs_def ras_view_def)

lemma ras_view_length [simp]: "length (ras_view k r) = k"
  by (simp add: ras_view_def)

lemma ras_view_nth [simp]: "j < k \<Longrightarrow> ras_view k r ! j = addrStack r ! ring_slot (ras_numEntries r) (tos r) j"
  by (simp add: ras_view_def)

lemma ras_view_take: "k \<le> m \<Longrightarrow> take k (ras_view m r) = ras_view k r"
  by (simp add: ras_view_def take_map)

lemma ras_view_mono: "ras_view m r = ras_view m r' \<Longrightarrow> k \<le> m \<Longrightarrow> ras_view k r = ras_view k r'"
  by (metis ras_view_take)

lemma ras_view_top: "0 < k \<Longrightarrow> hd (ras_view k r) = ras_top r"
  by (simp add: ras_view_def hd_map ras_top_def)

lemma ras_view_push:
  assumes "ras_ok r" "Suc k \<le> ras_numEntries r"
  shows "ras_view (Suc k) (ras_push x r) = x # ras_view k r"
proof (rule nth_equalityI)
  let ?n = "ras_numEntries r" and ?t = "ring_succ (ras_numEntries r) (tos r)"
  fix i assume i: "i < length (ras_view (Suc k) (ras_push x r))"
  show "ras_view (Suc k) (ras_push x r) ! i = (x # ras_view k r) ! i"
  proof (cases i)
    case (Suc j)
    then have "ring_slot ?n ?t i = ring_slot ?n (tos r) j" "ring_slot ?n ?t i \<noteq> ?t"
      using assms i ring_slot_Suc [of ?t ?n j] ring_slot_inj [of ?t ?n i 0] by (auto simp: ras_ok_def)
    then show ?thesis using i Suc by simp
  qed (use assms in \<open>simp add: ras_ok_def\<close>)
qed simp

lemma ras_view_pop:
  assumes "ras_ok r" "Suc k \<le> ras_numEntries r"
  shows "ras_view k (ras_pop r) = tl (ras_view (Suc k) r)"
  by (rule nth_equalityI) (use assms in \<open>auto simp: ras_ok_def nth_tl ring_slot_Suc\<close>)

lemma ras_view_restore:
  assumes "ras_ok r" "ras_ok r'" "ras_numEntries r' = ras_numEntries r" "Suc k \<le> ras_numEntries r"
    "ras_view k r' = ras_view k (ras_pop r)" "tos r' = tos (ras_pop r)"
  shows "ras_view (Suc k) (ras_restore (topIdx r) (ras_top r) r') = ras_view (Suc k) r"
proof (rule nth_equalityI)
  let ?n = "ras_numEntries r"
  fix i assume i: "i < length (ras_view (Suc k) (ras_restore (topIdx r) (ras_top r) r'))"
  show "ras_view (Suc k) (ras_restore (topIdx r) (ras_top r) r') ! i = ras_view (Suc k) r ! i"
  proof (cases i)
    case 0
    then show ?thesis using assms by (simp add: ras_ok_def topIdx_def ras_top_def)
  next
    case (Suc j)
    then have j: "j < k" and ne: "ring_slot ?n (tos r) i \<noteq> tos r"
      using assms i ring_slot_inj [of "tos r" ?n i 0] by (auto simp: ras_ok_def)
    have "ras_view k r' ! j = ras_view k (ras_pop r) ! j" using assms(5) by simp
    then have "addrStack r' ! ring_slot ?n (tos r) i = addrStack r ! ring_slot ?n (tos r) i"
      using assms(1,3,4,6) j Suc ring_slot_Suc [of "tos r" ?n j] by (simp add: ras_ok_def)
    then show ?thesis using assms(3) i ne by (simp add: topIdx_def)
  qed
qed simp

lemma ras_pop_restore:
  assumes "ras_ok r" "usedEntries r \<noteq> 0"
  shows "ras_restore (topIdx r) (ras_top r) (ras_pop r) = r"
  by (rule ras.equality) (use assms in \<open>auto simp: ras_ok_def topIdx_def ras_top_def\<close>)

text \<open>C33: the return address stack is a stack of bounded depth. On the addresses in use, pushing
  puts an address in front and, when the ring is full, drops the oldest; popping drops the
  youngest; \<open>top\<close> is the youngest; and restoring the saved top index and address after a pop
  gives the stack back. All operations keep the indices in range.\<close>

theorem ras_refines_bounded_stack:
  assumes "ras_ok r"
  shows "ras_abs (ras_push x r) = take (ras_numEntries r) (x # ras_abs r) \<and>
    ras_abs (ras_pop r) = tl (ras_abs r) \<and>
    (\<not> ras_empty r \<longrightarrow> ras_top r = hd (ras_abs r) \<and> ras_restore (topIdx r) (ras_top r) (ras_pop r) = r) \<and>
    ras_ok (ras_push x r) \<and> ras_ok (ras_pop r)"
proof -
  let ?n = "ras_numEntries r" and ?u = "usedEntries r"
  have n: "Suc (?n - 1) = ?n" "?u \<le> ?n" using assms by (auto simp: ras_ok_def)
  have "ras_abs (ras_push x r) = take ?n (x # ras_abs r)"
  proof (cases "?u = ?n")
    case True
    then have "ras_abs (ras_push x r) = x # ras_view (?n - 1) r"
      using ras_view_push [OF assms, of "?n - 1" x] n by (simp add: ras_abs_def)
    then show ?thesis using n True ras_view_take [of "?n - 1" ?n r] by (simp add: ras_abs_def take_Cons')
  next
    case False
    then show ?thesis using ras_view_push [OF assms, of ?u x] n by (simp add: ras_abs_def)
  qed
  moreover have "ras_abs (ras_pop r) = tl (ras_abs r)"
    using ras_view_pop [OF assms, of "?u - 1"] n by (cases ?u) (auto simp: ras_abs_def ras_view_def)
  ultimately show ?thesis
    using assms ras_view_top [of ?u r] by (auto simp: ras_empty_def ras_abs_def ras_pop_restore gem5_inv)
qed

theorem ras_refines_bounded_stack_witness:
  "ras_abs (ras_push 3 (ras_push 2 (ras_push 1 (ras_init 2)))) = [3, 2 :: nat]"
  using ras_refines_bounded_stack [of "ras_push 2 (ras_push 1 (ras_init 2))" "3 :: nat"]
  by (simp add: ras_ok_def ras_init_def ras_abs_def ras_view_def ring_succ_def ring_slot_def numeral_2_eq_2)

section \<open>Table sizes\<close>

lemma floorLog2_u32: "floorLog2 4 (ucast (n :: u32)) = floorLog2 8 (ucast n)"
proof -
  have "0xffffffff00000000 = (push_bit 32 (mask 32) :: u64)" by (simp add: mask_eq_exp_minus_1 push_bit_eq_mult)
  moreover have "(ucast n :: u64) AND push_bit 32 (mask 32) = 0"
    by (rule word_eq_bitI) (auto simp: bit_simps dest: bit_imp_le_length)
  ultimately have "(ucast n :: u64) AND 0xffffffff00000000 = 0" by metis
  then show ?thesis by (simp add: floorLog2_def)
qed

text \<open>A table whose size is a power of two: the mask of the indices is the size less one.\<close>

lemma pow2_u32:
  fixes n :: u32
  assumes "isPowerOf2 (ucast n)"
  obtains k where "k < 32" "n = 2 ^ k" "n - 1 = mask k" "ceilLog2 4 (ucast n) = Inr k" "n \<noteq> 0"
proof -
  obtain k where k: "k < 64" "(ucast n :: u64) = 2 ^ k" using assms by (rule isPowerOf2_imp)
  have u: "unat n = 2 ^ k" using k unat_ucast_u32 [of n] by (simp add: unat_power2 del: unat_ucast_u32)
  have k32: "k < 32" using unsigned_less [of n, where 'a = nat] u power_less_imp_less_exp [of "2 :: nat" k 32] by simp
  have n: "n = 2 ^ k"
    by (rule word_unat_eq_iff [THEN iffD2]) (use u k32 unat_of_nat [of "2 ^ k", where 'a = 32] power_strict_increasing [of k 32 "2 :: nat"] in simp)
  have c: "ceilLog2 8 (ucast n) = Inr j \<Longrightarrow> j = k" for j
    using ceilLog2_least(1) [of "ucast n" j] ceilLog2_least(2) [of "ucast n" j k] u by simp
  have "ceilLog2 4 (ucast n) = ceilLog2 8 (ucast n)"
  proof (cases "n = 1")
    case False
    have "(ucast n :: u64) - 1 = ucast (n - 1)"
      by (rule word_unat_eq_iff [THEN iffD2]) (use u in \<open>simp add: unat_sub_if'\<close>)
    then show ?thesis by (simp add: ceilLog2_def floorLog2_u32)
  qed (simp add: ceilLog2_def)
  moreover have "\<exists>j. ceilLog2 8 (ucast n) = Inr j"
    using k power2_ne_0 [of k] by (simp add: ceilLog2_8_eq)
  ultimately have "ceilLog2 4 (ucast n) = Inr k" using c by auto
  moreover have "n \<noteq> 0" using u by auto
  ultimately show ?thesis using that k32 n by (simp add: mask_eq_exp_minus_1)
qed

lemma and_mask_index: "n \<noteq> 0 \<Longrightarrow> unat (v AND ucast (n - 1 :: u32) :: u64) < unat n"
proof -
  assume "n \<noteq> 0"
  then have "unat (n - 1) < unat n" by (simp add: measure_unat)
  moreover have "unat (v AND ucast (n - 1)) \<le> unat (ucast (n - 1) :: u64)"
    using word_and_le1 word_le_nat_alt by blast
  ultimately show ?thesis by simp
qed

lemma and_mask_index32: "n \<noteq> 0 \<Longrightarrow> unat (v AND (n - 1) :: u32) < unat n"
  by (meson measure_unat order.strict_trans1 word_and_le1 word_le_nat_alt)

section \<open>The branch target buffer\<close>

definition btb_ok :: "'pc btb \<Rightarrow> bool" where
  "btb_ok b \<longleftrightarrow> btb_numEntries b \<noteq> 0 \<and> idxMask b = btb_numEntries b - 1 \<and> length (btb_entries b) = unat (btb_numEntries b)"

lemma DefaultBTB_ok: "DefaultBTB n tag_bits shift threads = Inr b \<Longrightarrow> btb_ok b"
  by (auto simp: DefaultBTB_def bindR_Inr_iff btb_ok_def isPowerOf2_def)

lemma getIndex_less: "btb_ok b \<Longrightarrow> getIndex pc tid b < unat (btb_numEntries b)"
  unfolding getIndex_def btb_ok_def using and_mask_index by metis

lemma getIndex_update [simp]:
  "getIndex pc tid (b\<lparr>btb_entries := es\<rparr>) = getIndex pc tid b" "getTag pc (b\<lparr>btb_entries := es\<rparr>) = getTag pc b"
  by (simp_all add: getIndex_def getTag_def)

text \<open>the branch target buffer answers with the last update. An update of a branch of one
  thread succeeds; looking up that branch for that thread then gives the new target; any
  other branch or thread that shares the slot misses, so no thread is given another's target;
  and every other slot answers as before.\<close>

lemma btb_update_lookup:
  assumes "btb_ok b"
  shows "\<exists>b'. btb_update pc target tid b = Inr b' \<and> btb_ok b' \<and>
    (let hit = (getTag pc2 b = getTag pc b \<and> tid2 = tid); shared = (getIndex pc2 tid2 b = getIndex pc tid b) in
     btb_valid pc2 tid2 b' = (if shared then Inr hit else btb_valid pc2 tid2 b) \<and>
     btb_lookup pc2 tid2 b' = (if shared then Inr (if hit then target else 0) else btb_lookup pc2 tid2 b))"
proof -
  have l: "getIndex p t b < length (btb_entries b)" "getIndex p t b < unat (btb_numEntries b)" for p t
    using getIndex_less [OF assms] assms by (simp_all add: btb_ok_def)
  then show ?thesis using assms
    by (auto simp: btb_update_def btb_valid_def btb_lookup_def btb_hit_def Let_def btb_ok_def nth_list_update_eq_if)
qed

lemma btb_update_lookup_witness:
  "\<exists>b. DefaultBTB 4 16 2 2 = Inr b \<and> (\<exists>b'. btb_update 0x40 (7 :: nat) 1 b = Inr b' \<and> btb_lookup 0x40 1 b' = Inr 7)"
proof -
  have "\<exists>b. DefaultBTB 4 16 2 2 = Inr (b :: nat btb)"
    by (simp add: DefaultBTB_def floorLog2_def isPowerOf2_def Let_def)
  then obtain b :: "nat btb" where b: "DefaultBTB 4 16 2 2 = Inr b" by blast
  show ?thesis using b btb_update_lookup [OF DefaultBTB_ok [OF b], of "0x40" 7 1 "0x40" 1] by (auto simp: Let_def)
qed

lemma btb_reset_misses: "btb_ok b \<Longrightarrow> btb_valid pc tid (btb_reset b) = Inr False \<and> btb_lookup pc tid (btb_reset b) = Inr 0"
  using getIndex_less [of b pc tid]
  by (simp add: btb_reset_def btb_valid_def btb_lookup_def btb_hit_def btb_ok_def)

section \<open>What a client relies on\<close>

text \<open>The virtual operations of a direction predictor (\<^verbatim>\<open>bpred_unit.hh\<close>).\<close>

record ('d, 'h) bp_ops =
  op_lookup :: "nat \<Rightarrow> addr \<Rightarrow> 'd \<Rightarrow> (bool \<times> 'h \<times> 'd) result"
  op_uncondBranch :: "nat \<Rightarrow> addr \<Rightarrow> 'd \<Rightarrow> 'h \<times> 'd"
  op_btbUpdate :: "nat \<Rightarrow> addr \<Rightarrow> 'd \<Rightarrow> 'd"
  op_update :: "nat \<Rightarrow> addr \<Rightarrow> bool \<Rightarrow> 'h \<Rightarrow> bool \<Rightarrow> 'd \<Rightarrow> 'd result"
  op_squash :: "nat \<Rightarrow> 'h \<Rightarrow> 'd \<Rightarrow> 'd"

text \<open>The contract: \<open>view\<close> is the branch history a thread's predictions depend on and \<open>adv\<close>
  (\<open>uadv\<close> for an unconditional branch) records an outcome in it. A lookup records the
  predicted outcome, a target buffer miss turns it into not taken, a squash takes it back, an
  update of a mispredicted branch replaces it, and committing a branch leaves it alone. \<open>ub\<close>
  says whether the predictor supports a target buffer miss of an unconditional branch.\<close>

locale direction_predictor =
  fixes ops :: "('d, 'h) bp_ops" and ok :: "nat \<Rightarrow> 'd \<Rightarrow> bool" and view :: "nat \<Rightarrow> 'd \<Rightarrow> 'v"
    and adv :: "addr \<Rightarrow> bool \<Rightarrow> 'v \<Rightarrow> 'v" and uadv :: "bool \<Rightarrow> 'v \<Rightarrow> 'v" and ub :: bool
  assumes lookup_total: "ok tid s \<Longrightarrow> \<exists>p h s1. op_lookup ops tid a s = Inr (p, h, s1)"
    and lookup_ok: "ok tid s \<Longrightarrow> op_lookup ops tid a s = Inr (p, h, s1) \<Longrightarrow> ok tid s1 \<and> view tid s1 = adv a p (view tid s)"
    and uncond_ok: "ok tid s \<Longrightarrow> op_uncondBranch ops tid a s = (h, s1) \<Longrightarrow> ok tid s1 \<and> view tid s1 = uadv True (view tid s)"
    and btb_ok: "ok tid s \<Longrightarrow> ok tid (op_btbUpdate ops tid a s)"
    and btb_adv: "ok tid s \<Longrightarrow> view tid s = adv a True v \<Longrightarrow> view tid (op_btbUpdate ops tid a s) = adv a False v"
    and btb_uadv: "ok tid s \<Longrightarrow> view tid s = uadv True v \<Longrightarrow> ub \<Longrightarrow> view tid (op_btbUpdate ops tid a s) = uadv False v"
    and update_total: "ok tid s \<Longrightarrow> \<exists>s1. op_update ops tid a t h sq s = Inr s1"
    and update_ok: "ok tid s \<Longrightarrow> op_update ops tid a t h sq s = Inr s1 \<Longrightarrow> ok tid s1"
    and commit_view: "ok tid s \<Longrightarrow> op_update ops tid a t h False s = Inr s1 \<Longrightarrow> view tid s1 = view tid s"
    and squash_ok: "ok tid s \<Longrightarrow> ok tid (op_squash ops tid h s)"
    and squash_adv: "ok tid s \<Longrightarrow> op_lookup ops tid a s = Inr (p, h, s1) \<Longrightarrow> ok tid s2 \<Longrightarrow> view tid s2 = adv a b (view tid s) \<Longrightarrow>
      view tid (op_squash ops tid h s2) = view tid s"
    and squash_uadv: "ok tid s \<Longrightarrow> op_uncondBranch ops tid a s = (h, s1) \<Longrightarrow> ok tid s2 \<Longrightarrow> view tid s2 = uadv b (view tid s) \<Longrightarrow>
      view tid (op_squash ops tid h s2) = view tid s"
    and recover_adv: "ok tid s \<Longrightarrow> op_lookup ops tid a s = Inr (p, h, s1) \<Longrightarrow> ok tid s2 \<Longrightarrow> view tid s2 = adv a b (view tid s) \<Longrightarrow>
      op_update ops tid a t h True s2 = Inr s3 \<Longrightarrow> view tid s3 = adv a t (view tid s)"
    and recover_uadv: "ok tid s \<Longrightarrow> op_uncondBranch ops tid a s = (h, s1) \<Longrightarrow> ok tid s2 \<Longrightarrow> view tid s2 = uadv b (view tid s) \<Longrightarrow>
      op_update ops tid a t h True s2 = Inr s3 \<Longrightarrow> view tid s3 = uadv t (view tid s)"

subsection \<open>The local predictor\<close>

definition local_ops :: "(local_bp, unit) bp_ops" where
  "local_ops = \<lparr>op_lookup = lbp_lookup, op_uncondBranch = lbp_uncondBranch, op_btbUpdate = lbp_btbUpdate,
     op_update = lbp_update, op_squash = lbp_squash\<rparr>"

text \<open>It keeps no speculative history.\<close>

interpretation local_pred: direction_predictor local_ops "\<lambda>_ _. True" "\<lambda>_ _. ()" "\<lambda>_ _ v. v" "\<lambda>_ v. v" True
  by unfold_locales (simp_all add: local_ops_def lbp_lookup_def lbp_update_def)

subsection \<open>The bi-mode predictor\<close>

definition bimode_ops :: "(bimode_bp, bimode_history) bp_ops" where
  "bimode_ops = \<lparr>op_lookup = bm_lookup, op_uncondBranch = bm_uncondBranch, op_btbUpdate = bm_btbUpdate,
     op_update = bm_update, op_squash = bm_squash\<rparr>"

definition bm_cfg_ok :: "bimode_bp \<Rightarrow> bool" where
  "bm_cfg_ok s \<longleftrightarrow> bm_choicePredictorSize s \<noteq> 0 \<and> bm_choiceHistoryMask s = bm_choicePredictorSize s - 1 \<and>
     bm_globalPredictorSize s \<noteq> 0 \<and> bm_globalHistoryMask s = bm_globalPredictorSize s - 1 \<and>
     (\<exists>k \<le> 32. bm_historyRegisterMask s = mask k)"

definition bm_ok :: "nat \<Rightarrow> bimode_bp \<Rightarrow> bool" where
  "bm_ok tid s \<longleftrightarrow> tid < length (globalHistoryReg s) \<and> bm_cfg_ok s"

definition hist_in :: "bool \<Rightarrow> u32 \<Rightarrow> u32" where
  "hist_in t g = push_bit 1 g OR of_bool t"

definition hist_shift :: "u32 \<Rightarrow> bool \<Rightarrow> u32 \<Rightarrow> u32" where
  "hist_shift m t g = hist_in t g AND m"

definition bm_view :: "nat \<Rightarrow> bimode_bp \<Rightarrow> u32 \<times> u32" where
  "bm_view tid s = (globalHistoryReg s ! tid AND bm_historyRegisterMask s, bm_historyRegisterMask s)"

definition bm_adv :: "bool \<Rightarrow> u32 \<times> u32 \<Rightarrow> u32 \<times> u32" where
  "bm_adv t = (\<lambda>(g, m). (hist_shift m t g, m))"

text \<open>Shifting an outcome into a register and masking it to the low bits: the bits masked out do
  not come back, and clearing the lowest bit turns taken into not taken.\<close>

lemma bit_hist_shift: "bit (hist_shift m t g) i \<longleftrightarrow> bit m i \<and> (if i = 0 then t else bit g (i - 1))"
  using bit_imp_le_length [of m i] bit_imp_le_length [of g "i - 1"] by (auto simp: hist_shift_def hist_in_def bit_and_iff bit_or_iff bit_push_bit_iff bit_of_bool_iff
      simp del: push_bit_Suc One_nat_def)

lemma hist_shift_masked: "hist_shift (mask k) t (g AND mask k) = hist_shift (mask k) t g"
  by (rule bit_word_eqI) (auto simp: bit_hist_shift bit_and_iff bit_mask_iff)

lemma hist_shift_and: "hist_shift m t g AND m = hist_shift m t g"
  by (simp add: hist_shift_def ac_simps)

lemma hist_shift_clear: "hist_shift m True g AND (m AND NOT 1) = hist_shift m False g"
  by (rule bit_word_eqI) (auto simp: bit_hist_shift bit_and_iff bit_not_iff bit_1_iff)

lemma hist_shift_clear': "g AND m = hist_shift m True v \<Longrightarrow> g AND (m AND NOT 1) = hist_shift m False v"
  by (metis and.assoc hist_shift_and hist_shift_clear)

lemma bm_indices:
  assumes "bm_cfg_ok s"
  shows "bm_choiceIdx a s < unat (bm_choicePredictorSize s)" "bm_globalIdx a g s < unat (bm_globalPredictorSize s)"
  using assms unfolding bm_choiceIdx_def bm_globalIdx_def bm_cfg_ok_def by (metis and_mask_index)+

text \<open>Every operation changes only the register of the thread and the counters.\<close>

definition bm_set :: "nat \<Rightarrow> u32 \<Rightarrow> bimode_bp \<Rightarrow> bimode_bp" where
  "bm_set tid g s = s\<lparr>globalHistoryReg := (globalHistoryReg s)[tid := g]\<rparr>"

lemma bm_set_ok [simp]: "bm_ok tid (bm_set tid g s) = bm_ok tid s"
  by (simp add: bm_ok_def bm_set_def bm_cfg_ok_def)

lemma bm_set_view: "bm_ok tid s \<Longrightarrow> bm_view tid (bm_set tid g s) = (g AND bm_historyRegisterMask s, bm_historyRegisterMask s)"
  by (simp add: bm_view_def bm_ok_def bm_set_def)

lemma bm_updateGlobalHistReg_set:
  "bm_updateGlobalHistReg tid t s = bm_set tid (hist_shift (bm_historyRegisterMask s) t (globalHistoryReg s ! tid)) s"
  by (simp add: bm_updateGlobalHistReg_def bm_set_def hist_shift_def hist_in_def Let_def)

lemma bm_adv_view:
  assumes "bm_ok tid s"
  shows "bm_adv t (bm_view tid s) = (hist_shift (bm_historyRegisterMask s) t (globalHistoryReg s ! tid), bm_historyRegisterMask s)"
  using assms hist_shift_masked by (auto simp: bm_adv_def bm_view_def bm_ok_def bm_cfg_ok_def)

lemma bm_lookup_total: "bm_ok tid s \<Longrightarrow> \<exists>p h s1. bm_lookup tid a s = Inr (p, h, s1)"
  using bm_indices [of s] by (auto simp: bm_lookup_def Let_def bm_ok_def)

lemma bm_lookupD:
  assumes "bm_lookup tid a s = Inr (p, h, s1)"
  shows "s1 = bm_updateGlobalHistReg tid p s" "bh_globalHistoryReg h = globalHistoryReg s ! tid"
  using assms by (auto simp: bm_lookup_def Let_def)

lemma bm_uncondBranchD:
  assumes "bm_uncondBranch tid a s = (h, s1)"
  shows "s1 = bm_updateGlobalHistReg tid True s" "bh_globalHistoryReg h = globalHistoryReg s ! tid"
  using assms by (auto simp: bm_uncondBranch_def)

lemma bm_shift_view:
  "bm_ok tid s \<Longrightarrow> bm_ok tid (bm_updateGlobalHistReg tid t s) \<and> bm_view tid (bm_updateGlobalHistReg tid t s) = bm_adv t (bm_view tid s)"
  by (simp add: bm_updateGlobalHistReg_set bm_adv_view bm_set_view hist_shift_and)

lemma bm_update_cases:
  assumes "bm_ok tid s" "bm_update tid a t h sq s = Inr s1"
  shows "bm_ok tid s1 \<and> bm_view tid s1 = (if sq then (hist_shift (bm_historyRegisterMask s) t (bh_globalHistoryReg h), bm_historyRegisterMask s) else bm_view tid s)"
proof (cases sq)
  case True
  then have "s1 = bm_set tid (hist_in t (bh_globalHistoryReg h)) s"
    using assms(2) by (auto simp: bm_update_def bm_set_def hist_in_def)
  then show ?thesis using True assms(1) by (simp add: bm_set_view hist_shift_def)
next
  case False
  then show ?thesis using assms by (auto simp: bm_update_def Let_def bm_view_def bm_ok_def bm_cfg_ok_def split: if_splits)
qed

lemma bm_update_total: "bm_ok tid s \<Longrightarrow> \<exists>s1. bm_update tid a t h sq s = Inr s1"
  using bm_indices [of s] by (auto simp: bm_update_def Let_def bm_ok_def)

lemma bm_squash_view:
  assumes "bm_ok tid s" "bm_ok tid s2" "bm_view tid s2 = bm_adv b (bm_view tid s)" "bh_globalHistoryReg h = globalHistoryReg s ! tid"
  shows "bm_view tid (bm_squash tid h s2) = bm_view tid s"
    "bm_update tid a t h True s2 = Inr s3 \<Longrightarrow> bm_view tid s3 = bm_adv t (bm_view tid s)"
proof -
  have m: "bm_historyRegisterMask s2 = bm_historyRegisterMask s" using assms(3) by (simp add: bm_view_def bm_adv_def)
  show "bm_view tid (bm_squash tid h s2) = bm_view tid s"
    using bm_set_view [OF assms(2), of "globalHistoryReg s ! tid"] assms(4) m
    by (simp add: bm_squash_def bm_view_def [of tid s] flip: bm_set_def)
  show "bm_view tid s3 = bm_adv t (bm_view tid s)" if "bm_update tid a t h True s2 = Inr s3"
    using bm_update_cases [OF assms(2) that] bm_adv_view [OF assms(1)] m assms(4) by simp
qed

lemma bm_btbUpdate_view:
  assumes "bm_ok tid s" "bm_view tid s = bm_adv True v"
  shows "bm_view tid (bm_btbUpdate tid a s) = bm_adv False v"
  using assms hist_shift_clear' [of "globalHistoryReg s ! tid" "bm_historyRegisterMask s"]
  by (cases v) (auto simp: bm_btbUpdate_def bm_view_def bm_adv_def bm_ok_def hist_shift_and ac_simps)

interpretation bimode_pred: direction_predictor bimode_ops bm_ok bm_view "\<lambda>_. bm_adv" bm_adv True
proof (unfold_locales, unfold bimode_ops_def bp_ops.select_convs, goal_cases)
  case (1 tid s a)
  then show ?case by (rule bm_lookup_total)
next
  case (2 tid s a p h s1)
  then show ?case using bm_shift_view bm_lookupD(1) by metis
next
  case (3 tid s a h s1)
  then show ?case using bm_shift_view bm_uncondBranchD(1) by metis
next
  case (4 tid s a)
  then show ?case by (simp add: bm_btbUpdate_def flip: bm_set_def)
next
  case (10 tid s h)
  then show ?case by (simp add: bm_squash_def flip: bm_set_def)
next
  case (5 tid s a v)
  then show ?case by (rule bm_btbUpdate_view)
next
  case (6 tid s v a)
  show ?case by (rule bm_btbUpdate_view [OF 6(1,2)])
next
  case (7 tid s a t h sq)
  then show ?case by (rule bm_update_total)
next
  case (8 tid s a t h sq s1)
  then show ?case using bm_update_cases by blast
next
  case (9 tid s a t h s1)
  then show ?case using bm_update_cases by fastforce
next
  case (11 tid s a p h s1 s2 b)
  show ?case by (rule bm_squash_view(1) [OF 11(1,3,4) bm_lookupD(2) [OF 11(2)]])
next
  case (12 tid s a h s1 s2 b)
  show ?case by (rule bm_squash_view(1) [OF 12(1,3,4) bm_uncondBranchD(2) [OF 12(2)]])
next
  case (13 tid s a p h s1 s2 b t s3)
  show ?case by (rule bm_squash_view(2) [OF 13(1,3,4) bm_lookupD(2) [OF 13(2)] 13(5)])
next
  case (14 tid s a h s1 s2 b t s3)
  show ?case by (rule bm_squash_view(2) [OF 14(1,3,4) bm_uncondBranchD(2) [OF 14(2)] 14(5)])
qed

lemma ucast_mask_u64: "k < 32 \<Longrightarrow> (ucast (mask_u64 k) :: u32) = mask k"
  by (intro bit_word_eqI) (simp add: mask_u64_eq bit_simps)

lemma BiModeBP_ok:
  assumes "BiModeBP threads cs cb gs gb sh = Inr s" "tid < threads"
  shows "bm_ok tid s"
proof -
  have p: "isPowerOf2 (ucast cs)" "isPowerOf2 (ucast gs)" using assms(1) by (auto simp: BiModeBP_def bindR_Inr_iff)
  obtain k where k: "k < 32" "ceilLog2 4 (ucast gs) = Inr k" "gs \<noteq> 0" using p(2) by (rule pow2_u32)
  have m: "(ucast (mask_u64 k) :: u32) = mask k" by (rule ucast_mask_u64 [OF k(1)])
  show ?thesis using assms k m p(1) by (auto simp: BiModeBP_def bindR_Inr_iff bm_ok_def bm_cfg_ok_def isPowerOf2_def intro: less_imp_le)
qed

subsection \<open>The tournament predictor\<close>

definition tournament_ops :: "(tournament_bp, tournament_history) bp_ops" where
  "tournament_ops = \<lparr>op_lookup = tb_lookup, op_uncondBranch = tb_uncondBranch, op_btbUpdate = tb_btbUpdate,
     op_update = tb_update, op_squash = tb_squash\<rparr>"

definition tb_cfg_ok :: "tournament_bp \<Rightarrow> bool" where
  "tb_cfg_ok s \<longleftrightarrow> localHistoryTableSize s \<noteq> 0 \<and> length (localHistoryTable s) = unat (localHistoryTableSize s) \<and>
     tb_localPredictorSize s \<noteq> 0 \<and> localPredictorMask s = tb_localPredictorSize s - 1 \<and> (\<exists>k. localPredictorMask s = mask k)"

definition tb_ok :: "nat \<Rightarrow> tournament_bp \<Rightarrow> bool" where
  "tb_ok tid s \<longleftrightarrow> tid < length (globalHistory s) \<and> tb_cfg_ok s"

text \<open>The thread's global history and the bits of the shared local histories that are used.\<close>

type_synonym tournament_view = "u32 \<times> u32 list \<times> u32 \<times> u32 \<times> nat \<times> u32"

definition tb_view :: "nat \<Rightarrow> tournament_bp \<Rightarrow> tournament_view" where
  "tb_view tid s = (globalHistory s ! tid, map (\<lambda>l. l AND localPredictorMask s) (localHistoryTable s),
     tb_historyRegisterMask s, localPredictorMask s, tb_instShiftAmt s, localHistoryTableSize s)"

definition tb_adv :: "addr \<Rightarrow> bool \<Rightarrow> tournament_view \<Rightarrow> tournament_view" where
  "tb_adv a t = (\<lambda>(g, ls, hm, lm, sh, n).
     let i = unat (drop_bit sh a AND ucast (n - 1)) in (hist_shift hm t g, ls[i := hist_shift lm t (ls ! i)], hm, lm, sh, n))"

definition tb_uadv :: "bool \<Rightarrow> tournament_view \<Rightarrow> tournament_view" where
  "tb_uadv t = (\<lambda>(g, ls, hm, lm, sh, n). (hist_shift hm t g, ls, hm, lm, sh, n))"

definition tb_set :: "nat \<Rightarrow> u32 \<Rightarrow> tournament_bp \<Rightarrow> tournament_bp" where
  "tb_set tid g s = s\<lparr>globalHistory := (globalHistory s)[tid := g]\<rparr>"

definition tb_setl :: "nat \<Rightarrow> u32 \<Rightarrow> tournament_bp \<Rightarrow> tournament_bp" where
  "tb_setl i l s = s\<lparr>localHistoryTable := (localHistoryTable s)[i := l]\<rparr>"

lemma tb_set_simps [simp]:
  "tb_ok tid (tb_set t' g s) = tb_ok tid s" "tb_ok tid (tb_setl i l s) = tb_ok tid s"
  "calcLocHistIdx a (tb_set t' g s) = calcLocHistIdx a s" "calcLocHistIdx a (tb_setl i l s) = calcLocHistIdx a s"
  "localHistoryTable (tb_set t' g s) = localHistoryTable s" "globalHistory (tb_setl i l s) = globalHistory s"
  "localPredictorMask (tb_set t' g s) = localPredictorMask s" "tb_historyRegisterMask (tb_set t' g s) = tb_historyRegisterMask s"
  by (simp_all add: tb_ok_def tb_cfg_ok_def tb_set_def tb_setl_def calcLocHistIdx_def)

lemma tb_set_view:
  "tb_ok tid s \<Longrightarrow> tb_view tid (tb_set tid g s) = (g, snd (tb_view tid s))"
  "tb_view tid (tb_setl i l s) = (let (g, ls, r) = tb_view tid s in (g, ls[i := l AND localPredictorMask s], r))"
  by (simp_all add: tb_view_def tb_ok_def tb_set_def tb_setl_def map_update)

lemma calcLocHistIdx_less: "tb_ok tid s \<Longrightarrow> calcLocHistIdx a s < unat (localHistoryTableSize s)"
  unfolding calcLocHistIdx_def tb_ok_def tb_cfg_ok_def using and_mask_index by metis

lemma tb_hist_eqs:
  "updateGlobalHist tid t s = tb_set tid (hist_shift (tb_historyRegisterMask s) t (globalHistory s ! tid)) s"
  "updateLocalHist i t s = tb_setl i (hist_in t (localHistoryTable s ! i)) s"
  "tb_btbUpdate tid a s = tb_setl (calcLocHistIdx a s) (localHistoryTable s ! calcLocHistIdx a s AND (localPredictorMask s AND NOT 1))
     (tb_set tid (globalHistory s ! tid AND (tb_historyRegisterMask s AND NOT 1)) s)"
  by (simp_all add: updateGlobalHist_def updateLocalHist_def tb_btbUpdate_def tb_set_def tb_setl_def hist_shift_def hist_in_def Let_def)

lemma tb_squash_eq:
  "tb_squash tid h s = (if th_localHistoryIdx h \<noteq> invalidPredictorIndex
     then tb_setl (unat (th_localHistoryIdx h)) (th_localHistory h) (tb_set tid (th_globalHistory h) s) else tb_set tid (th_globalHistory h) s)"
  by (simp add: tb_squash_def tb_set_def tb_setl_def)

lemma tb_lookup_total: "tb_ok tid s \<Longrightarrow> \<exists>p h s1. tb_lookup tid a s = Inr (p, h, s1)"
  using calcLocHistIdx_less [of tid s a] by (auto simp: tb_lookup_def Let_def)

lemma tb_lookupD:
  assumes "tb_lookup tid a s = Inr (p, h, s1)"
  shows "s1 = updateLocalHist (calcLocHistIdx a s) p (updateGlobalHist tid p s)" "th_globalHistory h = globalHistory s ! tid"
    "th_localHistoryIdx h = of_nat (calcLocHistIdx a s)"
    "th_localHistory h = localHistoryTable s ! calcLocHistIdx a s AND localPredictorMask s"
  using assms by (auto simp: tb_lookup_def Let_def)

lemma tb_uncondBranchD:
  assumes "tb_uncondBranch tid a s = (h, s1)"
  shows "s1 = updateGlobalHist tid True s" "th_globalHistory h = globalHistory s ! tid"
    "th_localHistoryIdx h = invalidPredictorIndex" "th_localHistory h = invalidPredictorIndex"
  using assms by (auto simp: tb_uncondBranch_def)

lemma u32_less_not_max: "unat (v :: u32) < unat (n :: u32) \<Longrightarrow> v \<noteq> - 1"
  by (metis not_less word_less_nat_alt word_order.extremum)

text \<open>Neither index nor history of a real lookup is taken for the invalid marker.\<close>

lemma tb_lookup_valid:
  assumes "tb_ok tid s" "tb_lookup tid a s = Inr (p, h, s1)"
  shows "th_localHistoryIdx h \<noteq> invalidPredictorIndex" "th_localHistory h \<noteq> invalidPredictorIndex"
    "unat (th_localHistoryIdx h) = calcLocHistIdx a s"
proof -
  have i: "calcLocHistIdx a s < unat (localHistoryTableSize s)" by (rule calcLocHistIdx_less [OF assms(1)])
  then have "calcLocHistIdx a s < 2 ^ 32" using unsigned_less [of "localHistoryTableSize s", where 'a = nat] by simp
  then show u: "unat (th_localHistoryIdx h) = calcLocHistIdx a s"
    using tb_lookupD(3) [OF assms(2)] by (simp add: unat_of_nat take_bit_nat_eq_self)
  show "th_localHistoryIdx h \<noteq> invalidPredictorIndex"
    using i u32_less_not_max [of "th_localHistoryIdx h" "localHistoryTableSize s"] by (simp add: invalidPredictorIndex_def u)
  have "unat (th_localHistory h) < unat (tb_localPredictorSize s)"
    using assms(1) tb_lookupD(4) [OF assms(2)] and_mask_index32 by (metis tb_cfg_ok_def tb_ok_def)
  then show "th_localHistory h \<noteq> invalidPredictorIndex" unfolding invalidPredictorIndex_def by (rule u32_less_not_max)
qed

lemma tb_adv_view:
  assumes "tb_ok tid s"
  shows "tb_adv a t (tb_view tid s) = (let (g, ls, r) = tb_view tid s; i = calcLocHistIdx a s in
    (hist_shift (tb_historyRegisterMask s) t g, ls[i := hist_shift (localPredictorMask s) t (localHistoryTable s ! i)], r))"
proof -
  obtain k where "localPredictorMask s = mask k" using assms unfolding tb_ok_def tb_cfg_ok_def by blast
  moreover have "calcLocHistIdx a s < length (localHistoryTable s)"
    using calcLocHistIdx_less [OF assms, of a] assms by (simp add: tb_ok_def tb_cfg_ok_def)
  ultimately show ?thesis by (simp add: tb_adv_def tb_view_def Let_def hist_shift_masked flip: calcLocHistIdx_def)
qed

lemma tb_shift_view:
  assumes "tb_ok tid s"
  shows "tb_view tid (updateLocalHist (calcLocHistIdx a s) t (updateGlobalHist tid t s)) = tb_adv a t (tb_view tid s)"
    "tb_view tid (updateGlobalHist tid t s) = tb_uadv t (tb_view tid s)"
  unfolding tb_hist_eqs tb_adv_view [OF assms]
  using assms by (simp_all add: tb_set_view tb_uadv_def tb_view_def [of tid s] Let_def flip: hist_shift_def)

lemma tb_btbUpdate_view:
  assumes "tb_ok tid s" "tb_view tid s = tb_adv a True v"
  shows "tb_view tid (tb_btbUpdate tid a s) = tb_adv a False v"
proof -
  obtain g ls hm lm sh n where v: "v = (g, ls, hm, lm, sh, n)" by (cases v)
  define i where "i = calcLocHistIdx a s"
  have e: "globalHistory s ! tid = hist_shift hm True g" "map (\<lambda>l. l AND lm) (localHistoryTable s) = ls[i := hist_shift lm True (ls ! i)]"
    "tb_historyRegisterMask s = hm" "localPredictorMask s = lm" "tb_instShiftAmt s = sh" "localHistoryTableSize s = n"
    using assms(2) by (auto simp: v tb_view_def tb_adv_def Let_def i_def calcLocHistIdx_def)
  have i: "i < length (localHistoryTable s)" using calcLocHistIdx_less [OF assms(1), of a] assms(1) by (simp add: i_def tb_ok_def tb_cfg_ok_def)
  then have "localHistoryTable s ! i AND lm = hist_shift lm True (ls ! i)"
    using e(2) by (metis length_list_update length_map nth_list_update_eq nth_map)
  then have l: "localHistoryTable s ! i AND (lm AND NOT 1) = hist_shift lm False (ls ! i)" by (rule hist_shift_clear')
  have g: "globalHistory s ! tid AND (hm AND NOT 1) = hist_shift hm False g" unfolding e(1) by (rule hist_shift_clear)
  have j: "unat (drop_bit sh a AND ucast (n - 1)) = i" using e(5,6) by (simp add: i_def calcLocHistIdx_def)
  show ?thesis unfolding tb_hist_eqs i_def [symmetric] e(3,4) l g v tb_adv_def
    using assms(1) e by (simp add: tb_set_view tb_view_def [of tid s] Let_def hist_shift_and j)
qed

lemma tb_squash_view:
  assumes "tb_ok tid s" "tb_ok tid s2" "tb_lookup tid a s = Inr (p, h, s1)" "tb_view tid s2 = tb_adv a b (tb_view tid s)"
  shows "tb_view tid (tb_squash tid h s2) = tb_view tid s"
    "tb_update tid a t h True s2 = Inr s3 \<Longrightarrow> tb_view tid s3 = tb_adv a t (tb_view tid s)"
proof -
  define i l where "i = calcLocHistIdx a s" "l = localHistoryTable s ! i AND localPredictorMask s"
  note h = tb_lookupD(2,4) [OF assms(3), folded i_l_def] tb_lookup_valid [OF assms(1,3), folded i_l_def]
  obtain k where k: "localPredictorMask s = mask k" using assms(1) unfolding tb_ok_def tb_cfg_ok_def by blast
  have e: "map (\<lambda>l. l AND localPredictorMask s2) (localHistoryTable s2) = (map (\<lambda>l. l AND localPredictorMask s) (localHistoryTable s))
      [i := hist_shift (localPredictorMask s) b (localHistoryTable s ! i)]"
    "tb_historyRegisterMask s2 = tb_historyRegisterMask s" "localPredictorMask s2 = localPredictorMask s"
    "tb_instShiftAmt s2 = tb_instShiftAmt s" "localHistoryTableSize s2 = localHistoryTableSize s"
    using assms(4) unfolding tb_adv_view [OF assms(1)] by (auto simp: tb_view_def i_l_def Let_def)
  have i2: "calcLocHistIdx a s2 = i" using e by (simp add: i_l_def calcLocHistIdx_def)
  have i: "i < length (localHistoryTable s)" using calcLocHistIdx_less [OF assms(1), of a] assms(1) by (simp add: i_l_def tb_ok_def tb_cfg_ok_def)
  have upd: "(map (\<lambda>l. l AND localPredictorMask s) (localHistoryTable s))[i := l AND localPredictorMask s] =
    map (\<lambda>l. l AND localPredictorMask s) (localHistoryTable s)"
    using i by (intro nth_equalityI) (auto simp: nth_list_update_eq_if i_l_def ac_simps)
  have "tb_squash tid h s2 = tb_setl i l (tb_set tid (globalHistory s ! tid) s2)"
    using h by (simp add: tb_squash_eq i_l_def(2))
  then show "tb_view tid (tb_squash tid h s2) = tb_view tid s"
    using assms(2) e upd by (simp add: tb_set_view tb_view_def [of tid s] tb_view_def [of tid s2])
  show "tb_view tid s3 = tb_adv a t (tb_view tid s)" if u: "tb_update tid a t h True s2 = Inr s3"
  proof -
    have "s3 = tb_setl i (hist_in t l) (tb_set tid (hist_shift (tb_historyRegisterMask s) t (globalHistory s ! tid)) s2)"
      using u h i2 e(2) by (auto simp: i_l_def(2) tb_update_def Let_def tb_set_def tb_setl_def hist_in_def hist_shift_def)
    then show ?thesis unfolding tb_adv_view [OF assms(1)] using assms(2) e k
      by (simp add: tb_set_view tb_view_def [of tid s] tb_view_def [of tid s2] i_l_def hist_shift_masked Let_def flip: hist_shift_def)
  qed
qed

lemma tb_squash_uncond_view:
  assumes "tb_ok tid s" "tb_ok tid s2" "tb_uncondBranch tid a s = (h, s1)" "tb_view tid s2 = tb_uadv b (tb_view tid s)"
  shows "tb_view tid (tb_squash tid h s2) = tb_view tid s"
    "tb_update tid a t h True s2 = Inr s3 \<Longrightarrow> tb_view tid s3 = tb_uadv t (tb_view tid s)"
proof -
  note h = tb_uncondBranchD(2,3,4) [OF assms(3)]
  have e: "map (\<lambda>l. l AND localPredictorMask s2) (localHistoryTable s2) = map (\<lambda>l. l AND localPredictorMask s) (localHistoryTable s)"
    "tb_historyRegisterMask s2 = tb_historyRegisterMask s" "localPredictorMask s2 = localPredictorMask s"
    "tb_instShiftAmt s2 = tb_instShiftAmt s" "localHistoryTableSize s2 = localHistoryTableSize s"
    using assms(4) by (auto simp: tb_view_def tb_uadv_def)
  have "tb_squash tid h s2 = tb_set tid (globalHistory s ! tid) s2" using h by (simp add: tb_squash_eq)
  then show "tb_view tid (tb_squash tid h s2) = tb_view tid s" using assms(2) e by (simp add: tb_set_view tb_view_def [of tid s] tb_view_def [of tid s2])
  show "tb_view tid s3 = tb_uadv t (tb_view tid s)" if u: "tb_update tid a t h True s2 = Inr s3"
  proof -
    have "s3 = tb_set tid (hist_shift (tb_historyRegisterMask s) t (globalHistory s ! tid)) s2"
      using u h e(2) by (auto simp: tb_update_def Let_def tb_set_def hist_in_def hist_shift_def)
    then show ?thesis using assms(2) e by (simp add: tb_set_view tb_view_def [of tid s] tb_view_def [of tid s2] tb_uadv_def)
  qed
qed

lemma tb_update_total:
  assumes "tb_ok tid s"
  shows "\<exists>s1. tb_update tid a t h sq s = Inr s1"
proof -
  have "unat (th_localHistory h AND localPredictorMask s) < unat (tb_localPredictorSize s)"
    using assms and_mask_index32 by (metis tb_ok_def tb_cfg_ok_def)
  then show ?thesis using calcLocHistIdx_less [OF assms, of a] by (auto simp: tb_update_def Let_def)
qed

lemma tb_update_squashed:
  assumes "tb_update tid a t h True s = Inr s1"
  shows "tb_ok tid s1 = tb_ok tid s"
proof -
  let ?s = "tb_set tid (hist_shift (tb_historyRegisterMask s) t (th_globalHistory h)) s"
  have "s1 = (if th_localHistory h \<noteq> invalidPredictorIndex then tb_setl (calcLocHistIdx a s) (hist_in t (th_localHistory h)) ?s else ?s)"
    using assms by (auto simp: tb_update_def Let_def tb_set_def tb_setl_def hist_in_def hist_shift_def)
  then show ?thesis by simp
qed

lemma tb_update_commit:
  assumes "tb_update tid a t h False s = Inr s1"
  shows "tb_ok tid' s1 = tb_ok tid' s" "tb_view tid' s1 = tb_view tid' s"
proof -
  have "\<exists>c l. s1 = s\<lparr>choiceCtrs := c, globalCtrs := ctr_step t (unat (th_globalHistory h AND tb_globalHistoryMask s)) (globalCtrs s), tb_localCtrs := l\<rparr>"
  proof -
    let ?i = "unat (th_localHistory h AND localPredictorMask s)" and ?c = "unat (th_globalHistory h AND tb_choiceHistoryMask s)"
    have "s1 = s\<lparr>choiceCtrs := (if th_localPredTaken h \<noteq> th_globalPredTaken h \<and> th_localHistory h \<noteq> invalidPredictorIndex
          then (if th_localPredTaken h = t then ctr_step False ?c (choiceCtrs s) else ctr_step True ?c (choiceCtrs s)) else choiceCtrs s),
        globalCtrs := ctr_step t (unat (th_globalHistory h AND tb_globalHistoryMask s)) (globalCtrs s),
        tb_localCtrs := (if th_localHistory h \<noteq> invalidPredictorIndex then ctr_step t ?i (tb_localCtrs s) else tb_localCtrs s)\<rparr>"
      using assms by (cases "th_localHistory h = invalidPredictorIndex"; cases "th_localPredTaken h"; cases "th_globalPredTaken h"; cases t)
        (auto simp: tb_update_def Let_def)
    then show ?thesis by blast
  qed
  then obtain c g l where "s1 = s\<lparr>choiceCtrs := c, globalCtrs := g, tb_localCtrs := l\<rparr>" by blast
  then show "tb_ok tid' s1 = tb_ok tid' s" "tb_view tid' s1 = tb_view tid' s" by (simp_all add: tb_ok_def tb_cfg_ok_def tb_view_def)
qed

interpretation tournament_pred: direction_predictor tournament_ops tb_ok tb_view tb_adv tb_uadv False
proof (unfold_locales, unfold tournament_ops_def bp_ops.select_convs, goal_cases)
  case (1 tid s a)
  then show ?case by (rule tb_lookup_total)
next
  case (2 tid s a p h s1)
  show ?case unfolding tb_lookupD(1) [OF 2(2)] by (simp add: tb_shift_view [OF 2(1)]) (simp add: tb_hist_eqs 2(1))
next
  case (3 tid s a h s1)
  show ?case unfolding tb_uncondBranchD(1) [OF 3(2)] by (simp add: tb_shift_view [OF 3(1)]) (simp add: tb_hist_eqs 3(1))
next
  case (4 tid s a)
  then show ?case by (simp add: tb_hist_eqs)
next
  case (5 tid s a v)
  then show ?case by (rule tb_btbUpdate_view)
next
  case (7 tid s a t h sq)
  then show ?case by (rule tb_update_total)
next
  case (8 tid s a t h sq s1)
  then show ?case using tb_update_squashed tb_update_commit(1) by (cases sq) auto
next
  case (9 tid s a t h s1)
  then show ?case by (simp add: tb_update_commit)
next
  case (10 tid s h)
  then show ?case by (simp add: tb_squash_eq)
next
  case (11 tid s a p h s1 s2 b)
  show ?case by (rule tb_squash_view(1) [OF 11(1,3,2,4)])
next
  case (12 tid s a h s1 s2 b)
  show ?case by (rule tb_squash_uncond_view(1) [OF 12(1,3,2,4)])
next
  case (13 tid s a p h s1 s2 b t s3)
  show ?case by (rule tb_squash_view(2) [OF 13(1,3,2,4,5)])
next
  case (14 tid s a h s1 s2 b t s3)
  show ?case by (rule tb_squash_uncond_view(2) [OF 14(1,3,2,4,5)])
qed simp

lemma TournamentBP_ok:
  assumes "TournamentBP threads ls lb lt gs gb cs cb sh = Inr s" "tid < threads"
  shows "tb_ok tid s"
proof -
  have p: "isPowerOf2 (ucast ls)" "isPowerOf2 (ucast lt)" using assms(1) by (auto simp: TournamentBP_def bindR_Inr_iff Let_def)
  obtain k where k: "k < 32" "ls - 1 = mask k" "ceilLog2 4 (ucast ls) = Inr k" "ls \<noteq> 0" using p(1) by (rule pow2_u32)
  have lt: "lt \<noteq> 0" using p(2) by (auto simp: isPowerOf2_def)
  have "localPredictorMask s = mask k" "tb_localPredictorSize s = ls" "localHistoryTableSize s = lt"
    "length (localHistoryTable s) = unat lt" "length (globalHistory s) = threads"
    using assms(1) k(3) by (auto simp: TournamentBP_def bindR_Inr_iff Let_def ucast_mask_u64 [OF k(1)])
  then show ?thesis using assms(2) k lt unfolding tb_ok_def tb_cfg_ok_def by metis
qed

text \<open>The law the tournament predictor lacks: an unconditional branch that misses the target
  buffer clears a bit of the local history of its address, and its squash does not restore it.\<close>

lemma tournament_uncond_btb_not_restored:
  "\<exists>s tid a. tb_ok tid s \<and> (let (h, s1) = tb_uncondBranch tid a s in tb_view tid (tb_squash tid h (tb_btbUpdate tid a s1)) \<noteq> tb_view tid s)"
proof -
  let ?s = "\<lparr>tb_localPredictorSize = 4, localPredictorMask = 3, tb_localCtrs = [], localHistoryTable = [1], localHistoryTableSize = 1,
    globalCtrs = [], globalHistory = [0], tb_globalHistoryMask = 3, tb_choiceHistoryMask = 3, tb_historyRegisterMask = 3, choiceCtrs = [],
    localThreshold = 1, globalThreshold = 1, tb_choiceThreshold = 1, tb_instShiftAmt = 0\<rparr>"
  have "(3 :: u32) = mask 2" by (simp add: mask_eq_exp_minus_1)
  then have "tb_ok 0 ?s" by (auto simp: tb_ok_def tb_cfg_ok_def)
  moreover have "let (h, s1) = tb_uncondBranch 0 0 ?s in tb_view 0 (tb_squash 0 h (tb_btbUpdate 0 0 s1)) \<noteq> tb_view 0 ?s"
    by (simp add: tb_uncondBranch_def updateGlobalHist_def tb_btbUpdate_def tb_squash_def calcLocHistIdx_def tb_view_def Let_def)
  ultimately show ?thesis by blast
qed

text \<open>The local histories are shared by the threads, so squashing a branch of one thread also takes
  back what another thread recorded for the same entry in the meantime.\<close>

lemma tournament_squash_crosses_threads:
  "\<exists>s h0 h1 s1 s2. tb_ok 0 s \<and> tb_ok 1 s \<and> tb_lookup 0 0 s = Inr (True, h0, s1) \<and> tb_lookup 1 0 s1 = Inr (True, h1, s2) \<and>
     localHistoryTable s1 = [1] \<and> localHistoryTable s2 = [3] \<and> localHistoryTable (tb_squash 0 h0 s2) = [0]"
proof -
  let ?c = "\<lparr>initialVal = 0, maxVal = 3, counter = 3\<rparr>"
  let ?s = "\<lparr>tb_localPredictorSize = 4, localPredictorMask = 3, tb_localCtrs = [?c, ?c, ?c, ?c], localHistoryTable = [0], localHistoryTableSize = 1,
    globalCtrs = [?c, ?c, ?c, ?c], globalHistory = [0, 0], tb_globalHistoryMask = 3, tb_choiceHistoryMask = 3, tb_historyRegisterMask = 3,
    choiceCtrs = [?c, ?c, ?c, ?c], localThreshold = 1, globalThreshold = 1, tb_choiceThreshold = 1, tb_instShiftAmt = 0\<rparr>"
  have "(3 :: u32) = mask 2" by (simp add: mask_eq_exp_minus_1)
  then have "tb_ok 0 ?s" "tb_ok 1 ?s" by (auto simp: tb_ok_def tb_cfg_ok_def)
  then show ?thesis
    by (intro exI [of _ ?s]) (simp add: tb_lookup_def over_def updateGlobalHist_def updateLocalHist_def tb_squash_def calcLocHistIdx_def
        invalidPredictorIndex_def Let_def)
qed

end
