(* ===== verification/Bpred_Unit.thy ===== *)
theory Bpred_Unit
  imports Branch_Pred
begin

text \<open>
  The branch prediction unit of the fetch stage (\<^verbatim>\<open>src/gem5/src/cpu/pred/bpred_unit.cc\<close>) and its
  indirect target predictor (\<^verbatim>\<open>simple_indirect.cc\<close>). The unit owns a direction predictor,
  reached only through its virtual operations, one return address stack and one history of
  predictions per thread, the shared branch target buffer and, optionally, the indirect
  predictor. What is proved of the unit is proved inside the locale \<open>direction_predictor\<close>, so for
  all three direction predictors at once. The methods of a static instruction and the address of a
  program counter state belong to the instruction set: they are fields of an instruction and an
  argument. The random way of the target cache is an argument of the operation that draws it.
\<close>

section \<open>Indirect target predictor\<close>

record 'pc ipred_entry =
  ip_tag :: addr
  ip_target :: 'pc

record history_entry =
  pcAddr :: addr
  targetAddr :: addr
  he_seqNum :: u64

record thread_info =
  pathHist :: "history_entry list"
  headHistEntry :: nat
  ghr :: u32

record 'pc simple_indirect =
  hashGHR :: bool
  hashTargets :: bool
  si_numSets :: u32
  si_numWays :: nat
  si_tagBits :: nat
  pathLength :: nat
  instShift :: nat
  ghrMask :: u32
  targetCache :: "'pc ipred_entry list list"
  threadInfo :: "thread_info list"

definition SimpleIndirectPredictor :: "bool \<Rightarrow> bool \<Rightarrow> u32 \<Rightarrow> nat \<Rightarrow> nat \<Rightarrow> nat \<Rightarrow> nat \<Rightarrow> nat \<Rightarrow> nat \<Rightarrow> ('pc::zero) simple_indirect result" where
  "SimpleIndirectPredictor hashG hashT sets ways tag_bits len shift ghr_bits threads =
     guardR (isPowerOf2 (ucast sets)) Panic_Error
     (guardR (ghr_bits \<le> 32) Fatal_Error
     (Inr \<lparr>hashGHR = hashG, hashTargets = hashT, si_numSets = sets, si_numWays = ways, si_tagBits = tag_bits, pathLength = len,
        instShift = shift, ghrMask = push_bit ghr_bits 1 - 1,
        targetCache = replicate (unat sets) (replicate ways \<lparr>ip_tag = 0, ip_target = 0\<rparr>),
        threadInfo = replicate threads \<lparr>pathHist = [], headHistEntry = 0, ghr = 0\<rparr>\<rparr>))"

definition sip_thread :: "nat \<Rightarrow> (thread_info \<Rightarrow> thread_info) \<Rightarrow> 'pc simple_indirect \<Rightarrow> 'pc simple_indirect" where
  "sip_thread tid f s = s\<lparr>threadInfo := (threadInfo s)[tid := f (threadInfo s ! tid)]\<rparr>"

definition genIndirectInfo :: "nat \<Rightarrow> 'pc simple_indirect \<Rightarrow> u32" where
  "genIndirectInfo tid s = ghr (threadInfo s ! tid)"

definition updateDirectionInfo :: "nat \<Rightarrow> bool \<Rightarrow> 'pc simple_indirect \<Rightarrow> 'pc simple_indirect" where
  "updateDirectionInfo tid actually_taken s =
     sip_thread tid (\<lambda>t. t\<lparr>ghr := (push_bit 1 (ghr t) OR (if actually_taken then 1 else 0)) AND ghrMask s\<rparr>) s"

definition changeDirectionPrediction :: "nat \<Rightarrow> u32 \<Rightarrow> bool \<Rightarrow> 'pc simple_indirect \<Rightarrow> 'pc simple_indirect" where
  "changeDirectionPrediction tid previousGhr actually_taken s =
     sip_thread tid (\<lambda>t. t\<lparr>ghr := (push_bit 1 previousGhr + (if actually_taken then 1 else 0)) AND ghrMask s\<rparr>) s"

fun path_hash :: "nat \<Rightarrow> nat \<Rightarrow> nat \<Rightarrow> nat \<Rightarrow> addr list \<Rightarrow> addr \<Rightarrow> addr" where
  "path_hash shift hash_shift p (Suc n) (t # ts) hash =
     path_hash shift hash_shift (p + 1) n ts (hash XOR drop_bit (shift + p * hash_shift) t)"
| "path_hash shift hash_shift p n ts hash = hash"

definition getSetIndex :: "addr \<Rightarrow> u32 \<Rightarrow> history_entry list \<Rightarrow> 'pc simple_indirect \<Rightarrow> nat result" where
  "getSetIndex br_addr g hist s =
     (let hash = drop_bit (instShift s) br_addr; hash = (if hashGHR s then hash XOR ucast g else hash) in
      bindR (if hashTargets s
             then bindR (floorLog2 4 (ucast (si_numSets s))) (\<lambda>l.
               guardR (pathLength s \<noteq> 0) Out_Of_Range
               (Inr (path_hash (instShift s) (l div pathLength s) 0 (pathLength s) (map targetAddr (rev hist)) hash)))
             else Inr hash)
        (\<lambda>hash. Inr (unat (hash AND ucast (si_numSets s - 1)))))"

definition sip_getTag :: "addr \<Rightarrow> 'pc simple_indirect \<Rightarrow> addr" where
  "sip_getTag br_addr s = drop_bit (instShift s) br_addr AND (push_bit (si_tagBits s) 1 - 1)"

definition sip_lookup :: "addr \<Rightarrow> nat \<Rightarrow> 'pc simple_indirect \<Rightarrow> 'pc option result" where
  "sip_lookup br_addr tid s =
     bindR (getSetIndex br_addr (ghr (threadInfo s ! tid)) (pathHist (threadInfo s ! tid)) s) (\<lambda>set_index.
     guardR (set_index < unat (si_numSets s)) Assert_Failed
     (Inr (map_option ip_target (find (\<lambda>w. ip_tag w = sip_getTag br_addr s) (targetCache s ! set_index)))))"

definition recordIndirect :: "addr \<Rightarrow> addr \<Rightarrow> u64 \<Rightarrow> nat \<Rightarrow> 'pc simple_indirect \<Rightarrow> 'pc simple_indirect" where
  "recordIndirect br_addr tgt_addr seq_num tid =
     sip_thread tid (\<lambda>t. t\<lparr>pathHist := pathHist t @ [\<lparr>pcAddr = br_addr, targetAddr = tgt_addr, he_seqNum = seq_num\<rparr>]\<rparr>)"

definition sip_commit :: "u64 \<Rightarrow> nat \<Rightarrow> 'pc simple_indirect \<Rightarrow> 'pc simple_indirect" where
  "sip_commit seq_num tid s =
     sip_thread tid (\<lambda>t. if pathHist t = [] then t
       else if headHistEntry t < length (pathHist t) \<and> he_seqNum (pathHist t ! headHistEntry t) \<le> seq_num
       then (if headHistEntry t \<ge> pathLength s then t\<lparr>pathHist := tl (pathHist t)\<rparr> else t\<lparr>headHistEntry := headHistEntry t + 1\<rparr>)
       else t) s"

definition sip_squash :: "u64 \<Rightarrow> nat \<Rightarrow> 'pc simple_indirect \<Rightarrow> 'pc simple_indirect" where
  "sip_squash seq_num tid = sip_thread tid (\<lambda>t. t\<lparr>pathHist := takeWhile (\<lambda>e. \<not> he_seqNum e > seq_num) (pathHist t)\<rparr>)"

definition deleteIndirectInfo :: "nat \<Rightarrow> u32 \<Rightarrow> 'pc simple_indirect \<Rightarrow> 'pc simple_indirect" where
  "deleteIndirectInfo tid previousGhr = sip_thread tid (\<lambda>t. t\<lparr>ghr := previousGhr\<rparr>)"

text \<open>The first way with the tag is overwritten; without one, the way \<open>rnd mod numWays\<close>.\<close>

fun set_way :: "addr \<Rightarrow> 'pc \<Rightarrow> 'pc ipred_entry list \<Rightarrow> 'pc ipred_entry list option" where
  "set_way tag target [] = None"
| "set_way tag target (w # ws) = (if ip_tag w = tag then Some (w\<lparr>ip_target := target\<rparr> # ws) else map_option ((#) w) (set_way tag target ws))"

definition recordTarget :: "('pc \<Rightarrow> addr) \<Rightarrow> nat \<Rightarrow> u32 \<Rightarrow> 'pc \<Rightarrow> nat \<Rightarrow> 'pc simple_indirect \<Rightarrow> 'pc simple_indirect result" where
  "recordTarget instAddr rnd g target tid s =
     (let hist = pathHist (threadInfo s ! tid) in
      guardR (hist \<noteq> []) Out_Of_Range
      (let hist_entry = last hist; tag = sip_getTag (pcAddr hist_entry) s in
       bindR (getSetIndex (pcAddr hist_entry) g (butlast hist) s) (\<lambda>set_index.
       let s = sip_thread tid (\<lambda>t. t\<lparr>pathHist := butlast hist @ [hist_entry\<lparr>targetAddr := instAddr target\<rparr>]\<rparr>) s in
       guardR (set_index < unat (si_numSets s)) Assert_Failed
       (case set_way tag target (targetCache s ! set_index) of
          Some ways \<Rightarrow> Inr (s\<lparr>targetCache := (targetCache s)[set_index := ways]\<rparr>)
        | None \<Rightarrow> guardR (si_numWays s \<noteq> 0) Out_Of_Range
            (Inr (s\<lparr>targetCache := (targetCache s)[set_index :=
               (targetCache s ! set_index)[rnd mod si_numWays s := \<lparr>ip_tag = tag, ip_target = target\<rparr>]]\<rparr>))))))"

section \<open>The unit\<close>

record 'pc static_inst =
  isUncondCtrl :: bool
  isReturn :: bool
  isCall :: bool
  isDirectCtrl :: bool
  buildRetPC :: "'pc \<Rightarrow> 'pc \<Rightarrow> 'pc"
  advancePC :: "'pc \<Rightarrow> 'pc"

record ('h, 'pc) predictor_history =
  ph_seqNum :: u64
  ph_pc :: addr
  bpHistory :: 'h
  indirectHistory :: "u32 option"
  RASTarget :: 'pc
  RASIndex :: nat
  ph_tid :: nat
  predTaken :: bool
  usedRAS :: bool
  pushedRAS :: bool
  wasCall :: bool
  wasReturn :: bool
  wasIndirect :: bool
  ph_target :: addr
  ph_inst :: "'pc static_inst"

definition PredictorHistory :: "u64 \<Rightarrow> addr \<Rightarrow> bool \<Rightarrow> 'h \<Rightarrow> u32 option \<Rightarrow> nat \<Rightarrow> ('pc::zero) static_inst \<Rightarrow> ('h, 'pc) predictor_history" where
  "PredictorHistory seq_num instPC pred_taken bp_history indirect_history tid inst =
     \<lparr>ph_seqNum = seq_num, ph_pc = instPC, bpHistory = bp_history, indirectHistory = indirect_history, RASTarget = 0, RASIndex = 0,
      ph_tid = tid, predTaken = pred_taken, usedRAS = False, pushedRAS = False, wasCall = False, wasReturn = False, wasIndirect = False,
      ph_target = - 1, ph_inst = inst\<rparr>"

text \<open>The front of the deque is the head of the list.\<close>

record ('d, 'h, 'pc) bpred_unit =
  direction :: 'd
  predHist :: "('h, 'pc) predictor_history list list"
  BTB :: "'pc btb"
  RAS :: "'pc ras list"
  iPred :: "'pc simple_indirect option"

definition BPredUnit :: "'d \<Rightarrow> ('pc::zero) simple_indirect option \<Rightarrow> nat \<Rightarrow> nat \<Rightarrow> u32 \<Rightarrow> nat \<Rightarrow> nat \<Rightarrow> ('d, 'h, 'pc) bpred_unit result" where
  "BPredUnit dir ip threads rasSize btbEntries btbTagSize shift =
     bindR (DefaultBTB btbEntries btbTagSize shift (of_nat threads)) (\<lambda>btb.
     Inr \<lparr>direction = dir, predHist = replicate threads [], BTB = btb, RAS = replicate threads (ras_init rasSize), iPred = ip\<rparr>)"

definition bpu_drainSanityCheck :: "('d, 'h, 'pc) bpred_unit \<Rightarrow> unit result" where
  "bpu_drainSanityCheck u = guardR (list_all (\<lambda>ph. ph = []) (predHist u)) Assert_Failed (Inr ())"

definition onRAS :: "nat \<Rightarrow> ('pc ras \<Rightarrow> 'pc ras) \<Rightarrow> ('d, 'h, 'pc) bpred_unit \<Rightarrow> ('d, 'h, 'pc) bpred_unit" where
  "onRAS tid f u = u\<lparr>RAS := (RAS u)[tid := f (RAS u ! tid)]\<rparr>"

text \<open>The target of a branch predicted taken that is not a return: the branch target buffer for
  direct branches, or for all when there is no indirect predictor; the indirect predictor otherwise.\<close>

definition predict_btb :: "('d, 'h) bp_ops \<Rightarrow> 'pc static_inst \<Rightarrow> addr \<Rightarrow> ('pc::zero) \<Rightarrow> nat \<Rightarrow> ('h, 'pc) predictor_history \<Rightarrow> ('d, 'h, 'pc) bpred_unit \<Rightarrow>
    (bool \<times> 'pc \<times> ('h, 'pc) predictor_history \<times> ('d, 'h, 'pc) bpred_unit) result" where
  "predict_btb ops inst a pc tid r u =
     bindR (btb_valid a tid (BTB u)) (\<lambda>hit.
     if hit then bindR (btb_lookup a tid (BTB u)) (\<lambda>target. Inr (True, target, r, u))
     else (let r = r\<lparr>predTaken := False\<rparr>;
               (r, u) = (if \<not> isCall inst \<and> \<not> isReturn inst then (r, u\<lparr>direction := op_btbUpdate ops tid a (direction u)\<rparr>)
                         else if isCall inst \<and> \<not> isUncondCtrl inst then (r\<lparr>pushedRAS := False\<rparr>, onRAS tid ras_pop u)
                         else (r, u))
           in Inr (False, advancePC inst pc, r, u)))"

definition predict_indirect :: "('pc \<Rightarrow> addr) \<Rightarrow> 'pc static_inst \<Rightarrow> u64 \<Rightarrow> addr \<Rightarrow> 'pc \<Rightarrow> nat \<Rightarrow> 'pc simple_indirect \<Rightarrow> ('h, 'pc) predictor_history \<Rightarrow>
    ('d, 'h, 'pc) bpred_unit \<Rightarrow> (bool \<times> 'pc \<times> ('h, 'pc) predictor_history \<times> ('d, 'h, 'pc) bpred_unit) result" where
  "predict_indirect instAddr inst seqNum a pc tid ip r u =
     bindR (sip_lookup a tid ip) (\<lambda>hit.
     let r = r\<lparr>wasIndirect := True\<rparr>;
         (p, target, r, u) = (case hit of Some t \<Rightarrow> (True, t, r, u)
            | None \<Rightarrow> (let r = r\<lparr>predTaken := False\<rparr>;
                          (r, u) = (if \<not> isCall inst \<and> \<not> isReturn inst then (r, u)
                                    else if isCall inst \<and> \<not> isUncondCtrl inst then (r\<lparr>pushedRAS := False\<rparr>, onRAS tid ras_pop u)
                                    else (r, u))
                      in (False, advancePC inst pc, r, u)))
     in Inr (p, target, r, u\<lparr>iPred := Some (recordIndirect a (instAddr target) seqNum tid ip)\<rparr>))"

definition predict_target :: "('d, 'h) bp_ops \<Rightarrow> ('pc \<Rightarrow> addr) \<Rightarrow> 'pc static_inst \<Rightarrow> u64 \<Rightarrow> ('pc::zero) \<Rightarrow> nat \<Rightarrow> ('h, 'pc) predictor_history \<Rightarrow>
    ('d, 'h, 'pc) bpred_unit \<Rightarrow> (bool \<times> 'pc \<times> ('h, 'pc) predictor_history \<times> ('d, 'h, 'pc) bpred_unit) result" where
  "predict_target ops instAddr inst seqNum pc tid r u =
     (if isReturn inst
      then (let rasTop = ras_top (RAS u ! tid)
            in Inr (True, buildRetPC inst pc rasTop,
                 r\<lparr>wasReturn := True, usedRAS := True, RASIndex := topIdx (RAS u ! tid), RASTarget := rasTop\<rparr>, onRAS tid ras_pop u))
      else (let (r, u) = (if isCall inst then (r\<lparr>pushedRAS := True, wasCall := True\<rparr>, onRAS tid (ras_push pc) u) else (r, u))
            in case iPred u of
                 None \<Rightarrow> predict_btb ops inst (instAddr pc) pc tid r u
               | Some ip \<Rightarrow> if isDirectCtrl inst then predict_btb ops inst (instAddr pc) pc tid r u
                            else predict_indirect instAddr inst seqNum (instAddr pc) pc tid ip r u))"

definition predict :: "('d, 'h) bp_ops \<Rightarrow> ('pc \<Rightarrow> addr) \<Rightarrow> 'pc static_inst \<Rightarrow> u64 \<Rightarrow> ('pc::zero) \<Rightarrow> nat \<Rightarrow> ('d, 'h, 'pc) bpred_unit \<Rightarrow>
    (bool \<times> 'pc \<times> ('d, 'h, 'pc) bpred_unit) result" where
  "predict ops instAddr inst seqNum pc tid u =
     bindR (if isUncondCtrl inst
            then (let (h, d) = op_uncondBranch ops tid (instAddr pc) (direction u) in Inr (True, h, d))
            else op_lookup ops tid (instAddr pc) (direction u)) (\<lambda>(orig, h, d).
     let u = u\<lparr>direction := d\<rparr>;
         r = PredictorHistory seqNum (instAddr pc) orig h (map_option (genIndirectInfo tid) (iPred u)) tid inst in
     bindR (if orig then predict_target ops instAddr inst seqNum pc tid r u
            else Inr (False, advancePC inst pc, r\<lparr>wasReturn := isReturn inst\<rparr>, u)) (\<lambda>(p, target, r, u).
     let r = r\<lparr>ph_target := instAddr target\<rparr>;
         u = u\<lparr>iPred := map_option (updateDirectionInfo tid orig) (iPred u)\<rparr>
     in Inr (p, target, u\<lparr>predHist := (predHist u)[tid := r # predHist u ! tid]\<rparr>)))"

text \<open>The commit loop runs from the back of the deque; each iteration removes one entry, and
  the recursion is on the entries, oldest first.\<close>

fun commit_entries :: "('d, 'h) bp_ops \<Rightarrow> u64 \<Rightarrow> nat \<Rightarrow> ('h, 'pc) predictor_history list \<Rightarrow> ('d, 'h, 'pc) bpred_unit \<Rightarrow>
    (('h, 'pc) predictor_history list \<times> ('d, 'h, 'pc) bpred_unit) result" where
  "commit_entries ops done_sn tid [] u = Inr ([], u)"
| "commit_entries ops done_sn tid (e # es) u =
     (if ph_seqNum e \<le> done_sn
      then bindR (op_update ops tid (ph_pc e) (predTaken e) (bpHistory e) False (direction u)) (\<lambda>d.
           commit_entries ops done_sn tid es (u\<lparr>direction := d, iPred := map_option (sip_commit done_sn tid) (iPred u)\<rparr>))
      else Inr (e # es, u))"

definition bpu_update :: "('d, 'h) bp_ops \<Rightarrow> u64 \<Rightarrow> nat \<Rightarrow> ('d, 'h, 'pc) bpred_unit \<Rightarrow> ('d, 'h, 'pc) bpred_unit result" where
  "bpu_update ops done_sn tid u =
     bindR (commit_entries ops done_sn tid (rev (predHist u ! tid)) u) (\<lambda>(es, u). Inr (u\<lparr>predHist := (predHist u)[tid := rev es]\<rparr>))"

text \<open>One iteration of the squash loop, on the entry at the front.\<close>

definition squash_entry :: "('d, 'h) bp_ops \<Rightarrow> nat \<Rightarrow> ('h, 'pc) predictor_history \<Rightarrow> ('d, 'h, 'pc) bpred_unit \<Rightarrow> ('d, 'h, 'pc) bpred_unit" where
  "squash_entry ops tid e u =
     (let u = (if usedRAS e then onRAS tid (ras_restore (RASIndex e) (RASTarget e)) u
               else if wasCall e \<and> pushedRAS e then onRAS tid ras_pop u else u);
          u = u\<lparr>direction := op_squash ops tid (bpHistory e) (direction u)\<rparr>
      in u\<lparr>iPred := (case (iPred u, indirectHistory e) of (Some ip, Some g) \<Rightarrow> Some (deleteIndirectInfo tid g ip) | _ \<Rightarrow> iPred u)\<rparr>)"

fun squash_entries :: "('d, 'h) bp_ops \<Rightarrow> u64 \<Rightarrow> nat \<Rightarrow> ('h, 'pc) predictor_history list \<Rightarrow> ('d, 'h, 'pc) bpred_unit \<Rightarrow>
    ('h, 'pc) predictor_history list \<times> ('d, 'h, 'pc) bpred_unit" where
  "squash_entries ops squashed_sn tid [] u = ([], u)"
| "squash_entries ops squashed_sn tid (e # es) u =
     (if ph_seqNum e > squashed_sn then squash_entries ops squashed_sn tid es (squash_entry ops tid e u) else (e # es, u))"

definition bpu_squash :: "('d, 'h) bp_ops \<Rightarrow> u64 \<Rightarrow> nat \<Rightarrow> ('d, 'h, 'pc) bpred_unit \<Rightarrow> ('d, 'h, 'pc) bpred_unit" where
  "bpu_squash ops squashed_sn tid u =
     (let u = u\<lparr>iPred := map_option (sip_squash squashed_sn tid) (iPred u)\<rparr>;
          (es, u) = squash_entries ops squashed_sn tid (predHist u ! tid) u
      in u\<lparr>predHist := (predHist u)[tid := es]\<rparr>)"

definition squash_fix_ras :: "bool \<Rightarrow> nat \<Rightarrow> ('h, 'pc) predictor_history \<Rightarrow> ('d, 'h, 'pc) bpred_unit \<Rightarrow>
    ('h, 'pc) predictor_history \<times> ('d, 'h, 'pc) bpred_unit" where
  "squash_fix_ras actually_taken tid e u =
     (if actually_taken
      then (if wasReturn e \<and> \<not> usedRAS e then (e\<lparr>usedRAS := True\<rparr>, onRAS tid ras_pop u) else (e, u))
      else if usedRAS e then (e\<lparr>usedRAS := False\<rparr>, onRAS tid (ras_restore (RASIndex e) (RASTarget e)) u)
      else if wasCall e \<and> pushedRAS e then (e\<lparr>pushedRAS := False\<rparr>, onRAS tid ras_pop u)
      else (e, u))"

definition squash_fix_target :: "('pc \<Rightarrow> addr) \<Rightarrow> nat \<Rightarrow> 'pc \<Rightarrow> bool \<Rightarrow> nat \<Rightarrow> ('h, 'pc) predictor_history \<Rightarrow> ('d, 'h, 'pc) bpred_unit \<Rightarrow>
    ('d, 'h, 'pc) bpred_unit result" where
  "squash_fix_target instAddr rnd corrTarget actually_taken tid e u =
     (if \<not> actually_taken then Inr u
      else if wasIndirect e
      then (case (iPred u, indirectHistory e) of
              (Some ip, Some g) \<Rightarrow> bindR (recordTarget instAddr rnd g corrTarget tid ip) (\<lambda>ip. Inr (u\<lparr>iPred := Some ip\<rparr>))
            | _ \<Rightarrow> Inr u)
      else bindR (btb_update (ph_pc e) corrTarget tid (BTB u)) (\<lambda>b. Inr (u\<lparr>BTB := b\<rparr>)))"

definition bpu_squash_mispredict :: "('d, 'h) bp_ops \<Rightarrow> ('pc \<Rightarrow> addr) \<Rightarrow> nat \<Rightarrow> u64 \<Rightarrow> 'pc \<Rightarrow> bool \<Rightarrow> nat \<Rightarrow> ('d, 'h, 'pc) bpred_unit \<Rightarrow>
    ('d, 'h, 'pc) bpred_unit result" where
  "bpu_squash_mispredict ops instAddr rnd squashed_sn corrTarget actually_taken tid u =
     (let u = bpu_squash ops squashed_sn tid u in
      case predHist u ! tid of [] \<Rightarrow> Inr u
      | e # es \<Rightarrow>
        guardR (ph_seqNum e = squashed_sn) Assert_Failed
        (let e = e\<lparr>predTaken := actually_taken, ph_target := instAddr corrTarget\<rparr> in
         bindR (op_update ops tid (ph_pc e) actually_taken (bpHistory e) True (direction u)) (\<lambda>d.
         let u = u\<lparr>direction := d, iPred := (case (iPred u, indirectHistory e) of
                     (Some ip, Some g) \<Rightarrow> Some (changeDirectionPrediction tid g actually_taken ip) | _ \<Rightarrow> iPred u)\<rparr>;
             (e, u) = squash_fix_ras actually_taken tid e u in
         bindR (squash_fix_target instAddr rnd corrTarget actually_taken tid e u) (\<lambda>u.
         Inr (u\<lparr>predHist := (predHist u)[tid := e # es]\<rparr>)))))"

definition BTBValid :: "addr \<Rightarrow> ('d, 'h, 'pc) bpred_unit \<Rightarrow> bool result" where
  "BTBValid instPC u = btb_valid instPC 0 (BTB u)"

definition BTBLookup :: "addr \<Rightarrow> ('d, 'h, ('pc::zero)) bpred_unit \<Rightarrow> 'pc result" where
  "BTBLookup instPC u = btb_lookup instPC 0 (BTB u)"

definition BTBUpdate :: "addr \<Rightarrow> 'pc \<Rightarrow> ('d, 'h, 'pc) bpred_unit \<Rightarrow> ('d, 'h, 'pc) bpred_unit result" where
  "BTBUpdate instPC target u = bindR (btb_update instPC target 0 (BTB u)) (\<lambda>b. Inr (u\<lparr>BTB := b\<rparr>))"

section \<open>Well-formed units\<close>

definition sip_ok :: "nat \<Rightarrow> 'pc simple_indirect \<Rightarrow> bool" where
  "sip_ok tid s \<longleftrightarrow> tid < length (threadInfo s) \<and> si_numSets s \<noteq> 0 \<and> pathLength s \<noteq> 0 \<and> si_numWays s \<noteq> 0"

definition unit_ok :: "(nat \<Rightarrow> 'd \<Rightarrow> bool) \<Rightarrow> nat \<Rightarrow> ('d, 'h, 'pc) bpred_unit \<Rightarrow> bool" where
  "unit_ok ok tid u \<longleftrightarrow> ok tid (direction u) \<and> tid < length (predHist u) \<and> tid < length (RAS u) \<and> ras_ok (RAS u ! tid) \<and> btb_ok (BTB u) \<and>
     (\<forall>ip. iPred u = Some ip \<longrightarrow> sip_ok tid ip)"

lemma sip_thread_simps [simp]:
  "sip_ok tid (sip_thread tid' f s) = sip_ok tid s" "targetCache (sip_thread tid f s) = targetCache s"
  "si_numSets (sip_thread tid f s) = si_numSets s" "si_numWays (sip_thread tid f s) = si_numWays s"
  by (simp_all add: sip_ok_def sip_thread_def)

lemma sip_thread_nth: "tid < length (threadInfo s) \<Longrightarrow> threadInfo (sip_thread tid f s) ! tid = f (threadInfo s ! tid)"
  by (simp add: sip_thread_def)

lemma getSetIndex_total:
  assumes "sip_ok tid s"
  shows "\<exists>i. getSetIndex a g hist s = Inr i \<and> i < unat (si_numSets s)"
proof -
  have "(ucast (si_numSets s) :: u64) > 0"
    using assms unat_ucast_u32 [of "si_numSets s"] by (auto simp: sip_ok_def word_gt_0_no unat_eq_0 simp del: unat_ucast_u32 intro!: word_gt_0 [THEN iffD2])
  then have "\<exists>l. floorLog2 4 (ucast (si_numSets s)) = Inr l" by (simp add: floorLog2_def)
  then show ?thesis using assms and_mask_index [of "si_numSets s"] by (auto simp: getSetIndex_def sip_ok_def Let_def)
qed

lemma sip_lookup_total: "sip_ok tid s \<Longrightarrow> \<exists>t. sip_lookup a tid s = Inr t"
  using getSetIndex_total [of tid s a "ghr (threadInfo s ! tid)" "pathHist (threadInfo s ! tid)"] by (auto simp: sip_lookup_def)

section \<open>Undoing one prediction\<close>

text \<open>Two stacks that agree on the top index and the youngest \<open>k\<close> entries.\<close>

definition ras_same :: "nat \<Rightarrow> 'pc ras \<Rightarrow> 'pc ras \<Rightarrow> bool" where
  "ras_same k r r' \<longleftrightarrow> ras_ok r' \<and> ras_numEntries r' = ras_numEntries r \<and> tos r' = tos r \<and> ras_view k r' = ras_view k r"

lemma ras_same_refl: "ras_ok r \<Longrightarrow> ras_same k r r"
  by (simp add: ras_same_def)

lemma ras_same_mono: "ras_same k r r' \<Longrightarrow> j \<le> k \<Longrightarrow> ras_same j r r'"
  using ras_view_mono [of k r' r j] by (auto simp: ras_same_def)

lemma ras_same_call:
  assumes "ras_ok r" "ras_same k (ras_push x r) r'" "k \<le> ras_numEntries r"
  shows "ras_same (k - 1) r (ras_pop r')"
proof (cases k)
  case 0
  then show ?thesis using assms by (auto simp: ras_same_def ras_ok_def ras_view_def)
next
  case (Suc j)
  have "ras_view j (ras_pop r') = tl (ras_view (Suc j) r')"
    using assms Suc by (intro ras_view_pop) (auto simp: ras_same_def)
  also have "\<dots> = ras_view j r" using assms Suc ras_view_push [OF assms(1), of j x] by (simp add: ras_same_def)
  finally show ?thesis using assms Suc by (simp add: ras_same_def gem5_inv) (simp add: ras_ok_def)
qed

lemma ras_same_push_pop:
  assumes "ras_ok r" "ras_same k (ras_pop (ras_push x r)) r'" "k \<le> ras_numEntries r"
  shows "ras_same (k - 1) r r'"
proof -
  have "ras_same (k - 1) r (ras_pop (ras_push x r))"
    using assms by (intro ras_same_call [of r k x]) (simp_all add: ras_same_refl gem5_inv)
  then show ?thesis using ras_same_mono [OF assms(2), of "k - 1"] by (simp add: ras_same_def)
qed

lemma ras_same_return:
  assumes "ras_ok r" "ras_same k (ras_pop r) r'" "k \<le> ras_numEntries r"
  shows "ras_same k r (ras_restore (topIdx r) (ras_top r) r')"
proof (cases k)
  case 0
  then show ?thesis using assms by (simp add: ras_same_def ras_view_def topIdx_def) (simp add: ras_ok_def)
next
  case (Suc j)
  have "ras_view j r' = ras_view j (ras_pop r)" using ras_same_mono [OF assms(2), of j] Suc by (simp add: ras_same_def)
  then have "ras_view (Suc j) (ras_restore (topIdx r) (ras_top r) r') = ras_view (Suc j) r"
    using assms Suc by (intro ras_view_restore) (auto simp: ras_same_def)
  then show ?thesis using assms Suc by (simp add: ras_same_def topIdx_def) (simp add: ras_ok_def)
qed

definition undo_ras :: "('h, 'pc) predictor_history \<Rightarrow> 'pc ras \<Rightarrow> 'pc ras" where
  "undo_ras e = (if usedRAS e then ras_restore (RASIndex e) (RASTarget e) else if wasCall e \<and> pushedRAS e then ras_pop else id)"

definition undo_ghr :: "nat \<Rightarrow> ('h, 'pc) predictor_history \<Rightarrow> 'pc simple_indirect option \<Rightarrow> 'pc simple_indirect option" where
  "undo_ghr tid e ip = (case (ip, indirectHistory e) of (Some ip, Some g) \<Rightarrow> Some (deleteIndirectInfo tid g ip) | _ \<Rightarrow> ip)"

lemma squash_entry_fields [simp]:
  "tid < length (RAS u) \<Longrightarrow> RAS (squash_entry ops tid e u) ! tid = undo_ras e (RAS u ! tid)"
  "length (RAS (squash_entry ops tid e u)) = length (RAS u)"
  "direction (squash_entry ops tid e u) = op_squash ops tid (bpHistory e) (direction u)"
  "iPred (squash_entry ops tid e u) = undo_ghr tid e (iPred u)"
  "predHist (squash_entry ops tid e u) = predHist u" "BTB (squash_entry ops tid e u) = BTB u"
  by (simp_all add: squash_entry_def onRAS_def undo_ras_def undo_ghr_def Let_def split: option.splits)

text \<open>\<open>ras_undone\<close>: \<open>e\<close> takes the stack after a prediction back to the one before it, except for at
  most \<open>c\<close> of its oldest entries.\<close>

definition ras_undone :: "nat \<Rightarrow> ('h, 'pc) predictor_history \<Rightarrow> 'pc ras \<Rightarrow> 'pc ras \<Rightarrow> bool" where
  "ras_undone c e r r1 \<longleftrightarrow> ras_ok r1 \<and> ras_numEntries r1 = ras_numEntries r \<and>
     (\<forall>k r2. k \<le> ras_numEntries r \<longrightarrow> ras_same k r1 r2 \<longrightarrow> ras_same (k - c) r (undo_ras e r2))"

lemma ras_undone_target [simp]: "ras_undone c (e\<lparr>ph_target := x\<rparr>) = ras_undone c e"
  by (simp add: ras_undone_def undo_ras_def fun_eq_iff)

definition plain_uncond :: "'pc static_inst \<Rightarrow> bool" where
  "plain_uncond inst \<longleftrightarrow> isUncondCtrl inst \<and> \<not> isCall inst \<and> \<not> isReturn inst"

definition record_start :: "('h, 'pc) predictor_history \<Rightarrow> bool" where
  "record_start r \<longleftrightarrow> \<not> usedRAS r \<and> \<not> wasCall r \<and> \<not> pushedRAS r \<and> \<not> wasIndirect r \<and> \<not> wasReturn r"

text \<open>The stack after a prediction, from the record it left: a return that used the stack popped it,
  an unconditional call pushed.\<close>

definition ras_taken :: "'pc static_inst \<Rightarrow> 'pc \<Rightarrow> ('h, 'pc) predictor_history \<Rightarrow> 'pc ras \<Rightarrow> 'pc ras \<Rightarrow> bool" where
  "ras_taken inst pc r1 old new \<longleftrightarrow> wasReturn r1 = isReturn inst \<and>
     (if isReturn inst then new = (if usedRAS r1 then ras_pop old else old)
      else \<not> usedRAS r1 \<and> (isCall inst \<longrightarrow> isUncondCtrl inst \<longrightarrow> new = ras_push pc old) \<and> (\<not> isCall inst \<longrightarrow> new = old))"

text \<open>What finding the target leaves of the rest of the unit.\<close>

definition target_frame :: "('d, 'h) bp_ops \<Rightarrow> ('pc \<Rightarrow> addr) \<Rightarrow> 'pc static_inst \<Rightarrow> u64 \<Rightarrow> 'pc \<Rightarrow> nat \<Rightarrow> ('h, 'pc) predictor_history \<Rightarrow> ('d, 'h, 'pc) bpred_unit \<Rightarrow>
    ('h, 'pc) predictor_history \<Rightarrow> ('d, 'h, 'pc) bpred_unit \<Rightarrow> bool" where
  "target_frame ops instAddr inst sn pc tid r u r1 u1 \<longleftrightarrow>
     predHist u1 = predHist u \<and> BTB u1 = BTB u \<and> bpHistory r1 = bpHistory r \<and> indirectHistory r1 = indirectHistory r \<and>
     ph_seqNum r1 = ph_seqNum r \<and> ph_inst r1 = ph_inst r \<and> ph_pc r1 = ph_pc r \<and> length (RAS u1) = length (RAS u) \<and>
     (direction u1 = direction u \<or> \<not> isCall inst \<and> \<not> isReturn inst \<and> direction u1 = op_btbUpdate ops tid (instAddr pc) (direction u)) \<and>
     ras_undone (of_bool (isCall inst)) r1 (RAS u ! tid) (RAS u1 ! tid) \<and> ras_taken inst pc r1 (RAS u ! tid) (RAS u1 ! tid) \<and>
     (if wasIndirect r1 then \<exists>ip t. iPred u = Some ip \<and> iPred u1 = Some (recordIndirect (instAddr pc) t sn tid ip) else iPred u1 = iPred u)"

lemma ras_undone_intros:
  assumes "ras_ok r"
  shows "\<not> usedRAS e \<Longrightarrow> \<not> pushedRAS e \<Longrightarrow> ras_undone 0 e r r"
    "\<not> usedRAS e \<Longrightarrow> wasCall e \<Longrightarrow> pushedRAS e \<Longrightarrow> ras_undone 1 e r (ras_push x r)"
    "\<not> usedRAS e \<Longrightarrow> \<not> pushedRAS e \<Longrightarrow> ras_undone 1 e r (ras_pop (ras_push x r))"
    "usedRAS e \<Longrightarrow> RASIndex e = topIdx r \<Longrightarrow> RASTarget e = ras_top r \<Longrightarrow> ras_undone 0 e r (ras_pop r)"
  using assms ras_same_call [OF assms] ras_same_push_pop [OF assms] ras_same_return [OF assms]
  by (auto simp: ras_undone_def undo_ras_def gem5_inv)

lemma ras_undone_mono: "ras_undone c e r r1 \<Longrightarrow> c \<le> d \<Longrightarrow> ras_undone d e r r1"
  unfolding ras_undone_def by (meson diff_le_mono2 ras_same_mono)

lemma onRAS_simps [simp]:
  "tid < length (RAS u) \<Longrightarrow> RAS (onRAS tid f u) ! tid = f (RAS u ! tid)" "length (RAS (onRAS tid f u)) = length (RAS u)"
  "predHist (onRAS tid f u) = predHist u" "BTB (onRAS tid f u) = BTB u" "iPred (onRAS tid f u) = iPred u"
  "direction (onRAS tid f u) = direction u"
  by (simp_all add: onRAS_def)

text \<open>The stack and the record when a branch that is not a return has been looked at: pushed for a call.\<close>

definition call_state :: "'pc static_inst \<Rightarrow> 'pc \<Rightarrow> nat \<Rightarrow> ('h, 'pc) predictor_history \<times> ('d, 'h, 'pc) bpred_unit \<Rightarrow>
    ('h, 'pc) predictor_history \<times> ('d, 'h, 'pc) bpred_unit" where
  "call_state inst pc tid = (\<lambda>(r, u). if isCall inst then (r\<lparr>pushedRAS := True, wasCall := True\<rparr>, onRAS tid (ras_push pc) u) else (r, u))"

lemma btb_lookup_total: "btb_ok b \<Longrightarrow> btb_valid a tid b = Inr (btb_hit a tid b) \<and> (\<exists>t. btb_lookup a tid b = Inr t)"
  using getIndex_less [of b a tid] by (simp add: btb_valid_def btb_lookup_def)

lemma predict_btb_frame:
  assumes "record_start r" "tid < length (RAS u)" "ras_ok (RAS u ! tid)" "btb_ok (BTB u)" "\<not> isReturn inst"
    "call_state inst pc tid (r, u) = (r', u')"
  shows "succeeds (predict_btb ops inst (instAddr pc) pc tid r' u') (\<lambda>(p, t, r1, u1). target_frame ops instAddr inst sn pc tid r u r1 u1)"
proof -
  note t = btb_lookup_total [OF assms(4), of "instAddr pc" tid]
  then obtain target where t': "btb_lookup (instAddr pc) tid (BTB u) = Inr target" by blast
  show ?thesis
  proof (cases "isCall inst")
    case True
    then show ?thesis using assms t t'
      by (auto simp: predict_btb_def call_state_def target_frame_def ras_taken_def record_start_def Let_def ras_undone_intros [simplified])
  next
    case False
    then show ?thesis using assms t t'
      by (auto simp: predict_btb_def call_state_def target_frame_def ras_taken_def record_start_def Let_def ras_undone_intros [simplified])
  qed
qed

lemma predict_indirect_frame:
  assumes "record_start r" "tid < length (RAS u)" "ras_ok (RAS u ! tid)" "iPred u = Some ip" "sip_ok tid ip" "\<not> isReturn inst"
    "call_state inst pc tid (r, u) = (r', u')"
  shows "succeeds (predict_indirect instAddr inst sn (instAddr pc) pc tid ip r' u') (\<lambda>(p, t, r1, u1). target_frame ops instAddr inst sn pc tid r u r1 u1)"
proof -
  obtain hit where t: "sip_lookup (instAddr pc) tid ip = Inr hit" using sip_lookup_total [OF assms(5)] by blast
  show ?thesis
  proof (cases "isCall inst")
    case True
    then show ?thesis using assms t
      by (cases hit; cases "isUncondCtrl inst")
        (auto simp: predict_indirect_def call_state_def target_frame_def ras_taken_def record_start_def Let_def ras_undone_intros [simplified])
  next
    case False
    then show ?thesis using assms t
      by (cases hit) (auto simp: predict_indirect_def call_state_def target_frame_def ras_taken_def record_start_def Let_def ras_undone_intros [simplified])
  qed
qed

lemma predict_target_frame:
  fixes r :: "('h, ('pc::zero)) predictor_history"
  assumes "unit_ok ok tid u" "record_start r"
  shows "succeeds (predict_target ops instAddr inst sn pc tid r u) (\<lambda>(p, t, r1, u1). target_frame ops instAddr inst sn pc tid r u r1 u1)"
proof (cases "isReturn inst")
  case True
  have "ras_undone (of_bool (isCall inst)) e (RAS u ! tid) (ras_pop (RAS u ! tid))"
    if "usedRAS e" "RASIndex e = topIdx (RAS u ! tid)" "RASTarget e = ras_top (RAS u ! tid)"
    for e :: "('h, 'pc) predictor_history"
    using ras_undone_mono [OF ras_undone_intros(4) [OF _ that]] assms(1) by (simp add: unit_ok_def)
  then show ?thesis using True assms
    by (auto simp: predict_target_def target_frame_def ras_taken_def unit_ok_def record_start_def Let_def)
next
  case False
  obtain r' u' where c: "call_state inst pc tid (r, u) = (r', u')" by (cases "call_state inst pc tid (r, u)")
  have i: "iPred u' = iPred u" using c by (auto simp: call_state_def split: if_splits)
  have e: "predict_target ops instAddr inst sn pc tid r u = (case iPred u of None \<Rightarrow> predict_btb ops inst (instAddr pc) pc tid r' u'
    | Some ip \<Rightarrow> if isDirectCtrl inst then predict_btb ops inst (instAddr pc) pc tid r' u'
                else predict_indirect instAddr inst sn (instAddr pc) pc tid ip r' u')"
    using False c i by (auto simp: predict_target_def call_state_def Let_def split: if_splits)
  have ok: "tid < length (RAS u)" "ras_ok (RAS u ! tid)" "btb_ok (BTB u)" "iPred u = Some ip \<Longrightarrow> sip_ok tid ip" for ip
    using assms(1) by (auto simp: unit_ok_def)
  show ?thesis
  proof (cases "iPred u")
    case None
    then show ?thesis using e predict_btb_frame [OF assms(2) ok(1-3) False c] by simp
  next
    case (Some ip)
    then show ?thesis using e predict_btb_frame [OF assms(2) ok(1-3) False c] predict_indirect_frame [OF assms(2) ok(1,2) Some ok(4) [OF Some] False c]
      by (cases "isDirectCtrl inst") simp_all
  qed
qed

text \<open>The speculative state of one thread of two units agrees: the branch history of the direction
  predictor, the youngest \<open>k\<close> return addresses and the history of the indirect predictor.\<close>

definition unit_same :: "(nat \<Rightarrow> 'd \<Rightarrow> bool) \<Rightarrow> (nat \<Rightarrow> 'd \<Rightarrow> 'v) \<Rightarrow> nat \<Rightarrow> nat \<Rightarrow> ('d, 'h, 'pc) bpred_unit \<Rightarrow> ('d, 'h, 'pc) bpred_unit \<Rightarrow> bool" where
  "unit_same ok view tid k u u' \<longleftrightarrow> unit_ok ok tid u' \<and> view tid (direction u') = view tid (direction u) \<and>
     ras_same k (RAS u ! tid) (RAS u' ! tid) \<and> map_option (genIndirectInfo tid) (iPred u') = map_option (genIndirectInfo tid) (iPred u)"

definition path_of :: "nat \<Rightarrow> ('d, 'h, 'pc) bpred_unit \<Rightarrow> history_entry list" where
  "path_of tid u = (case iPred u of None \<Rightarrow> [] | Some ip \<Rightarrow> pathHist (threadInfo ip ! tid))"

text \<open>What a prediction adds: one entry to the thread's history and, for an indirect branch, one to
  the path history.\<close>

definition predicted :: "u64 \<Rightarrow> nat \<Rightarrow> ('h, 'pc) predictor_history \<Rightarrow> ('d, 'h, 'pc) bpred_unit \<Rightarrow> ('d, 'h, 'pc) bpred_unit \<Rightarrow> bool" where
  "predicted sn tid r u u1 \<longleftrightarrow> predHist u1 = (predHist u)[tid := r # predHist u ! tid] \<and> ph_seqNum r = sn \<and> BTB u1 = BTB u \<and>
     ras_numEntries (RAS u1 ! tid) = ras_numEntries (RAS u ! tid) \<and> (iPred u1 = None \<longleftrightarrow> iPred u = None) \<and> (wasIndirect r \<longrightarrow> iPred u \<noteq> None) \<and>
     indirectHistory r = map_option (genIndirectInfo tid) (iPred u) \<and>
     (\<exists>t. path_of tid u1 = path_of tid u @ (if wasIndirect r then [\<lparr>pcAddr = ph_pc r, targetAddr = t, he_seqNum = sn\<rparr>] else []))"

lemma genIndirectInfo_thread: "sip_ok tid ip \<Longrightarrow> genIndirectInfo tid (sip_thread tid f ip) = ghr (f (threadInfo ip ! tid))"
  by (simp add: genIndirectInfo_def sip_thread_nth sip_ok_def)

lemma squash_entry_same:
  assumes "unit_same ok view tid k u1 u2" "ok tid (op_squash ops tid (bpHistory r) (direction u2))"
    "view tid (op_squash ops tid (bpHistory r) (direction u2)) = view tid (direction u)"
    "ras_undone c r (RAS u ! tid) (RAS u1 ! tid)" "k \<le> ras_numEntries (RAS u ! tid)" "k - c = j"
    "indirectHistory r = map_option (genIndirectInfo tid) (iPred u)" "iPred u1 = None \<longleftrightarrow> iPred u = None"
  shows "unit_same ok view tid j u (squash_entry ops tid r u2)"
proof -
  have s: "ras_same j (RAS u ! tid) (undo_ras r (RAS u2 ! tid))" using assms by (auto simp: ras_undone_def unit_same_def)
  have n: "iPred u2 = None \<longleftrightarrow> iPred u = None" using assms(1,8) by (auto simp: unit_same_def map_option_case split: option.splits)
  have i: "map_option (genIndirectInfo tid) (undo_ghr tid r (iPred u2)) = map_option (genIndirectInfo tid) (iPred u)"
    "undo_ghr tid r (iPred u2) = Some ip \<Longrightarrow> sip_ok tid ip" for ip
    using assms(1,7) n by (auto simp: undo_ghr_def unit_same_def unit_ok_def deleteIndirectInfo_def genIndirectInfo_thread split: option.splits)
  have t: "tid < length (RAS u2)" using assms(1) by (simp add: unit_same_def unit_ok_def)
  show ?thesis using assms(1-3) s i t by (auto simp: unit_same_def unit_ok_def ras_same_def)
qed

context direction_predictor
begin

definition radv :: "'pc static_inst \<Rightarrow> addr \<Rightarrow> bool \<Rightarrow> 'v \<Rightarrow> 'v" where
  "radv inst a = (if isUncondCtrl inst then uadv else adv a)"

lemma direction_stage:
  assumes "ok tid s"
  obtains orig h d where
    "(if isUncondCtrl inst then (let (h, d) = op_uncondBranch ops tid a s in Inr (True, h, d)) else op_lookup ops tid a s) = Inr (orig, h, d)"
    "ok tid d" "view tid d = radv inst a orig (view tid s)" "isUncondCtrl inst \<Longrightarrow> orig"
    "\<And>d2 b. ok tid d2 \<Longrightarrow> view tid d2 = radv inst a b (view tid s) \<Longrightarrow> view tid (op_squash ops tid h d2) = view tid s"
    "\<And>d2 b t d3. ok tid d2 \<Longrightarrow> view tid d2 = radv inst a b (view tid s) \<Longrightarrow> op_update ops tid a t h True d2 = Inr d3 \<Longrightarrow>
      view tid d3 = radv inst a t (view tid s)"
proof (cases "isUncondCtrl inst")
  case True
  obtain h d where e: "op_uncondBranch ops tid a s = (h, d)" by (cases "op_uncondBranch ops tid a s")
  show thesis using True e uncond_ok [OF assms e]
    by (intro that [of True h d]) (auto simp: radv_def intro: squash_uadv [OF assms e] recover_uadv [OF assms e])
next
  case False
  obtain p h d where e: "op_lookup ops tid a s = Inr (p, h, d)" using lookup_total [OF assms] by blast
  show thesis using False e lookup_ok [OF assms e]
    by (intro that [of p h d]) (auto simp: radv_def intro: squash_adv [OF assms e] recover_adv [OF assms e])
qed

end

context direction_predictor
begin

definition undoes :: "'pc static_inst \<Rightarrow> nat \<Rightarrow> ('h, 'pc) predictor_history \<Rightarrow> ('d, 'h, 'pc) bpred_unit \<Rightarrow> ('d, 'h, 'pc) bpred_unit \<Rightarrow> bool" where
  "undoes inst tid r u u1 \<longleftrightarrow> (\<forall>k u2. k \<le> ras_numEntries (RAS u ! tid) \<longrightarrow> unit_same ok view tid k u1 u2 \<longrightarrow>
     unit_same ok view tid (k - of_bool (isCall inst)) u (squash_entry ops tid r u2))"

definition recovers :: "'pc static_inst \<Rightarrow> nat \<Rightarrow> ('h, 'pc) predictor_history \<Rightarrow> ('d, 'h, 'pc) bpred_unit \<Rightarrow> ('d, 'h, 'pc) bpred_unit \<Rightarrow> bool" where
  "recovers inst tid r u u1 \<longleftrightarrow> (\<forall>k u2 t d. unit_same ok view tid k u1 u2 \<longrightarrow> op_update ops tid (ph_pc r) t (bpHistory r) True (direction u2) = Inr d \<longrightarrow>
     view tid d = radv inst (ph_pc r) t (view tid (direction u)))"

lemma btb_radv:
  assumes "ok tid d" "view tid d = radv inst a True v" "isUncondCtrl inst \<longrightarrow> ub"
  shows "view tid (op_btbUpdate ops tid a d) = radv inst a False v"
  using assms btb_adv [OF assms(1)] btb_uadv [OF assms(1)] by (simp add: radv_def split: if_splits)

lemma predict_step:
  assumes u: "unit_ok ok tid u" and ub: "plain_uncond inst \<longrightarrow> ub"
  shows "succeeds (predict ops instAddr inst sn pc tid u) (\<lambda>(p, t, u1). \<exists>r. predicted sn tid r u u1 \<and> unit_ok ok tid u1 \<and>
    undoes inst tid r u u1 \<and> recovers inst tid r u u1 \<and> ph_inst r = inst \<and> ph_pc r = instAddr pc \<and>
    ras_undone (of_bool (isCall inst)) r (RAS u ! tid) (RAS u1 ! tid) \<and> ras_taken inst pc r (RAS u ! tid) (RAS u1 ! tid))"
proof -
  let ?a = "instAddr pc" and ?v = "view tid (direction u)"
  have "ok tid (direction u)" using u by (simp add: unit_ok_def)
  then obtain orig h d where
    e: "(if isUncondCtrl inst then (let (h, d) = op_uncondBranch ops tid ?a (direction u) in Inr (True, h, d))
         else op_lookup ops tid ?a (direction u)) = Inr (orig, h, d)"
    and d: "ok tid d" "view tid d = radv inst ?a orig ?v" and uo: "isUncondCtrl inst \<Longrightarrow> orig"
    and sq: "\<And>d2 b. ok tid d2 \<Longrightarrow> view tid d2 = radv inst ?a b ?v \<Longrightarrow> view tid (op_squash ops tid h d2) = ?v"
    and rc: "\<And>d2 b t d3. ok tid d2 \<Longrightarrow> view tid d2 = radv inst ?a b ?v \<Longrightarrow> op_update ops tid ?a t h True d2 = Inr d3 \<Longrightarrow>
      view tid d3 = radv inst ?a t ?v"
    by (rule direction_stage [of tid "direction u" inst ?a]) blast
  define u' where "u' = u\<lparr>direction := d\<rparr>"
  define r where "r = PredictorHistory sn ?a orig h (map_option (genIndirectInfo tid) (iPred u)) tid inst"
  have u': "unit_ok ok tid u'" and rs: "record_start r" using u d by (auto simp: u'_def r_def unit_ok_def record_start_def PredictorHistory_def)
  have tgt: "succeeds (if orig then predict_target ops instAddr inst sn pc tid r u'
      else Inr (False, advancePC inst pc, r\<lparr>wasReturn := isReturn inst\<rparr>, u'))
    (\<lambda>(p, t, r1, u1). target_frame ops instAddr inst sn pc tid r u' r1 u1 \<and> (\<not> orig \<longrightarrow> direction u1 = d))"
  proof (cases orig)
    case True
    then show ?thesis using predict_target_frame [OF u' rs] by simp
  next
    case False
    have "ras_undone (of_bool (isCall inst)) (r\<lparr>wasReturn := isReturn inst\<rparr>) (RAS u' ! tid) (RAS u' ! tid)"
      by (intro ras_undone_mono [OF ras_undone_intros(1)]) (use u' rs in \<open>auto simp: unit_ok_def record_start_def\<close>)
    then show ?thesis using False rs uo by (auto simp: target_frame_def ras_taken_def u'_def record_start_def)
  qed
  have p: "predict ops instAddr inst sn pc tid u = bindR (if orig then predict_target ops instAddr inst sn pc tid r u'
      else Inr (False, advancePC inst pc, r\<lparr>wasReturn := isReturn inst\<rparr>, u')) (\<lambda>(p, target, r, u).
     let r = r\<lparr>ph_target := instAddr target\<rparr>; u = u\<lparr>iPred := map_option (updateDirectionInfo tid orig) (iPred u)\<rparr>
     in Inr (p, target, u\<lparr>predHist := (predHist u)[tid := r # predHist u ! tid]\<rparr>))"
    unfolding predict_def e by (simp add: u'_def r_def)
  show ?thesis unfolding p
  proof (rule succeeds_bind [OF tgt], clarify)
    fix p t r1 u1
    assume f: "target_frame ops instAddr inst sn pc tid r u' r1 u1" and nd: "\<not> orig \<longrightarrow> direction u1 = d"
    show "succeeds (let r = r1\<lparr>ph_target := instAddr t\<rparr>; u = u1\<lparr>iPred := map_option (updateDirectionInfo tid orig) (iPred u1)\<rparr>
       in Inr (p, t, u\<lparr>predHist := (predHist u)[tid := r # predHist u ! tid]\<rparr>))
      (\<lambda>(p, t, u1). \<exists>r. predicted sn tid r u u1 \<and> unit_ok ok tid u1 \<and>
        undoes inst tid r u u1 \<and> recovers inst tid r u u1 \<and> ph_inst r = inst \<and> ph_pc r = instAddr pc \<and>
    ras_undone (of_bool (isCall inst)) r (RAS u ! tid) (RAS u1 ! tid) \<and> ras_taken inst pc r (RAS u ! tid) (RAS u1 ! tid))"
    proof -
      define r2 u2 where "r2 = r1\<lparr>ph_target := instAddr t\<rparr>" and
        "u2 = u1\<lparr>iPred := map_option (updateDirectionInfo tid orig) (iPred u1), predHist := (predHist u1)[tid := r2 # predHist u1 ! tid]\<rparr>"
      have r2: "bpHistory r2 = h" "indirectHistory r2 = map_option (genIndirectInfo tid) (iPred u)" "ph_pc r2 = ?a" "ph_inst r2 = inst"
        and ru: "ras_undone (of_bool (isCall inst)) r2 (RAS u ! tid) (RAS u2 ! tid)" "ras_taken inst pc r2 (RAS u ! tid) (RAS u2 ! tid)"
        using f by (simp_all add: target_frame_def r2_def u2_def u'_def r_def PredictorHistory_def ras_taken_def)
      obtain b where b: "ok tid (direction u1)" "view tid (direction u1) = radv inst ?a b ?v"
      proof (cases "direction u1 = d")
        case False
        then have "direction u1 = op_btbUpdate ops tid ?a d" "\<not> isCall inst" "\<not> isReturn inst" orig
          using f nd by (auto simp: target_frame_def u'_def)
        then show ?thesis using that [of False] btb_ok [OF d(1)] btb_radv [OF d(1), of inst ?a ?v] d(2) ub by (simp add: plain_uncond_def)
      qed (use that d in blast)
      have i: "(iPred u1 = None) = (iPred u = None)" "iPred u1 = Some ip \<Longrightarrow> sip_ok tid ip" for ip
        using f u by (auto simp: target_frame_def u'_def unit_ok_def recordIndirect_def split: if_splits)
      have "unit_ok ok tid u2" using b(1) f u ru(1) i unfolding unit_ok_def
        by (auto simp: target_frame_def u2_def u'_def ras_undone_def updateDirectionInfo_def)
      moreover have "predicted sn tid r2 u u2" using f u i ru(1)
        by (auto simp: predicted_def target_frame_def u2_def r2_def u'_def r_def PredictorHistory_def path_of_def ras_undone_def updateDirectionInfo_def
            recordIndirect_def sip_thread_nth sip_ok_def unit_ok_def split: option.splits if_splits)
      moreover have "undoes inst tid r2 u u2" unfolding undoes_def
      proof (intro allI impI)
        fix k u3 assume k: "k \<le> ras_numEntries (RAS u ! tid)" and s: "unit_same ok view tid k u2 u3"
        have "ok tid (direction u3)" "view tid (direction u3) = radv inst ?a b ?v" using s b(2) by (auto simp: unit_same_def unit_ok_def u2_def)
        then show "unit_same ok view tid (k - of_bool (isCall inst)) u (squash_entry ops tid r2 u3)"
          using i by (intro squash_entry_same [OF s _ _ ru(1) k]) (auto simp: r2 squash_ok sq u2_def)
      qed
      moreover have "recovers inst tid r2 u u2" unfolding recovers_def r2
        using rc b(2) by (auto simp: unit_same_def unit_ok_def u2_def)
      ultimately show ?thesis using r2(3,4) ru by (auto simp: Let_def r2_def u2_def)
    qed
  qed
qed

end

section \<open>Runs of predictions and commits\<close>

lemma unit_same_refl: "unit_ok ok tid u \<Longrightarrow> unit_same ok view tid k u u"
  by (simp add: unit_same_def unit_ok_def ras_same_refl)

lemma unit_same_trans: "unit_same ok view tid k u u1 \<Longrightarrow> unit_same ok view tid k u1 u2 \<Longrightarrow> unit_same ok view tid k u u2"
  by (auto simp: unit_same_def ras_same_def)

lemma unit_same_mono: "unit_same ok view tid k u u1 \<Longrightarrow> j \<le> k \<Longrightarrow> unit_same ok view tid j u u1"
  by (auto simp: unit_same_def intro: ras_same_mono)

datatype 'pc bp_event = Fetch "'pc static_inst" u64 'pc | Retire u64

fun bp_run :: "('d, 'h) bp_ops \<Rightarrow> ('pc \<Rightarrow> addr) \<Rightarrow> nat \<Rightarrow> ('pc::zero) bp_event list \<Rightarrow> ('d, 'h, 'pc) bpred_unit \<Rightarrow> ('d, 'h, 'pc) bpred_unit result" where
  "bp_run ops instAddr tid [] u = Inr u"
| "bp_run ops instAddr tid (Fetch inst sn pc # es) u =
     bindR (predict ops instAddr inst sn pc tid u) (\<lambda>(p, t, u). bp_run ops instAddr tid es u)"
| "bp_run ops instAddr tid (Retire sn # es) u = bindR (bpu_update ops sn tid u) (bp_run ops instAddr tid es)"

text \<open>Events younger than \<open>sn\<close>: branches fetched after it and commits up to \<open>lo\<close> at most.\<close>

fun younger :: "bool \<Rightarrow> u64 \<Rightarrow> u64 \<Rightarrow> 'pc bp_event \<Rightarrow> bool" where
  "younger ub lo sn (Fetch inst s pc) \<longleftrightarrow> s > sn \<and> (plain_uncond inst \<longrightarrow> ub)"
| "younger ub lo sn (Retire d) \<longleftrightarrow> d \<le> lo"

fun calls :: "'pc bp_event list \<Rightarrow> nat" where
  "calls [] = 0"
| "calls (Fetch inst s pc # es) = of_bool (isCall inst) + calls es"
| "calls (Retire d # es) = calls es"

lemma squash_entries_eq:
  "squash_entries ops sn tid es u = (dropWhile (\<lambda>e. ph_seqNum e > sn) es, fold (squash_entry ops tid) (takeWhile (\<lambda>e. ph_seqNum e > sn) es) u)"
  by (induction es arbitrary: u) simp_all

lemma squash_fold_fields [simp]:
  "predHist (fold (squash_entry ops tid) es u) = predHist u" "BTB (fold (squash_entry ops tid) es u) = BTB u"
  by (induction es arbitrary: u) simp_all

lemma sip_commit_simps [simp]:
  "sip_ok tid ip \<Longrightarrow> genIndirectInfo tid (sip_commit d tid ip) = genIndirectInfo tid ip" "sip_ok tid (sip_commit d tid' ip) = sip_ok tid ip"
  "sip_ok tid ip \<Longrightarrow> genIndirectInfo tid (sip_squash d tid ip) = genIndirectInfo tid ip" "sip_ok tid (sip_squash d tid' ip) = sip_ok tid ip"
  by (simp_all add: sip_commit_def sip_squash_def genIndirectInfo_def sip_thread_nth sip_ok_def [of tid ip, THEN iffD1, THEN conjunct1])

context direction_predictor
begin

lemma commit_entries_step:
  assumes "unit_ok ok tid u"
  shows "succeeds (commit_entries ops d tid es u) (\<lambda>(rest, u1). \<exists>R. es = R @ rest \<and> (\<forall>e \<in> set R. ph_seqNum e \<le> d) \<and>
    (rest \<noteq> [] \<longrightarrow> ph_seqNum (hd rest) > d) \<and> predHist u1 = predHist u \<and> BTB u1 = BTB u \<and> RAS u1 = RAS u \<and>
    unit_ok ok tid u1 \<and> (\<forall>k. unit_same ok view tid k u u1))"
  using assms
proof (induction es arbitrary: u)
  case Nil
  then show ?case by (simp add: unit_same_refl)
next
  case (Cons e es)
  show ?case
  proof (cases "ph_seqNum e \<le> d")
    case True
    have o: "ok tid (direction u)" using Cons.prems by (simp add: unit_ok_def)
    obtain s1 where s1: "op_update ops tid (ph_pc e) (predTaken e) (bpHistory e) False (direction u) = Inr s1" using update_total [OF o] by blast
    define u' where "u' = u\<lparr>direction := s1, iPred := map_option (sip_commit d tid) (iPred u)\<rparr>"
    have u': "unit_ok ok tid u'" "unit_same ok view tid k u u'" for k
      using Cons.prems update_ok [OF o s1] commit_view [OF o s1]
      by (auto simp: u'_def unit_ok_def unit_same_def ras_same_refl option.map_comp o_def intro!: option.map_cong)
    show ?thesis using Cons.IH [OF u'(1)] True s1
      by (auto simp: u'_def [symmetric] elim!: succeeds_mono)
        (auto simp: u'_def intro: unit_same_trans [OF u'(2)] intro!: exI [of _ "e # _"])
  next
    case False
    then show ?thesis using Cons.prems by (auto simp: unit_same_refl)
  qed
qed

lemma bpu_update_step:
  assumes "unit_ok ok tid u"
  shows "succeeds (bpu_update ops d tid u) (\<lambda>u1. \<exists>R. predHist u ! tid = predHist u1 ! tid @ R \<and> (\<forall>e \<in> set R. ph_seqNum e \<le> d) \<and>
    (predHist u1 ! tid \<noteq> [] \<longrightarrow> ph_seqNum (last (predHist u1 ! tid)) > d) \<and> BTB u1 = BTB u \<and> RAS u1 = RAS u \<and>
    unit_ok ok tid u1 \<and> (\<forall>k. unit_same ok view tid k u u1))"
  unfolding bpu_update_def
proof (rule succeeds_bind [OF commit_entries_step [OF assms]], clarify)
  fix es u1 R
  assume r: "rev (predHist u ! tid) = R @ es" "\<forall>e \<in> set R. ph_seqNum e \<le> d" "es \<noteq> [] \<longrightarrow> ph_seqNum (hd es) > d" "predHist u1 = predHist u"
    "BTB u1 = BTB u" "RAS u1 = RAS u" "unit_ok ok tid u1" "\<forall>k. unit_same ok view tid k u u1"
  let ?u = "u1\<lparr>predHist := (predHist u1)[tid := rev es]\<rparr>"
  have t: "tid < length (predHist u1)" using r(7) by (simp add: unit_ok_def)
  have "predHist u ! tid = rev es @ rev R" using arg_cong [OF r(1), of rev] by simp
  moreover have "unit_ok ok tid ?u" "\<forall>k. unit_same ok view tid k u ?u" using r(7,8) by (auto simp: unit_ok_def unit_same_def)
  ultimately show "succeeds (Inr ?u) (\<lambda>u1. \<exists>R. predHist u ! tid = predHist u1 ! tid @ R \<and> (\<forall>e \<in> set R. ph_seqNum e \<le> d) \<and>
    (predHist u1 ! tid \<noteq> [] \<longrightarrow> ph_seqNum (last (predHist u1 ! tid)) > d) \<and> BTB u1 = BTB u \<and> RAS u1 = RAS u \<and>
    unit_ok ok tid u1 \<and> (\<forall>k. unit_same ok view tid k u u1))"
    using r t by (auto simp: last_rev intro!: exI [of _ "rev R"])
qed

text \<open>A run of younger events from \<open>u\<close> to \<open>u1\<close>: what it added to the history of the thread is at the
  front, what it retired was at the back, and undoing the additions gives the speculative
  state back but for one return address per call.\<close>

definition run_frame :: "nat \<Rightarrow> u64 \<Rightarrow> u64 \<Rightarrow> nat \<Rightarrow> ('d, 'h, 'pc) bpred_unit \<Rightarrow> ('d, 'h, 'pc) bpred_unit \<Rightarrow> bool" where
  "run_frame tid lo sn c u u1 \<longleftrightarrow> unit_ok ok tid u1 \<and> BTB u1 = BTB u \<and> ras_numEntries (RAS u1 ! tid) = ras_numEntries (RAS u ! tid) \<and>
     (\<exists>N M R. predHist u1 ! tid = N @ M \<and> (\<forall>e \<in> set N. ph_seqNum e > sn) \<and> predHist u ! tid = M @ R \<and> (\<forall>e \<in> set R. ph_seqNum e \<le> lo) \<and>
       (\<forall>k u2. k \<le> ras_numEntries (RAS u ! tid) \<longrightarrow> unit_same ok view tid k u1 u2 \<longrightarrow>
          unit_same ok view tid (k - c) u (fold (squash_entry ops tid) N u2)))"

lemma run_frame_refl: "unit_ok ok tid u \<Longrightarrow> run_frame tid lo sn 0 u u"
  unfolding run_frame_def by (intro conjI exI [of _ "[]"] exI [of _ "predHist u ! tid"]) auto

lemma run_frame_fetch:
  assumes "predicted s tid r u u'" "undoes inst tid r u u'" "unit_ok ok tid u" "run_frame tid lo sn c u' u1" "s > sn" "lo \<le> sn"
  shows "run_frame tid lo sn (of_bool (isCall inst) + c) u u1"
proof -
  obtain N M R where f: "predHist u1 ! tid = N @ M" "\<forall>e \<in> set N. ph_seqNum e > sn" "predHist u' ! tid = M @ R" "\<forall>e \<in> set R. ph_seqNum e \<le> lo"
    and k: "\<And>k u2. k \<le> ras_numEntries (RAS u' ! tid) \<Longrightarrow> unit_same ok view tid k u1 u2 \<Longrightarrow>
      unit_same ok view tid (k - c) u' (fold (squash_entry ops tid) N u2)"
    using assms(4) unfolding run_frame_def by blast
  have p: "predHist u' ! tid = r # predHist u ! tid" "ph_seqNum r = s" "ras_numEntries (RAS u' ! tid) = ras_numEntries (RAS u ! tid)" "BTB u' = BTB u"
    using assms(1,3) by (auto simp: predicted_def unit_ok_def)
  obtain M' where m: "M = r # M'" "predHist u ! tid = M' @ R" using p f(3,4) assms(5,6) by (cases M) auto
  have "unit_same ok view tid (k - (of_bool (isCall inst) + c)) u (fold (squash_entry ops tid) (N @ [r]) u2)"
    if "k \<le> ras_numEntries (RAS u ! tid)" "unit_same ok view tid k u1 u2" for k u2
  proof -
    have "unit_same ok view tid (k - c) u' (fold (squash_entry ops tid) N u2)" using k that p(3) by simp
    then have "unit_same ok view tid (k - c - of_bool (isCall inst)) u (squash_entry ops tid r (fold (squash_entry ops tid) N u2))"
      using assms(2) that unfolding undoes_def by (meson diff_le_self order_trans)
    then show ?thesis by (simp add: add.commute)
  qed
  then show ?thesis using assms(4) f m p assms(5) unfolding run_frame_def
    by (intro conjI exI [of _ "N @ [r]"] exI [of _ M'] exI [of _ R]) auto
qed

end

context direction_predictor
begin

lemma run_frame_retire:
  assumes "predHist u ! tid = predHist u' ! tid @ R" "\<forall>e \<in> set R. ph_seqNum e \<le> lo" "BTB u' = BTB u" "RAS u' = RAS u"
    "\<forall>k. unit_same ok view tid k u u'" "run_frame tid lo sn c u' u1"
  shows "run_frame tid lo sn c u u1"
proof -
  obtain N M R' where f: "predHist u1 ! tid = N @ M" "\<forall>e \<in> set N. ph_seqNum e > sn" "predHist u' ! tid = M @ R'" "\<forall>e \<in> set R'. ph_seqNum e \<le> lo"
    and k: "\<And>k u2. k \<le> ras_numEntries (RAS u' ! tid) \<Longrightarrow> unit_same ok view tid k u1 u2 \<Longrightarrow>
      unit_same ok view tid (k - c) u' (fold (squash_entry ops tid) N u2)"
    using assms(6) unfolding run_frame_def by blast
  have "unit_same ok view tid (k - c) u (fold (squash_entry ops tid) N u2)"
    if "k \<le> ras_numEntries (RAS u ! tid)" "unit_same ok view tid k u1 u2" for k u2
    using k [of k u2] that assms(4,5) unit_same_trans by metis
  then show ?thesis using assms f unfolding run_frame_def
    by (intro conjI exI [of _ N] exI [of _ M] exI [of _ "R' @ R"]) auto
qed

lemma bp_run_frame:
  assumes "unit_ok ok tid u" "\<forall>e \<in> set es. younger ub lo sn e" "lo \<le> sn"
  shows "succeeds (bp_run ops instAddr tid es u) (run_frame tid lo sn (calls es) u)"
  using assms(1,2)
proof (induction es arbitrary: u)
  case Nil
  then show ?case by (simp add: run_frame_refl)
next
  case (Cons e es)
  then have y: "\<forall>e \<in> set es. younger ub lo sn e" by simp
  show ?case
  proof (cases e)
    case (Fetch inst s pc)
    then have s: "plain_uncond inst \<longrightarrow> ub" "s > sn" using Cons.prems by auto
    show ?thesis unfolding Fetch bp_run.simps calls.simps
    proof (rule succeeds_bind [OF predict_step [OF Cons.prems(1) s(1)]], clarify)
      fix p t u' r
      assume r: "predicted s tid r u u'" "unit_ok ok tid u'" "undoes (ph_inst r) tid r u u'"
      show "succeeds (bp_run ops instAddr tid es u') (run_frame tid lo sn (of_bool (isCall (ph_inst r)) + calls es) u)"
        by (rule succeeds_mono [OF Cons.IH [OF r(2) y] run_frame_fetch [OF r(1,3) Cons.prems(1) _ s(2) assms(3)]])
    qed
  next
    case (Retire d)
    then have d: "d \<le> lo" using Cons.prems by simp
    show ?thesis unfolding Retire bp_run.simps calls.simps
    proof (rule succeeds_bind [OF bpu_update_step [OF Cons.prems(1), of d]], clarify)
      fix u' R
      assume r: "predHist u ! tid = predHist u' ! tid @ R" "\<forall>e \<in> set R. ph_seqNum e \<le> d" "BTB u' = BTB u" "RAS u' = RAS u"
        "unit_ok ok tid u'" "\<forall>k. unit_same ok view tid k u u'"
      have "\<forall>e \<in> set R. ph_seqNum e \<le> lo" using r(2) d by auto
      from run_frame_retire [OF r(1) this r(3,4,6)] show "succeeds (bp_run ops instAddr tid es u') (run_frame tid lo sn (calls es) u)"
        using Cons.IH [OF r(5) y] by (auto elim!: succeeds_mono)
    qed
  qed
qed

text \<open>Squashing everything younger than \<open>sn\<close>.\<close>

lemma bpu_squash_frame:
  assumes "run_frame tid lo sn c u u1" "\<forall>e \<in> set (predHist u ! tid). ph_seqNum e \<le> sn"
  shows "unit_same ok view tid (ras_numEntries (RAS u ! tid) - c) u (bpu_squash ops sn tid u1) \<and> BTB (bpu_squash ops sn tid u1) = BTB u \<and>
    (\<exists>R. predHist u ! tid = predHist (bpu_squash ops sn tid u1) ! tid @ R \<and> set R \<subseteq> {e. ph_seqNum e \<le> lo})"
proof -
  let ?n = "ras_numEntries (RAS u ! tid)"
  obtain N M R where f: "predHist u1 ! tid = N @ M" "\<forall>e \<in> set N. ph_seqNum e > sn" "predHist u ! tid = M @ R" "\<forall>e \<in> set R. ph_seqNum e \<le> lo"
    and k: "\<And>u2. unit_same ok view tid ?n u1 u2 \<Longrightarrow> unit_same ok view tid (?n - c) u (fold (squash_entry ops tid) N u2)"
    using assms(1) unfolding run_frame_def by blast
  have u1: "unit_ok ok tid u1" "BTB u1 = BTB u" using assms(1) by (auto simp: run_frame_def)
  define u2 where "u2 = u1\<lparr>iPred := map_option (sip_squash sn tid) (iPred u1)\<rparr>"
  have "unit_same ok view tid ?n u1 u2" using u1(1)
    by (auto simp: u2_def unit_same_def unit_ok_def ras_same_refl option.map_comp intro!: option.map_cong)
  note s = k [OF this]
  have w: "takeWhile (\<lambda>e. ph_seqNum e > sn) (N @ M) = N" "dropWhile (\<lambda>e. ph_seqNum e > sn) (N @ M) = M"
    using f(2,3) assms(2) by (simp_all add: takeWhile_append2 dropWhile_append2) (cases M; fastforce)+
  have b: "bpu_squash ops sn tid u1 = (fold (squash_entry ops tid) N u2)\<lparr>predHist := (predHist u1)[tid := M]\<rparr>"
    using f(1) w by (simp add: bpu_squash_def squash_entries_eq u2_def)
  show ?thesis using s f u1 unfolding b
    by (auto simp: unit_same_def unit_ok_def u2_def)
qed

lemma squash_restores:
  assumes "unit_ok ok tid u" "\<forall>e \<in> set es. younger ub lo sn e" "\<forall>e \<in> set (predHist u ! tid). ph_seqNum e \<le> sn" "lo \<le> sn"
  shows "succeeds (bp_run ops instAddr tid es u) (\<lambda>u1.
    unit_same ok view tid (ras_numEntries (RAS u ! tid) - calls es) u (bpu_squash ops sn tid u1) \<and> BTB (bpu_squash ops sn tid u1) = BTB u \<and>
    (\<exists>R. predHist u ! tid = predHist (bpu_squash ops sn tid u1) ! tid @ R \<and> set R \<subseteq> {e. ph_seqNum e \<le> lo}))"
  using bp_run_frame [OF assms(1,2,4)] bpu_squash_frame [OF _ assms(3)] by (rule succeeds_mono)

end

section \<open>Recovery from a misprediction\<close>

text \<open>The stack as it would be had the branch been predicted correctly.\<close>

definition ras_outcome :: "'pc static_inst \<Rightarrow> 'pc \<Rightarrow> bool \<Rightarrow> 'pc ras \<Rightarrow> 'pc ras" where
  "ras_outcome inst pc taken r = (if \<not> taken then r else if isReturn inst then ras_pop r else if isCall inst then ras_push pc r else r)"

lemma ras_same_pop:
  assumes "ras_ok r" "ras_same k r r'" "k \<le> ras_numEntries r"
  shows "ras_same (k - 1) (ras_pop r) (ras_pop r')"
proof (cases k)
  case 0
  then show ?thesis using assms by (simp add: ras_same_def gem5_inv ras_view_def)
next
  case (Suc j)
  then have "ras_view j (ras_pop r') = ras_view j (ras_pop r)"
    using assms ras_view_pop [of r j] ras_view_pop [of r' j] by (simp add: ras_same_def)
  then show ?thesis using assms Suc by (simp add: ras_same_def gem5_inv)
qed

lemma squash_fix_ras_outcome:
  assumes "ras_ok old" "ras_undone (of_bool (isCall inst)) r old new" "ras_taken inst pc r old new" "isCall inst \<longrightarrow> isUncondCtrl inst"
    "ras_same k new (RAS u ! tid)" "k \<le> ras_numEntries old" "tid < length (RAS u)"
    "usedRAS e = usedRAS r" "pushedRAS e = pushedRAS r" "wasCall e = wasCall r" "wasReturn e = wasReturn r" "RASIndex e = RASIndex r" "RASTarget e = RASTarget r"
  shows "ras_same (k - 1) (ras_outcome inst pc taken old) (RAS (snd (squash_fix_ras taken tid e u)) ! tid)"
proof (cases taken)
  case True
  have s: "ras_same (k - 1) new (RAS u ! tid)" using assms(5) by (rule ras_same_mono) simp
  show ?thesis
  proof (cases "isReturn inst")
    case r: True
    then show ?thesis using assms True s ras_same_pop [OF assms(1), of k "RAS u ! tid"]
      by (auto simp: squash_fix_ras_def ras_outcome_def ras_taken_def split: if_splits)
  next
    case False
    then show ?thesis using assms True s by (auto simp: squash_fix_ras_def ras_outcome_def ras_taken_def)
  qed
next
  case False
  have "ras_same (k - of_bool (isCall inst)) old (undo_ras r (RAS u ! tid))" using assms(2,5,6) by (simp add: ras_undone_def)
  then have "ras_same (k - 1) old (undo_ras r (RAS u ! tid))" by (rule ras_same_mono) simp
  moreover have "RAS (snd (squash_fix_ras taken tid e u)) ! tid = undo_ras r (RAS u ! tid)"
    using False assms(7-) by (simp add: squash_fix_ras_def undo_ras_def)
  ultimately show ?thesis using False by (simp add: ras_outcome_def)
qed

text \<open>The path history of the indirect predictor: commits take entries off the old end only.\<close>

definition path_sorted :: "nat \<Rightarrow> ('d, 'h, 'pc) bpred_unit \<Rightarrow> bool" where
  "path_sorted tid u \<longleftrightarrow> sorted_wrt (<) (map he_seqNum (path_of tid u))"

definition sip_in :: "nat \<Rightarrow> ('d, 'h, 'pc) bpred_unit \<Rightarrow> bool" where
  "sip_in tid u \<longleftrightarrow> (\<forall>ip. iPred u = Some ip \<longrightarrow> tid < length (threadInfo ip))"

lemma unit_ok_sip_in: "unit_ok ok tid u \<Longrightarrow> sip_in tid u"
  by (simp add: unit_ok_def sip_in_def sip_ok_def)

lemma sip_commit_length: "length (threadInfo (sip_commit sn tid ip)) = length (threadInfo ip)"
  by (simp add: sip_commit_def sip_thread_def)

lemma sip_commit_path:
  assumes "path_sorted tid u" "sip_in tid u" "path_of tid u = path"
    "path_of tid (u\<lparr>direction := d, iPred := map_option (sip_commit sn tid) (iPred u)\<rparr>) = path'"
  shows "path' = path \<or> path \<noteq> [] \<and> he_seqNum (hd path) \<le> sn \<and> path' = tl path"
proof (cases "iPred u")
  case None
  then show ?thesis using assms by (simp add: path_of_def)
next
  case (Some ip)
  let ?t = "threadInfo ip ! tid"
  have p: "path = pathHist ?t" "sorted_wrt (<) (map he_seqNum path)" "tid < length (threadInfo ip)"
    using assms Some by (auto simp: path_of_def path_sorted_def sip_in_def)
  show ?thesis
  proof (cases "path \<noteq> [] \<and> headHistEntry ?t < length path \<and> he_seqNum (path ! headHistEntry ?t) \<le> sn \<and> pathLength ip \<le> headHistEntry ?t")
    case True
    then have "he_seqNum (hd path) \<le> he_seqNum (path ! headHistEntry ?t)"
      using sorted_wrt_nth_less [OF p(2), of 0 "headHistEntry ?t"] by (cases "headHistEntry ?t") (auto simp: hd_conv_nth)
    then show ?thesis using True assms(4) Some p by (auto simp: path_of_def sip_commit_def sip_thread_nth)
  next
    case False
    then show ?thesis using assms(4) Some p by (auto simp: path_of_def sip_commit_def sip_thread_nth split: if_splits)
  qed
qed

lemma commit_entries_path:
  assumes "commit_entries ops sn tid es u = Inr (rest, u1)" "path_sorted tid u" "sip_in tid u"
  shows "\<exists>P. path_of tid u = P @ path_of tid u1 \<and> (\<forall>e \<in> set P. he_seqNum e \<le> sn)"
  using assms
proof (induction es arbitrary: u)
  case (Cons e es)
  show ?case
  proof (cases "ph_seqNum e \<le> sn")
    case True
    obtain d where d: "commit_entries ops sn tid es (u\<lparr>direction := d, iPred := map_option (sip_commit sn tid) (iPred u)\<rparr>) = Inr (rest, u1)"
      using Cons.prems(1) True by (auto simp: bindR_Inr_iff)
    define u' where "u' = u\<lparr>direction := d, iPred := map_option (sip_commit sn tid) (iPred u)\<rparr>"
    have s: "path_of tid u' = path_of tid u \<or> path_of tid u \<noteq> [] \<and> he_seqNum (hd (path_of tid u)) \<le> sn \<and> path_of tid u' = tl (path_of tid u)"
      unfolding u'_def by (rule sip_commit_path [OF Cons.prems(2,3) refl refl])
    then have "path_sorted tid u'" using Cons.prems(2) unfolding path_sorted_def by (cases "path_of tid u") auto
    moreover have "sip_in tid u'" using Cons.prems(3) by (auto simp: u'_def sip_in_def sip_commit_length)
    ultimately obtain P where P: "path_of tid u' = P @ path_of tid u1" "\<forall>e \<in> set P. he_seqNum e \<le> sn" using Cons.IH d unfolding u'_def by blast
    show ?thesis
    proof (cases "path_of tid u' = path_of tid u")
      case False
      then have "path_of tid u = (hd (path_of tid u) # P) @ path_of tid u1" "he_seqNum (hd (path_of tid u)) \<le> sn"
        using s P(1) by (metis append_Cons list.collapse)+
      then show ?thesis using P(2) by (intro exI [of _ "hd (path_of tid u) # P"]) simp
    qed (use P in metis)
  qed (use Cons.prems in auto)
qed simp

lemma bpu_update_path:
  assumes "bpu_update ops sn tid u = Inr u1" "path_sorted tid u" "sip_in tid u"
  shows "\<exists>P. path_of tid u = P @ path_of tid u1 \<and> (\<forall>e \<in> set P. he_seqNum e \<le> sn)"
  using assms commit_entries_path [of ops sn tid "rev (predHist u ! tid)" u]
  by (auto simp: bpu_update_def bindR_Inr_iff path_of_def split: prod.splits)

fun fetched :: "'pc bp_event list \<Rightarrow> u64 list" where
  "fetched [] = []"
| "fetched (Fetch inst s pc # es) = s # fetched es"
| "fetched (Retire d # es) = fetched es"

text \<open>The entries of the path history between two points.\<close>

definition path_between :: "u64 \<Rightarrow> u64 \<Rightarrow> nat \<Rightarrow> ('d, 'h, 'pc) bpred_unit \<Rightarrow> history_entry list" where
  "path_between lo sn tid u = filter (\<lambda>e. lo < he_seqNum e \<and> he_seqNum e \<le> sn) (path_of tid u)"

lemma succeedsD: "succeeds r P \<Longrightarrow> r = Inr x \<Longrightarrow> P x"
  by simp

context direction_predictor
begin

lemma bp_run_path:
  assumes "unit_ok ok tid u" "\<forall>e \<in> set es. younger ub lo sn e" "path_sorted tid u" "sorted_wrt (<) (fetched es)"
    "\<forall>e \<in> set (path_of tid u). \<forall>s \<in> set (fetched es). he_seqNum e < s" "bp_run ops instAddr tid es u = Inr u1"
  shows "path_sorted tid u1 \<and> path_between lo sn tid u1 = path_between lo sn tid u"
  using assms
proof (induction es arbitrary: u)
  case (Cons e es)
  show ?case
  proof (cases e)
    case (Fetch inst s pc)
    then have ub: "plain_uncond inst \<longrightarrow> ub" and s: "s > sn" using Cons.prems by auto
    obtain p t u' where u': "predict ops instAddr inst s pc tid u = Inr (p, t, u')" "bp_run ops instAddr tid es u' = Inr u1"
      using Cons.prems(6) Fetch by (auto simp: bindR_Inr_iff split: prod.splits)
    obtain r where r: "predicted s tid r u u'" "unit_ok ok tid u'" using succeedsD [OF predict_step [OF Cons.prems(1) ub] u'(1)] by auto
    obtain t where t: "path_of tid u' = path_of tid u @ (if wasIndirect r then [\<lparr>pcAddr = ph_pc r, targetAddr = t, he_seqNum = s\<rparr>] else [])"
      using r(1) unfolding predicted_def by blast
    have "path_sorted tid u'" "\<forall>e \<in> set (path_of tid u'). \<forall>s \<in> set (fetched es). he_seqNum e < s"
      using Cons.prems(3-5) Fetch t by (auto simp: path_sorted_def sorted_wrt_append)
    then have "path_sorted tid u1 \<and> path_between lo sn tid u1 = path_between lo sn tid u'"
      using Cons.IH [OF r(2)] Cons.prems(2,4) Fetch u'(2) by auto
    then show ?thesis using t s by (auto simp: path_between_def not_le)
  next
    case (Retire d)
    then obtain u' where u': "bpu_update ops d tid u = Inr u'" "bp_run ops instAddr tid es u' = Inr u1" and d: "d \<le> lo"
      using Cons.prems by (auto simp: bindR_Inr_iff)
    have o: "unit_ok ok tid u'" using succeedsD [OF bpu_update_step [OF Cons.prems(1)] u'(1)] by blast
    obtain P where P: "path_of tid u = P @ path_of tid u'" "\<forall>e \<in> set P. he_seqNum e \<le> d"
      using bpu_update_path [OF u'(1) Cons.prems(3) unit_ok_sip_in [OF Cons.prems(1)]] by blast
    have "path_sorted tid u1 \<and> path_between lo sn tid u1 = path_between lo sn tid u'"
      using Cons.IH [OF o] Cons.prems(2-5) Retire u'(2) P(1) by (auto simp: path_sorted_def sorted_wrt_append)
    moreover have "filter (\<lambda>e. lo < he_seqNum e \<and> he_seqNum e \<le> sn) P = []" using P(2) d by (auto simp: filter_empty_conv)
    ultimately show ?thesis using P(1) by (simp add: path_between_def)
  qed
qed simp

end

lemma takeWhile_sorted_last:
  fixes s :: u64
  assumes "sorted_wrt (<) (map he_seqNum xs)" "e \<in> set xs" "he_seqNum e = s"
  shows "takeWhile (\<lambda>e. \<not> he_seqNum e > s) xs \<noteq> [] \<and> last (takeWhile (\<lambda>e. \<not> he_seqNum e > s) xs) = e"
proof -
  obtain ys zs where x: "xs = ys @ e # zs" using split_list [OF assms(2)] by blast
  have "\<forall>y \<in> set ys. \<not> he_seqNum y > s" "\<forall>z \<in> set zs. he_seqNum z > s"
    using assms(1,3) by (auto simp: x sorted_wrt_append)
  then have "takeWhile (\<lambda>e. \<not> he_seqNum e > s) xs = ys @ [e]" using assms(3) by (cases zs) (auto simp: x)
  then show ?thesis by simp
qed

lemma recordTarget_total:
  assumes "sip_ok tid ip" "pathHist (threadInfo ip ! tid) \<noteq> []"
  shows "succeeds (recordTarget instAddr rnd g target tid ip) (\<lambda>ip'. sip_ok tid ip')"
proof -
  define p where "p = pathHist (threadInfo ip ! tid)"
  obtain i where i: "getSetIndex (pcAddr (last p)) g (butlast p) ip = Inr i" "i < unat (si_numSets ip)"
    using getSetIndex_total [OF assms(1)] by blast
  define ip1 where "ip1 = sip_thread tid (\<lambda>t. t\<lparr>pathHist := butlast p @ [last p\<lparr>targetAddr := instAddr target\<rparr>]\<rparr>) ip"
  have o: "sip_ok tid ip1" "si_numSets ip1 = si_numSets ip" using assms(1) by (simp_all add: ip1_def)
  have c: "sip_ok tid (ip1\<lparr>targetCache := c\<rparr>)" "si_numWays ip1 \<noteq> 0" for c using o by (simp_all add: sip_ok_def)
  show ?thesis unfolding recordTarget_def Let_def p_def [symmetric] i(1) bindR_simps ip1_def [symmetric]
    using assms(2) i(2) o c by (simp add: p_def split: option.split)
qed

context direction_predictor
begin

lemma bpu_squash_iPred:
  assumes "unit_ok ok tid u" "iPred u = Some ip"
  shows "\<exists>ip'. iPred (bpu_squash ops sn tid u) = Some ip' \<and>
    pathHist (threadInfo ip' ! tid) = takeWhile (\<lambda>e. \<not> he_seqNum e > sn) (pathHist (threadInfo ip ! tid))"
proof -
  have f: "\<exists>ip'. iPred (fold (squash_entry ops tid) es u) = Some ip' \<and> tid < length (threadInfo ip') \<and>
      pathHist (threadInfo ip' ! tid) = pathHist (threadInfo ip ! tid)"
    if "iPred u = Some ip" "tid < length (threadInfo ip)" for es u ip
    using that
  proof (induction es arbitrary: u ip)
    case (Cons e es)
    obtain ip1 where "iPred (squash_entry ops tid e u) = Some ip1" "tid < length (threadInfo ip1)"
        "pathHist (threadInfo ip1 ! tid) = pathHist (threadInfo ip ! tid)"
      using Cons.prems by (cases "indirectHistory e") (auto simp: undo_ghr_def deleteIndirectInfo_def sip_thread_def)
    then show ?case using Cons.IH by fastforce
  qed simp
  have t: "tid < length (threadInfo (sip_squash sn tid ip))" using assms by (simp add: unit_ok_def sip_ok_def sip_squash_def sip_thread_def)
  show ?thesis using f [of "u\<lparr>iPred := map_option (sip_squash sn tid) (iPred u)\<rparr>" "sip_squash sn tid ip"] t assms
    by (fastforce simp: bpu_squash_def squash_entries_eq sip_squash_def sip_thread_nth sip_ok_def unit_ok_def split: prod.splits)
qed

end

lemma changeDirectionPrediction_keeps:
  "sip_ok tid (changeDirectionPrediction tid' g taken ip) = sip_ok tid ip"
  "sip_ok tid ip \<Longrightarrow> pathHist (threadInfo (changeDirectionPrediction tid g taken ip) ! tid) = pathHist (threadInfo ip ! tid)"
  by (simp_all add: changeDirectionPrediction_def sip_thread_nth sip_ok_def [of tid ip, THEN iffD1, THEN conjunct1])

lemma btb_update_hit:
  assumes "btb_ok b"
  shows "succeeds (btb_update a t tid b) (\<lambda>b'. btb_ok b' \<and> btb_lookup a tid b' = Inr t)"
  using assms getIndex_less [OF assms, of a tid]
  by (simp add: btb_update_def btb_lookup_def btb_hit_def) (simp add: btb_ok_def)

lemma squash_fix_ras_frame:
  "squash_fix_ras taken tid e u = (e', u') \<Longrightarrow> iPred u' = iPred u \<and> BTB u' = BTB u \<and> predHist u' = predHist u \<and> direction u' = direction u \<and>
     length (RAS u') = length (RAS u) \<and> wasIndirect e' = wasIndirect e \<and> indirectHistory e' = indirectHistory e \<and> ph_pc e' = ph_pc e \<and>
     ph_seqNum e' = ph_seqNum e \<and> predTaken e' = predTaken e"
  by (auto simp: squash_fix_ras_def split: if_splits)

lemma squash_fix_target_frame:
  assumes "btb_ok (BTB u)" "\<forall>ip. iPred u = Some ip \<longrightarrow> sip_ok tid ip \<and> (wasIndirect e \<longrightarrow> pathHist (threadInfo ip ! tid) \<noteq> [])"
  shows "succeeds (squash_fix_target instAddr rnd target taken tid e u) (\<lambda>u'. predHist u' = predHist u \<and> RAS u' = RAS u \<and> direction u' = direction u \<and>
    btb_ok (BTB u') \<and> (\<forall>ip. iPred u' = Some ip \<longrightarrow> sip_ok tid ip) \<and> (taken \<and> \<not> wasIndirect e \<longrightarrow> btb_lookup (ph_pc e) tid (BTB u') = Inr target))"
proof (cases "taken \<and> wasIndirect e")
  case True
  show ?thesis
  proof (cases "\<exists>ip g. iPred u = Some ip \<and> indirectHistory e = Some g")
    case t: True
    then obtain ip g where i: "iPred u = Some ip" "indirectHistory e = Some g" by blast
    have "sip_ok tid ip" "pathHist (threadInfo ip ! tid) \<noteq> []" using assms(2) True i by auto
    from recordTarget_total [OF this, of instAddr rnd g target] obtain ip' where "recordTarget instAddr rnd g target tid ip = Inr ip'" "sip_ok tid ip'" by (rule succeedsE)
    then show ?thesis using True i assms(1) by (simp add: squash_fix_target_def)
  next
    case False
    then show ?thesis using True assms by (auto simp: squash_fix_target_def split: option.splits)
  qed
next
  case False
  then show ?thesis using assms btb_update_hit [OF assms(1), of "ph_pc e" target tid]
    by (cases "btb_update (ph_pc e) target tid (BTB u)") (auto simp: squash_fix_target_def)
qed

text \<open>What a correct prediction would have left: the outcome in the branch history, the return
  address stack as after the branch, and the branch as the youngest entry, with its target
  in the branch target buffer when it was taken and not predicted as an indirect branch.\<close>

definition recovered :: "nat \<Rightarrow> 'pc static_inst \<Rightarrow> u64 \<Rightarrow> 'pc \<Rightarrow> nat \<Rightarrow> bool \<Rightarrow> ('pc::zero) \<Rightarrow> addr \<Rightarrow> ('d, 'h, 'pc) bpred_unit \<Rightarrow> ('d, 'h, 'pc) bpred_unit \<Rightarrow> bool" where
  "recovered k inst s pc tid taken target a u u' \<longleftrightarrow> ras_same k (ras_outcome inst pc taken (RAS u ! tid)) (RAS u' ! tid) \<and>
     (\<exists>e es R. predHist u' ! tid = e # es \<and> predHist u ! tid = es @ R \<and> ph_seqNum e = s \<and> predTaken e = taken \<and>
       (taken \<and> \<not> wasIndirect e \<longrightarrow> btb_lookup a tid (BTB u') = Inr target))"

context direction_predictor
begin

text \<open>The entry of a mispredicted indirect branch is the youngest of the path history again.\<close>

lemma path_kept:
  assumes "predicted s tid r u u1" "unit_ok ok tid u2" "lo < s" "path_sorted tid u2" "path_between lo s tid u2 = path_between lo s tid u1"
    "wasIndirect r" "iPred (bpu_squash ops s tid u2) = Some ip"
  shows "pathHist (threadInfo ip ! tid) \<noteq> [] \<and> pcAddr (last (pathHist (threadInfo ip ! tid))) = ph_pc r"
proof -
  obtain t where "path_of tid u1 = path_of tid u @ [\<lparr>pcAddr = ph_pc r, targetAddr = t, he_seqNum = s\<rparr>]"
    using assms(1,6) unfolding predicted_def by auto
  then have "\<lparr>pcAddr = ph_pc r, targetAddr = t, he_seqNum = s\<rparr> \<in> set (path_between lo s tid u2)"
    unfolding assms(5) using assms(3) by (simp add: path_between_def)
  then have e: "\<lparr>pcAddr = ph_pc r, targetAddr = t, he_seqNum = s\<rparr> \<in> set (path_of tid u2)" by (simp add: path_between_def)
  then obtain ip2 where i2: "iPred u2 = Some ip2" by (cases "iPred u2") (auto simp: path_of_def)
  have "pathHist (threadInfo ip ! tid) = takeWhile (\<lambda>e. \<not> he_seqNum e > s) (path_of tid u2)"
    using bpu_squash_iPred [OF assms(2) i2, of s] assms(7) i2 by (auto simp: path_of_def)
  then show ?thesis using takeWhile_sorted_last [OF _ e, of s] assms(4) by (simp add: path_sorted_def)
qed

lemma squash_mispredict_step:
  fixes u u1 u2 :: "('d, 'h, ('a::zero)) bpred_unit"
  assumes p: "predicted s tid r u u1" "unit_ok ok tid u" "unit_ok ok tid u1" "recovers inst tid r u u1"
    "ras_undone (of_bool (isCall inst)) r (RAS u ! tid) (RAS u1 ! tid)" "ras_taken inst pc r (RAS u ! tid) (RAS u1 ! tid)"
    and f: "run_frame tid lo s c u1 u2" "lo < s" "\<forall>e \<in> set (predHist u ! tid). ph_seqNum e \<le> s" "isCall inst \<longrightarrow> isUncondCtrl inst"
    and path: "path_sorted tid u2" "path_between lo s tid u2 = path_between lo s tid u1"
  shows "succeeds (bpu_squash_mispredict ops instAddr rnd s target taken tid u2) (\<lambda>u'. unit_ok ok tid u' \<and>
    view tid (direction u') = radv inst (ph_pc r) taken (view tid (direction u)) \<and>
    recovered (ras_numEntries (RAS u ! tid) - c - 1) inst s pc tid taken target (ph_pc r) u u')"
proof -
  let ?n = "ras_numEntries (RAS u ! tid)"
  define us where "us = bpu_squash ops s tid u2"
  have r: "predHist u1 ! tid = r # predHist u ! tid" "ph_seqNum r = s" "ras_numEntries (RAS u1 ! tid) = ?n" "BTB u1 = BTB u"
    using p(1,2) by (auto simp: predicted_def unit_ok_def)
  obtain R where us: "unit_same ok view tid (?n - c) u1 us" "BTB us = BTB u" "predHist u1 ! tid = predHist us ! tid @ R" "\<forall>e \<in> set R. ph_seqNum e \<le> lo"
    using bpu_squash_frame [OF f(1)] r f(3) by (auto simp: us_def)
  obtain es where es: "predHist us ! tid = r # es" "predHist u ! tid = es @ R"
    using us(3,4) r(1,2) f(2) by (cases "predHist us ! tid") auto
  have o: "ok tid (direction us)" "unit_ok ok tid us" using us(1) by (auto simp: unit_same_def unit_ok_def)
  obtain d where d: "op_update ops tid (ph_pc r) taken (bpHistory r) True (direction us) = Inr d" using update_total [OF o(1)] by blast
  have v: "view tid d = radv inst (ph_pc r) taken (view tid (direction u))" using p(4) us(1) d unfolding recovers_def by blast
  define e where "e = r\<lparr>predTaken := taken, ph_target := instAddr target\<rparr>"
  define u4 where "u4 = us\<lparr>direction := d, iPred := (case (iPred us, indirectHistory e) of
      (Some ip, Some g) \<Rightarrow> Some (changeDirectionPrediction tid g taken ip) | _ \<Rightarrow> iPred us)\<rparr>"
  obtain e5 u5 where e5: "squash_fix_ras taken tid e u4 = (e5, u5)" by (cases "squash_fix_ras taken tid e u4")
  note fr = squash_fix_ras_frame [OF e5]
  have step: "bpu_squash_mispredict ops instAddr rnd s target taken tid u2 =
    bindR (squash_fix_target instAddr rnd target taken tid e5 u5) (\<lambda>u. Inr (u\<lparr>predHist := (predHist u)[tid := e5 # es]\<rparr>))"
    unfolding bpu_squash_mispredict_def us_def [symmetric] Let_def using es(1) r(2) d e5
    by (simp add: e_def u4_def)
  have ras: "ras_same (?n - c - 1) (ras_outcome inst pc taken (RAS u ! tid)) (RAS u5 ! tid)"
    using squash_fix_ras_outcome [OF _ p(5,6) f(4), of "?n - c" u4 tid e taken] p(2) us(1) o(2) e5
    by (simp add: u4_def e_def unit_ok_def unit_same_def)
  have pn: "pathHist (threadInfo ip ! tid) \<noteq> []" if "iPred us = Some ip" "wasIndirect r" for ip
    using path_kept [OF p(1) _ f(2) path that(2), of ip] f(1) that(1) by (auto simp: run_frame_def us_def)
  have "\<forall>ip. iPred us = Some ip \<longrightarrow> sip_ok tid ip" using o(2) by (simp add: unit_ok_def)
  then have ip: "\<forall>ip. iPred u5 = Some ip \<longrightarrow> sip_ok tid ip \<and> (wasIndirect e5 \<longrightarrow> pathHist (threadInfo ip ! tid) \<noteq> [])"
    using fr pn by (auto simp: u4_def e_def changeDirectionPrediction_keeps split: option.splits)
  have b: "btb_ok (BTB u5)" using fr us(2) p(2) by (simp add: u4_def unit_ok_def)
  have l: "tid < length (RAS u5)" "tid < length (predHist u5)" "ok tid (direction u5)" "direction u5 = d"
    using fr o(2) update_ok [OF o(1) d] by (simp_all add: u4_def unit_ok_def)
  show ?thesis unfolding step
  proof (rule succeeds_bind [OF squash_fix_target_frame [OF b ip]], unfold succeeds_simps, elim conjE, intro conjI)
    fix u6 :: "('d, 'h, 'a) bpred_unit"
    let ?u = "u6\<lparr>predHist := (predHist u6)[tid := e5 # es]\<rparr>"
    assume u6: "predHist u6 = predHist u5" "RAS u6 = RAS u5" "direction u6 = direction u5" "btb_ok (BTB u6)" "\<forall>ip. iPred u6 = Some ip \<longrightarrow> sip_ok tid ip"
      "taken \<and> \<not> wasIndirect e5 \<longrightarrow> btb_lookup (ph_pc e5) tid (BTB u6) = Inr target"
    show "unit_ok ok tid ?u" using u6 l ras by (simp add: unit_ok_def ras_same_def)
    show "view tid (direction ?u) = radv inst (ph_pc r) taken (view tid (direction u))" using u6(3) l(4) v by simp
    show "recovered (?n - c - 1) inst s pc tid taken target (ph_pc r) u ?u"
      using u6 l fr ras es(2) r(2) by (auto simp: recovered_def e_def)
  qed
qed

end

context direction_predictor
begin

lemma mispredict_recovers:
  assumes "unit_ok ok tid u" "plain_uncond inst \<longrightarrow> ub" "isCall inst \<longrightarrow> isUncondCtrl inst" "lo < s"
    "\<forall>e \<in> set es. younger ub lo s e" "sorted_wrt (<) (fetched es)" "\<forall>e \<in> set (predHist u ! tid). ph_seqNum e \<le> s"
    "path_sorted tid u" "\<forall>e \<in> set (path_of tid u). he_seqNum e < s"
  shows "succeeds (bindR (predict ops instAddr inst s pc tid u) (\<lambda>(p, t, u1). bindR (bp_run ops instAddr tid es u1)
      (bpu_squash_mispredict ops instAddr rnd s target taken tid)))
    (\<lambda>u'. unit_ok ok tid u' \<and> view tid (direction u') = radv inst (instAddr pc) taken (view tid (direction u)) \<and>
      recovered (ras_numEntries (RAS u ! tid) - calls es - 1) inst s pc tid taken target (instAddr pc) u u')"
proof (rule succeeds_bind [OF predict_step [OF assms(1,2)]], clarify)
  fix p t u1 r
  assume r: "predicted s tid r u u1" "unit_ok ok tid u1" "recovers (ph_inst r) tid r u u1" "ph_pc r = instAddr pc" "inst = ph_inst r"
    "ras_undone (of_bool (isCall (ph_inst r))) r (RAS u ! tid) (RAS u1 ! tid)" "ras_taken (ph_inst r) pc r (RAS u ! tid) (RAS u1 ! tid)"
  have lo: "lo \<le> s" using assms(4) by simp
  obtain u2 where u2: "bp_run ops instAddr tid es u1 = Inr u2" "run_frame tid lo s (calls es) u1 u2"
    using bp_run_frame [OF r(2) assms(5) lo] by (rule succeedsE)
  obtain t' where "path_of tid u1 = path_of tid u @ (if wasIndirect r then [\<lparr>pcAddr = ph_pc r, targetAddr = t', he_seqNum = s\<rparr>] else [])"
    using r(1) unfolding predicted_def by blast
  moreover have "\<forall>x \<in> set (fetched es). s < x" using assms(5) by (induction es rule: fetched.induct) auto
  ultimately have "path_sorted tid u1" "\<forall>e \<in> set (path_of tid u1). \<forall>x \<in> set (fetched es). he_seqNum e < x"
    using assms(8,9) by (auto simp: path_sorted_def sorted_wrt_append split: if_splits intro: less_trans)
  from bp_run_path [OF r(2) assms(5) this(1) assms(6) this(2) u2(1)]
  have path: "path_sorted tid u2" "path_between lo s tid u2 = path_between lo s tid u1" by simp_all
  show "succeeds (bindR (bp_run ops instAddr tid es u1) (bpu_squash_mispredict ops instAddr rnd s target taken tid))
    (\<lambda>u'. unit_ok ok tid u' \<and> view tid (direction u') = radv (ph_inst r) (instAddr pc) taken (view tid (direction u)) \<and>
      recovered (ras_numEntries (RAS u ! tid) - calls es - 1) (ph_inst r) s pc tid taken target (instAddr pc) u u')"
    using squash_mispredict_step [OF r(1) assms(1) r(2,3,6,7) u2(2) assms(4,7) _ path, of instAddr rnd target taken] assms(3) r(5)
    by (simp add: u2(1) r(4))
qed

end

text \<open>C9: squashing takes back everything the wrong path did to the predictor. From a well-formed unit
  with the bi-mode predictor, predicting any branches younger than \<open>sn\<close> on one thread,
  interleaved with commits of older branches, passes all checks; squashing to \<open>sn\<close> then restores
  the global history register, the top of the return address stack with all its
  entries but one per squashed call, the history of the indirect predictor, the branch target buffer and,
  up to what was committed, the list of predictions.\<close>

theorem bimode_squash_restores:
  assumes "unit_ok bm_ok tid u" "\<forall>e \<in> set es. younger True sn sn e" "\<forall>e \<in> set (predHist u ! tid). ph_seqNum e \<le> sn"
  shows "succeeds (bp_run bimode_ops instAddr tid es u) (\<lambda>u1. let u2 = bpu_squash bimode_ops sn tid u1 in
    unit_same bm_ok bm_view tid (ras_numEntries (RAS u ! tid) - calls es) u u2 \<and> BTB u2 = BTB u \<and>
    (\<exists>R. predHist u ! tid = predHist u2 ! tid @ R \<and> set R \<subseteq> {e. ph_seqNum e \<le> sn}))"
  unfolding Let_def by (rule bimode_pred.squash_restores [OF assms order_refl])


text \<open>A unit just constructed is well formed.\<close>

lemma BPredUnit_ok:
  assumes "BPredUnit dir ip threads n entries tag_bits shift = Inr u" "ok tid dir" "tid < threads" "0 < n" "\<forall>s. ip = Some s \<longrightarrow> sip_ok tid s"
  shows "unit_ok ok tid u \<and> predHist u ! tid = [] \<and> RAS u ! tid = ras_init n \<and> iPred u = ip \<and> direction u = dir"
  using assms DefaultBTB_ok by (auto simp: BPredUnit_def bindR_Inr_iff unit_ok_def ras_init_ok)

definition nop_inst :: "u64 static_inst" where
  "nop_inst = \<lparr>isUncondCtrl = False, isReturn = False, isCall = False, isDirectCtrl = True, buildRetPC = (\<lambda>pc r. r), advancePC = (\<lambda>pc. pc + 4)\<rparr>"

lemma BTB_example: "\<exists>b. DefaultBTB 4 16 2 1 = Inr (b :: u64 btb)"
  by (simp add: DefaultBTB_def floorLog2_def isPowerOf2_def Let_def)

theorem bimode_squash_restores_witness:
  "\<exists>d u u1. BiModeBP 1 4 2 4 2 2 = Inr d \<and> BPredUnit d None 1 8 4 16 2 = Inr u \<and>
     bp_run bimode_ops id 0 [Fetch (nop_inst\<lparr>isCall := True, isUncondCtrl := True\<rparr>) 5 0x40, Retire 3, Fetch (nop_inst\<lparr>isReturn := True\<rparr>) 6 0x80] u = Inr u1 \<and>
     tos (RAS (bpu_squash bimode_ops 4 0 u1) ! 0) = tos (RAS u ! 0)"
proof -
  have "\<exists>d. BiModeBP 1 4 2 4 2 2 = Inr d"
    by (simp add: BiModeBP_def ctr_table_def SatCounter_def ceilLog2_def floorLog2_def isPowerOf2_def Let_def)
  then obtain d where d: "BiModeBP 1 4 2 4 2 2 = Inr d" by blast
  obtain u :: "(bimode_bp, bimode_history, u64) bpred_unit" where u: "BPredUnit d None 1 8 4 16 2 = Inr u"
    using BTB_example by (auto simp: BPredUnit_def)
  have ok: "unit_ok bm_ok 0 u" "predHist u ! 0 = []" using BPredUnit_ok [OF u, of bm_ok 0] BiModeBP_ok [OF d, of 0] by auto
  let ?es = "[Fetch (nop_inst\<lparr>isCall := True, isUncondCtrl := True\<rparr>) 5 0x40, Retire 3, Fetch (nop_inst\<lparr>isReturn := True\<rparr>) 6 0x80]"
  have "\<forall>e \<in> set ?es. younger True 4 4 e" by (simp add: plain_uncond_def nop_inst_def)
  from bimode_squash_restores [OF ok(1) this, of id] ok(2) obtain u1 where "bp_run bimode_ops id 0 ?es u = Inr u1"
    "unit_same bm_ok bm_view 0 (ras_numEntries (RAS u ! 0) - calls ?es) u (bpu_squash bimode_ops 4 0 u1)"
    by (auto simp: Let_def elim!: succeedsE)
  then show ?thesis using d u by (auto simp: unit_same_def ras_same_def)
qed


section \<open>Deviations\<close>

text \<open>A return predicted not taken but taken is popped off the stack and marked as having used it,
  without recording the index and the address it popped: squashing that branch later
  restores the initial values of the record, index 0 and address 0.\<close>

lemma late_return_restores_zero:
  assumes "wasReturn e" "\<not> usedRAS e" "RASIndex e = 0" "RASTarget e = 0" "tid < length (RAS u)" "ras_ok (RAS u ! tid)"
  shows "let (e', u') = squash_fix_ras True tid e u; r = RAS (squash_entry ops tid e' u') ! tid in topIdx r = 0 \<and> ras_top r = 0"
  using assms by (auto simp: squash_fix_ras_def undo_ras_def topIdx_def ras_top_def ras_ok_def Let_def)

text \<open>The target cache has no valid bits: a branch whose tag is 0 hits in a cache that was never written
  and is sent to address 0.\<close>

lemma cold_indirect_hit:
  assumes "SimpleIndirectPredictor hashG False sets (Suc ways) tag_bits len shift ghr_bits threads = Inr s" "sip_getTag a s = 0"
  shows "sip_lookup a tid s = Inr (Some 0)"
proof -
  have s: "targetCache s = replicate (unat sets) (replicate (Suc ways) \<lparr>ip_tag = 0, ip_target = 0\<rparr>)" "si_numSets s = sets" "sets \<noteq> 0" "\<not> hashTargets s"
    using assms(1) by (auto simp: SimpleIndirectPredictor_def isPowerOf2_def)
  then show ?thesis using assms(2) and_mask_index [of sets] by (simp add: sip_lookup_def getSetIndex_def Let_def)
qed

end
