(* ===== verification/Cache_Queue.thy ===== *)
theory Cache_Queue
  imports Mem_Packet
begin

text \<open>
  \<^verbatim>\<open>src/gem5/src/mem/cache/queue.hh\<close>, \<^verbatim>\<open>queue_entry.hh\<close>, \<^verbatim>\<open>write_queue.cc\<close> and \<^verbatim>\<open>write_queue_entry.cc\<close>: the
  queue template that the miss status registers and the write buffer of a cache share, and
  the write buffer. An entry class derived from \<^verbatim>\<open>QueueEntry\<close> is a record that extends the record of
  the base class, and what the template calls on it is an argument. Pointers to entries are
  indices of the storage; an iterator of a list is the place of its own entry. The contract of
  the template is the locale \<open>queue_client\<close>; this theory interprets it for the write buffer.
  Printing and the hand-over of a packet to the cache are not modelled.
\<close>

section \<open>Entries and the queue template\<close>

record queue_entry =
  readyTime :: tick
  uncacheable :: bool
  inService :: bool
  qe_order :: u64
  blkAddr :: addr
  blkSize :: u32
  qe_secure :: bool

record base_target =
  recvTime :: tick
  bt_readyTime :: tick
  bt_order :: u64
  bt_pkt :: packet

record 'e queue =
  qu_numEntries :: int
  numReserve :: int
  qu_entries :: "'e list"
  allocatedList :: "nat list"
  readyList :: "nat list"
  freeList :: "nat list"
  numInService :: int
  allocated :: int
  numReserveDDIOWrite :: int
  draining :: bool

definition Queue :: "'e \<Rightarrow> int \<Rightarrow> int \<Rightarrow> 'e queue" where
  "Queue e0 num_entries reserve =
     (let n = num_entries + reserve in
      \<lparr>qu_numEntries = n, numReserve = reserve, qu_entries = replicate (nat n) e0, allocatedList = [], readyList = [],
       freeList = [0..<nat n], numInService = 0, allocated = 0, numReserveDDIOWrite = 0, draining = False\<rparr>)"

definition on_entry :: "nat \<Rightarrow> 'e \<Rightarrow> 'e queue \<Rightarrow> 'e queue" where
  "on_entry i e q = q\<lparr>qu_entries := (qu_entries q)[i := e]\<rparr>"

text \<open>The scan for the first entry that is ready later.\<close>

fun insert_before :: "(nat \<Rightarrow> bool) \<Rightarrow> nat \<Rightarrow> nat list \<Rightarrow> nat list option" where
  "insert_before later i [] = None"
| "insert_before later i (j # js) = (if later j then Some (i # j # js) else map_option ((#) j) (insert_before later i js))"

definition addToReadyList :: "nat \<Rightarrow> ('x queue_entry_scheme) queue \<Rightarrow> ('x queue_entry_scheme) queue result" where
  "addToReadyList i q =
     (let t = (\<lambda>j. readyTime (qu_entries q ! j)) in
      if readyList q = [] \<or> t (last (readyList q)) \<le> t i then Inr (q\<lparr>readyList := readyList q @ [i]\<rparr>)
      else (case insert_before (\<lambda>j. t j > t i) i (readyList q) of Some l \<Rightarrow> Inr (q\<lparr>readyList := l\<rparr>) | None \<Rightarrow> Inl Panic_Error))"

definition isEmpty :: "'e queue \<Rightarrow> bool" where
  "isEmpty q \<longleftrightarrow> allocated q = 0"

definition isFull :: "'e queue \<Rightarrow> bool" where
  "isFull q \<longleftrightarrow> allocated q \<ge> qu_numEntries q - numReserve q - numReserveDDIOWrite q"

definition reserveDDIOWrite :: "'e queue \<Rightarrow> 'e queue result" where
  "reserveDDIOWrite q = (let q = q\<lparr>numReserveDDIOWrite := numReserveDDIOWrite q + 1\<rparr>
     in guardR (numReserveDDIOWrite q < qu_numEntries q) Assert_Failed (Inr q))"

definition unreserveDDIOWrite :: "'e queue \<Rightarrow> 'e queue result" where
  "unreserveDDIOWrite q = (let q = q\<lparr>numReserveDDIOWrite := numReserveDDIOWrite q - 1\<rparr>
     in guardR (numReserveDDIOWrite q \<ge> 0) Assert_Failed (Inr q))"

text \<open>\<open>hasTargets\<close> is the check inside \<^verbatim>\<open>matchBlockAddr\<close> of both kinds of entries.\<close>

definition entry_matches :: "('x queue_entry_scheme \<Rightarrow> bool) \<Rightarrow> addr \<Rightarrow> bool \<Rightarrow> 'x queue_entry_scheme \<Rightarrow> bool result" where
  "entry_matches hasTargets a is_secure e = guardR (hasTargets e) Assert_Failed (Inr (blkAddr e = a \<and> qe_secure e = is_secure))"

fun find_first :: "('x \<Rightarrow> bool result) \<Rightarrow> 'x list \<Rightarrow> 'x option result" where
  "find_first P [] = Inr None"
| "find_first P (x # xs) = bindR (P x) (\<lambda>b. if b then Inr (Some x) else find_first P xs)"

definition findMatch :: "('x queue_entry_scheme \<Rightarrow> bool) \<Rightarrow> addr \<Rightarrow> bool \<Rightarrow> bool \<Rightarrow> ('x queue_entry_scheme) queue \<Rightarrow> nat option result" where
  "findMatch hasTargets blk_addr is_secure ignore_uncacheable q =
     find_first (\<lambda>i. let e = qu_entries q ! i in
       if \<not> (ignore_uncacheable \<and> uncacheable e) then entry_matches hasTargets blk_addr is_secure e else Inr False) (allocatedList q)"

text \<open>The other entry is of another kind of queue: \<open>conflict\<close> compares an entry with it, as \<open>conflictAddr\<close> does.\<close>

definition conflictAddr :: "('y queue_entry_scheme \<Rightarrow> bool) \<Rightarrow> 'y queue_entry_scheme \<Rightarrow> ('x queue_entry_scheme \<Rightarrow> bool) \<Rightarrow> 'x queue_entry_scheme \<Rightarrow> bool result" where
  "conflictAddr otherTargets other hasTargets e = guardR (hasTargets e) Assert_Failed (entry_matches otherTargets (blkAddr e) (qe_secure e) other)"

definition findPending :: "('e \<Rightarrow> bool result) \<Rightarrow> 'e queue \<Rightarrow> nat option result" where
  "findPending conflict q = find_first (\<lambda>i. conflict (qu_entries q ! i)) (readyList q)"

text \<open>\<open>satisfy\<close> is \<^verbatim>\<open>trySatisfyFunctional\<close> of an entry whose block matches; it may change the packet and the entry.\<close>

fun satisfy_entries :: "('e \<Rightarrow> packet \<Rightarrow> (bool \<times> packet \<times> 'e) result) \<Rightarrow> nat list \<Rightarrow> packet \<Rightarrow> 'e queue \<Rightarrow> (bool \<times> packet \<times> 'e queue) result" where
  "satisfy_entries satisfy [] pkt q = Inr (False, pkt, q)"
| "satisfy_entries satisfy (i # is) pkt q =
     bindR (satisfy (qu_entries q ! i) pkt) (\<lambda>(ok, pkt, e).
     if ok then Inr (True, pkt, on_entry i e q) else satisfy_entries satisfy is pkt (on_entry i e q))"

definition qu_trySatisfyFunctional :: "('e \<Rightarrow> packet \<Rightarrow> (bool \<times> packet \<times> 'e) result) \<Rightarrow> packet \<Rightarrow> 'e queue \<Rightarrow> (bool \<times> packet \<times> 'e queue) result" where
  "qu_trySatisfyFunctional satisfy pkt q = satisfy_entries satisfy (allocatedList q) pkt q"

definition getNext :: "tick \<Rightarrow> ('x queue_entry_scheme) queue \<Rightarrow> nat option" where
  "getNext curTick q = (case readyList q of [] \<Rightarrow> None | i # _ \<Rightarrow> if readyTime (qu_entries q ! i) > curTick then None else Some i)"

definition nextReadyTime :: "('x queue_entry_scheme) queue \<Rightarrow> tick" where
  "nextReadyTime q = (case readyList q of [] \<Rightarrow> - 1 | i # _ \<Rightarrow> readyTime (qu_entries q ! i))"

text \<open>The result says whether the end of a drain is signalled.\<close>

definition qu_deallocate :: "('x queue_entry_scheme \<Rightarrow> 'x queue_entry_scheme result) \<Rightarrow> nat \<Rightarrow> ('x queue_entry_scheme) queue \<Rightarrow>
    (bool \<times> ('x queue_entry_scheme) queue) result" where
  "qu_deallocate dealloc i q =
     (let e = qu_entries q ! i;
          q = q\<lparr>allocatedList := remove1 i (allocatedList q), freeList := i # freeList q, allocated := allocated q - 1\<rparr>;
          q = (if inService e then q\<lparr>numInService := numInService q - 1\<rparr> else q\<lparr>readyList := remove1 i (readyList q)\<rparr>) in
      bindR (dealloc e) (\<lambda>e. let q = on_entry i e q; sig = (draining q \<and> allocated q = 0)
        in Inr (sig, if sig then q\<lparr>draining := False\<rparr> else q)))"

definition qu_drain :: "'e queue \<Rightarrow> bool \<times> 'e queue" where
  "qu_drain q = (if allocated q = 0 then (True, q\<lparr>draining := False\<rparr>) else (False, q\<lparr>draining := True\<rparr>))"

lemma qu_drain_frame:
  assumes "qu_drain q = (b, q')"
  shows "qu_entries q' = qu_entries q" "allocatedList q' = allocatedList q" "freeList q' = freeList q" "readyList q' = readyList q"
    "allocated q' = allocated q" "numInService q' = numInService q" "qu_numEntries q' = qu_numEntries q" "numReserve q' = numReserve q"
    "numReserveDDIOWrite q' = numReserveDDIOWrite q"
  using assms by (auto simp: qu_drain_def split: if_splits)

text \<open>Taking a free entry: \<^verbatim>\<open>allocate\<close> of both queues, with the method of the entry.\<close>

definition qu_allocate :: "('x queue_entry_scheme \<Rightarrow> nat) \<Rightarrow> ('x queue_entry_scheme \<Rightarrow> 'x queue_entry_scheme result) \<Rightarrow>
    ('x queue_entry_scheme) queue \<Rightarrow> (nat \<times> ('x queue_entry_scheme) queue) result" where
  "qu_allocate getNumTargets alloc q =
     (case freeList q of [] \<Rightarrow> Inl Assert_Failed
      | i # free \<Rightarrow>
        guardR (getNumTargets (qu_entries q ! i) = 0) Assert_Failed
        (bindR (alloc (qu_entries q ! i)) (\<lambda>e.
         let q = on_entry i e (q\<lparr>freeList := free, allocatedList := allocatedList q @ [i]\<rparr>) in
         bindR (addToReadyList i q) (\<lambda>q. Inr (i, q\<lparr>allocated := allocated q + 1\<rparr>)))))"

section \<open>The ready list\<close>

text \<open>What the insertion means: behind all entries that are ready no later.\<close>

lemma insert_before_eq: "insert_before later i js = (if \<exists>j\<in>set js. later j then Some (takeWhile (\<lambda>j. \<not> later j) js @ i # dropWhile (\<lambda>j. \<not> later j) js) else None)"
  by (induction js) auto

definition ready_insertion :: "(nat \<Rightarrow> tick) \<Rightarrow> nat \<Rightarrow> nat list \<Rightarrow> nat list" where
  "ready_insertion t i js = takeWhile (\<lambda>j. t j \<le> t i) js @ i # dropWhile (\<lambda>j. t j \<le> t i) js"

abbreviation ready_at :: "('x queue_entry_scheme) queue \<Rightarrow> nat \<Rightarrow> tick" where
  "ready_at q j \<equiv> readyTime (qu_entries q ! j)"

definition ready_sorted :: "('x queue_entry_scheme) queue \<Rightarrow> bool" where
  "ready_sorted q = sorted (map (ready_at q) (readyList q))"

lemma ready_insertion_set [simp]: "set (ready_insertion t i js) = insert i (set js)"
  by (metis ready_insertion_def Un_insert_right list.simps(15) set_append takeWhile_dropWhile_id)

lemma ready_insertion_distinct: "distinct js \<Longrightarrow> i \<notin> set js \<Longrightarrow> distinct (ready_insertion t i js)"
  by (induction js) (auto simp: ready_insertion_def dest: set_takeWhileD set_dropWhileD)

lemma ready_insertion_sorted:
  assumes "sorted (map t js)"
  shows "sorted (map t (ready_insertion t i js))"
proof -
  let ?P = "\<lambda>j. t j \<le> t i"
  have s: "sorted (map t (takeWhile ?P js @ dropWhile ?P js))" using assms by simp
  have later: "\<forall>x\<in>set (dropWhile ?P js). t i \<le> t x"
  proof (cases "dropWhile ?P js")
    case (Cons y ys)
    then have "\<not> t y \<le> t i" by (metis hd_dropWhile list.distinct(1) list.sel(1))
    moreover have "sorted (map t (y # ys))" using s unfolding map_append sorted_append Cons by simp
    ultimately show ?thesis using Cons by (auto simp: le_less_trans less_imp_le)
  next
    case Nil
    show ?thesis unfolding Nil by simp
  qed
  have "sorted (map t (takeWhile ?P js))" "sorted (map t (dropWhile ?P js))"
    using s unfolding map_append sorted_append by blast+
  moreover have "\<forall>x\<in>set (takeWhile ?P js). t x \<le> t i" by (blast dest: set_takeWhileD)
  ultimately show ?thesis using later unfolding ready_insertion_def by (fastforce simp: sorted_append)
qed

text \<open>The scan never falls off the list, and on a sorted list it is the insertion above.\<close>

lemma addToReadyList_total: "\<exists>q'. addToReadyList i q = Inr q'"
proof (cases "readyList q = [] \<or> ready_at q (last (readyList q)) \<le> ready_at q i")
  case False
  then have "\<exists>j\<in>set (readyList q). ready_at q i < ready_at q j" by (metis last_in_set not_le)
  then show ?thesis using False by (simp add: addToReadyList_def insert_before_eq Let_def)
qed (simp add: addToReadyList_def)

lemma addToReadyList_shape:
  assumes "addToReadyList i q = Inr q'"
  obtains l where "q' = q\<lparr>readyList := l\<rparr>" "set l = insert i (set (readyList q))"
    "distinct (readyList q) \<Longrightarrow> i \<notin> set (readyList q) \<Longrightarrow> distinct l"
    "ready_sorted q \<Longrightarrow> l = ready_insertion (ready_at q) i (readyList q)"
proof -
  let ?t = "ready_at q" and ?js = "readyList q"
  show thesis
  proof (cases "?js = [] \<or> ?t (last ?js) \<le> ?t i")
    case True
    have "ready_sorted q \<Longrightarrow> ?js @ [i] = ready_insertion ?t i ?js"
    proof -
      assume s: "ready_sorted q"
      have "\<forall>j\<in>set ?js. ?t j \<le> ?t i"
      proof (cases "?js = []")
        case False
        then obtain ys y where js: "?js = ys @ [y]" by (meson rev_exhaust)
        then have "\<forall>j\<in>set ?js. ?t j \<le> ?t y" using s by (simp add: ready_sorted_def sorted_append)
        moreover have "?t y \<le> ?t i" using True js by simp
        ultimately show ?thesis using order_trans by blast
      qed simp
      then show ?thesis by (simp add: ready_insertion_def takeWhile_eq_all_conv [THEN iffD2] dropWhile_eq_Nil_conv [THEN iffD2])
    qed
    then show thesis using True assms by (intro that [of "?js @ [i]"]) (auto simp: addToReadyList_def)
  next
    case False
    then have "\<exists>j\<in>set ?js. ?t i < ?t j" by (metis last_in_set not_le)
    then have "q' = q\<lparr>readyList := ready_insertion ?t i ?js\<rparr>"
      using False assms by (simp add: addToReadyList_def insert_before_eq Let_def ready_insertion_def not_less)
    then show thesis by (intro that [of "ready_insertion ?t i ?js"]) (auto intro: ready_insertion_distinct)
  qed
qed


section \<open>The invariant of the queue\<close>

text \<open>Free and allocated entries part the storage; the ready list holds the allocated entries that are
  not in service; the counters agree with the lists.\<close>

definition q_struct :: "('x queue_entry_scheme) queue \<Rightarrow> bool" where
  "q_struct q \<longleftrightarrow>
     qu_numEntries q = int (length (qu_entries q)) \<and> 0 \<le> numReserve q \<and> 0 \<le> numReserveDDIOWrite q \<and>
     distinct (freeList q @ allocatedList q) \<and> set (freeList q) \<union> set (allocatedList q) = {..<length (qu_entries q)} \<and>
     distinct (readyList q) \<and> set (readyList q) = {i \<in> set (allocatedList q). \<not> inService (qu_entries q ! i)} \<and>
     allocated q = int (length (allocatedList q)) \<and>
     numInService q = int (length (filter (\<lambda>i. inService (qu_entries q ! i)) (allocatedList q)))"

lemma q_struct_D:
  assumes "q_struct q"
  shows "i \<in> set (allocatedList q) \<Longrightarrow> i < length (qu_entries q)" "i \<in> set (freeList q) \<Longrightarrow> i < length (qu_entries q)"
    "i \<in> set (readyList q) \<longleftrightarrow> i \<in> set (allocatedList q) \<and> \<not> inService (qu_entries q ! i)"
    "i \<in> set (freeList q) \<Longrightarrow> i \<notin> set (allocatedList q)" "distinct (allocatedList q)" "distinct (readyList q)"
  using assms by (auto simp: q_struct_def)

lemma Queue_struct: "0 \<le> n + r \<Longrightarrow> 0 \<le> r \<Longrightarrow> q_struct (Queue e0 n r)"
  by (auto simp: Queue_def q_struct_def Let_def atLeast_upt)

lemma on_entry_sel [simp]:
  "qu_entries (on_entry i e q) = (qu_entries q)[i := e]" "freeList (on_entry i e q) = freeList q"
  "allocatedList (on_entry i e q) = allocatedList q" "readyList (on_entry i e q) = readyList q"
  "allocated (on_entry i e q) = allocated q" "numInService (on_entry i e q) = numInService q"
  "qu_numEntries (on_entry i e q) = qu_numEntries q" "numReserve (on_entry i e q) = numReserve q"
  "numReserveDDIOWrite (on_entry i e q) = numReserveDDIOWrite q" "draining (on_entry i e q) = draining q"
  by (simp_all add: on_entry_def)

lemma q_struct_on_entry:
  assumes "q_struct q" "inService e = inService (qu_entries q ! i)"
  shows "q_struct (on_entry i e q)"
proof -
  have "inService ((qu_entries q)[i := e] ! k) = inService (qu_entries q ! k)" for k
    using assms(2) by (cases "i < length (qu_entries q)") (auto simp: nth_list_update list_update_beyond)
  then show ?thesis using assms(1) by (simp add: q_struct_def)
qed

text \<open>An entry enters at the head of the free list.\<close>

lemma q_struct_admit:
  assumes q: "q_struct q" and free: "freeList q = i # free" and e: "\<not> inService e"
    and add: "addToReadyList i (on_entry i e (q\<lparr>freeList := free, allocatedList := allocatedList q @ [i]\<rparr>)) = Inr q'"
  shows "q_struct (q'\<lparr>allocated := allocated q' + 1\<rparr>)"
proof -
  have i: "i < length (qu_entries q)" "i \<notin> set (allocatedList q)" using q_struct_D(2,4) [OF q] free by simp_all
  then have nr: "i \<notin> set (readyList q)" using q_struct_D(3) [OF q] by simp
  have nth: "(qu_entries q)[i := e] ! k = (if k = i then e else qu_entries q ! k)" for k using i by (simp add: nth_list_update)
  have same: "filter (\<lambda>k. inService ((qu_entries q)[i := e] ! k)) (allocatedList q) = filter (\<lambda>k. inService (qu_entries q ! k)) (allocatedList q)"
    using i by (intro filter_cong) (auto simp: nth)
  obtain l where l: "q' = on_entry i e (q\<lparr>freeList := free, allocatedList := allocatedList q @ [i]\<rparr>)\<lparr>readyList := l\<rparr>"
      "set l = insert i (set (readyList q))" "distinct l"
    using addToReadyList_shape [OF add] q_struct_D(6) [OF q] nr by (metis on_entry_sel(4) queue.select_convs(5) queue.surjective queue.update_convs(4,6))
  have "set l = {k \<in> set (allocatedList q @ [i]). \<not> inService ((qu_entries q)[i := e] ! k)}"
    using l(2) q e i by (auto simp: nth q_struct_def)
  then show ?thesis
    using q free i e l(1,3) unfolding q_struct_def by (auto simp: same)
qed


text \<open>An entry leaves.\<close>

lemma qu_deallocate_shape:
  assumes "qu_deallocate dealloc i q = Inr (sig, q')"
  obtains e' where "dealloc (qu_entries q ! i) = Inr e'" "qu_entries q' = (qu_entries q)[i := e']"
    "allocatedList q' = remove1 i (allocatedList q)" "freeList q' = i # freeList q"
    "readyList q' = (if inService (qu_entries q ! i) then readyList q else remove1 i (readyList q))"
    "allocated q' = allocated q - 1" "numInService q' = numInService q - (if inService (qu_entries q ! i) then 1 else 0)"
    "qu_numEntries q' = qu_numEntries q" "numReserve q' = numReserve q" "numReserveDDIOWrite q' = numReserveDDIOWrite q"
    "sig \<longleftrightarrow> draining q \<and> allocated q = 1" "draining q' \<longleftrightarrow> draining q \<and> \<not> sig"
  using assms by (fastforce simp: qu_deallocate_def bindR_Inr_iff Let_def split: if_splits)

lemma int_length_remove1: "int (length (remove1 i xs)) = int (length xs) - (if i \<in> set xs then 1 else 0)"
  by (induction xs) auto

lemma q_struct_release:
  assumes q: "q_struct q" and i: "i \<in> set (allocatedList q)" and d: "qu_deallocate dealloc i q = Inr (sig, q')"
  shows "q_struct q'"
proof -
  obtain e' where q': "qu_entries q' = (qu_entries q)[i := e']" "allocatedList q' = remove1 i (allocatedList q)" "freeList q' = i # freeList q"
    "readyList q' = (if inService (qu_entries q ! i) then readyList q else remove1 i (readyList q))"
    "allocated q' = allocated q - 1" "numInService q' = numInService q - (if inService (qu_entries q ! i) then 1 else 0)"
    "qu_numEntries q' = qu_numEntries q" "numReserve q' = numReserve q" "numReserveDDIOWrite q' = numReserveDDIOWrite q"
    using qu_deallocate_shape [OF d] by metis
  let ?in = "\<lambda>k. inService (qu_entries q ! k)"
  have in': "inService (qu_entries q' ! k) = ?in k" if "k \<noteq> i" for k using that q'(1) by simp
  have d: "distinct (allocatedList q)" "i < length (qu_entries q)" "i \<notin> set (freeList q)" "set (freeList q) \<union> set (allocatedList q) = {..<length (qu_entries q)}"
    "distinct (freeList q)" "set (freeList q) \<inter> set (allocatedList q) = {}" using q i by (auto simp: q_struct_def)
  have "filter (\<lambda>k. inService (qu_entries q' ! k)) (allocatedList q') = filter ?in (allocatedList q')"
    using q'(2) d(1) by (intro filter_cong) (auto simp: in')
  also have "\<dots> = remove1 i (filter ?in (allocatedList q))" by (simp add: q'(2) filter_remove1)
  finally have cnt: "int (length (filter (\<lambda>k. inService (qu_entries q' ! k)) (allocatedList q'))) = numInService q'"
    using q i q'(6) by (auto simp: q_struct_def int_length_remove1)
  have "set (readyList q') = {k \<in> set (allocatedList q'). \<not> ?in k}" "distinct (readyList q')"
    using q q'(2,4) d(1) by (auto simp: q_struct_def)
  then have ready: "set (readyList q') = {k \<in> set (allocatedList q'). \<not> inService (qu_entries q' ! k)}" "distinct (readyList q')"
    using q'(2) d(1) in' by (auto simp: q'(2))
  have "distinct (freeList q' @ allocatedList q')" "set (freeList q') \<union> set (allocatedList q') = {..<length (qu_entries q')}"
    using d i by (auto simp: q')
  moreover have "allocated q' = int (length (allocatedList q'))"
    using q i by (auto simp: q_struct_def q' int_length_remove1)
  ultimately show ?thesis using q cnt ready by (simp add: q_struct_def q'(1,7,8,9))
qed

text \<open>An entry is sent to the memory side, and comes back to wait again.\<close>

lemma count_insert: "distinct xs \<Longrightarrow> i \<in> set xs \<Longrightarrow> \<not> P i \<Longrightarrow> length (filter (\<lambda>k. k = i \<or> P k) xs) = Suc (length (filter P xs))"
proof (induction xs)
  case (Cons x xs)
  then show ?case
  proof (cases "x = i")
    case True
    then have "filter (\<lambda>k. k = i \<or> P k) xs = filter P xs" using Cons.prems by (intro filter_cong) auto
    then show ?thesis using True Cons.prems by simp
  qed auto
qed simp

lemma q_struct_start:
  assumes q: "q_struct q" and i: "i \<in> set (readyList q)" and e: "inService e"
  shows "q_struct ((on_entry i e q)\<lparr>readyList := remove1 i (readyList q), numInService := numInService q + 1\<rparr>)"
proof -
  note D = q_struct_D [OF q]
  have ia: "i \<in> set (allocatedList q)" "\<not> inService (qu_entries q ! i)" using D(3) i by auto
  have nth: "inService ((qu_entries q)[i := e] ! k) \<longleftrightarrow> k = i \<or> inService (qu_entries q ! k)" for k
    using D(1) [OF ia(1)] e by (cases "k = i") auto
  have "set (remove1 i (readyList q)) = {k \<in> set (allocatedList q). \<not> inService ((qu_entries q)[i := e] ! k)}"
    using q by (auto simp: q_struct_def nth)
  moreover have "int (length (filter (\<lambda>k. inService ((qu_entries q)[i := e] ! k)) (allocatedList q))) = numInService q + 1"
    using q count_insert [OF D(5) ia(1), of "\<lambda>k. inService (qu_entries q ! k)"] ia(2) by (simp add: q_struct_def nth)
  ultimately show ?thesis using q by (auto simp: q_struct_def)
qed

lemma q_struct_requeue:
  assumes q: "q_struct q" and i: "i \<in> set (allocatedList q)" "inService (qu_entries q ! i)" and e: "\<not> inService e"
    and add: "addToReadyList i (on_entry i e (q\<lparr>numInService := numInService q - 1\<rparr>)) = Inr q'"
  shows "q_struct q'"
proof -
  note D = q_struct_D [OF q]
  have nth: "inService (qu_entries q ! k) \<longleftrightarrow> k = i \<or> inService ((qu_entries q)[i := e] ! k)" for k
    using D(1) [OF i(1)] i(2) by (cases "k = i") auto
  have ni: "\<not> inService ((qu_entries q)[i := e] ! i)" using D(1) [OF i(1)] e by simp
  have nr: "i \<notin> set (readyList q)" using D(3) i by blast
  obtain l where l: "q' = (on_entry i e (q\<lparr>numInService := numInService q - 1\<rparr>))\<lparr>readyList := l\<rparr>" "set l = insert i (set (readyList q))" "distinct l"
    using addToReadyList_shape [OF add] D(6) nr by (metis on_entry_sel(4) queue.select_convs(5) queue.surjective queue.update_convs(7))
  have "set l = {k \<in> set (allocatedList q). \<not> inService ((qu_entries q)[i := e] ! k)}"
    using q l(2) i(1) ni nth by (auto simp: q_struct_def)
  moreover have "int (length (filter (\<lambda>k. inService ((qu_entries q)[i := e] ! k)) (allocatedList q))) = numInService q - 1"
    using q count_insert [OF D(5) i(1), of "\<lambda>k. inService ((qu_entries q)[i := e] ! k)"] ni nth by (simp add: q_struct_def)
  ultimately show ?thesis using q l(1,3) by (auto simp: q_struct_def)
qed

text \<open>Free entries have no targets, allocated ones do; \<open>X\<close> holds the entries whose last target is being served.\<close>

definition q_targets :: "('e \<Rightarrow> bool) \<Rightarrow> ('e \<Rightarrow> nat) \<Rightarrow> nat set \<Rightarrow> 'e queue \<Rightarrow> bool" where
  "q_targets hasTargets getNumTargets X q \<longleftrightarrow>
     (\<forall>i\<in>set (freeList q). getNumTargets (qu_entries q ! i) = 0) \<and> (\<forall>i\<in>set (allocatedList q) - X. hasTargets (qu_entries q ! i))"

definition entry_for :: "addr \<Rightarrow> bool \<Rightarrow> bool \<Rightarrow> ('x queue_entry_scheme) queue \<Rightarrow> nat \<Rightarrow> bool" where
  "entry_for blk_addr is_secure ignore_uncacheable q i \<longleftrightarrow>
     (let e = qu_entries q ! i in \<not> (ignore_uncacheable \<and> uncacheable e) \<and> blkAddr e = blk_addr \<and> qe_secure e = is_secure)"

lemma find_first_find: "(\<And>x. x \<in> set xs \<Longrightarrow> P x = Inr (p x)) \<Longrightarrow> find_first P xs = Inr (find p xs)"
  by (induction xs) auto

text \<open>The contract between the template and its entries.\<close>

locale queue_client =
  fixes hasTargets :: "'x queue_entry_scheme \<Rightarrow> bool" and getNumTargets :: "'x queue_entry_scheme \<Rightarrow> nat"
    and dealloc :: "'x queue_entry_scheme \<Rightarrow> 'x queue_entry_scheme result" and e0 :: "'x queue_entry_scheme"
  assumes fresh: "getNumTargets e0 = 0"
    and counted: "getNumTargets e = 0 \<Longrightarrow> \<not> hasTargets e"
    and dealloc_targets: "dealloc e = Inr e' \<Longrightarrow> getNumTargets e' = getNumTargets e"
begin

lemma init: "0 \<le> n + r \<Longrightarrow> 0 \<le> r \<Longrightarrow> q_struct (Queue e0 n r) \<and> q_targets hasTargets getNumTargets {} (Queue e0 n r)"
  using fresh Queue_struct [of n r e0] by (simp add: q_targets_def) (auto simp: Queue_def Let_def)

lemma room:
  assumes "q_struct q" "q_targets hasTargets getNumTargets X q" "\<not> isFull q"
  obtains i free where "freeList q = i # free" "getNumTargets (qu_entries q ! i) = 0" "numReserve q + numReserveDDIOWrite q \<le> int (length free)"
proof -
  have "length (freeList q) + length (allocatedList q) = card (set (freeList q @ allocatedList q))"
    using assms(1) by (subst distinct_card) (auto simp: q_struct_def)
  also have "\<dots> = length (qu_entries q)" using assms(1) by (simp add: q_struct_def)
  finally have "int (length (freeList q)) > numReserve q + numReserveDDIOWrite q"
    using assms(1,3) by (simp add: q_struct_def isFull_def)
  moreover have "0 \<le> numReserve q + numReserveDDIOWrite q" using assms(1) by (simp add: q_struct_def)
  ultimately obtain i free where "freeList q = i # free" "numReserve q + numReserveDDIOWrite q \<le> int (length free)"
    by (cases "freeList q") auto
  then show thesis using assms(2) by (intro that) (auto simp: q_targets_def)
qed

lemma admit:
  assumes "q_struct q" "q_targets hasTargets getNumTargets X q" "freeList q = i # free" "hasTargets e" "\<not> inService e"
    and add: "addToReadyList i (on_entry i e (q\<lparr>freeList := free, allocatedList := allocatedList q @ [i]\<rparr>)) = Inr q'"
  shows "q_struct (q'\<lparr>allocated := allocated q' + 1\<rparr>) \<and> q_targets hasTargets getNumTargets X (q'\<lparr>allocated := allocated q' + 1\<rparr>)"
proof -
  have i: "i < length (qu_entries q)" "i \<notin> set free" using assms(1,3) by (auto simp: q_struct_def)
  obtain l where "q' = on_entry i e (q\<lparr>freeList := free, allocatedList := allocatedList q @ [i]\<rparr>)\<lparr>readyList := l\<rparr>"
    using addToReadyList_shape [OF add] by metis
  then show ?thesis
    using q_struct_admit [OF assms(1,3,5) add] assms(2-4) i by (auto simp: q_targets_def nth_list_update)
qed

lemma release:
  assumes "q_struct q" "q_targets hasTargets getNumTargets (insert i X) q" "i \<in> set (allocatedList q)" "getNumTargets (qu_entries q ! i) = 0"
    and d: "qu_deallocate dealloc i q = Inr (sig, q')"
  shows "q_struct q' \<and> q_targets hasTargets getNumTargets X q'"
proof -
  have i: "i < length (qu_entries q)" "distinct (allocatedList q)" "i \<notin> set (freeList q)" using assms(1,3) by (auto simp: q_struct_def)
  obtain e' where "dealloc (qu_entries q ! i) = Inr e'" "qu_entries q' = (qu_entries q)[i := e']"
    "allocatedList q' = remove1 i (allocatedList q)" "freeList q' = i # freeList q"
    using qu_deallocate_shape [OF d] by metis
  then show ?thesis
    using q_struct_release [OF assms(1,3) d] assms(2,4) i dealloc_targets by (auto simp: q_targets_def nth_list_update)
qed

lemma findMatch_find:
  assumes "q_targets hasTargets getNumTargets {} q"
  shows "findMatch hasTargets a s ig q = Inr (find (entry_for a s ig q) (allocatedList q))"
  unfolding findMatch_def using assms
  by (intro find_first_find) (auto simp: q_targets_def entry_for_def entry_matches_def Let_def)

end


text \<open>The order of the ready list: kept by what enters and leaves.\<close>

lemma ready_sorted_cong:
  assumes "readyList q' = readyList q" "\<And>j. j \<in> set (readyList q) \<Longrightarrow> ready_at q' j = ready_at q j"
  shows "ready_sorted q' = ready_sorted q"
proof -
  have "map (ready_at q') (readyList q) = map (ready_at q) (readyList q)" using assms(2) by simp
  then show ?thesis by (simp only: ready_sorted_def assms(1))
qed

lemma ready_sorted_admit:
  assumes "q_struct q" "ready_sorted q" "freeList q = i # free"
    and add: "addToReadyList i (on_entry i e (q\<lparr>freeList := free, allocatedList := allocatedList q @ [i]\<rparr>)) = Inr q'"
  shows "ready_sorted (q'\<lparr>allocated := allocated q' + 1\<rparr>)"
proof -
  let ?q = "on_entry i e (q\<lparr>freeList := free, allocatedList := allocatedList q @ [i]\<rparr>)"
  have "i \<notin> set (readyList q)" using q_struct_D(3,4) [OF assms(1), of i] assms(3) by simp
  then have "j \<in> set (readyList q) \<Longrightarrow> ready_at ?q j = ready_at q j" for j by (cases "j = i") auto
  then have s: "ready_sorted ?q" using assms(2) ready_sorted_cong [of ?q q] by simp
  obtain l where "q' = ?q\<lparr>readyList := l\<rparr>" "l = ready_insertion (ready_at ?q) i (readyList ?q)"
    using addToReadyList_shape [OF add] s by metis
  moreover have "sorted (map (ready_at ?q) (ready_insertion (ready_at ?q) i (readyList ?q)))"
    using s by (intro ready_insertion_sorted) (simp add: ready_sorted_def)
  ultimately show ?thesis by (simp add: ready_sorted_def)
qed

lemma ready_sorted_release:
  assumes "q_struct q" "ready_sorted q" "i \<in> set (allocatedList q)" and d: "qu_deallocate dealloc i q = Inr (sig, q')"
  shows "ready_sorted q'"
proof -
  obtain e' where q': "qu_entries q' = (qu_entries q)[i := e']"
    "readyList q' = (if inService (qu_entries q ! i) then readyList q else remove1 i (readyList q))"
    using qu_deallocate_shape [OF d] by metis
  have "readyList q' = remove1 i (readyList q)" using q'(2) q_struct_D(3) [OF assms(1), of i] by (simp add: remove1_idem)
  moreover have "i \<notin> set (remove1 i (readyList q))" using q_struct_D(6) [OF assms(1)] by simp
  moreover have "sorted (map (ready_at q) (remove1 i (readyList q)))"
    using assms(2) unfolding ready_sorted_def by (rule sorted_map_remove1)
  ultimately show ?thesis unfolding ready_sorted_def q'(1)
    by (metis (no_types, lifting) map_eq_conv nth_list_update_neq)
qed

lemma getNext_earliest:
  assumes "q_struct q" "ready_sorted q"
  shows "getNext now q = Some i \<Longrightarrow> i \<in> set (readyList q) \<and> ready_at q i \<le> now \<and> (\<forall>j\<in>set (readyList q). ready_at q i \<le> ready_at q j)"
    "getNext now q = None \<Longrightarrow> \<forall>j\<in>set (readyList q). now < ready_at q j"
  using assms(2) by (auto simp: getNext_def ready_sorted_def split: list.splits if_splits)

section \<open>The write buffer\<close>

record write_queue_entry = queue_entry +
  wq_targets :: "base_target list"

definition WriteQueueEntry :: write_queue_entry where
  "WriteQueueEntry = \<lparr>readyTime = 0, uncacheable = False, inService = False, qe_order = 0, blkAddr = 0, blkSize = 0, qe_secure = False, wq_targets = []\<rparr>"

definition wqe_getNumTargets :: "write_queue_entry \<Rightarrow> nat" where
  "wqe_getNumTargets e = length (wq_targets e)"

definition wqe_hasTargets :: "write_queue_entry \<Rightarrow> bool" where
  "wqe_hasTargets e \<longleftrightarrow> wq_targets e \<noteq> []"

definition wqe_allocate :: "tick \<Rightarrow> addr \<Rightarrow> u32 \<Rightarrow> packet \<Rightarrow> tick \<Rightarrow> u64 \<Rightarrow> write_queue_entry \<Rightarrow> write_queue_entry result" where
  "wqe_allocate curTick blk_addr blk_size target when_ready ord e =
     bindR (isSecure target) (\<lambda>sec.
     let unc = isUncacheable (pkt_req target);
         e = e\<lparr>blkAddr := blk_addr, blkSize := blk_size, qe_secure := sec, readyTime := when_ready, qe_order := ord,
               uncacheable := unc, inService := False\<rparr> in
     guardR (unc \<or> wq_targets e = []) Panic_Error
     (guardR (testCmdAttrib (pkt_cmd target) IsWrite \<and> unc \<or> testCmdAttrib (pkt_cmd target) IsEviction \<and> \<not> unc \<or> pkt_cmd target = WriteClean)
        Panic_Error
     (let e = e\<lparr>wq_targets := wq_targets e @ [\<lparr>recvTime = curTick, bt_readyTime = when_ready, bt_order = ord, bt_pkt = target\<rparr>]\<rparr> in
      bindR (matchBlockAddr_pkt target (bt_pkt (hd (wq_targets e))) blk_size) (\<lambda>ok. guardR ok Assert_Failed (Inr e)))))"

definition wqe_deallocate :: "write_queue_entry \<Rightarrow> write_queue_entry result" where
  "wqe_deallocate e = guardR (wq_targets e = []) Assert_Failed (Inr (e\<lparr>inService := False\<rparr>))"

definition wqe_getTarget :: "write_queue_entry \<Rightarrow> base_target result" where
  "wqe_getTarget e = guardR (wqe_hasTargets e) Assert_Failed (Inr (hd (wq_targets e)))"

definition wqe_popTarget :: "write_queue_entry \<Rightarrow> write_queue_entry result" where
  "wqe_popTarget e = guardR (wq_targets e \<noteq> []) Out_Of_Range (Inr (e\<lparr>wq_targets := tl (wq_targets e)\<rparr>))"

text \<open>The functional accesses against the packets of the targets, in order; a write through may change them.\<close>

fun satisfy_targets :: "base_target list \<Rightarrow> packet \<Rightarrow> (bool \<times> packet \<times> base_target list) result" where
  "satisfy_targets [] pkt = Inr (False, pkt, [])"
| "satisfy_targets (t # ts) pkt =
     bindR (trySatisfyFunctional_pkt pkt (bt_pkt t)) (\<lambda>(ok, pkt, p).
     if ok then Inr (True, pkt, t\<lparr>bt_pkt := p\<rparr> # ts)
     else bindR (satisfy_targets ts pkt) (\<lambda>(ok, pkt, ts). Inr (ok, pkt, t\<lparr>bt_pkt := p\<rparr> # ts)))"

definition wqe_trySatisfyFunctional :: "write_queue_entry \<Rightarrow> packet \<Rightarrow> (bool \<times> packet \<times> write_queue_entry) result" where
  "wqe_trySatisfyFunctional e pkt =
     (if testCmdAttrib (pkt_cmd pkt) IsPrint
      then bindR (trySatisfyFunctional pkt (blkAddr e) (qe_secure e) (blkSize e) None) (\<lambda>(_, pkt, _). Inr (False, pkt, e))
      else bindR (satisfy_targets (wq_targets e) pkt) (\<lambda>(ok, pkt, ts). Inr (ok, pkt, e\<lparr>wq_targets := ts\<rparr>)))"

text \<open>The guard of the template: only entries of the block of the packet are asked.\<close>

definition wqe_satisfy :: "write_queue_entry \<Rightarrow> packet \<Rightarrow> (bool \<times> packet \<times> write_queue_entry) result" where
  "wqe_satisfy e pkt = guardR (wqe_hasTargets e) Assert_Failed
     (bindR (matchBlockAddr pkt (blkAddr e) (qe_secure e) (blkSize e)) (\<lambda>m.
      if m then wqe_trySatisfyFunctional e pkt else Inr (False, pkt, e)))"

type_synonym write_queue = "write_queue_entry queue"

definition WriteQueue :: "int \<Rightarrow> int \<Rightarrow> write_queue" where
  "WriteQueue num_entries reserve = Queue WriteQueueEntry num_entries reserve"

definition wq_allocate :: "tick \<Rightarrow> addr \<Rightarrow> u32 \<Rightarrow> packet \<Rightarrow> tick \<Rightarrow> u64 \<Rightarrow> write_queue \<Rightarrow> (nat \<times> write_queue) result" where
  "wq_allocate curTick blk_addr blk_size pkt when_ready ord q =
     qu_allocate wqe_getNumTargets (wqe_allocate curTick blk_addr blk_size pkt when_ready ord) q"

definition wq_markInService :: "nat \<Rightarrow> write_queue \<Rightarrow> (bool \<times> write_queue) result" where
  "wq_markInService i q = bindR (wqe_popTarget (qu_entries q ! i)) (\<lambda>e. qu_deallocate wqe_deallocate i (on_entry i e q))"

section \<open>The write buffer keeps the contract\<close>

interpretation wbuf: queue_client wqe_hasTargets wqe_getNumTargets wqe_deallocate WriteQueueEntry
  by unfold_locales (auto simp: WriteQueueEntry_def wqe_getNumTargets_def wqe_hasTargets_def wqe_deallocate_def)

text \<open>The states of the buffer: an entry is taken to be sent only when it waits in the ready list.\<close>

inductive wq_reachable :: "int \<Rightarrow> int \<Rightarrow> write_queue \<Rightarrow> bool" for n r where
  init: "wq_reachable n r (WriteQueue n r)"
| allocate: "wq_reachable n r q \<Longrightarrow> wq_allocate now a sz pkt t ord q = Inr (i, q') \<Longrightarrow> wq_reachable n r q'"
| markInService: "wq_reachable n r q \<Longrightarrow> i \<in> set (readyList q) \<Longrightarrow> wq_markInService i q = Inr (sig, q') \<Longrightarrow> wq_reachable n r q'"
| functional: "wq_reachable n r q \<Longrightarrow> qu_trySatisfyFunctional wqe_satisfy pkt q = Inr (ok, pkt', q') \<Longrightarrow> wq_reachable n r q'"
| drain: "wq_reachable n r q \<Longrightarrow> qu_drain q = (done, q') \<Longrightarrow> wq_reachable n r q'"
| reserve: "wq_reachable n r q \<Longrightarrow> reserveDDIOWrite q = Inr q' \<Longrightarrow> wq_reachable n r q'"
| unreserve: "wq_reachable n r q \<Longrightarrow> unreserveDDIOWrite q = Inr q' \<Longrightarrow> wq_reachable n r q'"

definition wq_inv :: "write_queue \<Rightarrow> bool" where
  "wq_inv q \<longleftrightarrow> q_struct q \<and> q_targets wqe_hasTargets wqe_getNumTargets {} q \<and> ready_sorted q \<and>
     (\<forall>i\<in>set (allocatedList q). wqe_getNumTargets (qu_entries q ! i) = 1 \<and> \<not> inService (qu_entries q ! i))"

lemma wqe_allocate_ok:
  "wqe_allocate now a sz pkt t ord e = Inr e' \<Longrightarrow> wq_targets e' = wq_targets e @ [\<lparr>recvTime = now, bt_readyTime = t, bt_order = ord, bt_pkt = pkt\<rparr>] \<and> \<not> inService e' \<and>
     readyTime e' = t \<and> blkAddr e' = a \<and> blkSize e' = sz"
  by (auto simp: wqe_allocate_def bindR_Inr_iff Let_def)

lemma qu_allocate_shape:
  assumes "qu_allocate getN alloc q = Inr (i, q')"
  obtains free e q'' where "freeList q = i # free" "getN (qu_entries q ! i) = 0" "alloc (qu_entries q ! i) = Inr e"
    "addToReadyList i (on_entry i e (q\<lparr>freeList := free, allocatedList := allocatedList q @ [i]\<rparr>)) = Inr q''"
    "q' = q''\<lparr>allocated := allocated q'' + 1\<rparr>"
  using assms by (auto simp: qu_allocate_def bindR_Inr_iff Let_def split: list.splits)

lemma wq_inv_allocate:
  assumes "wq_inv q" "wq_allocate now a sz pkt t ord q = Inr (i, q')"
  shows "wq_inv q'"
proof -
  obtain free e q'' where f: "freeList q = i # free" "wqe_getNumTargets (qu_entries q ! i) = 0"
      and e: "wqe_allocate now a sz pkt t ord (qu_entries q ! i) = Inr e"
      and q'': "addToReadyList i (on_entry i e (q\<lparr>freeList := free, allocatedList := allocatedList q @ [i]\<rparr>)) = Inr q''"
      and q': "q' = q''\<lparr>allocated := allocated q'' + 1\<rparr>"
    using assms(2) unfolding wq_allocate_def by (rule qu_allocate_shape)
  have one: "wqe_getNumTargets e = 1" "wqe_hasTargets e" "\<not> inService e"
    using wqe_allocate_ok [OF e] f(2) by (auto simp: wqe_getNumTargets_def wqe_hasTargets_def)
  have i: "i < length (qu_entries q)" using q_struct_D(2) assms(1) f(1) unfolding wq_inv_def by fastforce
  obtain l where "q'' = on_entry i e (q\<lparr>freeList := free, allocatedList := allocatedList q @ [i]\<rparr>)\<lparr>readyList := l\<rparr>"
    using addToReadyList_shape [OF q''] by metis
  then show ?thesis
    using wbuf.admit [OF _ _ f(1) one(2,3) q''] ready_sorted_admit [OF _ _ f(1) q''] assms(1) one i
    by (auto simp: wq_inv_def q' nth_list_update)
qed

lemma wqe_popTarget_last: "wqe_getNumTargets e = 1 \<Longrightarrow> wqe_popTarget e = Inr (e\<lparr>wq_targets := []\<rparr>)"
  by (cases "wq_targets e") (auto simp: wqe_popTarget_def wqe_getNumTargets_def)

lemma wq_markInService_waits:
  assumes "wq_inv q" "i \<in> set (readyList q)"
  obtains sig q' where "wq_markInService i q = Inr (sig, q')" "wq_inv q'" "allocatedList q' = remove1 i (allocatedList q)"
    "freeList q' = i # freeList q" "sig \<longleftrightarrow> draining q \<and> length (allocatedList q) = 1" "draining q' \<longleftrightarrow> draining q \<and> \<not> sig"
proof -
  let ?e = "(qu_entries q ! i)\<lparr>wq_targets := []\<rparr>" and ?q = "on_entry i ((qu_entries q ! i)\<lparr>wq_targets := []\<rparr>) q"
  have q: "q_struct q" "ready_sorted q" and ia: "i \<in> set (allocatedList q)" "\<not> inService (qu_entries q ! i)"
    using assms q_struct_D(3) unfolding wq_inv_def by auto
  have i: "i < length (qu_entries q)" using q_struct_D(1) [OF q(1) ia(1)] .
  have q1: "q_struct ?q" using q(1) by (rule q_struct_on_entry) (cases "qu_entries q ! i", simp)
  have t: "ready_at ?q j = ready_at q j" for j using i by (cases "j = i") auto
  have q2: "ready_sorted ?q" using q(2) ready_sorted_cong [of ?q q] t by simp
  have q3: "q_targets wqe_hasTargets wqe_getNumTargets (insert i {}) ?q"
    using assms(1) ia(1) q_struct_D(4) [OF q(1), of i] i by (auto simp: wq_inv_def q_targets_def nth_list_update)
  have "wqe_deallocate ?e = Inr (?e\<lparr>inService := False\<rparr>)" by (simp add: wqe_deallocate_def)
  then obtain sig q' where d: "qu_deallocate wqe_deallocate i ?q = Inr (sig, q')"
    using i by (auto simp: qu_deallocate_def Let_def)
  have m: "wq_markInService i q = Inr (sig, q')"
    using d assms(1) ia by (simp add: wq_markInService_def wqe_popTarget_last wq_inv_def)
  obtain e' where q': "qu_entries q' = (qu_entries ?q)[i := e']" "allocatedList q' = remove1 i (allocatedList ?q)" "freeList q' = i # freeList ?q"
     "sig \<longleftrightarrow> draining ?q \<and> allocated ?q = 1" "draining q' \<longleftrightarrow> draining ?q \<and> \<not> sig"
    using qu_deallocate_shape [OF d] by metis
  have "q_struct q' \<and> q_targets wqe_hasTargets wqe_getNumTargets {} q'"
    using wbuf.release [OF q1 q3 _ _ d] ia(1) i by (simp add: wqe_getNumTargets_def)
  moreover have "ready_sorted q'" using ready_sorted_release [OF q1 q2 _ d] ia(1) by simp
  moreover have "wqe_getNumTargets (qu_entries q' ! j) = 1 \<and> \<not> inService (qu_entries q' ! j)" if "j \<in> set (allocatedList q')" for j
    using that assms(1) q_struct_D(5) [OF q(1)] q'(1,2) by (auto simp: wq_inv_def)
  ultimately have "wq_inv q'" by (simp add: wq_inv_def)
  then show thesis using that [OF m] q' q(1) by (simp add: q_struct_def)
qed


text \<open>A functional access exchanges packets of the targets and nothing else.\<close>

lemma satisfy_targets_length: "satisfy_targets ts pkt = Inr (ok, pkt', ts') \<Longrightarrow> length ts' = length ts"
proof (induction ts arbitrary: pkt ok pkt' ts')
  case (Cons t ts)
  from Cons.prems obtain p us where "ts' = t\<lparr>bt_pkt := p\<rparr> # us" "us = ts \<or> (\<exists>ok1 pkt1 pkt2. satisfy_targets ts pkt1 = Inr (ok1, pkt2, us))"
    by (auto simp: bindR_Inr_iff split: if_splits) blast
  then show ?case using Cons.IH by auto
qed simp

lemma wqe_satisfy_shape:
  assumes "wqe_satisfy e pkt = Inr (ok, pkt', e')"
  obtains ts where "e' = e\<lparr>wq_targets := ts\<rparr>" "length ts = length (wq_targets e)"
proof -
  have "e' = e \<or> (\<exists>ts. e' = e\<lparr>wq_targets := ts\<rparr> \<and> length ts = length (wq_targets e))"
    using assms by (auto simp: wqe_satisfy_def wqe_trySatisfyFunctional_def bindR_Inr_iff dest: satisfy_targets_length split: if_splits)
  then show thesis
  proof
    assume "e' = e"
    then have "e' = e\<lparr>wq_targets := wq_targets e\<rparr>" by simp
    then show thesis using that by blast
  qed (use that in blast)
qed

lemma wq_inv_retarget:
  assumes "wq_inv q" "length ts = length (wq_targets (qu_entries q ! i))"
  shows "wq_inv (on_entry i ((qu_entries q ! i)\<lparr>wq_targets := ts\<rparr>) q)"
proof (cases "i < length (qu_entries q)")
  case True
  let ?q = "on_entry i ((qu_entries q ! i)\<lparr>wq_targets := ts\<rparr>) q"
  have s: "inService (qu_entries ?q ! j) = inService (qu_entries q ! j)" "ready_at ?q j = ready_at q j"
    "wqe_getNumTargets (qu_entries ?q ! j) = wqe_getNumTargets (qu_entries q ! j)"
    "wqe_hasTargets (qu_entries ?q ! j) = wqe_hasTargets (qu_entries q ! j)" for j
    using True assms(2) by (cases "j = i"; auto simp: wqe_getNumTargets_def wqe_hasTargets_def)+
  have "q_struct ?q" using assms(1) s(1) [of i] True by (intro q_struct_on_entry) (auto simp: wq_inv_def)
  moreover have "ready_sorted ?q" using assms(1) ready_sorted_cong [of ?q q] s(2) by (simp add: wq_inv_def)
  moreover have "q_targets wqe_hasTargets wqe_getNumTargets {} ?q" using assms(1) s(3,4) by (simp add: wq_inv_def q_targets_def)
  ultimately show ?thesis using assms(1) s(1,3) by (simp add: wq_inv_def)
next
  case False
  then have "on_entry i ((qu_entries q ! i)\<lparr>wq_targets := ts\<rparr>) q = q" by (simp add: on_entry_def list_update_beyond)
  then show ?thesis using assms(1) by simp
qed

lemma wq_inv_functional: "wq_inv q \<Longrightarrow> satisfy_entries wqe_satisfy is pkt q = Inr (ok, pkt', q') \<Longrightarrow> wq_inv q'"
proof (induction "is" arbitrary: pkt q)
  case (Cons i "is")
  from Cons.prems(2) obtain ok1 pkt1 e1 where e1: "wqe_satisfy (qu_entries q ! i) pkt = Inr (ok1, pkt1, e1)"
      and rest: "ok1 \<and> q' = on_entry i e1 q \<or> satisfy_entries wqe_satisfy is pkt1 (on_entry i e1 q) = Inr (ok, pkt', q')"
    by (auto simp: bindR_Inr_iff split: if_splits)
  have "wq_inv (on_entry i e1 q)" using wqe_satisfy_shape [OF e1] wq_inv_retarget [OF Cons.prems(1)] by metis
  then show ?case using rest Cons.IH by blast
qed auto

lemma wq_inv_field:
  assumes "wq_inv q" "qu_entries q' = qu_entries q" "allocatedList q' = allocatedList q" "freeList q' = freeList q" "readyList q' = readyList q"
    "allocated q' = allocated q" "numInService q' = numInService q" "qu_numEntries q' = qu_numEntries q" "numReserve q' = numReserve q" "0 \<le> numReserveDDIOWrite q'"
  shows "wq_inv q'"
  using assms by (auto simp: wq_inv_def q_struct_def q_targets_def ready_sorted_def)

lemma wq_reachable_inv: "wq_reachable n r q \<Longrightarrow> 0 \<le> n + r \<Longrightarrow> 0 \<le> r \<Longrightarrow> wq_inv q"
proof (induction rule: wq_reachable.induct)
  case init
  then show ?case using wbuf.init [of n r] by (simp add: wq_inv_def WriteQueue_def ready_sorted_def) (simp add: Queue_def Let_def)
next
  case (allocate q now a sz pkt t ord i q')
  then show ?case using wq_inv_allocate by blast
next
  case (markInService q i sig q')
  then show ?case using wq_markInService_waits [of q i] by (metis Inr_inject prod.inject)
next
  case (functional q pkt ok pkt' q')
  then show ?case using wq_inv_functional unfolding qu_trySatisfyFunctional_def by blast
next
  case (drain q d q')
  have inv: "wq_inv q" using drain by blast
  then have "0 \<le> numReserveDDIOWrite q" by (simp add: wq_inv_def q_struct_def)
  then show ?case using wq_inv_field [OF inv qu_drain_frame(1-8) [OF drain.hyps(2)]] qu_drain_frame(9) [OF drain.hyps(2)] by simp
next
  case (reserve q q')
  then show ?case by (intro wq_inv_field [of q q']) (auto simp: reserveDDIOWrite_def Let_def wq_inv_def q_struct_def)
next
  case (unreserve q q')
  then show ?case by (intro wq_inv_field [of q q']) (auto simp: unreserveDDIOWrite_def Let_def)
qed

text \<open>What is in the buffer is what waits, and the head of the ready list is the first to go.\<close>

lemma wq_inv_ready: "wq_inv q \<Longrightarrow> set (readyList q) = set (allocatedList q)"
  by (auto simp: wq_inv_def q_struct_def)

text \<open>In every reachable state of the write buffer the entry that \<^verbatim>\<open>getNext\<close> offers is ready and no entry
  of the buffer is ready earlier; when it offers none, no entry is ready yet. Marking the offered
  entry in service never fails: it frees exactly that entry, and the end of a drain is
  signalled with the last one.\<close>

lemma write_buffer_next:
  assumes "wq_reachable n r q" "0 \<le> n + r" "0 \<le> r"
  shows "case getNext now q of
      None \<Rightarrow> (\<forall>i\<in>set (allocatedList q). now < ready_at q i)
    | Some i \<Rightarrow> i \<in> set (allocatedList q) \<and> ready_at q i \<le> now \<and> (\<forall>j\<in>set (allocatedList q). ready_at q i \<le> ready_at q j) \<and>
        (\<exists>q'. wq_markInService i q = Inr (draining q \<and> length (allocatedList q) = 1, q') \<and>
           allocatedList q' = remove1 i (allocatedList q) \<and> freeList q' = i # freeList q)"
proof -
  have inv: "wq_inv q" using assms by (rule wq_reachable_inv)
  then have q: "q_struct q" "ready_sorted q" by (auto simp: wq_inv_def)
  show ?thesis
  proof (cases "getNext now q")
    case None
    then show ?thesis using getNext_earliest(2) [OF q None] wq_inv_ready [OF inv] by simp
  next
    case (Some i)
    note e = getNext_earliest(1) [OF q Some]
    obtain sig q' where "wq_markInService i q = Inr (sig, q')" "allocatedList q' = remove1 i (allocatedList q)"
      "freeList q' = i # freeList q" "sig \<longleftrightarrow> draining q \<and> length (allocatedList q) = 1"
      using wq_markInService_waits [OF inv, of i] e by metis
    then show ?thesis using Some e wq_inv_ready [OF inv] by simp
  qed
qed

definition victim_line :: packet where
  "victim_line = \<lparr>pkt_cmd = WritebackDirty, pkt_flags = 0x300, pkt_req = \<lparr>req_flags = 0, req_paddr = Some 0x1000, req_size = Some 64, req_masked = False\<rparr>,
     pkt_addr = 0x1000, pkt_secure = False, pkt_size = 64, pkt_data = None, bytesValid = [], is_prefetch_hint_pkt = False,
     ddio_prefetch_destination = -1, is_block_io = False, is_ddio_pkt = False, is_ddio_header = False\<rparr>"

lemma victim_line_allocated:
  "case wq_allocate 5 0x1000 64 victim_line 7 1 (WriteQueue 2 1) of Inl _ \<Rightarrow> False
   | Inr (i, q) \<Rightarrow> i = 0 \<and> getNext 9 q = Some 0 \<and> allocatedList q = [0] \<and> \<not> draining q \<and> freeList q = [1, 2]"
  by code_simp

lemma write_buffer_next_witness:
  "\<exists>q q'. wq_reachable 2 1 q \<and> getNext 9 q = Some 0 \<and> wq_markInService 0 q = Inr (False, q') \<and> allocatedList q' = [] \<and> freeList q' = [0, 1, 2]"
proof -
  obtain q where q: "wq_allocate 5 0x1000 64 victim_line 7 1 (WriteQueue 2 1) = Inr (0, q)" "getNext 9 q = Some 0"
      "allocatedList q = [0]" "\<not> draining q" "freeList q = [1, 2]"
    using victim_line_allocated by (auto split: sum.splits prod.splits)
  have "wq_reachable 2 1 q" using wq_reachable.allocate [OF wq_reachable.init q(1)] .
  then show ?thesis using write_buffer_next [of 2 1 q 9] q by auto
qed

text \<open>Insertion and search.\<close>

lemma wqe_allocate_fresh: "wqe_getNumTargets e = 0 \<Longrightarrow> wqe_allocate now a sz pkt t ord e = wqe_allocate now a sz pkt t ord WriteQueueEntry"
  by (cases e) (simp add: wqe_allocate_def wqe_getNumTargets_def WriteQueueEntry_def Let_def)

lemma wq_allocate_room:
  assumes "wq_inv q" "\<not> isFull q" "wqe_allocate now a sz pkt t ord WriteQueueEntry = Inr e"
  obtains i q' where "wq_allocate now a sz pkt t ord q = Inr (i, q')" "i \<notin> set (allocatedList q)" "wq_inv q'"
    "allocatedList q' = allocatedList q @ [i]" "qu_entries q' = (qu_entries q)[i := e]" "i < length (qu_entries q)"
proof -
  have q: "q_struct q" "q_targets wqe_hasTargets wqe_getNumTargets {} q" using assms(1) by (simp_all add: wq_inv_def)
  obtain i free where f: "freeList q = i # free" "wqe_getNumTargets (qu_entries q ! i) = 0"
    using wbuf.room [OF q assms(2)] by metis
  let ?q = "on_entry i e (q\<lparr>freeList := free, allocatedList := allocatedList q @ [i]\<rparr>)"
  obtain q'' where q'': "addToReadyList i ?q = Inr q''" using addToReadyList_total by blast
  then obtain l where l: "q'' = ?q\<lparr>readyList := l\<rparr>" using addToReadyList_shape by metis
  have a: "wq_allocate now a sz pkt t ord q = Inr (i, q''\<lparr>allocated := allocated q'' + 1\<rparr>)"
    using f assms(3) q'' by (simp add: wq_allocate_def qu_allocate_def wqe_allocate_fresh [of "qu_entries q ! i"])
  show thesis
    using that [OF a] wq_inv_allocate [OF assms(1) a] f(1) q_struct_D(2,4) [OF q(1), of i] by (simp add: l)
qed

text \<open>In every reachable state of the write buffer that is not full, a write that the entry accepts is
  allocated. When its block had no entry before, a search finds the new entry from now on, and the searches
  for all other blocks have the results they had.\<close>

lemma write_buffer_allocate_find:
  assumes "wq_reachable n r q" "0 \<le> n + r" "0 \<le> r" "\<not> isFull q"
    and "wqe_allocate now a sz pkt t ord WriteQueueEntry = Inr e" "findMatch wqe_hasTargets a (qe_secure e) False q = Inr None"
  shows "\<exists>i q'. wq_allocate now a sz pkt t ord q = Inr (i, q') \<and> findMatch wqe_hasTargets a (qe_secure e) False q' = Inr (Some i) \<and>
     (\<forall>b s. (b, s) \<noteq> (a, qe_secure e) \<longrightarrow> findMatch wqe_hasTargets b s False q' = findMatch wqe_hasTargets b s False q)"
proof -
  have inv: "wq_inv q" using assms(1-3) by (rule wq_reachable_inv)
  obtain i q' where q': "wq_allocate now a sz pkt t ord q = Inr (i, q')" "i \<notin> set (allocatedList q)" "wq_inv q'"
      "allocatedList q' = allocatedList q @ [i]" "qu_entries q' = (qu_entries q)[i := e]" "i < length (qu_entries q)"
    using wq_allocate_room [OF inv assms(4,5)] .
  have fm: "findMatch wqe_hasTargets b s False q = Inr (find (entry_for b s False q) (allocatedList q))"
    "findMatch wqe_hasTargets b s False q' = Inr (find (entry_for b s False q') (allocatedList q @ [i]))" for b s
    using inv q'(3,4) by (simp_all add: wbuf.findMatch_find wq_inv_def)
  have old: "find (entry_for b s False q') (allocatedList q) = find (entry_for b s False q) (allocatedList q)" for b s
  proof (intro find_cong)
    fix x assume "x \<in> set (allocatedList q)"
    then have "x \<noteq> i" using q'(2) by blast
    then show "entry_for b s False q' x = entry_for b s False q x" using q'(5) by (simp add: entry_for_def)
  qed simp
  have e: "entry_for b s False q' i \<longleftrightarrow> (b, s) = (a, qe_secure e)" for b s
    using q'(5,6) wqe_allocate_ok [OF assms(5)] by (auto simp: entry_for_def)
  have app: "find P (xs @ [i]) = (case find P xs of None \<Rightarrow> if P i then Some i else None | Some y \<Rightarrow> Some y)" for P :: "nat \<Rightarrow> bool" and xs
    by (induction xs) auto
  show ?thesis using q'(1) assms(6) by (intro exI [of _ i] exI [of _ q']) (auto simp: fm app old e split: option.splits)
qed

lemma write_buffer_allocate_find_witness:
  "\<exists>i q'. wq_allocate 5 0x1000 64 victim_line 7 1 (WriteQueue 2 1) = Inr (i, q') \<and> findMatch wqe_hasTargets 0x1000 False False q' = Inr (Some i)"
proof -
  have "case wqe_allocate 5 0x1000 64 victim_line 7 1 WriteQueueEntry of Inl _ \<Rightarrow> False | Inr e \<Rightarrow> \<not> qe_secure e" by code_simp
  then obtain e where e: "wqe_allocate 5 0x1000 64 victim_line 7 1 WriteQueueEntry = Inr e" "\<not> qe_secure e" by (auto split: sum.splits)
  have "\<not> isFull (WriteQueue 2 1)" "findMatch wqe_hasTargets 0x1000 False False (WriteQueue 2 1) = Inr None"
    by (simp_all add: WriteQueue_def Queue_def isFull_def findMatch_def)
  then show ?thesis
    using write_buffer_allocate_find [OF wq_reachable.init [of 2 1] _ _ _ e(1)] e(2) by auto
qed

end
