(* ===== verification/Mshr.thy ===== *)
theory Mshr
  imports Cache_Queue
begin

text \<open>
  \<^verbatim>\<open>src/gem5/src/mem/cache/mshr.cc\<close> and \<^verbatim>\<open>mshr_queue.cc\<close>: the miss status registers of a cache and
  their queue. A register collects the requests (targets) that wait for one block; requests it cannot
  serve with the response under way are deferred. A request that comes from another cache
  carries that cache's register on its sender state stack: the target records its
  identity, and the calls to it, which set and clear its \<^verbatim>\<open>downstreamPending\<close>, are results
  of the operations, applied to the registers of all caches by \<open>apply_upstream\<close>.
  \<open>mshr_run\<close> is the life of one register, \<open>mq_reachable\<close> the states of the queue with the calls the cache makes;
  the contract \<open>queue_client\<close> is interpreted for the registers. Printing and sending a packet through the
  cache are not modelled.
\<close>

section \<open>Targets\<close>

datatype source = FromCPU | FromSnoop | FromPrefetcher

record target =
  tg_recvTime :: tick
  tg_readyTime :: tick
  tg_order :: u64
  tg_pkt :: packet
  tg_sender :: "nat option"
  tg_source :: source
  markedPending :: bool
  tg_allocOnFill :: bool

record target_list =
  tl_list :: "target list"
  tl_needsWritable :: bool
  hasUpgrade :: bool
  tl_allocOnFill :: bool
  tl_hasFromCache :: bool
  tl_blkAddr :: addr
  tl_blkSize :: addr
  canMergeWrites :: bool
  writesBitmap :: "bool list"

datatype upstream = MarkPending nat | ClearPending nat

abbreviation pk_needsWritable :: "packet \<Rightarrow> bool" where
  "pk_needsWritable p \<equiv> testCmdAttrib (pkt_cmd p) NeedsWritable"

abbreviation pk_isInvalidate :: "packet \<Rightarrow> bool" where
  "pk_isInvalidate p \<equiv> testCmdAttrib (pkt_cmd p) IsInvalidate"

definition TargetList :: target_list where
  "TargetList = \<lparr>tl_list = [], tl_needsWritable = False, hasUpgrade = False, tl_allocOnFill = False, tl_hasFromCache = False,
     tl_blkAddr = 0, tl_blkSize = 0, canMergeWrites = False, writesBitmap = []\<rparr>"

definition resetFlags :: "target_list \<Rightarrow> target_list" where
  "resetFlags l = l\<lparr>canMergeWrites := True, writesBitmap := replicate (length (writesBitmap l)) False,
     tl_needsWritable := False, hasUpgrade := False, tl_allocOnFill := False, tl_hasFromCache := False\<rparr>"

definition resize_bitmap :: "nat \<Rightarrow> 'a \<Rightarrow> 'a list \<Rightarrow> 'a list" where
  "resize_bitmap n x xs = take n xs @ replicate (n - length xs) x"

definition tl_init :: "addr \<Rightarrow> addr \<Rightarrow> target_list \<Rightarrow> target_list" where
  "tl_init blk_addr blk_size l =
     resetFlags (l\<lparr>tl_blkAddr := blk_addr, tl_blkSize := blk_size, writesBitmap := resize_bitmap (unat blk_size) False (writesBitmap l)\<rparr>)"


definition tl_isWholeLineWrite :: "target_list \<Rightarrow> bool" where
  "tl_isWholeLineWrite l = list_all (\<lambda>b. b) (writesBitmap l)"

definition no_merge_flags :: u64 where
  "no_merge_flags = UNCACHEABLE OR STRICT_ORDER OR PRIVILEGED OR LLSC OR MEM_SWAP OR MEM_SWAP_COND OR REQ_SECURE"

definition fill :: "nat \<Rightarrow> nat \<Rightarrow> bool list \<Rightarrow> bool list result" where
  "fill off n bm = guardR (off + n \<le> length bm) Out_Of_Range (Inr (take off bm @ replicate n True @ drop (off + n) bm))"

definition updateWriteFlags :: "packet \<Rightarrow> target_list \<Rightarrow> target_list result" where
  "updateWriteFlags pkt l =
     (if tl_isWholeLineWrite l \<or> \<not> canMergeWrites l then Inr l
      else if \<not> testCmdAttrib (pkt_cmd pkt) IsWrite then Inr (l\<lparr>canMergeWrites := False\<rparr>)
      else (let compat_write = \<not> isSet (req_flags (pkt_req pkt)) no_merge_flags; first_write = (tl_list l = []) in
        bindR (if first_write \<or> compat_write
               then bindR (pkt_getOffset pkt (ucast (tl_blkSize l))) (\<lambda>off. bindR (getSize pkt) (\<lambda>sz. fill (unat off) (unat sz) (writesBitmap l)))
               else Inr (writesBitmap l)) (\<lambda>bm.
        Inr (l\<lparr>writesBitmap := bm, canMergeWrites := compat_write\<rparr>))))"

definition updateFlags :: "packet \<Rightarrow> source \<Rightarrow> bool \<Rightarrow> target_list \<Rightarrow> target_list result" where
  "updateFlags pkt src alloc_on_fill l =
     (if src = FromSnoop then Inr l
      else (let l = (if pk_needsWritable pkt then l\<lparr>tl_needsWritable := True\<rparr> else l);
                l = (if testCmdAttrib (pkt_cmd pkt) IsUpgrade \<or> pkt_cmd pkt = StoreCondReq then l\<lparr>hasUpgrade := True\<rparr> else l);
                l = l\<lparr>tl_allocOnFill := tl_allocOnFill l \<or> alloc_on_fill\<rparr>
            in if src = FromPrefetcher then Inr l
               else updateWriteFlags pkt (l\<lparr>tl_hasFromCache := tl_hasFromCache l \<or> testCmdAttrib (pkt_cmd pkt) FromCache\<rparr>)))"

fun update_all :: "target list \<Rightarrow> target_list \<Rightarrow> target_list result" where
  "update_all [] l = Inr l"
| "update_all (t # ts) l = bindR (updateFlags (tg_pkt t) (tg_source t) (tg_allocOnFill t) l) (update_all ts)"

definition populateFlags :: "target_list \<Rightarrow> target_list result" where
  "populateFlags l = update_all (tl_list l) (resetFlags l)"

definition tl_add :: "tick \<Rightarrow> packet \<Rightarrow> nat option \<Rightarrow> tick \<Rightarrow> u64 \<Rightarrow> source \<Rightarrow> bool \<Rightarrow> bool \<Rightarrow> target_list \<Rightarrow> (target_list \<times> upstream list) result" where
  "tl_add curTick pkt sender ready ord src markPending alloc_on_fill l =
     bindR (updateFlags pkt src alloc_on_fill l) (\<lambda>l.
     let mark = (markPending \<and> sender \<noteq> None);
         t = \<lparr>tg_recvTime = curTick, tg_readyTime = ready, tg_order = ord, tg_pkt = pkt, tg_sender = sender, tg_source = src,
              markedPending = mark, tg_allocOnFill = alloc_on_fill\<rparr>
     in Inr (l\<lparr>tl_list := tl_list l @ [t]\<rparr>, if mark then [MarkPending (the sender)] else []))"

definition replaceUpgrade :: "(nat \<Rightarrow> u8) \<Rightarrow> packet \<Rightarrow> packet result" where
  "replaceUpgrade mem pkt =
     (let has_data = hasData pkt \<or> hasRespData pkt;
          pkt = (if pkt_cmd pkt = UpgradeReq then pkt\<lparr>pkt_cmd := ReadExReq\<rparr>
                 else if pkt_cmd pkt = SCUpgradeReq then pkt\<lparr>pkt_cmd := SCUpgradeFailReq\<rparr>
                 else if pkt_cmd pkt = StoreCondReq then pkt\<lparr>pkt_cmd := StoreCondFailReq\<rparr> else pkt)
      in if \<not> has_data then guardR (\<not> hasData pkt) Assert_Failed (if hasRespData pkt then pkt_allocate mem pkt else Inr pkt) else Inr pkt)"

fun replace_all :: "(nat \<Rightarrow> u8) \<Rightarrow> target list \<Rightarrow> target list result" where
  "replace_all mem [] = Inr []"
| "replace_all mem (t # ts) = bindR (replaceUpgrade mem (tg_pkt t)) (\<lambda>p. bindR (replace_all mem ts) (\<lambda>ts. Inr (t\<lparr>tg_pkt := p\<rparr> # ts)))"

definition replaceUpgrades :: "(nat \<Rightarrow> u8) \<Rightarrow> target_list \<Rightarrow> target_list result" where
  "replaceUpgrades mem l = (if \<not> hasUpgrade l then Inr l
     else bindR (replace_all mem (tl_list l)) (\<lambda>ts. Inr (l\<lparr>tl_list := ts, hasUpgrade := False\<rparr>)))"

text \<open>The calls to the registers above, and the targets with their marks cleared.\<close>

definition clear_marks :: "target list \<Rightarrow> target list \<times> upstream list" where
  "clear_marks ts = (map (\<lambda>t. t\<lparr>markedPending := False\<rparr>) ts,
     concat (map (\<lambda>t. case tg_sender t of Some j \<Rightarrow> if markedPending t then [ClearPending j] else [] | None \<Rightarrow> []) ts))"

fun satisfy_mshr_targets :: "target list \<Rightarrow> packet \<Rightarrow> (bool \<times> packet \<times> target list) result" where
  "satisfy_mshr_targets [] pkt = Inr (False, pkt, [])"
| "satisfy_mshr_targets (t # ts) pkt =
     bindR (trySatisfyFunctional_pkt pkt (tg_pkt t)) (\<lambda>(ok, pkt, p).
     if ok then Inr (True, pkt, t\<lparr>tg_pkt := p\<rparr> # ts)
     else bindR (satisfy_mshr_targets ts pkt) (\<lambda>(ok, pkt, ts). Inr (ok, pkt, t\<lparr>tg_pkt := p\<rparr> # ts)))"

section \<open>Miss status registers\<close>

record mshr = queue_entry +
  downstreamPending :: bool
  pendingModified :: bool
  postInvalidate :: bool
  postDowngrade :: bool
  wasWholeLineWrite :: bool
  isForward :: bool
  wasBlockIO :: bool
  qid_from_dev :: int
  ms_is_ddio_pkt :: bool
  is_header :: bool
  targets :: target_list
  deferredTargets :: target_list

definition MSHR :: mshr where
  "MSHR = \<lparr>readyTime = 0, uncacheable = False, inService = False, qe_order = 0, blkAddr = 0, blkSize = 0, qe_secure = False,
     downstreamPending = False, pendingModified = False, postInvalidate = False, postDowngrade = False, wasWholeLineWrite = False,
     isForward = False, wasBlockIO = False, qid_from_dev = 0, ms_is_ddio_pkt = False, is_header = False,
     targets = TargetList, deferredTargets = TargetList\<rparr>"

abbreviation tgts :: "mshr \<Rightarrow> target list" where "tgts m \<equiv> tl_list (targets m)"
abbreviation dtgts :: "mshr \<Rightarrow> target list" where "dtgts m \<equiv> tl_list (deferredTargets m)"

definition ms_needsWritable :: "mshr \<Rightarrow> bool" where "ms_needsWritable m = tl_needsWritable (targets m)"
definition ms_allocOnFill :: "mshr \<Rightarrow> bool" where "ms_allocOnFill m = tl_allocOnFill (targets m)"
definition ms_hasFromCache :: "mshr \<Rightarrow> bool" where "ms_hasFromCache m = tl_hasFromCache (targets m)"
definition ms_isWholeLineWrite :: "mshr \<Rightarrow> bool" where "ms_isWholeLineWrite m = tl_isWholeLineWrite (targets m)"
definition hasTargets :: "mshr \<Rightarrow> bool" where "hasTargets m \<longleftrightarrow> tgts m \<noteq> []"
definition getNumTargets :: "mshr \<Rightarrow> nat" where "getNumTargets m = length (tgts m) + length (dtgts m)"

definition front_pkt :: "mshr \<Rightarrow> packet result" where
  "front_pkt m = guardR (tgts m \<noteq> []) Out_Of_Range (Inr (tg_pkt (hd (tgts m))))"

definition isCleaning :: "mshr \<Rightarrow> bool result" where
  "isCleaning m = bindR (front_pkt m) (\<lambda>p. Inr (testCmdAttrib (pkt_cmd p) IsClean))"

definition isPendingModified :: "mshr \<Rightarrow> bool result" where
  "isPendingModified m = guardR (inService m) Assert_Failed (Inr (pendingModified m))"

definition hasPostInvalidate :: "mshr \<Rightarrow> bool result" where
  "hasPostInvalidate m = guardR (inService m) Assert_Failed (Inr (postInvalidate m))"

definition hasPostDowngrade :: "mshr \<Rightarrow> bool result" where
  "hasPostDowngrade m = guardR (inService m) Assert_Failed (Inr (postDowngrade m))"

definition getTarget :: "mshr \<Rightarrow> target result" where
  "getTarget m = guardR (hasTargets m) Assert_Failed (Inr (hd (tgts m)))"

definition popTarget :: "mshr \<Rightarrow> mshr result" where
  "popTarget m = guardR (tgts m \<noteq> []) Out_Of_Range (Inr (m\<lparr>targets := (targets m)\<lparr>tl_list := tl (tgts m)\<rparr>\<rparr>))"

definition ms_delay :: "tick \<Rightarrow> tick \<Rightarrow> mshr \<Rightarrow> mshr result" where
  "ms_delay curTick delay_ticks m = guardR (readyTime m \<le> curTick) Assert_Failed (Inr (m\<lparr>readyTime := curTick + delay_ticks\<rparr>))"

definition ms_allocate :: "tick \<Rightarrow> addr \<Rightarrow> u32 \<Rightarrow> packet \<Rightarrow> nat option \<Rightarrow> tick \<Rightarrow> u64 \<Rightarrow> bool \<Rightarrow> mshr \<Rightarrow> (mshr \<times> upstream list) result" where
  "ms_allocate curTick blk_addr blk_size pkt sender when_ready ord alloc_on_fill m =
     bindR (isSecure pkt) (\<lambda>sec.
     let m = m\<lparr>blkAddr := blk_addr, blkSize := blk_size, qe_secure := sec, readyTime := when_ready, qe_order := ord,
               isForward := False, wasWholeLineWrite := False, uncacheable := isUncacheable (pkt_req pkt), inService := False,
               downstreamPending := False, wasBlockIO := isBlockIO pkt, qid_from_dev := ddio_prefetch_destination pkt,
               is_header := isDdioHeader pkt, ms_is_ddio_pkt := is_ddio_pkt pkt,
               targets := tl_init blk_addr (ucast blk_size) (targets m), deferredTargets := tl_init blk_addr (ucast blk_size) (deferredTargets m)\<rparr>;
         src = (if pkt_cmd pkt = HardPFReq then FromPrefetcher else FromCPU) in
     bindR (tl_add curTick pkt sender when_ready ord src True alloc_on_fill (targets m)) (\<lambda>(l, eff).
     let m = m\<lparr>targets := l\<rparr> in
     bindR (matchBlockAddr_pkt pkt (tg_pkt (hd (tl_list l))) blk_size) (\<lambda>ok. guardR ok Assert_Failed (Inr (m, eff)))))"

definition clear_targets :: "mshr \<Rightarrow> mshr \<times> upstream list" where
  "clear_targets m = (let (ts, eff) = clear_marks (tgts m) in (m\<lparr>targets := (targets m)\<lparr>tl_list := ts\<rparr>\<rparr>, eff))"

definition clearDownstreamPending :: "mshr \<Rightarrow> (mshr \<times> upstream list) result" where
  "clearDownstreamPending m = guardR (downstreamPending m) Assert_Failed (Inr (clear_targets (m\<lparr>downstreamPending := False\<rparr>)))"

definition ms_markInService :: "bool \<Rightarrow> mshr \<Rightarrow> (mshr \<times> upstream list) result" where
  "ms_markInService pending_modified_resp m =
     guardR (\<not> inService m) Assert_Failed
     (let m = m\<lparr>inService := True, pendingModified := tl_needsWritable (targets m) \<or> pending_modified_resp,
                postInvalidate := False, postDowngrade := False\<rparr>;
          (m, eff) = (if \<not> downstreamPending m then clear_targets m else (m, []))
      in Inr (m\<lparr>wasWholeLineWrite := ms_isWholeLineWrite m\<rparr>, eff))"


text \<open>Whether a new target has to wait for another request.\<close>

definition must_defer :: "packet \<Rightarrow> packet \<Rightarrow> mshr \<Rightarrow> bool" where
  "must_defer pkt tgt_pkt m \<longleftrightarrow> isCacheMaintenance (pkt_req pkt) \<or> isCacheMaintenance (pkt_req tgt_pkt) \<or> dtgts m \<noteq> [] \<or>
     inService m \<and> (postInvalidate m \<or> pk_needsWritable pkt \<and> (\<not> pendingModified m \<or> postDowngrade m \<or> isForward m))"

definition allocateTarget :: "(nat \<Rightarrow> u8) \<Rightarrow> tick \<Rightarrow> packet \<Rightarrow> nat option \<Rightarrow> tick \<Rightarrow> u64 \<Rightarrow> bool \<Rightarrow> mshr \<Rightarrow> (mshr \<times> upstream list) result" where
  "allocateTarget mem curTick pkt sender whenReady ord alloc_on_fill m =
     guardR (pkt_cmd pkt \<noteq> HardPFReq) Assert_Failed
     (bindR (front_pkt m) (\<lambda>tgt_pkt.
      if must_defer pkt tgt_pkt m
      then bindR (if inService m \<and> postInvalidate m then replaceUpgrade mem pkt else Inr pkt) (\<lambda>pkt.
           bindR (tl_add curTick pkt sender whenReady ord FromCPU True alloc_on_fill (deferredTargets m)) (\<lambda>(l, eff).
           Inr (m\<lparr>deferredTargets := l\<rparr>, eff)))
      else bindR (tl_add curTick pkt sender whenReady ord FromCPU (\<not> inService m) alloc_on_fill (targets m)) (\<lambda>(l, eff).
           Inr (m\<lparr>targets := l\<rparr>, eff))))"

text \<open>The copy of a snooped packet that is replayed after the response; its sender state is that of
  the packet only when the packet itself is copied.\<close>

definition snoop_copy :: "bool \<Rightarrow> (nat \<Rightarrow> u8) \<Rightarrow> bool \<Rightarrow> packet \<Rightarrow> mshr \<Rightarrow> packet result" where
  "snoop_copy undef mem will_respond pkt m =
     (if will_respond then Packet_copy undef mem pkt True True else Inr (Packet_blk undef (pkt_req pkt) (pkt_cmd pkt) (blkSize m)))"

text \<open>A snoop that the request under way precedes: the answer, the packet with its new flags, the
  register and the calls to other registers.\<close>

definition snoop_in_service :: "bool \<Rightarrow> (nat \<Rightarrow> u8) \<Rightarrow> tick \<Rightarrow> packet \<Rightarrow> nat option \<Rightarrow> u64 \<Rightarrow> mshr \<Rightarrow> (bool \<times> packet \<times> mshr \<times> upstream list) result" where
  "snoop_in_service undef mem curTick pkt sender ord m =
     (let will_respond = (pendingModified m \<and> testCmdAttrib (pkt_cmd pkt) NeedsResponse \<and> \<not> testCmdAttrib (pkt_cmd pkt) IsClean) in
      bindR (if pendingModified m \<or> pk_isInvalidate pkt
             then bindR (snoop_copy undef mem will_respond pkt m) (\<lambda>cp_pkt.
                  bindR (if will_respond then bindR (setCacheResponding pkt) setResponderHadWritable
                         else if pendingModified m \<and> testCmdAttrib (pkt_cmd pkt) IsClean then setSatisfied pkt else Inr pkt) (\<lambda>pkt.
                  bindR (tl_add curTick cp_pkt (if will_respond then sender else None) curTick ord FromSnoop
                           (downstreamPending m \<and> tl_needsWritable (targets m)) False (targets m)) (\<lambda>(l, eff).
                  let m = m\<lparr>targets := l\<rparr> in
                  Inr (pkt, if pk_needsWritable pkt \<or> pk_isInvalidate pkt then m\<lparr>postInvalidate := True\<rparr> else m, eff))))
             else Inr (pkt, m, [])) (\<lambda>(pkt, m, eff).
      Inr (if \<not> pk_needsWritable pkt \<and> \<not> isUncacheable (pkt_req pkt)
           then (will_respond, setHasSharers pkt, m\<lparr>postDowngrade := True\<rparr>, eff) else (will_respond, pkt, m, eff))))"

definition ms_handleSnoop :: "bool \<Rightarrow> (nat \<Rightarrow> u8) \<Rightarrow> tick \<Rightarrow> packet \<Rightarrow> nat option \<Rightarrow> u64 \<Rightarrow> mshr \<Rightarrow> (bool \<times> packet \<times> mshr \<times> upstream list) result" where
  "ms_handleSnoop undef mem curTick pkt sender ord m =
     guardR (pk_needsWritable pkt = pk_isInvalidate pkt \<or> isCacheMaintenance (pkt_req pkt)) Panic_Error
     (let invalidating = (pk_needsWritable pkt \<or> isCacheInvalidate (pkt_req pkt)) in
      if \<not> inService m \<or> isExpressSnoop pkt \<and> downstreamPending m
      then (if invalidating
            then bindR (replaceUpgrades mem (targets m)) (\<lambda>l. bindR (replaceUpgrades mem (deferredTargets m)) (\<lambda>d.
                 Inr (False, pkt, m\<lparr>targets := l, deferredTargets := d\<rparr>, [])))
            else Inr (False, pkt, m, []))
      else bindR (if invalidating then replaceUpgrades mem (deferredTargets m) else Inr (deferredTargets m)) (\<lambda>d.
        let m = m\<lparr>deferredTargets := d\<rparr> in
        bindR (front_pkt m) (\<lambda>tgt_pkt.
        if postInvalidate m \<or> isCacheInvalidate (pkt_req tgt_pkt) then Inr (True, pkt, m, [])
        else snoop_in_service undef mem curTick pkt sender ord m)))"

fun split_snoops :: "target list \<Rightarrow> (target list \<times> target list) result" where
  "split_snoops [] = Inr ([], [])"
| "split_snoops (t # ts) =
     (if tg_source t = FromCPU then bindR (split_snoops ts) (\<lambda>(snoops, rest). Inr (snoops, t # rest))
      else guardR (tg_source t = FromSnoop) Assert_Failed (bindR (split_snoops ts) (\<lambda>(snoops, rest). Inr (t # snoops, rest))))"

definition extractServiceableTargets :: "packet \<Rightarrow> mshr \<Rightarrow> (target_list \<times> mshr) result" where
  "extractServiceableTargets pkt m =
     (let ready = tl_init (blkAddr m) (ucast (blkSize m)) TargetList in
      bindR (if pkt_cmd pkt = ReadRespWithInvalidate
             then (case tgts m of [] \<Rightarrow> Inl Out_Of_Range
                   | t # ts \<Rightarrow> guardR (tg_source t = FromCPU \<or> tg_source t = FromPrefetcher) Assert_Failed
                       (bindR (split_snoops ts) (\<lambda>(snoops, rest).
                        bindR (populateFlags (ready\<lparr>tl_list := t # snoops\<rparr>)) (\<lambda>r. Inr (r, (targets m)\<lparr>tl_list := rest\<rparr>)))))
             else Inr (targets m, ready)) (\<lambda>(ready, l).
      bindR (populateFlags l) (\<lambda>l. Inr (ready, m\<lparr>targets := l\<rparr>))))"

definition promoteDeferredTargets :: "tick \<Rightarrow> mshr \<Rightarrow> (bool \<times> mshr) result" where
  "promoteDeferredTargets curTick m =
     (if tgts m = [] \<and> dtgts m = [] then Inr (False, m)
      else (let p = (\<lambda>t. \<not> isCacheMaintenance (pkt_req (tg_pkt t)));
                before = takeWhile p (dtgts m);
                (ts, ds) = (if before = [] \<and> dtgts m \<noteq> []
                            then (if tgts m = [] then (take 1 (dtgts m), tl (dtgts m)) else (tgts m, dtgts m))
                            else (tgts m @ before, dropWhile p (dtgts m))) in
            bindR (populateFlags ((deferredTargets m)\<lparr>tl_list := ds\<rparr>)) (\<lambda>d.
            bindR (populateFlags ((targets m)\<lparr>tl_list := ts\<rparr>)) (\<lambda>l.
            guardR (ts \<noteq> []) Out_Of_Range
            (Inr (True, m\<lparr>deferredTargets := d, targets := l, qe_order := tg_order (hd ts), readyTime := max curTick (tg_readyTime (hd ts))\<rparr>))))))"

text \<open>The scan for the end of the prefix asserts the source of each target it looks at.\<close>

fun promote_prefix :: "(target \<Rightarrow> bool) \<Rightarrow> target list \<Rightarrow> (target list \<times> target list) result" where
  "promote_prefix p [] = Inr ([], [])"
| "promote_prefix p (t # ts) = guardR (tg_source t = FromCPU) Assert_Failed
     (if p t then bindR (promote_prefix p ts) (\<lambda>(a, b). Inr (t # a, b)) else Inr ([], t # ts))"

definition promoteIf :: "(target \<Rightarrow> bool) \<Rightarrow> mshr \<Rightarrow> (mshr \<times> upstream list) result" where
  "promoteIf p m =
     guardR (\<not> downstreamPending m) Assert_Failed
     (bindR (promote_prefix p (dtgts m)) (\<lambda>(a, b).
      let (a, eff) = clear_marks a in
      bindR (populateFlags ((deferredTargets m)\<lparr>tl_list := b\<rparr>)) (\<lambda>d.
      Inr (m\<lparr>targets := (targets m)\<lparr>tl_list := tgts m @ a\<rparr>, deferredTargets := d\<rparr>, eff))))"

definition promoteReadable :: "mshr \<Rightarrow> (mshr \<times> upstream list) result" where
  "promoteReadable m =
     (if dtgts m = [] then Inr (m, [])
      else bindR (hasPostInvalidate m) (\<lambda>inv.
        if inv then Inr (m, [])
        else promoteIf (\<lambda>t. \<not> isCacheInvalidate (pkt_req (tg_pkt t)) \<and> \<not> pk_needsWritable (tg_pkt t)) m))"

definition promoteWritable :: "mshr \<Rightarrow> (mshr \<times> upstream list) result" where
  "promoteWritable m =
     (if \<not> tl_needsWritable (deferredTargets m) then Inr (m, [])
      else bindR (hasPostInvalidate m) (\<lambda>inv.
        if inv \<or> postDowngrade m then Inr (m, [])
        else guardR (dtgts m \<noteq> []) Out_Of_Range
          (if isCacheInvalidate (pkt_req (tg_pkt (hd (dtgts m)))) then Inr (m, [])
           else guardR (\<not> tl_needsWritable (targets m)) Assert_Failed
             (promoteIf (\<lambda>t. \<not> isCacheInvalidate (pkt_req (tg_pkt t))) (m\<lparr>targets := (targets m)\<lparr>tl_needsWritable := True\<rparr>\<rparr>)))))"

definition ms_trySatisfyFunctional :: "mshr \<Rightarrow> packet \<Rightarrow> (bool \<times> packet \<times> mshr) result" where
  "ms_trySatisfyFunctional m pkt =
     (if testCmdAttrib (pkt_cmd pkt) IsPrint
      then bindR (trySatisfyFunctional pkt (blkAddr m) (qe_secure m) (blkSize m) None) (\<lambda>(_, pkt, _). Inr (False, pkt, m))
      else bindR (satisfy_mshr_targets (tgts m) pkt) (\<lambda>(ok, pkt, ts).
        let m = m\<lparr>targets := (targets m)\<lparr>tl_list := ts\<rparr>\<rparr> in
        if ok then Inr (True, pkt, m)
        else bindR (satisfy_mshr_targets (dtgts m) pkt) (\<lambda>(ok, pkt, ds). Inr (ok, pkt, m\<lparr>deferredTargets := (deferredTargets m)\<lparr>tl_list := ds\<rparr>\<rparr>))))"

definition ms_satisfy :: "mshr \<Rightarrow> packet \<Rightarrow> (bool \<times> packet \<times> mshr) result" where
  "ms_satisfy m pkt = guardR (hasTargets m) Assert_Failed
     (bindR (matchBlockAddr pkt (blkAddr m) (qe_secure m) (blkSize m)) (\<lambda>b. if b then ms_trySatisfyFunctional m pkt else Inr (False, pkt, m)))"

section \<open>The queue of registers\<close>

type_synonym mshr_queue = "mshr queue"

definition MSHRQueue :: "int \<Rightarrow> int \<Rightarrow> mshr_queue" where
  "MSHRQueue num_entries reserve = Queue MSHR num_entries reserve"

definition havePending :: "mshr_queue \<Rightarrow> bool" where
  "havePending q \<longleftrightarrow> readyList q \<noteq> []"

definition canPrefetch :: "int \<Rightarrow> mshr_queue \<Rightarrow> bool" where
  "canPrefetch demandReserve q \<longleftrightarrow> allocated q < qu_numEntries q - (numReserve q + 1 + demandReserve)"

definition mq_allocate :: "tick \<Rightarrow> addr \<Rightarrow> u32 \<Rightarrow> packet \<Rightarrow> nat option \<Rightarrow> tick \<Rightarrow> u64 \<Rightarrow> bool \<Rightarrow> mshr_queue \<Rightarrow> (nat \<times> mshr_queue \<times> upstream list) result" where
  "mq_allocate curTick blk_addr blk_size pkt sender when_ready ord alloc_on_fill q =
     (case freeList q of [] \<Rightarrow> Inl Assert_Failed
      | i # free \<Rightarrow>
        guardR (getNumTargets (qu_entries q ! i) = 0) Assert_Failed
        (bindR (ms_allocate curTick blk_addr blk_size pkt sender when_ready ord alloc_on_fill (qu_entries q ! i)) (\<lambda>(m, eff).
         let q = on_entry i m (q\<lparr>freeList := free, allocatedList := allocatedList q @ [i]\<rparr>) in
         bindR (addToReadyList i q) (\<lambda>q. Inr (i, q\<lparr>allocated := allocated q + 1\<rparr>, eff)))))"



text \<open>The search starts at the place of the entry itself; splicing before that place moves nothing.\<close>

definition mq_delay :: "tick \<Rightarrow> nat \<Rightarrow> tick \<Rightarrow> mshr_queue \<Rightarrow> mshr_queue result" where
  "mq_delay curTick i delay_ticks q =
     bindR (ms_delay curTick delay_ticks (qu_entries q ! i)) (\<lambda>m.
     guardR (i \<in> set (readyList q)) Out_Of_Range
     (let q = on_entry i m q; t = (\<lambda>j. readyTime (qu_entries q ! j));
          pre = takeWhile (\<lambda>j. j \<noteq> i) (readyList q); suf = dropWhile (\<lambda>j. j \<noteq> i) (readyList q);
          a = takeWhile (\<lambda>j. \<not> t i \<ge> t j) suf; b = dropWhile (\<lambda>j. \<not> t i \<ge> t j) suf
      in Inr (if b \<noteq> [] \<and> hd b = i then q else q\<lparr>readyList := pre @ remove1 i a @ i # b\<rparr>)))"


definition markPending :: "nat \<Rightarrow> mshr_queue \<Rightarrow> mshr_queue result" where
  "markPending i q =
     guardR (inService (qu_entries q ! i)) Assert_Failed
     (addToReadyList i (on_entry i ((qu_entries q ! i)\<lparr>inService := False\<rparr>) (q\<lparr>numInService := numInService q - 1\<rparr>)))"



text \<open>The registers of all caches, by identity: the calls that one of them makes on the others. Clearing a flag
  makes further calls, before the ones that follow.\<close>

lemma bindR_cong [fundef_cong]: "r = r' \<Longrightarrow> (\<And>x. r' = Inr x \<Longrightarrow> k x = k' x) \<Longrightarrow> bindR r k = bindR r' k'"
  by (cases r') auto








section \<open>What the operations do to the lists of targets\<close>

definition to_replace :: "command \<Rightarrow> bool" where
  "to_replace c \<longleftrightarrow> c = UpgradeReq \<or> c = SCUpgradeReq \<or> c = StoreCondReq"

lemma to_replace_flagged: "to_replace c \<Longrightarrow> testCmdAttrib c IsUpgrade \<or> c = StoreCondReq"
proof -
  have "testCmdAttrib UpgradeReq IsUpgrade" "testCmdAttrib SCUpgradeReq IsUpgrade" by code_simp+
  then show "to_replace c \<Longrightarrow> ?thesis" by (auto simp: to_replace_def)
qed

lemma updateWriteFlags_frame:
  "updateWriteFlags pkt l = Inr l' \<Longrightarrow> tl_list l' = tl_list l \<and> hasUpgrade l' = hasUpgrade l"
  by (auto simp: updateWriteFlags_def Let_def bindR_Inr_iff split: if_splits)

lemma updateFlags_frame:
  assumes "updateFlags pkt src al l = Inr l'"
  shows "tl_list l' = tl_list l"
    "hasUpgrade l' \<longleftrightarrow> hasUpgrade l \<or> src \<noteq> FromSnoop \<and> (testCmdAttrib (pkt_cmd pkt) IsUpgrade \<or> pkt_cmd pkt = StoreCondReq)"
  using assms by (auto simp: updateFlags_def Let_def dest!: updateWriteFlags_frame split: if_splits)

text \<open>The flag that guards the replacement is not lost: it covers the targets of the list that ask for an upgrade.\<close>

definition upgrade_flagged :: "target_list \<Rightarrow> bool" where
  "upgrade_flagged l \<longleftrightarrow> (\<forall>t\<in>set (tl_list l). tg_source t \<noteq> FromSnoop \<longrightarrow> to_replace (pkt_cmd (tg_pkt t)) \<longrightarrow> hasUpgrade l)"

lemma update_all_frame:
  "update_all ts l = Inr l' \<Longrightarrow> tl_list l' = tl_list l \<and>
     (hasUpgrade l \<or> (\<exists>t\<in>set ts. tg_source t \<noteq> FromSnoop \<and> to_replace (pkt_cmd (tg_pkt t))) \<longrightarrow> hasUpgrade l')"
proof (induction ts arbitrary: l)
  case (Cons t ts)
  from Cons.prems obtain l1 where l1: "updateFlags (tg_pkt t) (tg_source t) (tg_allocOnFill t) l = Inr l1" "update_all ts l1 = Inr l'"
    by (auto simp: bindR_Inr_iff)
  show ?case using Cons.IH [OF l1(2)] updateFlags_frame [OF l1(1)] to_replace_flagged by auto
qed simp

lemma populateFlags_frame:
  assumes "populateFlags l = Inr l'"
  shows "tl_list l' = tl_list l" "upgrade_flagged l'"
  using update_all_frame [of "tl_list l" "resetFlags l" l'] assms
  by (auto simp: populateFlags_def upgrade_flagged_def resetFlags_def)

lemma tl_add_shape:
  assumes "tl_add now pkt sender rdy ord src mp al l = Inr (l', eff)"
  obtains t where "tl_list l' = tl_list l @ [t]" "tg_order t = ord" "tg_source t = src" "tg_pkt t = pkt"
    "upgrade_flagged l \<Longrightarrow> upgrade_flagged l'"
proof -
  obtain l1 where l1: "updateFlags pkt src al l = Inr l1"
    using assms by (auto simp: tl_add_def bindR_Inr_iff)
  let ?t = "\<lparr>tg_recvTime = now, tg_readyTime = rdy, tg_order = ord, tg_pkt = pkt, tg_sender = sender, tg_source = src,
              markedPending = (mp \<and> sender \<noteq> None), tg_allocOnFill = al\<rparr>"
  have l': "l' = l1\<lparr>tl_list := tl_list l1 @ [?t]\<rparr>" using assms l1 by (simp add: tl_add_def Let_def)
  show thesis
  proof (rule that [of ?t])
    show "tl_list l' = tl_list l @ [?t]" using updateFlags_frame(1) [OF l1] by (simp add: l')
    show "upgrade_flagged l \<Longrightarrow> upgrade_flagged l'"
      using updateFlags_frame [OF l1] to_replace_flagged [of "pkt_cmd pkt"] by (auto simp: l' upgrade_flagged_def)
  qed simp_all
qed

lemma replaceUpgrade_cmd: "replaceUpgrade mem pkt = Inr p \<Longrightarrow> \<not> to_replace (pkt_cmd p)"
  by (auto simp: replaceUpgrade_def Let_def to_replace_def pkt_allocate_def bindR_Inr_iff split: if_splits)

lemma replace_all_frame:
  "replace_all mem ts = Inr ts' \<Longrightarrow> map tg_order ts' = map tg_order ts \<and> map tg_source ts' = map tg_source ts \<and>
     (\<forall>t\<in>set ts'. \<not> to_replace (pkt_cmd (tg_pkt t)))"
proof (induction ts arbitrary: ts')
  case (Cons t ts)
  from Cons.prems obtain p us where "replaceUpgrade mem (tg_pkt t) = Inr p" "replace_all mem ts = Inr us" "ts' = t\<lparr>tg_pkt := p\<rparr> # us"
    by (auto simp: bindR_Inr_iff)
  then show ?case using Cons.IH replaceUpgrade_cmd by auto
qed simp

lemma replaceUpgrades_frame:
  assumes "replaceUpgrades mem l = Inr l'"
  shows "map tg_order (tl_list l') = map tg_order (tl_list l)" "map tg_source (tl_list l') = map tg_source (tl_list l)"
    "upgrade_flagged l \<Longrightarrow> upgrade_flagged l'"
    "upgrade_flagged l \<Longrightarrow> t \<in> set (tl_list l') \<Longrightarrow> tg_source t \<noteq> FromSnoop \<Longrightarrow> \<not> to_replace (pkt_cmd (tg_pkt t))"
  using assms by (auto simp: replaceUpgrades_def bindR_Inr_iff upgrade_flagged_def dest!: replace_all_frame split: if_splits)


lemma trySatisfyFunctional_pkt_cmd: "trySatisfyFunctional_pkt p other = Inr (ok, p', o') \<Longrightarrow> pkt_cmd o' = pkt_cmd other"
  by (auto simp: trySatisfyFunctional_pkt_def bindR_Inr_iff split: if_splits option.splits)

definition same_targets :: "target list \<Rightarrow> target list \<Rightarrow> bool" where
  "same_targets ts us \<longleftrightarrow> map tg_order us = map tg_order ts \<and> map tg_source us = map tg_source ts \<and>
     map (\<lambda>t. pkt_cmd (tg_pkt t)) us = map (\<lambda>t. pkt_cmd (tg_pkt t)) ts"

lemma satisfy_mshr_targets_same: "satisfy_mshr_targets ts pkt = Inr (ok, pkt', ts') \<Longrightarrow> same_targets ts ts'"
proof (induction ts arbitrary: pkt ok pkt' ts')
  case (Cons t ts)
  from Cons.prems obtain ok1 pkt1 p us where "trySatisfyFunctional_pkt pkt (tg_pkt t) = Inr (ok1, pkt1, p)" "ts' = t\<lparr>tg_pkt := p\<rparr> # us"
      "us = ts \<or> (\<exists>ok2 pkt2. satisfy_mshr_targets ts pkt1 = Inr (ok2, pkt2, us))"
    by (auto simp: bindR_Inr_iff split: if_splits)
  then show ?case using Cons.IH trySatisfyFunctional_pkt_cmd by (auto simp: same_targets_def)
qed (simp add: same_targets_def)

lemma clear_marks_same: "clear_marks ts = (ts', eff) \<Longrightarrow> same_targets ts ts'"
  by (auto simp: clear_marks_def same_targets_def)

lemma same_targets_set:
  assumes "same_targets ts us" "u \<in> set us"
  obtains t where "t \<in> set ts" "tg_source t = tg_source u" "pkt_cmd (tg_pkt t) = pkt_cmd (tg_pkt u)"
proof -
  obtain k where "k < length us" "us ! k = u" using assms(2) by (auto simp: in_set_conv_nth)
  moreover from this have "k < length ts" "tg_source (ts ! k) = tg_source (us ! k)" "pkt_cmd (tg_pkt (ts ! k)) = pkt_cmd (tg_pkt (us ! k))"
    using assms(1) unfolding same_targets_def by (metis length_map nth_map)+
  ultimately show thesis using that by (metis nth_mem)
qed

section \<open>Requests are answered in the order they arrive\<close>

text \<open>The requests from above in a list of targets, by the order the cache gave them.\<close>

definition cpu_orders :: "target list \<Rightarrow> u64 list" where
  "cpu_orders ts = map tg_order (filter (\<lambda>t. tg_source t \<noteq> FromSnoop) ts)"

lemma cpu_orders_append [simp]: "cpu_orders (ts @ us) = cpu_orders ts @ cpu_orders us"
  by (simp add: cpu_orders_def)

lemma cpu_orders_Cons [simp]: "cpu_orders (t # ts) = (if tg_source t = FromSnoop then [] else [tg_order t]) @ cpu_orders ts"
  by (simp add: cpu_orders_def)

lemma cpu_orders_Nil [simp]: "cpu_orders [] = []"
  by (simp add: cpu_orders_def)

lemma cpu_orders_cong: "map tg_order us = map tg_order ts \<Longrightarrow> map tg_source us = map tg_source ts \<Longrightarrow> cpu_orders us = cpu_orders ts"
proof (induction ts arbitrary: us)
  case (Cons t ts)
  from Cons.prems obtain u vs where "us = u # vs" "tg_order u = tg_order t" "tg_source u = tg_source t"
      "map tg_order vs = map tg_order ts" "map tg_source vs = map tg_source ts" by (cases us) auto
  moreover from this have "cpu_orders vs = cpu_orders ts" by (intro Cons.IH)
  ultimately show ?case by simp
qed simp

lemma same_targets_orders: "same_targets ts us \<Longrightarrow> cpu_orders us = cpu_orders ts"
  unfolding same_targets_def by (elim conjE) (rule cpu_orders_cong)

definition waiting :: "mshr \<Rightarrow> u64 list" where
  "waiting m = cpu_orders (tgts m @ dtgts m)"

text \<open>The life of a register from its allocation: \<open>arrived\<close> lists the requests it was given and \<open>served\<close> those taken out of it.
  A snoop that invalidates is one that asks for a writable copy or a maintenance request that invalidates.\<close>

inductive mshr_run :: "u64 list \<Rightarrow> u64 list \<Rightarrow> mshr \<Rightarrow> bool" where
  allocate: "getNumTargets m = 0 \<Longrightarrow> ms_allocate now a sz pkt sender t ord al m = Inr (m', eff) \<Longrightarrow> mshr_run [ord] [] m'"
| target: "mshr_run arrived served m \<Longrightarrow> allocateTarget mem now pkt sender t ord al m = Inr (m', eff) \<Longrightarrow> mshr_run (arrived @ [ord]) served m'"
| snoop: "mshr_run arrived served m \<Longrightarrow> ms_handleSnoop undef mem now pkt sender ord m = Inr (resp, pkt', m', eff) \<Longrightarrow>
    (pk_isInvalidate pkt \<longrightarrow> pk_needsWritable pkt \<or> isCacheInvalidate (pkt_req pkt)) \<Longrightarrow> mshr_run arrived served m'"
| markInService: "mshr_run arrived served m \<Longrightarrow> ms_markInService pmr m = Inr (m', eff) \<Longrightarrow> mshr_run arrived served m'"
| markPending: "mshr_run arrived served m \<Longrightarrow> mshr_run arrived served (m\<lparr>inService := False\<rparr>)"
| isForward: "mshr_run arrived served m \<Longrightarrow> mshr_run arrived served (m\<lparr>isForward := b\<rparr>)"
| pendingBelow: "mshr_run arrived served m \<Longrightarrow> mshr_run arrived served (m\<lparr>downstreamPending := True\<rparr>)"
| clearPending: "mshr_run arrived served m \<Longrightarrow> clearDownstreamPending m = Inr (m', eff) \<Longrightarrow> mshr_run arrived served m'"
| delay: "mshr_run arrived served m \<Longrightarrow> ms_delay now d m = Inr m' \<Longrightarrow> mshr_run arrived served m'"
| functional: "mshr_run arrived served m \<Longrightarrow> ms_satisfy m pkt = Inr (ok, pkt', m') \<Longrightarrow> mshr_run arrived served m'"
| promoteReadable: "mshr_run arrived served m \<Longrightarrow> promoteReadable m = Inr (m', eff) \<Longrightarrow> mshr_run arrived served m'"
| promoteWritable: "mshr_run arrived served m \<Longrightarrow> promoteWritable m = Inr (m', eff) \<Longrightarrow> mshr_run arrived served m'"
| serve: "mshr_run arrived served m \<Longrightarrow> extractServiceableTargets pkt m = Inr (ready, m') \<Longrightarrow>
    mshr_run arrived (served @ cpu_orders (tl_list ready)) m'"
| promoteDeferred: "mshr_run arrived served m \<Longrightarrow> promoteDeferredTargets now m = Inr (promoted, m') \<Longrightarrow> mshr_run arrived served m'"
| pop: "mshr_run arrived served m \<Longrightarrow> popTarget m = Inr m' \<Longrightarrow> mshr_run arrived (served @ cpu_orders [hd (tgts m)]) m'"

text \<open>The invariant.\<close>

definition mshr_inv :: "u64 list \<Rightarrow> u64 list \<Rightarrow> mshr \<Rightarrow> bool" where
  "mshr_inv arrived served m \<longleftrightarrow> served @ waiting m = arrived \<and> (\<forall>t\<in>set (dtgts m). tg_source t = FromCPU) \<and> upgrade_flagged (deferredTargets m) \<and>
     (inService m \<and> postInvalidate m \<longrightarrow> (\<forall>t\<in>set (dtgts m). \<not> to_replace (pkt_cmd (tg_pkt t))))"

lemma mshr_inv_frame:
  assumes "mshr_inv arrived served m" "same_targets (tgts m) (tgts m')" "deferredTargets m' = deferredTargets m" "postInvalidate m' \<longrightarrow> postInvalidate m" "inService m' \<longrightarrow> inService m \<or> \<not> postInvalidate m'"
  shows "mshr_inv arrived served m'"
  using assms same_targets_orders [OF assms(2)] by (auto simp: mshr_inv_def waiting_def)

lemma same_targets_refl [simp]: "same_targets ts ts"
  by (simp add: same_targets_def)

lemma tl_init_list: "tl_list (tl_init a sz l) = tl_list l"
  by (simp add: tl_init_def resetFlags_def)

lemma mshr_inv_allocate:
  assumes "getNumTargets m = 0" "ms_allocate now a sz pkt sender t ord al m = Inr (m', eff)"
  shows "mshr_inv [ord] [] m'"
proof -
  let ?src = "if pkt_cmd pkt = HardPFReq then FromPrefetcher else FromCPU"
  obtain l eff' where l: "tl_add now pkt sender t ord ?src True al (tl_init a (ucast sz) (targets m)) = Inr (l, eff')"
     and m': "targets m' = l" "deferredTargets m' = tl_init a (ucast sz) (deferredTargets m)"
    using assms(2) by (auto simp: ms_allocate_def bindR_Inr_iff Let_def)
  obtain x where "tl_list l = tgts m @ [x]" "tg_order x = ord" "tg_source x = ?src"
    using tl_add_shape [OF l] unfolding tl_init_list by metis
  then show ?thesis using assms(1)
    by (auto simp: mshr_inv_def waiting_def m' getNumTargets_def tl_init_list upgrade_flagged_def)
qed

lemma mshr_inv_target:
  assumes "mshr_inv arrived served m" "allocateTarget mem now pkt sender t ord al m = Inr (m', eff)"
  shows "mshr_inv (arrived @ [ord]) served m'"
proof (cases "\<exists>tp. front_pkt m = Inr tp \<and> must_defer pkt tp m")
  case True
  then obtain pkt1 l where p: "(if inService m \<and> postInvalidate m then replaceUpgrade mem pkt else Inr pkt) = Inr pkt1"
      "tl_add now pkt1 sender t ord FromCPU True al (deferredTargets m) = Inr (l, eff)" "m' = m\<lparr>deferredTargets := l\<rparr>"
    using assms(2) by (auto simp: allocateTarget_def bindR_Inr_iff)
  obtain x where "tl_list l = dtgts m @ [x]" "tg_order x = ord" "tg_source x = FromCPU" "tg_pkt x = pkt1" "upgrade_flagged (deferredTargets m) \<Longrightarrow> upgrade_flagged l"
    using tl_add_shape [OF p(2)] by metis
  moreover have "inService m \<and> postInvalidate m \<Longrightarrow> \<not> to_replace (pkt_cmd pkt1)" using p(1) replaceUpgrade_cmd by auto
  ultimately show ?thesis using assms(1) by (auto simp: mshr_inv_def waiting_def p(3))
next
  case False
  then obtain tp l where p: "front_pkt m = Inr tp" "\<not> must_defer pkt tp m"
      "tl_add now pkt sender t ord FromCPU (\<not> inService m) al (targets m) = Inr (l, eff)" "m' = m\<lparr>targets := l\<rparr>"
    using assms(2) by (auto simp: allocateTarget_def bindR_Inr_iff)
  have "dtgts m = []" using p(2) by (auto simp: must_defer_def)
  moreover obtain x where "tl_list l = tgts m @ [x]" "tg_order x = ord" "tg_source x = FromCPU"
    using tl_add_shape [OF p(3)] by metis
  ultimately show ?thesis using assms(1) by (auto simp: mshr_inv_def waiting_def p(4))
qed


text \<open>A snoop adds at most a target of its own.\<close>

lemma snoop_flags_cmd:
  "setCacheResponding p = Inr p' \<Longrightarrow> pkt_cmd p' = pkt_cmd p" "setResponderHadWritable p = Inr p' \<Longrightarrow> pkt_cmd p' = pkt_cmd p"
  "setSatisfied p = Inr p' \<Longrightarrow> pkt_cmd p' = pkt_cmd p"
  by (auto simp: setCacheResponding_def setResponderHadWritable_def setSatisfied_def)

lemma snoop_in_service_shape:
  assumes "snoop_in_service undef mem now pkt sender ord m = Inr (resp, pkt', m', eff)"
  shows "\<exists>ts. tgts m' = tgts m @ ts \<and> cpu_orders ts = []" "deferredTargets m' = deferredTargets m" "inService m' = inService m"
    "postInvalidate m' \<Longrightarrow> postInvalidate m \<or> pk_needsWritable pkt \<or> pk_isInvalidate pkt"
proof -
  have "(\<exists>ts. tgts m' = tgts m @ ts \<and> cpu_orders ts = []) \<and> deferredTargets m' = deferredTargets m \<and> inService m' = inService m \<and>
    (postInvalidate m' \<longrightarrow> postInvalidate m \<or> pk_needsWritable pkt \<or> pk_isInvalidate pkt)"
  proof (cases "pendingModified m \<or> pk_isInvalidate pkt")
    case True
    let ?wr = "pendingModified m \<and> testCmdAttrib (pkt_cmd pkt) NeedsResponse \<and> \<not> testCmdAttrib (pkt_cmd pkt) IsClean"
    obtain cp p l eff1 where p: "(if ?wr then bindR (setCacheResponding pkt) setResponderHadWritable
          else if pendingModified m \<and> testCmdAttrib (pkt_cmd pkt) IsClean then setSatisfied pkt else Inr pkt) = Inr p"
        and l: "tl_add now cp (if ?wr then sender else None) now ord FromSnoop (downstreamPending m \<and> tl_needsWritable (targets m)) False (targets m) = Inr (l, eff1)"
        and m': "m' = m\<lparr>targets := l\<rparr> \<or> m' = m\<lparr>targets := l, postDowngrade := True\<rparr> \<or>
          (pk_needsWritable p \<or> pk_isInvalidate p) \<and> (m' = m\<lparr>targets := l, postInvalidate := True\<rparr> \<or> m' = m\<lparr>targets := l, postInvalidate := True, postDowngrade := True\<rparr>)"
      using assms True by (auto simp: snoop_in_service_def Let_def bindR_Inr_iff simp del: split_paired_Ex split: if_splits)
    have "pkt_cmd p = pkt_cmd pkt" using p by (auto simp: bindR_Inr_iff dest!: snoop_flags_cmd split: if_splits)
    moreover obtain t where "tl_list l = tgts m @ [t]" "tg_source t = FromSnoop" using tl_add_shape [OF l] by metis
    ultimately show ?thesis using m' by (auto simp: exI [of _ "[t]"])
  next
    case False
    then show ?thesis using assms by (auto simp: snoop_in_service_def Let_def split: if_splits)
  qed
  then show "\<exists>ts. tgts m' = tgts m @ ts \<and> cpu_orders ts = []" "deferredTargets m' = deferredTargets m" "inService m' = inService m"
    "postInvalidate m' \<Longrightarrow> postInvalidate m \<or> pk_needsWritable pkt \<or> pk_isInvalidate pkt" by blast+
qed

lemma replaced_deferred:
  assumes "mshr_inv arrived served m" "replaceUpgrades mem (deferredTargets m) = Inr d"
  shows "cpu_orders (tl_list d) = cpu_orders (dtgts m)" "\<forall>t\<in>set (tl_list d). tg_source t = FromCPU" "upgrade_flagged d"
    "\<forall>t\<in>set (tl_list d). \<not> to_replace (pkt_cmd (tg_pkt t))"
proof -
  note r = replaceUpgrades_frame [OF assms(2)]
  show "cpu_orders (tl_list d) = cpu_orders (dtgts m)" using r(1,2) by (rule cpu_orders_cong)
  have "set (map tg_source (tl_list d)) \<subseteq> {FromCPU}" unfolding r(2) using assms(1) by (auto simp: mshr_inv_def)
  then show cpu: "\<forall>t\<in>set (tl_list d). tg_source t = FromCPU" by auto
  show "upgrade_flagged d" using r(3) assms(1) by (simp add: mshr_inv_def)
  show "\<forall>t\<in>set (tl_list d). \<not> to_replace (pkt_cmd (tg_pkt t))" using r(4) cpu assms(1) by (simp add: mshr_inv_def)
qed

lemma mshr_inv_snoop:
  assumes inv: "mshr_inv arrived served m" and h: "ms_handleSnoop undef mem now pkt sender ord m = Inr (resp, pkt', m', eff)"
    and c: "pk_isInvalidate pkt \<longrightarrow> pk_needsWritable pkt \<or> isCacheInvalidate (pkt_req pkt)"
  shows "mshr_inv arrived served m'"
proof (cases "\<not> inService m \<or> isExpressSnoop pkt \<and> downstreamPending m")
  case True
  then have "m' = m \<or> (\<exists>l d. replaceUpgrades mem (targets m) = Inr l \<and> replaceUpgrades mem (deferredTargets m) = Inr d \<and> m' = m\<lparr>targets := l, deferredTargets := d\<rparr>)"
    using h by (auto simp: ms_handleSnoop_def Let_def bindR_Inr_iff split: if_splits)
  then consider "m' = m" | l d where "replaceUpgrades mem (targets m) = Inr l" "replaceUpgrades mem (deferredTargets m) = Inr d" "m' = m\<lparr>targets := l, deferredTargets := d\<rparr>"
    by blast
  then show ?thesis
  proof cases
    case 2
    have "cpu_orders (tl_list l) = cpu_orders (tgts m)" using replaceUpgrades_frame(1,2) [OF 2(1)] by (rule cpu_orders_cong)
    then show ?thesis using replaced_deferred [OF inv 2(2)] inv by (simp add: 2(3) mshr_inv_def waiting_def)
  qed (use inv in simp)
next
  case False
  let ?inval = "pk_needsWritable pkt \<or> isCacheInvalidate (pkt_req pkt)"
  obtain d where d: "(if ?inval then replaceUpgrades mem (deferredTargets m) else Inr (deferredTargets m)) = Inr d"
      and m': "m' = m\<lparr>deferredTargets := d\<rparr> \<or> snoop_in_service undef mem now pkt sender ord (m\<lparr>deferredTargets := d\<rparr>) = Inr (resp, pkt', m', eff)"
    using h False by (auto simp: ms_handleSnoop_def Let_def bindR_Inr_iff split: if_splits)
  have dd: "cpu_orders (tl_list d) = cpu_orders (dtgts m) \<and> (\<forall>t\<in>set (tl_list d). tg_source t = FromCPU) \<and> upgrade_flagged d \<and>
      (?inval \<or> inService m \<and> postInvalidate m \<longrightarrow> (\<forall>t\<in>set (tl_list d). \<not> to_replace (pkt_cmd (tg_pkt t))))"
    using replaced_deferred [OF inv, of mem d] inv d by (auto simp: mshr_inv_def split: if_splits)
  from m' show ?thesis
  proof
    assume "m' = m\<lparr>deferredTargets := d\<rparr>"
    then show ?thesis using inv dd by (simp add: mshr_inv_def waiting_def)
  next
    assume s: "snoop_in_service undef mem now pkt sender ord (m\<lparr>deferredTargets := d\<rparr>) = Inr (resp, pkt', m', eff)"
    obtain ts where "tgts m' = tgts m @ ts" "cpu_orders ts = []" using snoop_in_service_shape(1) [OF s] by auto
    then show ?thesis using snoop_in_service_shape(2-) [OF s] inv dd c by (auto simp: mshr_inv_def waiting_def)
  qed
qed

lemma split_snoops_parts:
  "split_snoops ts = Inr (snoops, rest) \<Longrightarrow> cpu_orders snoops = [] \<and> cpu_orders rest = cpu_orders ts"
  by (induction ts arbitrary: snoops rest) (auto simp: bindR_Inr_iff split: if_splits)

lemma mshr_inv_serve:
  assumes inv: "mshr_inv arrived served m" and h: "extractServiceableTargets pkt m = Inr (ready, m')"
  shows "mshr_inv arrived (served @ cpu_orders (tl_list ready)) m'"
proof -
  obtain l l' where m': "m' = m\<lparr>targets := l'\<rparr>" "populateFlags l = Inr l'"
    and split: "cpu_orders (tl_list ready) @ cpu_orders (tl_list l) = cpu_orders (tgts m)"
  proof (cases "pkt_cmd pkt = ReadRespWithInvalidate")
    case True
    then obtain t ts snoops rest r l' where "tgts m = t # ts" "split_snoops ts = Inr (snoops, rest)" "m' = m\<lparr>targets := l'\<rparr>"
        "populateFlags ((tl_init (blkAddr m) (ucast (blkSize m)) TargetList)\<lparr>tl_list := t # snoops\<rparr>) = Inr ready" "populateFlags ((targets m)\<lparr>tl_list := rest\<rparr>) = Inr l'"
        "tg_source t = FromCPU \<or> tg_source t = FromPrefetcher"
      using h by (auto simp: extractServiceableTargets_def bindR_Inr_iff Let_def split: list.splits)
    then show thesis using that split_snoops_parts [of ts snoops rest] populateFlags_frame(1) by auto
  next
    case False
    then show thesis using that h by (auto simp: extractServiceableTargets_def bindR_Inr_iff Let_def tl_init_list TargetList_def)
  qed
  have "tl_list l' = tl_list l" using populateFlags_frame(1) [OF m'(2)] .
  then have "waiting m = cpu_orders (tl_list ready) @ waiting m'" using split by (simp add: waiting_def m'(1) append_assoc [symmetric] del: append_assoc)
  then show ?thesis using inv by (simp add: mshr_inv_def m'(1))
qed

lemma mshr_inv_defer:
  assumes "mshr_inv arrived served m" "cpu_orders (tl_list l) @ cpu_orders (tl_list d) = waiting m" "set (tl_list d) \<subseteq> set (dtgts m)" "upgrade_flagged d"
  shows "mshr_inv arrived served (m\<lparr>targets := l, deferredTargets := d\<rparr>)"
  using assms by (auto simp: mshr_inv_def waiting_def)

lemma mshr_inv_promoteDeferred:
  assumes inv: "mshr_inv arrived served m" and h: "promoteDeferredTargets now m = Inr (promoted, m')"
  shows "mshr_inv arrived served m'"
proof (cases "tgts m = [] \<and> dtgts m = []")
  case True
  then show ?thesis using inv h by (simp add: promoteDeferredTargets_def)
next
  case False
  let ?p = "\<lambda>t. \<not> isCacheMaintenance (pkt_req (tg_pkt t))"
  obtain ts ds where tsds: "(ts, ds) = (if takeWhile ?p (dtgts m) = [] \<and> dtgts m \<noteq> []
      then (if tgts m = [] then (take 1 (dtgts m), tl (dtgts m)) else (tgts m, dtgts m)) else (tgts m @ takeWhile ?p (dtgts m), dropWhile ?p (dtgts m)))"
    by (metis prod.exhaust)
  then obtain d l where d: "populateFlags ((deferredTargets m)\<lparr>tl_list := ds\<rparr>) = Inr d" "populateFlags ((targets m)\<lparr>tl_list := ts\<rparr>) = Inr l"
      and m': "m' = m\<lparr>deferredTargets := d, targets := l, qe_order := tg_order (hd ts), readyTime := max now (tg_readyTime (hd ts))\<rparr>"
    using h False by (auto simp: promoteDeferredTargets_def Let_def bindR_Inr_iff split: prod.splits if_splits)
  have "ts @ ds = tgts m @ dtgts m" "set ds \<subseteq> set (dtgts m)"
    using tsds by (auto split: if_splits dest: set_dropWhileD simp: take_Suc list.set_sel)
  then have "mshr_inv arrived served (m\<lparr>targets := l, deferredTargets := d\<rparr>)"
    using inv populateFlags_frame [OF d(1)] populateFlags_frame [OF d(2)]
    by (intro mshr_inv_defer) (auto simp: waiting_def cpu_orders_append [symmetric] simp del: cpu_orders_append)
  then show ?thesis by (simp add: m' mshr_inv_def waiting_def)
qed

lemma promote_prefix_parts: "promote_prefix p ts = Inr (a, b) \<Longrightarrow> ts = a @ b"
  by (induction ts arbitrary: a b) (auto simp: bindR_Inr_iff split: if_splits)

lemma mshr_inv_promoteIf:
  assumes inv: "mshr_inv arrived served m" and h: "promoteIf p m = Inr (m', eff)"
  shows "mshr_inv arrived served m'"
proof -
  obtain a b a' d where ab: "promote_prefix p (dtgts m) = Inr (a, b)" "clear_marks a = (a', eff)"
      "populateFlags ((deferredTargets m)\<lparr>tl_list := b\<rparr>) = Inr d" "m' = m\<lparr>targets := (targets m)\<lparr>tl_list := tgts m @ a'\<rparr>, deferredTargets := d\<rparr>"
    using h by (auto simp: promoteIf_def bindR_Inr_iff Let_def split: prod.splits) (metis surj_pair)
  then show ?thesis using inv promote_prefix_parts [OF ab(1)] same_targets_orders [OF clear_marks_same [OF ab(2)]] populateFlags_frame [OF ab(3)]
    unfolding ab(4) by (intro mshr_inv_defer) (auto simp: waiting_def)
qed


lemma clear_targets_frame: "clear_targets m = (m', eff) \<Longrightarrow> same_targets (tgts m) (tgts m') \<and> deferredTargets m' = deferredTargets m \<and>
   inService m' = inService m \<and> postInvalidate m' = postInvalidate m \<and> downstreamPending m' = downstreamPending m"
  by (auto simp: clear_targets_def clear_marks_same split: prod.splits)

lemma mshr_inv_satisfy:
  assumes inv: "mshr_inv arrived served m" and h: "ms_satisfy m pkt = Inr (ok, pkt', m')"
  shows "mshr_inv arrived served m'"
proof -
  obtain ts ds where ts: "same_targets (tgts m) ts" "same_targets (dtgts m) ds"
      and m': "m' = m\<lparr>targets := (targets m)\<lparr>tl_list := ts\<rparr>, deferredTargets := (deferredTargets m)\<lparr>tl_list := ds\<rparr>\<rparr>"
  proof -
    have "\<exists>ts ds. same_targets (tgts m) ts \<and> same_targets (dtgts m) ds \<and>
      m' = m\<lparr>targets := (targets m)\<lparr>tl_list := ts\<rparr>, deferredTargets := (deferredTargets m)\<lparr>tl_list := ds\<rparr>\<rparr>"
    proof (cases "m' = m")
      case True
      then show ?thesis by (intro exI [of _ "tgts m"] exI [of _ "dtgts m"]) simp
    next
      case False
      then obtain ok1 pkt1 ts where t: "satisfy_mshr_targets (tgts m) pkt = Inr (ok1, pkt1, ts)"
          and r: "m' = m\<lparr>targets := (targets m)\<lparr>tl_list := ts\<rparr>\<rparr> \<or>
            (\<exists>ds. satisfy_mshr_targets (dtgts m) pkt1 = Inr (ok, pkt', ds) \<and> m' = m\<lparr>targets := (targets m)\<lparr>tl_list := ts\<rparr>, deferredTargets := (deferredTargets m)\<lparr>tl_list := ds\<rparr>\<rparr>)"
        using h by (auto simp: ms_satisfy_def ms_trySatisfyFunctional_def bindR_Inr_iff Let_def split: if_splits)
      from r show ?thesis
      proof
        assume "m' = m\<lparr>targets := (targets m)\<lparr>tl_list := ts\<rparr>\<rparr>"
        then show ?thesis using satisfy_mshr_targets_same [OF t] by (intro exI [of _ ts] exI [of _ "dtgts m"]) simp
      qed (use satisfy_mshr_targets_same t in blast)
    qed
    then show thesis using that by blast
  qed
  have "t \<in> set ds \<Longrightarrow> tg_source t = FromCPU" for t using ts(2) inv by (metis same_targets_set mshr_inv_def)
  moreover have "upgrade_flagged (deferredTargets m')"
  proof -
    have "upgrade_flagged (deferredTargets m)" using inv by (simp add: mshr_inv_def)
    then show ?thesis using ts(2) unfolding m' upgrade_flagged_def by simp (metis same_targets_set)
  qed
  moreover have "inService m \<and> postInvalidate m \<Longrightarrow> t \<in> set ds \<Longrightarrow> \<not> to_replace (pkt_cmd (tg_pkt t))" for t
    using ts(2) inv by (metis same_targets_set mshr_inv_def)
  ultimately show ?thesis using inv same_targets_orders [OF ts(1)] same_targets_orders [OF ts(2)] by (auto simp: mshr_inv_def waiting_def m')
qed

lemma mshr_run_inv: "mshr_run arrived served m \<Longrightarrow> mshr_inv arrived served m"
proof (induction rule: mshr_run.induct)
  case (markInService arrived served m pmr m' eff)
  then show ?case by (intro mshr_inv_frame [OF markInService.IH]) (auto simp: ms_markInService_def Let_def dest: clear_targets_frame split: prod.splits if_splits)
next
  case (clearPending arrived served m m' eff)
  then show ?case by (intro mshr_inv_frame [OF clearPending.IH]) (auto simp: clearDownstreamPending_def dest!: clear_targets_frame)
next
  case (promoteReadable arrived served m m' eff)
  then show ?case by (auto simp: promoteReadable_def bindR_Inr_iff dest: mshr_inv_promoteIf split: if_splits)
next
  case (promoteWritable arrived served m m' eff)
  have "mshr_inv arrived served (m\<lparr>targets := (targets m)\<lparr>tl_needsWritable := True\<rparr>\<rparr>)"
    using promoteWritable.IH by (simp add: mshr_inv_def waiting_def)
  with promoteWritable show ?case by (auto simp: promoteWritable_def bindR_Inr_iff dest: mshr_inv_promoteIf split: if_splits)
next
  case (pop arrived served m m')
  then show ?case by (cases "tgts m") (auto simp: popTarget_def mshr_inv_def waiting_def)
next
  case (delay arrived served m now d m')
  then show ?case by (auto simp: ms_delay_def mshr_inv_def waiting_def)
next
  case (allocate m now a sz pkt sender t ord al m' eff)
  then show ?case by (rule mshr_inv_allocate)
next
  case (target arrived served m mem now pkt sender t ord al m' eff)
  show ?case using target.IH target.hyps(2-) by (rule mshr_inv_target)
next
  case (snoop arrived served m undef mem now pkt sender ord resp pkt' m' eff)
  show ?case using snoop.IH snoop.hyps(2-) by (rule mshr_inv_snoop)
next
  case (functional arrived served m pkt ok pkt' m')
  show ?case using functional.IH functional.hyps(2-) by (rule mshr_inv_satisfy)
next
  case (serve arrived served m pkt ready m')
  show ?case using serve.IH serve.hyps(2-) by (rule mshr_inv_serve)
next
  case (promoteDeferred arrived served m now promoted m')
  show ?case using promoteDeferred.IH promoteDeferred.hyps(2-) by (rule mshr_inv_promoteDeferred)
qed (simp_all add: mshr_inv_def waiting_def)

text \<open>C14: However a register is used from its allocation on (further targets, snoops, being sent, promotions of
  deferred targets, responses that serve all or some targets, functional accesses), the requests taken out of it followed by those
  that still wait in it, its targets and then its deferred targets, are the requests it was
  given in the order they arrived: none is lost, repeated or overtaken.\<close>

theorem mshr_answers_in_order:
  assumes "mshr_run arrived served m"
  shows "served @ cpu_orders (tgts m) @ cpu_orders (dtgts m) = arrived"
  using mshr_run_inv [OF assms] by (simp add: mshr_inv_def waiting_def)

definition line_request :: "command \<Rightarrow> packet" where
  "line_request c = \<lparr>pkt_cmd = c, pkt_flags = 0x300, pkt_req = \<lparr>req_flags = 0, req_paddr = Some 0x1000, req_size = Some 64, req_masked = False\<rparr>,
     pkt_addr = 0x1000, pkt_secure = False, pkt_size = 64, pkt_data = None, bytesValid = [], is_prefetch_hint_pkt = False,
     ddio_prefetch_destination = -1, is_block_io = False, is_ddio_pkt = False, is_ddio_header = False\<rparr>"

text \<open>A write miss in service, invalidated by another cache before the response.\<close>

definition snooped_miss :: "mshr result" where
  "snooped_miss = bindR (ms_allocate 0 0x1000 64 (line_request ReadExReq) None 5 1 True MSHR) (\<lambda>(m, _).
     bindR (ms_markInService True m) (\<lambda>(m, _). bindR (ms_handleSnoop False (\<lambda>_. 0) 10 (line_request ReadExReq) None 2 m) (\<lambda>(_, _, m, _). Inr m)))"

lemma snooped_miss_run:
  assumes "snooped_miss = Inr m"
  shows "mshr_run [1] [] m"
proof -
  obtain m1 e1 m2 e2 r p e3 where m: "ms_allocate 0 0x1000 64 (line_request ReadExReq) None 5 1 True MSHR = Inr (m1, e1)"
      "ms_markInService True m1 = Inr (m2, e2)" "ms_handleSnoop False (\<lambda>_. 0) 10 (line_request ReadExReq) None 2 m2 = Inr (r, p, m, e3)"
    using assms by (auto simp: snooped_miss_def bindR_Inr_iff)
  have "pk_needsWritable (line_request ReadExReq)" by code_simp
  moreover have "getNumTargets MSHR = 0" by code_simp
  ultimately show ?thesis using mshr_run.snoop [OF mshr_run.markInService [OF mshr_run.allocate [OF _ m(1)] m(2)] m(3)] by blast
qed

theorem mshr_answers_in_order_witness:
  "\<exists>m. snooped_miss = Inr m \<and> length (tgts m) = 2 \<and> cpu_orders (tgts m) @ cpu_orders (dtgts m) = [1]"
proof -
  have "case snooped_miss of Inl _ \<Rightarrow> False | Inr m \<Rightarrow> length (tgts m) = 2" by code_simp
  then obtain m where "snooped_miss = Inr m" "length (tgts m) = 2" by (auto split: sum.splits)
  then show ?thesis using mshr_answers_in_order [OF snooped_miss_run] by auto
qed

text \<open>C15: While a register waits for a response after which its copy will be invalidated, a further request always goes to the deferred
  targets, behind those that wait there, and no deferred target, the new one included, still asks for an upgrade of a copy that
  will be gone: upgrades and conditional stores have become requests for the whole line or for a failure.\<close>

theorem invalidated_register_defers:
  assumes "mshr_run arrived served m" "inService m" "postInvalidate m"
    and "allocateTarget mem now pkt sender t ord al m = Inr (m', eff)"
  shows "tgts m' = tgts m \<and> (\<exists>x. dtgts m' = dtgts m @ [x] \<and> tg_order x = ord) \<and>
    (\<forall>x\<in>set (dtgts m'). pkt_cmd (tg_pkt x) \<notin> {UpgradeReq, SCUpgradeReq, StoreCondReq})"
proof -
  have inv: "mshr_inv arrived served m" using mshr_run_inv [OF assms(1)] .
  have "must_defer pkt tp m" for tp using assms(2,3) by (simp add: must_defer_def)
  then obtain p l where p: "tl_add now p sender t ord FromCPU True al (deferredTargets m) = Inr (l, eff)" "m' = m\<lparr>deferredTargets := l\<rparr>"
    using assms(4) by (auto simp: allocateTarget_def bindR_Inr_iff)
  obtain x where x: "tl_list l = dtgts m @ [x]" "tg_order x = ord" using tl_add_shape [OF p(1)] by metis
  have "mshr_inv (arrived @ [ord]) served m'" using mshr_inv_target [OF inv assms(4)] .
  then have "\<forall>x\<in>set (dtgts m'). \<not> to_replace (pkt_cmd (tg_pkt x))" using assms(2,3) p(2) by (simp add: mshr_inv_def)
  then show ?thesis using x p(2) by (simp add: to_replace_def)
qed

theorem invalidated_register_defers_witness:
  "\<exists>m m' eff. snooped_miss = Inr m \<and> allocateTarget (\<lambda>_. 0) 12 (line_request UpgradeReq) None 12 3 True m = Inr (m', eff) \<and>
     tgts m' = tgts m \<and> map (\<lambda>x. pkt_cmd (tg_pkt x)) (dtgts m') = [ReadExReq]"
proof -
  have "case snooped_miss of Inl _ \<Rightarrow> False | Inr m \<Rightarrow> inService m \<and> postInvalidate m \<and>
     (case allocateTarget (\<lambda>_. 0) 12 (line_request UpgradeReq) None 12 3 True m of Inl _ \<Rightarrow> False
      | Inr (m', _) \<Rightarrow> map (\<lambda>x. pkt_cmd (tg_pkt x)) (dtgts m') = [ReadExReq])" by code_simp
  then obtain m m' eff where m: "snooped_miss = Inr m" "inService m" "postInvalidate m"
      "allocateTarget (\<lambda>_. 0) 12 (line_request UpgradeReq) None 12 3 True m = Inr (m', eff)" "map (\<lambda>x. pkt_cmd (tg_pkt x)) (dtgts m') = [ReadExReq]"
    by (auto split: sum.splits prod.splits)
  then show ?thesis using invalidated_register_defers [OF snooped_miss_run [OF m(1)] m(2,3,4)]
    by (intro exI [of _ m] exI [of _ m'] exI [of _ eff]) simp
qed

section \<open>The queue of registers keeps the contract\<close>



text \<open>What each operation on a register keeps for the queue.\<close>

definition keeps :: "mshr \<Rightarrow> mshr \<Rightarrow> bool" where
  "keeps m m' \<longleftrightarrow> inService m' = inService m \<and> (hasTargets m \<longrightarrow> hasTargets m') \<and> (getNumTargets m = 0 \<longrightarrow> getNumTargets m' = 0)"

lemma keeps_refl [simp]: "keeps m m"
  by (simp add: keeps_def)


































text \<open>The ready list is ordered only until a register is delayed. The entry that is delayed stays in front, and a register that is ready
  behind it is not offered: the comment of \<^verbatim>\<open>MSHRQueue::delay\<close> says that entries which are ready earlier move ahead.\<close>

definition two_misses :: "mshr_queue result" where
  "two_misses = bindR (mq_allocate 0 0x1000 64 (line_request ReadExReq) None 5 1 True (MSHRQueue 2 1)) (\<lambda>(_, q, _).
     bindR (mq_allocate 0 0x1000 64 (line_request ReadExReq) None 6 2 True q) (\<lambda>(_, q, _). Inr q))"

lemma delayed_register_blocks:
  "case bindR two_misses (mq_delay 10 0 100) of Inl _ \<Rightarrow> False
   | Inr q \<Rightarrow> readyList q = [0, 1] \<and> ready_at q 0 = 110 \<and> ready_at q 1 = 6 \<and> getNext 10 q = None \<and> nextReadyTime q = 110"
  by code_simp

text \<open>A write of the whole line with a flag that forbids merging counts as a whole line write when it is added, as the comment in
  \<^verbatim>\<open>updateWriteFlags\<close> asks. When the flags are computed again, as \<^verbatim>\<open>promoteDeferredTargets\<close> does, the list is not empty and the write is not
  the first one any more.\<close>

definition secure_write :: packet where
  "secure_write = (line_request WriteReq)\<lparr>pkt_req := \<lparr>req_flags = REQ_SECURE, req_paddr = Some 0x1000, req_size = Some 64, req_masked = False\<rparr>, pkt_secure := True\<rparr>"

lemma secure_line_write_forgotten:
  "case tl_add 0 secure_write None 5 1 FromCPU True True (tl_init 0x1000 64 TargetList) of Inl _ \<Rightarrow> False
   | Inr (l, _) \<Rightarrow> tl_isWholeLineWrite l \<and> (case populateFlags l of Inl _ \<Rightarrow> False | Inr l' \<Rightarrow> \<not> tl_isWholeLineWrite l')"
  by code_simp

end
