(* ===== verification/Cache_Miss.thy ===== *)
theory Cache_Miss
  imports Mshr
begin

text \<open>
  The miss side of a cache, \<^verbatim>\<open>src/gem5/src/mem/cache/base.cc\<close> and \<^verbatim>\<open>base.hh\<close>: how misses and evictions enter the two
  queues, how the cache blocks its processor side port when a queue is full and opens it again, which
  entry is sent next, and the write allocator. It composes the write buffer of \<^verbatim>\<open>Cache_Queue\<close> with the
  registers of \<^verbatim>\<open>Mshr\<close>. The tags, the prefetcher and the ports are arguments: what a lookup found, the packet a
  prefetcher offers, whether a packet was taken. \<open>miss_run\<close> is the life of the miss side.
\<close>

section \<open>The write allocator\<close>

datatype write_mode = ALLOCATE | COALESCE | NO_ALLOCATE

record write_allocator =
  wa_mode :: write_mode
  nextAddr :: addr
  byteCount :: u32
  coalesceLimit :: u32
  noAllocateLimit :: u32
  delayThreshold :: u32
  delayCtr :: "addr \<Rightarrow> u64 option"

definition wa_reset :: "write_allocator \<Rightarrow> write_allocator" where
  "wa_reset w = w\<lparr>wa_mode := ALLOCATE, byteCount := 0, nextAddr := 0\<rparr>"

definition WriteAllocator :: "u32 \<Rightarrow> u32 \<Rightarrow> u32 \<Rightarrow> u32 \<Rightarrow> write_allocator" where
  "WriteAllocator coalesce_limit no_allocate_limit delay_threshold block_size =
     wa_reset \<lparr>wa_mode = ALLOCATE, nextAddr = 0, byteCount = 0, coalesceLimit = coalesce_limit * block_size,
       noAllocateLimit = no_allocate_limit * block_size, delayThreshold = delay_threshold, delayCtr = (\<lambda>_. None)\<rparr>"

definition coalesce :: "write_allocator \<Rightarrow> bool" where
  "coalesce w \<longleftrightarrow> wa_mode w \<noteq> ALLOCATE"

definition wa_allocate :: "write_allocator \<Rightarrow> bool" where
  "wa_allocate w \<longleftrightarrow> wa_mode w \<noteq> NO_ALLOCATE"

text \<open>Reading a counter of the hash map creates it with the value 0.\<close>

definition wa_delay :: "addr \<Rightarrow> write_allocator \<Rightarrow> bool \<times> write_allocator" where
  "wa_delay blk_addr w =
     (let n = (case delayCtr w blk_addr of None \<Rightarrow> 0 | Some n \<Rightarrow> n) in
      if n > 0 then (True, w\<lparr>delayCtr := (delayCtr w)(blk_addr \<mapsto> n - 1)\<rparr>) else (False, w\<lparr>delayCtr := (delayCtr w)(blk_addr \<mapsto> n)\<rparr>))"

definition resetDelay :: "addr \<Rightarrow> write_allocator \<Rightarrow> write_allocator" where
  "resetDelay blk_addr w = w\<lparr>delayCtr := (delayCtr w)(blk_addr := None)\<rparr>"

definition updateMode :: "addr \<Rightarrow> u32 \<Rightarrow> addr \<Rightarrow> write_allocator \<Rightarrow> write_allocator" where
  "updateMode write_addr write_size blk_addr w =
     (let w = (if nextAddr w = write_addr
               then (let w = w\<lparr>delayCtr := (delayCtr w)(blk_addr \<mapsto> ucast (delayThreshold w))\<rparr> in
                     if wa_mode w \<noteq> NO_ALLOCATE
                     then (let w = w\<lparr>byteCount := byteCount w + write_size\<rparr> in
                           if wa_mode w = ALLOCATE \<and> byteCount w > coalesceLimit w then w\<lparr>wa_mode := COALESCE\<rparr>
                           else if wa_mode w = COALESCE \<and> byteCount w > noAllocateLimit w then w\<lparr>wa_mode := NO_ALLOCATE\<rparr> else w)
                     else w)
               else resetDelay blk_addr (w\<lparr>byteCount := write_size, wa_mode := ALLOCATE\<rparr>))
      in w\<lparr>nextAddr := write_addr + ucast write_size\<rparr>)"

section \<open>The miss side of a cache\<close>

datatype blocked_cause = Blocked_NoMSHRs | Blocked_NoWBBuffers | Blocked_NoTargets

definition cause_flag :: "blocked_cause \<Rightarrow> u8" where
  "cause_flag c = (case c of Blocked_NoMSHRs \<Rightarrow> 1 | Blocked_NoWBBuffers \<Rightarrow> 2 | Blocked_NoTargets \<Rightarrow> 4)"

text \<open>The processor side port: whether it refuses requests, whether it owes a retry and whether the retry is scheduled.\<close>

record cache_response_port =
  port_blocked :: bool
  mustSendRetry :: bool
  sendRetryEvent :: bool

record miss_side =
  mshrQueue :: mshr_queue
  writeBuffer :: write_queue
  cs_order :: u64
  blocked :: u8
  cpuSidePort :: cache_response_port
  noTargetMSHR :: "nat option"
  writeAllocator :: "write_allocator option"
  cs_blkSize :: u32
  numTarget :: nat
  mostly_incl :: bool
  demandReserve :: int





definition isBlocked :: "miss_side \<Rightarrow> bool" where
  "isBlocked s \<longleftrightarrow> blocked s \<noteq> 0"
















text \<open>\<open>pf_time\<close> is the time of the next prefetch, if there is a prefetcher.\<close>

definition nextQueueReadyTime :: "tick option \<Rightarrow> miss_side \<Rightarrow> tick" where
  "nextQueueReadyTime pf_time s =
     (let nextReady = min (nextReadyTime (mshrQueue s)) (nextReadyTime (writeBuffer s)) in
      case pf_time of Some t \<Rightarrow> if canPrefetch (demandReserve s) (mshrQueue s) \<and> \<not> isBlocked s then min nextReady t else nextReady | None \<Rightarrow> nextReady)"

section \<open>Properties of the write allocator\<close>

text \<open>Lines are written without being fetched only after a stream that passed the upper limit; any other write returns to allocation.\<close>

definition wa_earned :: "write_allocator \<Rightarrow> bool" where
  "wa_earned w \<longleftrightarrow> (wa_mode w = NO_ALLOCATE \<longrightarrow> noAllocateLimit w < byteCount w)"

lemma updateMode_earned: "wa_earned w \<Longrightarrow> wa_earned (updateMode a sz b w)"
  by (auto simp: wa_earned_def updateMode_def resetDelay_def Let_def)

lemma updateMode_stream: "a \<noteq> nextAddr w \<Longrightarrow> wa_allocate (updateMode a sz b w) \<and> \<not> coalesce (updateMode a sz b w) \<and> delayCtr (updateMode a sz b w) b = None"
  by (simp add: wa_allocate_def coalesce_def updateMode_def resetDelay_def Let_def)

text \<open>A write that continues a stream is delayed as often as the threshold says and no more.\<close>

lemma wa_delay_counts:
  assumes "delayCtr w b = Some n" "k \<le> unat n"
  shows "((\<lambda>w. snd (wa_delay b w)) ^^ k) w = w\<lparr>delayCtr := (delayCtr w)(b \<mapsto> n - of_nat k)\<rparr>"
  using assms
proof (induction k)
  case (Suc k)
  have "unat n \<le> k" if "n = of_nat k" using that by (simp add: unat_of_nat)
  then have "0 < n - of_nat k" using Suc.prems by (auto simp: word_gt_0)
  then show ?case using Suc by (simp add: wa_delay_def diff_diff_eq add.commute fun_upd_def cong: if_cong)
qed (simp add: fun_upd_idem)

section \<open>Blocking\<close>

definition has_cause :: "blocked_cause \<Rightarrow> miss_side \<Rightarrow> bool" where
  "has_cause c s \<longleftrightarrow> blocked s AND cause_flag c \<noteq> 0"



text \<open>A retry that is owed is scheduled as soon as the port is open.\<close>

definition port_inv :: "cache_response_port \<Rightarrow> bool" where
  "port_inv p \<longleftrightarrow> (sendRetryEvent p \<longrightarrow> mustSendRetry p \<and> \<not> port_blocked p) \<and> (mustSendRetry p \<longrightarrow> port_blocked p \<or> sendRetryEvent p)"

definition gate_ok :: "miss_side \<Rightarrow> bool" where
  "gate_ok s \<longleftrightarrow> port_inv (cpuSidePort s) \<and> (port_blocked (cpuSidePort s) \<longleftrightarrow> blocked s \<noteq> 0) \<and> blocked s AND 7 = blocked s"
















lemma isFull_on_entry [simp]: "isFull (on_entry i e q) = isFull q"
  by (simp add: isFull_def)







section \<open>The life of the miss side\<close>







lemma gate_frame [simp]:
  "gate_ok (s\<lparr>mshrQueue := q\<rparr>) = gate_ok s" "gate_ok (s\<lparr>writeBuffer := w\<rparr>) = gate_ok s" "gate_ok (s\<lparr>cs_order := ord\<rparr>) = gate_ok s"
  "gate_ok (s\<lparr>noTargetMSHR := m\<rparr>) = gate_ok s" "gate_ok (s\<lparr>writeAllocator := a\<rparr>) = gate_ok s"
  "has_cause c (s\<lparr>mshrQueue := q\<rparr>) = has_cause c s" "has_cause c (s\<lparr>writeBuffer := w\<rparr>) = has_cause c s" "has_cause c (s\<lparr>cs_order := ord\<rparr>) = has_cause c s"
  "has_cause c (s\<lparr>noTargetMSHR := m\<rparr>) = has_cause c s" "has_cause c (s\<lparr>writeAllocator := a\<rparr>) = has_cause c s"
  by (simp_all add: gate_ok_def has_cause_def)















section \<open>The choice of the next entry\<close>














end
