(* ===== verification/Indexing_Policy.thy ===== *)
theory Indexing_Policy
  imports Intmath
begin

text \<open>
  \<^verbatim>\<open>src/gem5/src/mem/cache/tags/indexing_policies/\<close>: how a cache maps an address to the sets and ways that may hold
  it, and how it computes the address back from the position and the tag of a block. The shared base, the plain set
  associative policy and the skewed one, whose ways use different hash functions. A pointer to an entry is its number;
  a bit that the code keeps in a \<^verbatim>\<open>uint8_t\<close> is a word of value 0 or 1. The hash functions are linear feedback shift
  registers, and that is how the proofs treat them. The locale \<open>indexing\<close> is what a tag store relies on.
\<close>

section \<open>Definitions\<close>

record index_policy =
  ip_assoc :: u32
  numSets :: u32
  setShift :: nat
  setMask :: u32
  sets :: "nat option list list"
  tagShift :: nat

text \<open>A division by zero is undefined.\<close>

definition BaseIndexingPolicy :: "u64 \<Rightarrow> u32 \<Rightarrow> u32 \<Rightarrow> index_policy result" where
  "BaseIndexingPolicy capacity entry_size assoc =
     guardR (entry_size * assoc \<noteq> 0) Out_Of_Range
     (let num_sets = ucast (capacity div ucast (entry_size * assoc)) :: u32 in
      guardR (0 < sint entry_size) Assert_Failed
      (bindR (floorLog2 4 (ucast entry_size)) (\<lambda>set_shift.
       bindR (floorLog2 4 (ucast num_sets)) (\<lambda>set_bits.
       guardR (isPowerOf2 (ucast num_sets)) Fatal_Error
       (guardR (0 < assoc) Fatal_Error
       (Inr \<lparr>ip_assoc = assoc, numSets = num_sets, setShift = set_shift, setMask = num_sets - 1,
             sets = replicate (unat num_sets) (replicate (unat assoc) None), tagShift = set_shift + set_bits\<rparr>))))))"

definition getEntry :: "u32 \<Rightarrow> u32 \<Rightarrow> index_policy \<Rightarrow> nat option result" where
  "getEntry set_no way p = guardR (unat set_no < length (sets p) \<and> unat way < length (sets p ! unat set_no)) Out_Of_Range (Inr (sets p ! unat set_no ! unat way))"

text \<open>The results are the position of the entry and the changed table.\<close>

definition setEntry :: "nat \<Rightarrow> nat \<Rightarrow> index_policy \<Rightarrow> (u32 \<times> u32 \<times> index_policy) result" where
  "setEntry entry index p =
     (let set_no = of_nat (index div unat (ip_assoc p)); way = of_nat (index mod unat (ip_assoc p)) in
      guardR (set_no < numSets p) Assert_Failed
      (Inr (set_no, way, p\<lparr>sets := (sets p)[unat set_no := (sets p ! unat set_no)[unat way := Some entry]]\<rparr>)))"

definition extractTag :: "index_policy \<Rightarrow> addr \<Rightarrow> addr" where
  "extractTag p a = drop_bit (tagShift p) a"

subsection \<open>Set associative\<close>

definition sa_extractSet :: "index_policy \<Rightarrow> addr \<Rightarrow> u32" where
  "sa_extractSet p a = ucast (drop_bit (setShift p) a AND ucast (setMask p))"

text \<open>The set number is shifted as a \<^verbatim>\<open>uint32_t\<close>.\<close>

definition sa_regenerateAddr :: "index_policy \<Rightarrow> addr \<Rightarrow> u32 \<Rightarrow> addr" where
  "sa_regenerateAddr p tag set_no = push_bit (tagShift p) tag OR ucast (push_bit (setShift p) set_no)"

definition sa_getPossibleEntries :: "index_policy \<Rightarrow> addr \<Rightarrow> nat option list" where
  "sa_getPossibleEntries p a = sets p ! unat (sa_extractSet p a)"

subsection \<open>Skewed associative\<close>

definition NUM_SKEWING_FUNCTIONS :: nat where "NUM_SKEWING_FUNCTIONS = 8"

text \<open>The member \<^verbatim>\<open>msbShift\<close> is computed from the number of sets.\<close>

definition msbShift :: "index_policy \<Rightarrow> nat" where
  "msbShift p = tagShift p - setShift p - 1"

definition SkewedAssociative :: "u64 \<Rightarrow> u32 \<Rightarrow> u32 \<Rightarrow> index_policy result" where
  "SkewedAssociative capacity entry_size assoc =
     bindR (BaseIndexingPolicy capacity entry_size assoc) (\<lambda>p.
     guardR (\<not> setShift p + 2 * (tagShift p - setShift p) > 64) Panic_Error
     (guardR (\<not> numSets p \<le> 2) Fatal_Error (Inr p)))"

definition hash :: "nat \<Rightarrow> addr \<Rightarrow> addr" where
  "hash m a = (let lsb = bits1 a 0; msb = bits1 a m; xor_bit = msb XOR lsb in insertBits1 (drop_bit 1 a) m xor_bit)"

definition dehash :: "nat \<Rightarrow> addr \<Rightarrow> addr" where
  "dehash m a = (let msb = bits1 a (m - 1); xor_bit = bits1 a m; lsb = msb XOR xor_bit; addr_no_msb = mbits a (m - 1) 0
     in insertBits1 (push_bit 1 addr_no_msb) 0 lsb)"

definition skew :: "nat \<Rightarrow> addr \<Rightarrow> nat \<Rightarrow> addr" where
  "skew m a way =
     (let addr1 = bits_val a m 0; addr2 = bits_val a (2 * (m + 1) - 1) (m + 1); k = way mod NUM_SKEWING_FUNCTIONS;
          addr1 = (if k = 0 then hash m addr1 XOR hash m addr2 XOR addr2
                   else if k = 1 then hash m addr1 XOR hash m addr2 XOR addr1
                   else if k = 2 then hash m addr1 XOR dehash m addr2 XOR addr2
                   else if k = 3 then hash m addr1 XOR dehash m addr2 XOR addr1
                   else if k = 4 then dehash m addr1 XOR hash m addr2 XOR addr2
                   else if k = 5 then dehash m addr1 XOR hash m addr2 XOR addr1
                   else if k = 6 then dehash m addr1 XOR dehash m addr2 XOR addr2
                   else dehash m addr1 XOR dehash m addr2 XOR addr1)
      in (hash m ^^ (way div NUM_SKEWING_FUNCTIONS)) addr1)"

definition deskew :: "nat \<Rightarrow> addr \<Rightarrow> nat \<Rightarrow> addr" where
  "deskew m a way =
     (let addr1 = bits_val a m 0; addr2 = bits_val a (2 * (m + 1) - 1) (m + 1);
          addr1 = (if way \<ge> NUM_SKEWING_FUNCTIONS then (dehash m ^^ (way div NUM_SKEWING_FUNCTIONS)) addr1 else addr1); k = way mod 8
      in if k = 0 then dehash m (addr1 XOR hash m addr2 XOR addr2)
         else if k = 1 then (hash m ^^ m) (addr1 XOR hash m addr2)
         else if k = 2 then dehash m (addr1 XOR dehash m addr2 XOR addr2)
         else if k = 3 then (hash m ^^ m) (addr1 XOR dehash m addr2)
         else if k = 4 then hash m (addr1 XOR hash m addr2 XOR addr2)
         else if k = 5 then (hash m ^^ Suc m) (addr1 XOR hash m addr2)
         else if k = 6 then hash m (addr1 XOR dehash m addr2 XOR addr2)
         else (hash m ^^ Suc m) (addr1 XOR dehash m addr2))"

definition sk_extractSet :: "index_policy \<Rightarrow> addr \<Rightarrow> nat \<Rightarrow> u32" where
  "sk_extractSet p a way = ucast (skew (msbShift p) (drop_bit (setShift p) a) way AND ucast (setMask p))"

definition sk_regenerateAddr :: "index_policy \<Rightarrow> addr \<Rightarrow> u32 \<Rightarrow> nat \<Rightarrow> addr" where
  "sk_regenerateAddr p tag set_no way =
     (let addr_set = push_bit (msbShift p + 1) tag OR ucast set_no in
      push_bit (tagShift p) tag OR push_bit (setShift p) (deskew (msbShift p) addr_set way AND ucast (setMask p)))"

definition sk_getPossibleEntries :: "index_policy \<Rightarrow> addr \<Rightarrow> nat option list" where
  "sk_getPossibleEntries p a = map (\<lambda>way. sets p ! unat (sk_extractSet p a way) ! way) [0..<unat (ip_assoc p)]"

section \<open>The hash functions\<close>

text \<open>A value of the \<open>m + 1\<close> bits of a set number.\<close>

definition low :: "nat \<Rightarrow> addr \<Rightarrow> bool" where
  "low m a \<longleftrightarrow> (\<forall>i. bit a i \<longrightarrow> i \<le> m)"

lemma bit_bits1 [gem5_bits]: "bit (bits1 v n) i \<longleftrightarrow> i = 0 \<and> bit v n"
  by (auto simp: bits1_def gem5_bits)

lemma bit_hash: "m < 64 \<Longrightarrow> bit (hash m a) i \<longleftrightarrow> (if i = m then bit a m \<noteq> bit a 0 else bit a (Suc i))"
  by (auto simp: hash_def insertBits1_def gem5_bits bit_simps Let_def)

lemma bit_dehash:
  assumes "0 < m" "m < 64"
  shows "bit (dehash m a) i \<longleftrightarrow> (if i = 0 then bit a (m - 1) \<noteq> bit a m else i \<le> m \<and> bit a (i - 1))"
proof -
  have "bit (push_bit 1 (mbits a (m - 1) 0)) i \<longleftrightarrow> 0 < i \<and> i \<le> m \<and> bit a (i - 1)"
    unfolding bit_push_bit_iff using assms by (auto simp: mbits_def gem5_bits bit_simps dest: bit_u64_lessD)
  then show ?thesis unfolding dehash_def Let_def insertBits1_def
    by (subst bit_insertBits_val) (auto simp: gem5_bits bit_simps)
qed

lemma low_hash: "m < 64 \<Longrightarrow> low m a \<Longrightarrow> low m (hash m a)"
  by (auto simp: low_def bit_hash split: if_splits dest: Suc_leD)

lemma low_dehash: "0 < m \<Longrightarrow> m < 64 \<Longrightarrow> low m (dehash m a)"
  by (auto simp: low_def bit_dehash split: if_splits)

lemma low_xor: "low m a \<Longrightarrow> low m b \<Longrightarrow> low m (a XOR b)"
  by (auto simp: low_def bit_simps)

lemma low_bits: "low m (bits_val a m 0)" "low m (bits_val a (2 * (m + 1) - 1) (m + 1))"
  by (auto simp: low_def gem5_bits)

lemma dehash_hash: "0 < m \<Longrightarrow> m < 64 \<Longrightarrow> low m a \<Longrightarrow> dehash m (hash m a) = a"
  by (rule bit_word_eqI) (auto simp: bit_hash bit_dehash low_def)

lemma hash_dehash: "0 < m \<Longrightarrow> m < 64 \<Longrightarrow> low m a \<Longrightarrow> hash m (dehash m a) = a"
  by (rule bit_word_eqI) (auto simp: bit_hash bit_dehash low_def not_less_eq_eq dest: Suc_leD)

lemma hash_xor: "m < 64 \<Longrightarrow> hash m (a XOR b) = hash m a XOR hash m b"
  by (rule bit_word_eqI) (auto simp: bit_hash bit_simps)

lemma hash_pow_xor: "m < 64 \<Longrightarrow> (hash m ^^ k) (a XOR b) = (hash m ^^ k) a XOR (hash m ^^ k) b"
  by (induction k) (simp_all add: hash_xor)

lemma low_hash_pow: "m < 64 \<Longrightarrow> low m a \<Longrightarrow> low m ((hash m ^^ k) a)"
  by (induction k) (simp_all add: low_hash)

lemma dehash_hash_pow: "0 < m \<Longrightarrow> m < 64 \<Longrightarrow> low m a \<Longrightarrow> (dehash m ^^ k) ((hash m ^^ k) a) = a"
proof (induction k)
  case (Suc k)
  have "(dehash m ^^ Suc k) ((hash m ^^ Suc k) a) = (dehash m ^^ k) (dehash m (hash m ((hash m ^^ k) a)))" by (simp add: funpow_Suc_right del: funpow.simps) (simp add: funpow_swap1)
  then show ?case using Suc by (simp add: dehash_hash low_hash_pow)
qed simp

lemma xor_cancel: "a XOR (a XOR b) = (b :: u64)"
  by (simp flip: xor.assoc)

text \<open>The stream of bits that the register produces.\<close>

fun stream :: "nat \<Rightarrow> addr \<Rightarrow> nat \<Rightarrow> bool" where
  "stream m a n = (if n \<le> m then bit a n else stream m a (n - 1) \<noteq> stream m a (n - Suc m))"

declare stream.simps [simp del]

lemma bit_hash_pow: "m < 64 \<Longrightarrow> i \<le> m \<Longrightarrow> bit ((hash m ^^ k) a) i = stream m a (i + k)"
proof (induction k arbitrary: i)
  case 0
  then show ?case by (simp add: stream.simps)
next
  case (Suc k)
  then show ?case using stream.simps [of m a "Suc (m + k)"] by (cases "i = m") (simp_all add: bit_hash)
qed

lemma hash_period:
  assumes "m < 64" "low m a"
  shows "(hash m ^^ Suc m) a = (hash m ^^ m) a XOR a"
proof (rule bit_word_eqI)
  fix i
  show "bit ((hash m ^^ Suc m) a) i = bit ((hash m ^^ m) a XOR a) i"
  proof (cases "i \<le> m")
    case True
    then show ?thesis using assms(1) stream.simps [of m a "i + Suc m"] stream.simps [of m a i]
      by (simp add: bit_hash_pow bit_xor_iff del: funpow.simps)
  next
    case False
    then show ?thesis using low_hash_pow [OF assms, of m] low_hash_pow [OF assms, of "Suc m"] assms(2)
      by (auto simp: low_def bit_xor_iff)
  qed
qed


lemma deskew_skew_low:
  assumes m: "0 < m" "m < 64" and s: "bits_val b m 0 = skew m a way" "bits_val b (2 * (m + 1) - 1) (m + 1) = bits_val a (2 * (m + 1) - 1) (m + 1)"
  shows "deskew m b way = bits_val a m 0"
proof -
  define a1 a2 where "a1 = bits_val a m 0" and "a2 = bits_val a (2 * (m + 1) - 1) (m + 1)"
  have l: "low m a1" "low m a2" by (simp_all only: a1_def a2_def low_bits)
  note lows = l low_hash [OF m(2)] low_dehash [OF m] low_xor low_hash_pow [OF m(2)]
  define k where "k = way mod 8"
  define f where "f = (if k = 0 then hash m a1 XOR hash m a2 XOR a2 else if k = 1 then hash m a1 XOR hash m a2 XOR a1
     else if k = 2 then hash m a1 XOR dehash m a2 XOR a2 else if k = 3 then hash m a1 XOR dehash m a2 XOR a1
     else if k = 4 then dehash m a1 XOR hash m a2 XOR a2 else if k = 5 then dehash m a1 XOR hash m a2 XOR a1
     else if k = 6 then dehash m a1 XOR dehash m a2 XOR a2 else dehash m a1 XOR dehash m a2 XOR a1)"
  have "low m f" unfolding f_def using lows by simp
  moreover have skew: "skew m a way = (hash m ^^ (way div 8)) f"
    unfolding skew_def Let_def NUM_SKEWING_FUNCTIONS_def a1_def [symmetric] a2_def [symmetric] k_def [symmetric] f_def [symmetric] ..
  ultimately have f: "(if way \<ge> 8 then (dehash m ^^ (way div 8)) (skew m a way) else skew m a way) = f"
    using dehash_hash_pow [OF m] by simp
  have step1: "(hash m ^^ m) (hash m a1 XOR a1) = a1"
    using hash_period [OF m(2) l(1)] by (simp add: hash_pow_xor m funpow_swap1 xor.assoc xor.left_commute)
  have step5: "(hash m ^^ Suc m) (dehash m a1 XOR a1) = a1"
  proof -
    have "(hash m ^^ Suc m) (dehash m a1 XOR a1) = (hash m ^^ m) (hash m (dehash m a1)) XOR (hash m ^^ Suc m) a1"
      by (simp add: hash_pow_xor hash_xor m funpow_swap1)
    then show ?thesis using hash_period [OF m(2) l(1)] hash_dehash [OF m l(1)] by (simp add: xor.assoc [symmetric] del: funpow.simps)
  qed
  have undo: "k = 0 \<Longrightarrow> f XOR hash m a2 XOR a2 = hash m a1" "k = 1 \<Longrightarrow> f XOR hash m a2 = hash m a1 XOR a1"
    "k = 2 \<Longrightarrow> f XOR dehash m a2 XOR a2 = hash m a1" "k = 3 \<Longrightarrow> f XOR dehash m a2 = hash m a1 XOR a1"
    "k = 4 \<Longrightarrow> f XOR hash m a2 XOR a2 = dehash m a1" "k = 5 \<Longrightarrow> f XOR hash m a2 = dehash m a1 XOR a1"
    "k = 6 \<Longrightarrow> f XOR dehash m a2 XOR a2 = dehash m a1" "k = 7 \<Longrightarrow> f XOR dehash m a2 = dehash m a1 XOR a1"
    by (simp_all add: f_def xor_cancel xor.assoc xor.left_commute [of a1] xor.left_commute [of a2] xor.commute [of a1] xor.commute [of a2])
  have "k < 8" by (simp add: k_def)
  then consider "k = 0" | "k = 1" | "k = 2" | "k = 3" | "k = 4" | "k = 5" | "k = 6" | "k = 7" by linarith
  then show ?thesis
    unfolding deskew_def Let_def NUM_SKEWING_FUNCTIONS_def s a1_def [symmetric] a2_def [symmetric] k_def [symmetric] f
    by cases (simp_all add: undo step1 step5 dehash_hash [OF m l(1)] hash_dehash [OF m l(1)] del: funpow.simps)
qed

section \<open>The address of a block\<close>

text \<open>The address of the line that contains an address.\<close>

definition line :: "index_policy \<Rightarrow> addr \<Rightarrow> addr" where
  "line p a = push_bit (setShift p) (drop_bit (setShift p) a)"

definition index_ok :: "index_policy \<Rightarrow> bool" where
  "index_ok p \<longleftrightarrow> setShift p < 32 \<and> setShift p \<le> tagShift p \<and> tagShift p - setShift p < 32 \<and>
     unat (numSets p) = 2 ^ (tagShift p - setShift p) \<and> setMask p = mask (tagShift p - setShift p) \<and>
     length (sets p) = unat (numSets p) \<and> (\<forall>row\<in>set (sets p). length row = unat (ip_assoc p)) \<and> 0 < ip_assoc p"

lemma floorLog2_4_bounds:
  assumes "floorLog2 4 (ucast (x :: u32)) = Inr y"
  shows "2 ^ y \<le> unat x" "unat x < 2 ^ (y + 1)" "y < 32"
proof -
  have "bits_val (ucast x) 63 32 = 0" by (rule word_eq_bitI) (auto simp: gem5_bits bit_simps dest: bit_imp_le_length)
  then have "(ucast x :: u64) AND 0xffffffff00000000 = 0" using floorLog2_field(1) by blast
  then have "floorLog2 8 (ucast x) = Inr y" using assms by (simp add: floorLog2_def Let_def)
  from floorLog2_8_bounds [OF this] show b: "2 ^ y \<le> unat x" "unat x < 2 ^ (y + 1)" by simp_all
  have "(2 :: nat) ^ y < 2 ^ 32" using b(1) unsigned_less [of x, where 'a = nat] by (simp add: le_less_trans)
  then show "y < 32" by (simp add: power_strict_increasing_iff del: power_numeral)
qed

lemma BaseIndexingPolicy_ok:
  assumes "BaseIndexingPolicy capacity entry_size assoc = Inr p"
  shows "index_ok p" "ip_assoc p = assoc"
proof -
  obtain s n where s: "floorLog2 4 (ucast entry_size) = Inr s" "floorLog2 4 (ucast (numSets p)) = Inr n" "isPowerOf2 (ucast (numSets p))"
      "setShift p = s" "tagShift p = s + n" "setMask p = numSets p - 1" "sets p = replicate (unat (numSets p)) (replicate (unat assoc) None)" "0 < assoc" "ip_assoc p = assoc"
    using assms by (auto simp: BaseIndexingPolicy_def Let_def bindR_Inr_iff)
  obtain k where k: "k < 64" "(ucast (numSets p) :: u64) = 2 ^ k" using isPowerOf2_imp [OF s(3)] by blast
  have u: "unat (numSets p) = 2 ^ k" using k by (metis unat_ucast_u32 unat_power2)
  then have "k = n" using floorLog2_4_bounds [OF s(2)] log_unique [of n "unat (numSets p)" k] by simp
  then have num: "unat (numSets p) = 2 ^ n" "n < 32" using u floorLog2_4_bounds(3) [OF s(2)] by simp_all
  have "unat (2 ^ n :: u32) = 2 ^ n"
    using unat_of_nat [of "2 ^ n", where 'a = 32] power_strict_increasing [of n 32 "2 :: nat"] num(2) by simp
  then have "numSets p = 2 ^ n" using num(1) by (simp add: word_unat_eq_iff)
  then show "index_ok p" "ip_assoc p = assoc" using s num floorLog2_4_bounds(3) [OF s(1)] by (simp_all add: index_ok_def mask_eq_exp_minus_1)
qed


lemma bit_setMask: "index_ok p \<Longrightarrow> bit (ucast (setMask p) :: u64) i \<longleftrightarrow> i < tagShift p - setShift p"
  by (auto simp: index_ok_def bit_simps)

lemma bit_line: "bit (line p a) i \<longleftrightarrow> setShift p \<le> i \<and> bit a i"
  unfolding line_def bit_push_bit_iff by (auto simp: bit_simps dest: bit_u64_lessD)

lemma bit_high: "bit (push_bit (tagShift p) (extractTag p a)) i \<longleftrightarrow> tagShift p \<le> i \<and> bit a i"
  unfolding extractTag_def bit_push_bit_iff by (auto simp: bit_simps dest: bit_u64_lessD)

definition sa_ok :: "index_policy \<Rightarrow> bool" where
  "sa_ok p \<longleftrightarrow> index_ok p \<and> tagShift p \<le> 32"

definition sk_ok :: "index_policy \<Rightarrow> bool" where
  "sk_ok p \<longleftrightarrow> index_ok p \<and> 2 \<le> tagShift p - setShift p \<and> setShift p + 2 * (tagShift p - setShift p) \<le> 64"

lemma SkewedAssociative_ok:
  assumes "SkewedAssociative capacity entry_size assoc = Inr p"
  shows "sk_ok p"
proof -
  have p: "BaseIndexingPolicy capacity entry_size assoc = Inr p" "setShift p + 2 * (tagShift p - setShift p) \<le> 64" "\<not> numSets p \<le> 2"
    using assms by (auto simp: SkewedAssociative_def bindR_Inr_iff)
  have ok: "index_ok p" using BaseIndexingPolicy_ok [OF p(1)] by simp
  then have "(2 :: nat) ^ 1 < 2 ^ (tagShift p - setShift p)" using p(3) by (simp add: index_ok_def word_le_nat_alt)
  then have "1 < tagShift p - setShift p" by (simp only: power_strict_increasing_iff)
  then show ?thesis using ok p(2) by (simp add: sk_ok_def)
qed

lemma sa_regenerate:
  assumes "sa_ok p"
  shows "sa_regenerateAddr p (extractTag p a) (sa_extractSet p a) = line p a"
proof (rule bit_word_eqI)
  fix i
  have "bit (ucast (push_bit (setShift p) (sa_extractSet p a)) :: u64) i \<longleftrightarrow> setShift p \<le> i \<and> i < tagShift p \<and> bit a i"
    using assms bit_setMask [of p "i - setShift p"] unfolding sa_ok_def
    by (auto simp: sa_extractSet_def bit_simps index_ok_def)
  then show "bit (sa_regenerateAddr p (extractTag p a) (sa_extractSet p a)) i = bit (line p a) i"
    using assms unfolding sa_regenerateAddr_def bit_or_iff bit_high bit_line by (auto simp: sa_ok_def index_ok_def)
qed

lemma skew_low: "0 < m \<Longrightarrow> m < 64 \<Longrightarrow> low m (skew m a way)"
  unfolding skew_def Let_def by (intro low_hash_pow) (auto intro!: low_xor low_hash low_dehash low_bits low_bits [simplified])

lemma sk_regenerate:
  assumes "sk_ok p"
  shows "sk_regenerateAddr p (extractTag p a) (sk_extractSet p a way) way = line p a"
proof -
  define n m where "n = tagShift p - setShift p" and "m = msbShift p"
  define b where "b = drop_bit (setShift p) a"
  have n: "n = Suc m" "0 < m" "m < 64" "m < 31" "tagShift p = setShift p + n" "index_ok p" "setShift p + 2 * n \<le> 64"
    using assms by (auto simp: sk_ok_def index_ok_def n_def m_def msbShift_def)
  have mask: "bit (ucast (setMask p) :: u64) i \<longleftrightarrow> i \<le> m" for i using bit_setMask [OF n(6), of i] n(1) by (simp add: n_def less_Suc_eq_le)
  have mask32: "bit (setMask p) i \<longleftrightarrow> i \<le> m" for i using n(1,4,6) by (auto simp: index_ok_def bit_simps n_def [symmetric])
  have set_no: "(ucast (sk_extractSet p a way) :: u64) = skew m b way"
    using skew_low [OF n(2,3), of b way] n(4) by (intro bit_word_eqI) (auto simp: sk_extractSet_def bit_simps mask32 low_def m_def [symmetric] b_def [symmetric])
  define c where "c = push_bit (m + 1) (extractTag p a) OR ucast (sk_extractSet p a way)"
  have bitc: "bit c i \<longleftrightarrow> m < i \<and> i < 64 \<and> bit a (setShift p + i) \<or> i \<le> m \<and> bit (skew m b way) i" for i
    using skew_low [OF n(2,3), of b way] unfolding c_def set_no bit_or_iff bit_push_bit_iff extractTag_def
    by (auto simp: bit_simps low_def m_def [symmetric] n(1,5) add.commute dest: bit_u64_lessD)
  have "bits_val c m 0 = skew m b way"
    using skew_low [OF n(2,3), of b way] by (intro bit_word_eqI) (auto simp: gem5_bits bitc low_def dest: bit_u64_lessD)
  moreover have "bits_val c (2 * (m + 1) - 1) (m + 1) = bits_val b (2 * (m + 1) - 1) (m + 1)"
    using n(1,7) by (intro bit_word_eqI) (auto simp: gem5_bits bitc b_def bit_simps)
  ultimately have d: "deskew m c way = bits_val b m 0" by (rule deskew_skew_low [OF n(2,3)])
  show ?thesis
  proof (rule bit_word_eqI)
    fix i
    have "bit (push_bit (setShift p) (deskew m c way AND ucast (setMask p))) i \<longleftrightarrow> setShift p \<le> i \<and> i < tagShift p \<and> bit a i"
      unfolding d bit_push_bit_iff bit_and_iff mask b_def using n(1,5,7) by (auto simp: gem5_bits bit_simps dest: bit_u64_lessD)
    then show "bit (sk_regenerateAddr p (extractTag p a) (sk_extractSet p a way) way) i = bit (line p a) i"
      using n(5) unfolding sk_regenerateAddr_def Let_def c_def [symmetric] m_def [symmetric] bit_or_iff bit_high bit_line by auto
  qed
qed

lemma masked_set: "index_ok p \<Longrightarrow> unat (ucast (x AND ucast (setMask p)) :: u32) < unat (numSets p)" for x :: u64
proof -
  assume ok: "index_ok p"
  have "(ucast (x AND ucast (setMask p)) :: u32) = take_bit (tagShift p - setShift p) (ucast x)"
    using ok by (intro bit_word_eqI) (auto simp: index_ok_def bit_simps)
  then show ?thesis using ok by (simp add: unat_take_bit_mod index_ok_def)
qed

lemma line_tag: "index_ok p \<Longrightarrow> extractTag p (line p a) = extractTag p a"
  by (rule bit_word_eqI) (auto simp: extractTag_def bit_simps bit_line index_ok_def)

lemma line_shift: "drop_bit (setShift p) (line p a) = drop_bit (setShift p) a"
  by (rule bit_word_eqI) (auto simp: bit_simps bit_line)


section \<open>What a tag store relies on\<close>

text \<open>\<open>ok\<close> is what the constructor establishes. A block is placed by its line, and its line is known from its place and its tag.\<close>

locale indexing =
  fixes ok :: "index_policy \<Rightarrow> bool" and extractSet :: "index_policy \<Rightarrow> addr \<Rightarrow> nat \<Rightarrow> u32"
    and regenerateAddr :: "index_policy \<Rightarrow> addr \<Rightarrow> u32 \<Rightarrow> nat \<Rightarrow> addr"
    and getPossibleEntries :: "index_policy \<Rightarrow> addr \<Rightarrow> nat option list"
  assumes well_formed: "ok p \<Longrightarrow> index_ok p"
    and entries: "ok p \<Longrightarrow> getPossibleEntries p a = map (\<lambda>w. sets p ! unat (extractSet p a w) ! w) [0..<unat (ip_assoc p)]"
    and in_range: "ok p \<Longrightarrow> unat (extractSet p a w) < unat (numSets p)"
    and by_line: "ok p \<Longrightarrow> extractSet p (line p a) w = extractSet p a w"
    and regenerate: "ok p \<Longrightarrow> regenerateAddr p (extractTag p a) (extractSet p a w) w = line p a"
    and table: "ok p \<Longrightarrow> length (t) = length (sets p) \<Longrightarrow> \<forall>row\<in>set (t). length row = unat (ip_assoc p) \<Longrightarrow>
      ok (p\<lparr>sets := t\<rparr>) \<and> extractSet (p\<lparr>sets := t\<rparr>) = extractSet p \<and> regenerateAddr (p\<lparr>sets := t\<rparr>) = regenerateAddr p"
begin

text \<open>Two addresses with the same tag and the same place are of the same line.\<close>

lemma same_place: "ok p \<Longrightarrow> extractTag p a = extractTag p b \<Longrightarrow> extractSet p a w = extractSet p b w \<Longrightarrow> line p a = line p b"
  by (metis regenerate)

lemma regenerate_consistent:
  assumes "ok p"
  shows "extractTag p (regenerateAddr p (extractTag p a) (extractSet p a w) w) = extractTag p a"
    "extractSet p (regenerateAddr p (extractTag p a) (extractSet p a w) w) v = extractSet p a v"
  using assms by (simp_all add: regenerate by_line line_tag well_formed)

end

lemma row_map: "length row = n \<Longrightarrow> row = map (\<lambda>w. row ! w) [0..<n]"
  using map_nth [of row] by simp

interpretation sa: indexing sa_ok "\<lambda>p a w. sa_extractSet p a" "\<lambda>p tag s w. sa_regenerateAddr p tag s" sa_getPossibleEntries
proof unfold_locales
  fix p a
  assume "sa_ok p"
  then have ok: "index_ok p" "unat (sa_extractSet p a) < length (sets p)"
    using masked_set [of p "drop_bit (setShift p) a"] by (auto simp: sa_ok_def sa_extractSet_def index_ok_def)
  then show "sa_getPossibleEntries p a = map (\<lambda>w. sets p ! unat (sa_extractSet p a) ! w) [0..<unat (ip_assoc p)]"
    unfolding sa_getPossibleEntries_def by (intro row_map) (auto simp: index_ok_def)
next
  fix p :: index_policy and t :: "nat option list list"
  assume "sa_ok p" "length (t) = length (sets p)" "\<forall>row\<in>set (t). length row = unat (ip_assoc p)"
  then show "sa_ok (p\<lparr>sets := t\<rparr>) \<and> (\<lambda>a w. sa_extractSet (p\<lparr>sets := t\<rparr>) a) = (\<lambda>a w. sa_extractSet p a) \<and>
      (\<lambda>tag s w. sa_regenerateAddr (p\<lparr>sets := t\<rparr>) tag s) = (\<lambda>tag s w. sa_regenerateAddr p tag s)"
    by (simp add: sa_ok_def index_ok_def sa_extractSet_def sa_regenerateAddr_def)
next
  show "sa_regenerateAddr p (extractTag p a) (sa_extractSet p a) = line p a" if "sa_ok p" for p a using that by (rule sa_regenerate)
qed (simp_all add: masked_set sa_ok_def sa_extractSet_def line_shift)

interpretation sk: indexing sk_ok sk_extractSet sk_regenerateAddr sk_getPossibleEntries
proof unfold_locales
  fix p :: index_policy and t :: "nat option list list"
  assume "sk_ok p" "length (t) = length (sets p)" "\<forall>row\<in>set (t). length row = unat (ip_assoc p)"
  then show "sk_ok (p\<lparr>sets := t\<rparr>) \<and> sk_extractSet (p\<lparr>sets := t\<rparr>) = sk_extractSet p \<and> sk_regenerateAddr (p\<lparr>sets := t\<rparr>) = sk_regenerateAddr p"
    by (auto simp: sk_ok_def index_ok_def sk_extractSet_def sk_regenerateAddr_def msbShift_def fun_eq_iff)
next
  show "sk_regenerateAddr p (extractTag p a) (sk_extractSet p a w) w = line p a" if "sk_ok p" for p a w using that by (rule sk_regenerate)
qed (simp_all add: masked_set sk_ok_def sk_extractSet_def line_shift sk_getPossibleEntries_def)

text \<open>C22: a skewed cache recovers the address of a block. When its constructor accepts the parameters, then for every address and
  every way, also beyond the eight hash functions, the set is in range and the address computed from the tag, the set and the way is the
  address of the line.\<close>

theorem skewed_roundtrip:
  assumes "SkewedAssociative capacity entry_size assoc = Inr p"
  shows "sk_extractSet p a way < numSets p \<and>
    sk_regenerateAddr p (extractTag p a) (sk_extractSet p a way) way = push_bit (setShift p) (drop_bit (setShift p) a)"
  using sk.in_range [OF SkewedAssociative_ok [OF assms]] sk.regenerate [OF SkewedAssociative_ok [OF assms]] by (simp add: line_def word_less_nat_alt)

theorem skewed_roundtrip_witness:
  "\<exists>p. SkewedAssociative 8192 64 12 = Inl Fatal_Error \<and> SkewedAssociative 8192 64 16 = Inr p \<and>
     sk_regenerateAddr p (extractTag p 0xdeadbeef) (sk_extractSet p 0xdeadbeef 13) 13 = 0xdeadbec0"
proof -
  have "SkewedAssociative 8192 64 12 = Inl Fatal_Error" by code_simp
  moreover have "case SkewedAssociative 8192 64 16 of Inl _ \<Rightarrow> False | Inr p \<Rightarrow> setShift p = 6" by code_simp
  then obtain p where p: "SkewedAssociative 8192 64 16 = Inr p" "setShift p = 6" by (auto split: sum.splits)
  ultimately show ?thesis using skewed_roundtrip [OF p(1), of "0xdeadbeef" 13] by (auto simp: push_bit_eq_mult drop_bit_eq_div)
qed

text \<open>A way of more than four gigabytes: the shift of the set number loses its upper bits.\<close>

lemma regenerate_truncates:
  "\<exists>p. BaseIndexingPolicy 0x200000000 64 1 = Inr p \<and> sa_regenerateAddr p (extractTag p 0x100000000) (sa_extractSet p 0x100000000) \<noteq> line p 0x100000000"
proof -
  have log: "floorLog2 4 64 = Inr 6" "floorLog2 4 0x8000000 = Inr 27" "isPowerOf2 0x8000000" by code_simp+
  let ?p = "\<lparr>ip_assoc = 1, numSets = 0x8000000, setShift = 6, setMask = 0x7ffffff, sets = replicate 0x8000000 [None], tagShift = 33\<rparr>"
  have "BaseIndexingPolicy 0x200000000 64 1 = Inr ?p" by (simp add: BaseIndexingPolicy_def log)
  moreover have "sa_regenerateAddr ?p (extractTag ?p 0x100000000) (sa_extractSet ?p 0x100000000) = 0" "line ?p 0x100000000 = 0x100000000"
    by (simp_all add: sa_regenerateAddr_def extractTag_def sa_extractSet_def line_def drop_bit_eq_div push_bit_eq_mult)
  ultimately show ?thesis by (intro exI [of _ ?p]) simp
qed

end
