(* ===== verification/Cache_Tags.thy ===== *)
theory Cache_Tags
  imports Indexing_Policy Replacement Mem_Packet
begin

text \<open>
  \<^verbatim>\<open>src/gem5/src/mem/cache/cache_blk.hh\<close>, \<^verbatim>\<open>tags/tagged_entry.hh\<close>, \<^verbatim>\<open>tags/base.cc\<close>, \<^verbatim>\<open>tags/base_set_assoc.cc\<close> and the
  allocation of blocks in \<^verbatim>\<open>base.cc\<close>: the blocks of a cache with their load locks, and the tag store that finds, inserts,
  moves and invalidates them. A block is named by its number in the array of blocks. The indexing policy
  is one of the two of \<^verbatim>\<open>Indexing_Policy\<close>; the replacement policy is a record of operations, as the tag store calls it
  through the interface of the base class. The identity of the context of a request, of the requestor and of the task
  are arguments. Data, compression and sectors are not modelled.
\<close>

section \<open>Cache blocks\<close>

record load_lock =
  lock_contextId :: nat
  lowAddr :: addr
  highAddr :: addr

record 'd cache_blk =
  blk_set :: u32
  blk_way :: u32
  replacementData :: 'd
  blk_valid :: bool
  blk_secure :: bool
  blk_tag :: addr
  coherence :: u32
  blk_prefetched :: bool
  whenReady :: tick
  lockList :: "load_lock list"
  blk_taskId :: u32
  srcRequestorId :: u32
  blk_refCount :: u32
  blk_tickInserted :: tick
  blk_ddio_destination :: int

definition WritableBit :: u32 where "WritableBit = 2"
definition ReadableBit :: u32 where "ReadableBit = 4"
definition DirtyBit :: u32 where "DirtyBit = 8"
definition AllBits :: u32 where "AllBits = 0xe"

text \<open>The first and the last address of a request, which must have an address and a size.\<close>

definition req_bounds :: "request \<Rightarrow> (addr \<times> addr) result" where
  "req_bounds req = (case (req_paddr req, req_size req) of (Some a, Some s) \<Rightarrow> Inr (a, a + ucast s - 1) | _ \<Rightarrow> Inl Assert_Failed)"

definition req_context :: "nat option \<Rightarrow> nat result" where
  "req_context ctx = (case ctx of Some c \<Rightarrow> Inr c | None \<Rightarrow> Inl Assert_Failed)"

definition lock_matches :: "nat option \<Rightarrow> request \<Rightarrow> load_lock \<Rightarrow> bool result" where
  "lock_matches ctx req l = bindR (req_bounds req) (\<lambda>(req_low, req_high). bindR (req_context ctx) (\<lambda>c.
     Inr (lock_contextId l = c \<and> req_low \<ge> lowAddr l \<and> req_high \<le> highAddr l)))"

definition lock_intersects :: "request \<Rightarrow> load_lock \<Rightarrow> bool result" where
  "lock_intersects req l = bindR (req_bounds req) (\<lambda>(req_low, req_high). Inr (req_low \<le> highAddr l \<and> req_high \<ge> lowAddr l))"

definition Lock :: "nat option \<Rightarrow> request \<Rightarrow> load_lock result" where
  "Lock ctx req = bindR (req_context ctx) (\<lambda>c. bindR (req_bounds req) (\<lambda>(low, high). Inr \<lparr>lock_contextId = c, lowAddr = low, highAddr = high\<rparr>))"

text \<open>The loop that erases the elements for which a test holds.\<close>

fun erase_if :: "('a \<Rightarrow> bool result) \<Rightarrow> 'a list \<Rightarrow> 'a list result" where
  "erase_if test [] = Inr []"
| "erase_if test (x # xs) = bindR (test x) (\<lambda>b. bindR (erase_if test xs) (\<lambda>ys. Inr (if b then ys else x # ys)))"

definition trackLoadLocked :: "nat option \<Rightarrow> packet \<Rightarrow> 'd cache_blk \<Rightarrow> 'd cache_blk result" where
  "trackLoadLocked ctx pkt b = guardR (testCmdAttrib (pkt_cmd pkt) IsLlsc) Assert_Failed
     (bindR (erase_if (lock_intersects (pkt_req pkt)) (lockList b)) (\<lambda>ls.
      bindR (Lock ctx (pkt_req pkt)) (\<lambda>l. Inr (b\<lparr>lockList := l # ls\<rparr>))))"

definition clearLoadLocks :: "nat option \<Rightarrow> request \<Rightarrow> 'd cache_blk \<Rightarrow> 'd cache_blk result" where
  "clearLoadLocks ctx req b =
     bindR (erase_if (\<lambda>l. bindR (lock_intersects req l) (\<lambda>i. if i then bindR (req_context ctx) (\<lambda>c. Inr (lock_contextId l \<noteq> c)) else Inr False)) (lockList b)) (\<lambda>ls.
     Inr (b\<lparr>lockList := ls\<rparr>))"

text \<open>The search of a store conditional erases the first lock that matches.\<close>

fun erase_match :: "('a \<Rightarrow> bool result) \<Rightarrow> 'a list \<Rightarrow> (bool \<times> 'a list) result" where
  "erase_match test [] = Inr (False, [])"
| "erase_match test (x # xs) = bindR (test x) (\<lambda>b. if b then Inr (True, xs) else bindR (erase_match test xs) (\<lambda>(s, ys). Inr (s, x # ys)))"

text \<open>The results are whether the write proceeds, the extra data of the request and the block.\<close>

definition checkWrite :: "nat option \<Rightarrow> packet \<Rightarrow> 'd cache_blk \<Rightarrow> (bool \<times> u64 option \<times> 'd cache_blk) result" where
  "checkWrite ctx pkt b = guardR (testCmdAttrib (pkt_cmd pkt) IsWrite) Assert_Failed
     (if \<not> testCmdAttrib (pkt_cmd pkt) IsLlsc \<and> lockList b = [] then Inr (True, None, b)
      else if testCmdAttrib (pkt_cmd pkt) IsLlsc
      then bindR (erase_match (lock_matches ctx (pkt_req pkt)) (lockList b)) (\<lambda>(success, ls).
           bindR (clearLoadLocks ctx (pkt_req pkt) (b\<lparr>lockList := ls\<rparr>)) (\<lambda>b. Inr (success, Some (if success then 1 else 0), b)))
      else bindR (clearLoadLocks ctx (pkt_req pkt) b) (\<lambda>b. Inr (True, None, b)))"

definition blk_invalidate :: "'d cache_blk \<Rightarrow> 'd cache_blk" where
  "blk_invalidate b = b\<lparr>blk_valid := False, blk_tag := - 1, blk_secure := False, blk_prefetched := False, coherence := coherence b AND NOT AllBits,
     blk_taskId := 1024, whenReady := - 1, blk_refCount := 0, srcRequestorId := 0xffff, lockList := []\<rparr>"

definition matchTag :: "addr \<Rightarrow> bool \<Rightarrow> 'd cache_blk \<Rightarrow> bool" where
  "matchTag tag is_secure b \<longleftrightarrow> blk_valid b \<and> blk_tag b = tag \<and> blk_secure b = is_secure"

definition entry_insert :: "addr \<Rightarrow> bool \<Rightarrow> 'd cache_blk \<Rightarrow> 'd cache_blk result" where
  "entry_insert tag is_secure b = guardR (\<not> blk_valid b) Assert_Failed
     (let b = b\<lparr>blk_valid := True, blk_tag := tag\<rparr> in Inr (if is_secure then b\<lparr>blk_secure := True\<rparr> else b))"

definition blk_insert :: "tick \<Rightarrow> addr \<Rightarrow> bool \<Rightarrow> u32 \<Rightarrow> u32 \<Rightarrow> 'd cache_blk \<Rightarrow> 'd cache_blk result" where
  "blk_insert curTick tag is_secure requestor task b = guardR (\<not> blk_valid b) Assert_Failed
     (bindR (entry_insert tag is_secure b) (\<lambda>b.
      Inr (b\<lparr>srcRequestorId := requestor, blk_taskId := task, blk_tickInserted := curTick, blk_refCount := blk_refCount b + 1\<rparr>)))"

definition setCoherenceBits :: "u32 \<Rightarrow> 'd cache_blk \<Rightarrow> 'd cache_blk result" where
  "setCoherenceBits bits b = guardR (blk_valid b) Assert_Failed (Inr (b\<lparr>coherence := coherence b OR bits\<rparr>))"

definition clearCoherenceBits :: "u32 \<Rightarrow> 'd cache_blk \<Rightarrow> 'd cache_blk" where
  "clearCoherenceBits bits b = b\<lparr>coherence := coherence b AND NOT bits\<rparr>"

definition blk_isSet :: "u32 \<Rightarrow> 'd cache_blk \<Rightarrow> bool" where
  "blk_isSet bits b \<longleftrightarrow> blk_valid b \<and> coherence b AND bits \<noteq> 0"

definition setWhenReady :: "tick \<Rightarrow> 'd cache_blk \<Rightarrow> 'd cache_blk result" where
  "setWhenReady t b = guardR (t \<ge> blk_tickInserted b) Assert_Failed (Inr (b\<lparr>whenReady := t\<rparr>))"

text \<open>The move assignment: the destination and the source after it.\<close>

definition blk_move :: "tick \<Rightarrow> 'd cache_blk \<Rightarrow> 'd cache_blk \<Rightarrow> ('d cache_blk \<times> 'd cache_blk) result" where
  "blk_move curTick dest src = guardR (\<not> blk_valid dest) Assert_Failed (guardR (blk_valid src) Assert_Failed
     (bindR (entry_insert (blk_tag src) (blk_secure src) dest) (\<lambda>d.
      let d = (if blk_prefetched src then d\<lparr>blk_prefetched := True\<rparr> else d) in
      bindR (setCoherenceBits (coherence src) d) (\<lambda>d.
      let d = d\<lparr>blk_taskId := blk_taskId src\<rparr> in
      bindR (setWhenReady curTick d) (\<lambda>d.
      let d = d\<lparr>blk_refCount := blk_refCount src, srcRequestorId := srcRequestorId src, lockList := lockList src\<rparr> in
      Inr (d, blk_invalidate (src\<lparr>lockList := lockList dest\<rparr>)))))))"

section \<open>The tag store\<close>

text \<open>What a tag store calls of a replacement policy.\<close>

record 'd repl_policy =
  instantiateEntry :: 'd
  rp_touch :: "tick \<Rightarrow> 'd \<Rightarrow> 'd"
  rp_reset :: "tick \<Rightarrow> 'd \<Rightarrow> 'd"
  rp_invalidate :: "'d \<Rightarrow> 'd"
  rp_invalidateDDIO :: "'d \<Rightarrow> 'd"
  rp_getVictim :: "'d list \<Rightarrow> (nat \<times> 'd list) result"
  rp_getVictimWayPart :: "'d list \<Rightarrow> nat list \<Rightarrow> u32 \<Rightarrow> (nat \<times> 'd list) result"

definition LRU :: "lru_data repl_policy" where
  "LRU = \<lparr>instantiateEntry = LRUReplData, rp_touch = lru_touch, rp_reset = lru_reset, rp_invalidate = lru_invalidate,
     rp_invalidateDDIO = lru_invalidateDDIO, rp_getVictim = lru_getVictim, rp_getVictimWayPart = getVictimWayPart\<rparr>"

datatype index_kind = Set_Associative | Skewed_Associative

definition ix_getPossibleEntries :: "index_kind \<Rightarrow> index_policy \<Rightarrow> addr \<Rightarrow> nat option list" where
  "ix_getPossibleEntries k = (case k of Set_Associative \<Rightarrow> sa_getPossibleEntries | Skewed_Associative \<Rightarrow> sk_getPossibleEntries)"

definition ix_regenerateAddr :: "index_kind \<Rightarrow> index_policy \<Rightarrow> addr \<Rightarrow> u32 \<Rightarrow> nat \<Rightarrow> addr" where
  "ix_regenerateAddr k = (case k of Set_Associative \<Rightarrow> (\<lambda>p tag s w. sa_regenerateAddr p tag s) | Skewed_Associative \<Rightarrow> sk_regenerateAddr)"

record 'd tag_store =
  ts_kind :: index_kind
  indexingPolicy :: index_policy
  replacementPolicy :: "'d repl_policy"
  ts_blks :: "'d cache_blk list"

definition on_blk :: "nat \<Rightarrow> 'd cache_blk \<Rightarrow> 'd tag_store \<Rightarrow> 'd tag_store" where
  "on_blk i b t = t\<lparr>ts_blks := (ts_blks t)[i := b]\<rparr>"

text \<open>The array of blocks is made of invalidated blocks; each is then given its place in the table and its replacement data.\<close>

definition CacheBlk :: "'d \<Rightarrow> 'd cache_blk" where
  "CacheBlk d = blk_invalidate \<lparr>blk_set = 0, blk_way = 0, replacementData = d, blk_valid = False, blk_secure = False, blk_tag = - 1, coherence = 0,
     blk_prefetched = False, whenReady = 0, lockList = [], blk_taskId = 0, srcRequestorId = 0, blk_refCount = 0, blk_tickInserted = 0, blk_ddio_destination = - 1\<rparr>"

fun tagsInit_from :: "nat list \<Rightarrow> 'd tag_store \<Rightarrow> 'd tag_store result" where
  "tagsInit_from [] t = Inr t"
| "tagsInit_from (i # is) t = bindR (setEntry i i (indexingPolicy t)) (\<lambda>(s, w, p).
     tagsInit_from is ((on_blk i ((ts_blks t ! i)\<lparr>blk_set := s, blk_way := w, replacementData := instantiateEntry (replacementPolicy t)\<rparr>) t)\<lparr>indexingPolicy := p\<rparr>))"

definition BaseSetAssoc :: "index_kind \<Rightarrow> 'd repl_policy \<Rightarrow> u64 \<Rightarrow> u32 \<Rightarrow> u32 \<Rightarrow> 'd tag_store result" where
  "BaseSetAssoc kind rp capacity block_size assoc =
     bindR (case kind of Set_Associative \<Rightarrow> BaseIndexingPolicy capacity block_size assoc | Skewed_Associative \<Rightarrow> SkewedAssociative capacity block_size assoc) (\<lambda>p.
     guardR (\<not> (block_size < 4 \<or> \<not> isPowerOf2 (ucast block_size))) Fatal_Error
     (let numBlocks = unat (capacity div ucast block_size) in
      tagsInit_from [0..<numBlocks] \<lparr>ts_kind = kind, indexingPolicy = p, replacementPolicy = rp, ts_blks = replicate numBlocks (CacheBlk (instantiateEntry rp))\<rparr>))"

definition possible :: "'d tag_store \<Rightarrow> addr \<Rightarrow> nat option list" where
  "possible t a = ix_getPossibleEntries (ts_kind t) (indexingPolicy t) a"

fun find_tag :: "addr \<Rightarrow> bool \<Rightarrow> 'd cache_blk list \<Rightarrow> nat option list \<Rightarrow> nat option result" where
  "find_tag tag is_secure blks [] = Inr None"
| "find_tag tag is_secure blks (None # ls) = Inl Out_Of_Range"
| "find_tag tag is_secure blks (Some i # ls) = (if matchTag tag is_secure (blks ! i) then Inr (Some i) else find_tag tag is_secure blks ls)"

definition findBlock :: "addr \<Rightarrow> bool \<Rightarrow> 'd tag_store \<Rightarrow> nat option result" where
  "findBlock a is_secure t = find_tag (extractTag (indexingPolicy t) a) is_secure (ts_blks t) (possible t a)"

definition regenerateBlkAddr :: "'d tag_store \<Rightarrow> nat \<Rightarrow> addr" where
  "regenerateBlkAddr t i = (let b = ts_blks t ! i in ix_regenerateAddr (ts_kind t) (indexingPolicy t) (blk_tag b) (blk_set b) (unat (blk_way b)))"

definition accessBlock :: "tick \<Rightarrow> packet \<Rightarrow> 'd tag_store \<Rightarrow> (nat option \<times> 'd tag_store) result" where
  "accessBlock curTick pkt t = bindR (getAddr pkt) (\<lambda>a. bindR (isSecure pkt) (\<lambda>sec. bindR (findBlock a sec t) (\<lambda>r.
     case r of None \<Rightarrow> Inr (None, t)
     | Some i \<Rightarrow> (let b = ts_blks t ! i in
         Inr (Some i, on_blk i (b\<lparr>blk_refCount := blk_refCount b + 1, replacementData := rp_touch (replacementPolicy t) curTick (replacementData b)\<rparr>) t)))))"

text \<open>The replacement data of the candidates after the search of a victim.\<close>

fun put_data :: "nat list \<Rightarrow> 'd list \<Rightarrow> 'd cache_blk list \<Rightarrow> 'd cache_blk list" where
  "put_data (i # is) (d # ds) blks = put_data is ds (blks[i := (blks ! i)\<lparr>replacementData := d\<rparr>])"
| "put_data _ _ blks = blks"

definition victim_of :: "(nat list \<Rightarrow> 'd list \<Rightarrow> (nat \<times> 'd list) result) \<Rightarrow> addr \<Rightarrow> 'd tag_store \<Rightarrow> (nat \<times> 'd tag_store) result" where
  "victim_of pick a t = (let entries = possible t a in
     guardR (None \<notin> set entries) Out_Of_Range
     (let is = map the entries in
      bindR (pick (map (\<lambda>i. unat (blk_way (ts_blks t ! i))) is) (map (\<lambda>i. replacementData (ts_blks t ! i)) is)) (\<lambda>(v, ds).
      guardR (v < length is) Out_Of_Range (Inr (is ! v, t\<lparr>ts_blks := put_data is ds (ts_blks t)\<rparr>)))))"

definition findVictim :: "addr \<Rightarrow> 'd tag_store \<Rightarrow> (nat \<times> 'd tag_store) result" where
  "findVictim a t = victim_of (\<lambda>ways ds. rp_getVictim (replacementPolicy t) ds) a t"

definition findVictimWayPart :: "addr \<Rightarrow> u32 \<Rightarrow> 'd tag_store \<Rightarrow> (nat \<times> 'd tag_store) result" where
  "findVictimWayPart a way_part t = victim_of (\<lambda>ways ds. rp_getVictimWayPart (replacementPolicy t) ds ways way_part) a t"

definition insertBlock :: "tick \<Rightarrow> packet \<Rightarrow> u32 \<Rightarrow> u32 \<Rightarrow> nat \<Rightarrow> 'd tag_store \<Rightarrow> 'd tag_store result" where
  "insertBlock curTick pkt requestor task i t =
     (let b = ts_blks t ! i in guardR (\<not> blk_valid b) Assert_Failed
     (bindR (getAddr pkt) (\<lambda>a. bindR (isSecure pkt) (\<lambda>sec.
      bindR (blk_insert curTick (extractTag (indexingPolicy t) a) sec requestor task b) (\<lambda>b.
      Inr (on_blk i (b\<lparr>replacementData := rp_reset (replacementPolicy t) curTick (replacementData b)\<rparr>) t))))))"

definition ts_invalidate :: "nat \<Rightarrow> 'd tag_store \<Rightarrow> 'd tag_store result" where
  "ts_invalidate i t = (let b = ts_blks t ! i in guardR (blk_valid b) Assert_Failed
     (let b = blk_invalidate b in Inr (on_blk i (b\<lparr>replacementData := rp_invalidate (replacementPolicy t) (replacementData b)\<rparr>) t)))"

definition ts_invalidateDDIO :: "nat \<Rightarrow> 'd tag_store \<Rightarrow> 'd tag_store result" where
  "ts_invalidateDDIO i t = (let b = ts_blks t ! i in guardR (blk_valid b) Assert_Failed
     (let b = blk_invalidate b in Inr (on_blk i (b\<lparr>replacementData := rp_invalidateDDIO (replacementPolicy t) (replacementData b)\<rparr>) t)))"

text \<open>The second line is the replacement data: each entry keeps its own, the source is invalidated and the destination reset.\<close>

definition ts_moveBlock :: "tick \<Rightarrow> nat \<Rightarrow> nat \<Rightarrow> 'd tag_store \<Rightarrow> 'd tag_store result" where
  "ts_moveBlock curTick src dest t =
     guardR (\<not> blk_valid (ts_blks t ! dest)) Assert_Failed (guardR (blk_valid (ts_blks t ! src)) Assert_Failed
     (bindR (blk_move curTick (ts_blks t ! dest) (ts_blks t ! src)) (\<lambda>(d, s).
      guardR (blk_valid d) Assert_Failed (guardR (\<not> blk_valid s) Assert_Failed
      (let rp = replacementPolicy t in
       Inr (on_blk dest (d\<lparr>replacementData := rp_reset rp curTick (replacementData d)\<rparr>) (on_blk src (s\<lparr>replacementData := rp_invalidate rp (replacementData s)\<rparr>) t)))))))"

text \<open>The allocation of a block by the cache. \<open>ddio_part\<close> is the way partition of a block written by I/O; \<open>conflict\<close> is the register that waits
  for a line, if there is one: whether it needs a writable copy and whether it is cleaning. The results are the block, if there is room, and the line that was evicted.\<close>

definition allocateBlock :: "tick \<Rightarrow> packet \<Rightarrow> u32 option \<Rightarrow> (addr \<Rightarrow> bool \<Rightarrow> (bool \<times> bool) option) \<Rightarrow> u32 \<Rightarrow> u32 \<Rightarrow> 'd tag_store \<Rightarrow> (nat option \<times> (addr \<times> bool) option \<times> 'd tag_store) result" where
  "allocateBlock curTick pkt ddio_part conflict requestor task t =
     bindR (getAddr pkt) (\<lambda>a. bindR (isSecure pkt) (\<lambda>sec.
     bindR (case ddio_part of Some part \<Rightarrow> findVictimWayPart a part t | None \<Rightarrow> findVictim a t) (\<lambda>(victim, t).
     let b = ts_blks t ! victim; line_of = (regenerateBlkAddr t victim, blk_secure b) in
     if blk_valid b \<and> conflict (fst line_of) (snd line_of) \<noteq> None
     then (let (needs_writable, cleaning) = the (conflict (fst line_of) (snd line_of)) in
           guardR (\<not> blk_isSet WritableBit b \<and> needs_writable \<or> cleaning) Assert_Failed (Inr (None, None, t)))
     else bindR (if blk_valid b then ts_invalidate victim t else Inr t) (\<lambda>t.
          bindR (insertBlock curTick pkt requestor task victim t) (\<lambda>t.
          Inr (Some victim, if blk_valid b then Some line_of else None,
               on_blk victim ((ts_blks t ! victim)\<lparr>blk_ddio_destination := ddio_prefetch_destination pkt\<rparr>) t))))))"


section \<open>The invariant of the tag store\<close>

definition ix_ok :: "index_kind \<Rightarrow> index_policy \<Rightarrow> bool" where
  "ix_ok k = (case k of Set_Associative \<Rightarrow> sa_ok | Skewed_Associative \<Rightarrow> sk_ok)"

definition ix_extractSet :: "index_kind \<Rightarrow> index_policy \<Rightarrow> addr \<Rightarrow> nat \<Rightarrow> u32" where
  "ix_extractSet k = (case k of Set_Associative \<Rightarrow> (\<lambda>p a w. sa_extractSet p a) | Skewed_Associative \<Rightarrow> sk_extractSet)"

interpretation ix: indexing "ix_ok k" "ix_extractSet k" "ix_regenerateAddr k" "ix_getPossibleEntries k"
proof (cases k)
  case Set_Associative
  then show "indexing (ix_ok k) (ix_extractSet k) (ix_regenerateAddr k) (ix_getPossibleEntries k)"
    using sa.indexing_axioms by (simp add: ix_ok_def ix_extractSet_def ix_regenerateAddr_def ix_getPossibleEntries_def)
next
  case Skewed_Associative
  then show "indexing (ix_ok k) (ix_extractSet k) (ix_regenerateAddr k) (ix_getPossibleEntries k)"
    using sk.indexing_axioms by (simp add: ix_ok_def ix_extractSet_def ix_regenerateAddr_def ix_getPossibleEntries_def)
qed

abbreviation ways :: "'d tag_store \<Rightarrow> nat" where "ways t \<equiv> unat (ip_assoc (indexingPolicy t))"

text \<open>Block number \<open>i\<close> is at way \<open>i mod ways\<close> of set \<open>i div ways\<close>.\<close>

definition placed :: "'d tag_store \<Rightarrow> bool" where
  "placed t \<longleftrightarrow> ix_ok (ts_kind t) (indexingPolicy t) \<and> length (ts_blks t) = unat (numSets (indexingPolicy t)) * ways t \<and>
     (\<forall>s < unat (numSets (indexingPolicy t)). \<forall>w < ways t. sets (indexingPolicy t) ! s ! w = Some (s * ways t + w)) \<and>
     (\<forall>i < length (ts_blks t). unat (blk_set (ts_blks t ! i)) = i div ways t \<and> unat (blk_way (ts_blks t ! i)) = i mod ways t)"

text \<open>The block at its place holds the line of some address, an invalid block is not marked as secure, and no line is held twice.\<close>

definition holds :: "'d tag_store \<Rightarrow> nat \<Rightarrow> addr \<Rightarrow> bool" where
  "holds t i a \<longleftrightarrow> blk_tag (ts_blks t ! i) = extractTag (indexingPolicy t) a \<and>
     blk_set (ts_blks t ! i) = ix_extractSet (ts_kind t) (indexingPolicy t) a (unat (blk_way (ts_blks t ! i)))"

definition store_ok :: "'d tag_store \<Rightarrow> bool" where
  "store_ok t \<longleftrightarrow> placed t \<and>
     (\<forall>i < length (ts_blks t). if blk_valid (ts_blks t ! i) then \<exists>a. holds t i a else \<not> blk_secure (ts_blks t ! i)) \<and>
     (\<forall>i < length (ts_blks t). \<forall>j < length (ts_blks t). blk_valid (ts_blks t ! i) \<and> blk_valid (ts_blks t ! j) \<and>
        regenerateBlkAddr t i = regenerateBlkAddr t j \<and> blk_secure (ts_blks t ! i) = blk_secure (ts_blks t ! j) \<longrightarrow> i = j)"

abbreviation at_line :: "'d tag_store \<Rightarrow> addr \<Rightarrow> addr" where "at_line t a \<equiv> line (indexingPolicy t) a"

lemma placed_ways: "placed t \<Longrightarrow> 0 < ways t"
  using ix.well_formed [of "ts_kind t" "indexingPolicy t"] by (simp add: placed_def index_ok_def word_less_nat_alt)

lemma holds_line:
  assumes "placed t" "i < length (ts_blks t)" "holds t i a"
  shows "regenerateBlkAddr t i = at_line t a"
  using assms ix.regenerate [of "ts_kind t" "indexingPolicy t" a "unat (blk_way (ts_blks t ! i))"]
  by (simp add: regenerateBlkAddr_def holds_def placed_def Let_def)

text \<open>The places an address can be at, by way.\<close>

lemma possible_eq:
  assumes "placed t"
  shows "possible t a = map (\<lambda>w. Some (unat (ix_extractSet (ts_kind t) (indexingPolicy t) a w) * ways t + w)) [0..<ways t]"
  using assms ix.in_range [of "ts_kind t" "indexingPolicy t" a] by (auto simp: possible_def placed_def ix.entries)

lemma place_bound: "s < n \<Longrightarrow> w < k \<Longrightarrow> s * k + w < n * k" for s n w k :: nat
proof -
  assume "s < n" "w < k"
  then have "s * k + w < Suc s * k" by simp
  also have "\<dots> \<le> n * k" using \<open>s < n\<close> by (intro mult_le_mono1) simp
  finally show ?thesis .
qed

lemma in_possible:
  assumes "placed t"
  shows "Some i \<in> set (possible t a) \<longleftrightarrow> i < length (ts_blks t) \<and> blk_set (ts_blks t ! i) = ix_extractSet (ts_kind t) (indexingPolicy t) a (unat (blk_way (ts_blks t ! i)))"
proof
  let ?s = "\<lambda>w. unat (ix_extractSet (ts_kind t) (indexingPolicy t) a w)"
  note p = assms [unfolded placed_def]
  assume "Some i \<in> set (possible t a)"
  then obtain w where w: "w < ways t" "i = ?s w * ways t + w" by (auto simp: possible_eq [OF assms])
  have "?s w < unat (numSets (indexingPolicy t))" using p ix.in_range by blast
  then have i: "i < length (ts_blks t)" using p w place_bound by metis
  moreover have "i div ways t = ?s w" "i mod ways t = w" using w placed_ways [OF assms] by simp_all
  ultimately show "i < length (ts_blks t) \<and> blk_set (ts_blks t ! i) = ix_extractSet (ts_kind t) (indexingPolicy t) a (unat (blk_way (ts_blks t ! i)))"
    using p by (metis word_unat_eq_iff)
next
  let ?s = "\<lambda>w. unat (ix_extractSet (ts_kind t) (indexingPolicy t) a w)"
  note p = assms [unfolded placed_def]
  assume i: "i < length (ts_blks t) \<and> blk_set (ts_blks t ! i) = ix_extractSet (ts_kind t) (indexingPolicy t) a (unat (blk_way (ts_blks t ! i)))"
  then have "i div ways t = ?s (i mod ways t)" using p by metis
  then have "i = ?s (i mod ways t) * ways t + i mod ways t" using div_mult_mod_eq [of i "ways t"] by simp
  then show "Some i \<in> set (possible t a)" using placed_ways [OF assms] unfolding possible_eq [OF assms] by (auto intro!: image_eqI [of _ _ "i mod ways t"])
qed

lemma find_tag_eq:
  assumes "None \<notin> set ls"
  shows "find_tag tag sec blks ls = Inr (find (\<lambda>i. matchTag tag sec (blks ! i)) (map the ls))"
  using assms by (induction tag sec blks ls rule: find_tag.induct) auto

lemma store_ok_D:
  assumes "store_ok t" "i < length (ts_blks t)"
  shows "blk_valid (ts_blks t ! i) \<Longrightarrow> \<exists>a. holds t i a" "\<not> blk_valid (ts_blks t ! i) \<Longrightarrow> \<not> blk_secure (ts_blks t ! i)"
proof -
  have "if blk_valid (ts_blks t ! i) then \<exists>a. holds t i a else \<not> blk_secure (ts_blks t ! i)" using assms unfolding store_ok_def by blast
  then show "blk_valid (ts_blks t ! i) \<Longrightarrow> \<exists>a. holds t i a" "\<not> blk_valid (ts_blks t ! i) \<Longrightarrow> \<not> blk_secure (ts_blks t ! i)" by simp_all
qed

lemma store_ok_unique:
  "store_ok t \<Longrightarrow> i < length (ts_blks t) \<Longrightarrow> j < length (ts_blks t) \<Longrightarrow> blk_valid (ts_blks t ! i) \<Longrightarrow> blk_valid (ts_blks t ! j) \<Longrightarrow>
   regenerateBlkAddr t i = regenerateBlkAddr t j \<Longrightarrow> blk_secure (ts_blks t ! i) = blk_secure (ts_blks t ! j) \<Longrightarrow> i = j"
  unfolding store_ok_def by blast

text \<open>What the lookup finds.\<close>

lemma findBlock_exact:
  assumes "store_ok t"
  shows "\<exists>r. findBlock a sec t = Inr r \<and>
    (\<forall>i. r = Some i \<longleftrightarrow> i < length (ts_blks t) \<and> blk_valid (ts_blks t ! i) \<and> blk_secure (ts_blks t ! i) = sec \<and> regenerateBlkAddr t i = at_line t a)"
proof -
  have p: "placed t" using assms by (simp add: store_ok_def)
  let ?hit = "\<lambda>i. i < length (ts_blks t) \<and> blk_valid (ts_blks t ! i) \<and> blk_secure (ts_blks t ! i) = sec \<and> regenerateBlkAddr t i = at_line t a"
  have hit: "Some i \<in> set (possible t a) \<and> matchTag (extractTag (indexingPolicy t) a) sec (ts_blks t ! i) \<longleftrightarrow> ?hit i" for i
  proof
    assume "Some i \<in> set (possible t a) \<and> matchTag (extractTag (indexingPolicy t) a) sec (ts_blks t ! i)"
    then have "i < length (ts_blks t)" "holds t i a" "blk_valid (ts_blks t ! i)" "blk_secure (ts_blks t ! i) = sec"
      using in_possible [OF p] by (auto simp: matchTag_def holds_def)
    then show "?hit i" using holds_line [OF p] by blast
  next
    assume i: "?hit i"
    then obtain b where b: "holds t i b" using store_ok_D(1) [OF assms] by blast
    then have "at_line t b = at_line t a" using holds_line [OF p] i by metis
    then have "holds t i a" using b ix.by_line line_tag ix.well_formed p unfolding holds_def placed_def by metis
    then show "Some i \<in> set (possible t a) \<and> matchTag (extractTag (indexingPolicy t) a) sec (ts_blks t ! i)"
      using in_possible [OF p] i by (auto simp: matchTag_def holds_def)
  qed
  have none: "None \<notin> set (possible t a)" by (auto simp: possible_eq [OF p])
  define r where "r = find (\<lambda>i. matchTag (extractTag (indexingPolicy t) a) sec (ts_blks t ! i)) (map the (possible t a))"
  have mem: "i \<in> set (map the (possible t a)) \<longleftrightarrow> Some i \<in> set (possible t a)" for i
    by (auto simp: possible_eq [OF p])
  have "\<forall>i. r = Some i \<longleftrightarrow> ?hit i"
  proof (intro allI iffI)
    fix i
    assume "r = Some i"
    then have "i \<in> set (map the (possible t a))" "matchTag (extractTag (indexingPolicy t) a) sec (ts_blks t ! i)"
      unfolding r_def by (auto dest: find_SomeD)
    then show "?hit i" using hit mem by blast
  next
    fix i
    assume i: "?hit i"
    then obtain j where j: "r = Some j" using hit [of i] mem [of i] unfolding r_def by (metis find_None_iff not_None_eq)
    then have "j \<in> set (map the (possible t a))" "matchTag (extractTag (indexingPolicy t) a) sec (ts_blks t ! j)"
      unfolding r_def by (auto dest: find_SomeD)
    then have "?hit j" using hit mem by blast
    then show "r = Some i" using i j store_ok_unique [OF assms, of i j] by simp
  qed
  moreover have "findBlock a sec t = Inr r" unfolding findBlock_def r_def using find_tag_eq [OF none] .
  ultimately show ?thesis by (intro exI [of _ r]) simp
qed


text \<open>Changes of one block.\<close>

lemma on_blk_sel [simp]:
  "ts_kind (on_blk i b t) = ts_kind t" "indexingPolicy (on_blk i b t) = indexingPolicy t" "replacementPolicy (on_blk i b t) = replacementPolicy t"
  "ts_blks (on_blk i b t) = (ts_blks t)[i := b]"
  by (simp_all add: on_blk_def)

lemma regenerate_other: "j \<noteq> i \<Longrightarrow> regenerateBlkAddr (on_blk i b t) j = regenerateBlkAddr t j"
  by (simp add: regenerateBlkAddr_def)

lemma holds_other: "j \<noteq> i \<Longrightarrow> holds (on_blk i b t) j a = holds t j a"
  by (simp add: holds_def)

lemma placed_on_blk: "placed t \<Longrightarrow> blk_set b = blk_set (ts_blks t ! i) \<Longrightarrow> blk_way b = blk_way (ts_blks t ! i) \<Longrightarrow> placed (on_blk i b t)"
  by (simp add: placed_def nth_list_update_eq_if)

lemma store_ok_on_blk:
  assumes t: "store_ok t" and i: "i < length (ts_blks t)" and b: "blk_set b = blk_set (ts_blks t ! i)" "blk_way b = blk_way (ts_blks t ! i)"
    and new: "blk_valid b \<Longrightarrow> \<exists>a. holds (on_blk i b t) i a \<and> (\<forall>j < length (ts_blks t). j \<noteq> i \<and> blk_valid (ts_blks t ! j) \<and> blk_secure (ts_blks t ! j) = blk_secure b \<longrightarrow>
        regenerateBlkAddr t j \<noteq> at_line t a)"
    and gone: "\<not> blk_valid b \<Longrightarrow> \<not> blk_secure b"
  shows "store_ok (on_blk i b t)"
proof -
  let ?t = "on_blk i b t"
  have p: "placed ?t" using t b placed_on_blk by (auto simp: store_ok_def)
  have nth: "ts_blks ?t ! j = (if j = i then b else ts_blks t ! j)" if "j < length (ts_blks t)" for j using that i by simp
  have each: "if blk_valid (ts_blks ?t ! j) then \<exists>a. holds ?t j a else \<not> blk_secure (ts_blks ?t ! j)" if j: "j < length (ts_blks ?t)" for j
  proof (cases "j = i")
    case True
    then show ?thesis using new gone i by auto
  next
    case False
    then show ?thesis using store_ok_D [OF t, of j] j by (auto simp: holds_other)
  qed
  have apart: "k \<noteq> i \<Longrightarrow> k < length (ts_blks t) \<Longrightarrow> blk_valid b \<Longrightarrow> blk_valid (ts_blks t ! k) \<Longrightarrow> blk_secure (ts_blks t ! k) = blk_secure b \<Longrightarrow>
      regenerateBlkAddr t k \<noteq> regenerateBlkAddr ?t i" for k
    using new holds_line [OF p, of i] i by auto
  have "j = k" if jk: "j < length (ts_blks ?t)" "k < length (ts_blks ?t)" "blk_valid (ts_blks ?t ! j)" "blk_valid (ts_blks ?t ! k)"
      "regenerateBlkAddr ?t j = regenerateBlkAddr ?t k" "blk_secure (ts_blks ?t ! j) = blk_secure (ts_blks ?t ! k)" for j k
  proof (cases "j = i \<or> k = i")
    case True
    show ?thesis
    proof (rule ccontr)
      assume "j \<noteq> k"
      with True consider "j = i" "k \<noteq> i" | "k = i" "j \<noteq> i" by blast
      then show False
      proof cases
        case 1
        then show ?thesis using jk apart [of k] nth [of k] nth [of i] i by (simp add: regenerate_other)
      next
        case 2
        then show ?thesis using jk apart [of j] nth [of j] nth [of i] i by (simp add: regenerate_other)
      qed
    qed
  next
    case False
    then show ?thesis using jk store_ok_unique [OF t, of j k] by (simp add: regenerate_other)
  qed
  then show ?thesis unfolding store_ok_def using p each by blast
qed

text \<open>Changes that leave the lines of all blocks as they are.\<close>

definition blk_core :: "'d cache_blk \<Rightarrow> u32 \<times> u32 \<times> bool \<times> bool \<times> addr" where
  "blk_core b = (blk_set b, blk_way b, blk_valid b, blk_secure b, blk_tag b)"

definition same_lines :: "'d tag_store \<Rightarrow> 'd tag_store \<Rightarrow> bool" where
  "same_lines t t' \<longleftrightarrow> ts_kind t' = ts_kind t \<and> indexingPolicy t' = indexingPolicy t \<and> map blk_core (ts_blks t') = map blk_core (ts_blks t)"

lemma same_lines_refl [simp]: "same_lines t t"
  by (simp add: same_lines_def)

lemma same_lines_trans [trans]: "same_lines t t' \<Longrightarrow> same_lines t' t'' \<Longrightarrow> same_lines t t''"
  by (simp add: same_lines_def)

lemma same_lines_on_blk: "blk_core b = blk_core (ts_blks t ! i) \<Longrightarrow> same_lines t (on_blk i b t)"
  by (cases "i < length (ts_blks t)") (simp_all add: same_lines_def map_update list_update_same_conv list_update_beyond not_less)

lemma same_lines_D:
  assumes "same_lines t t'"
  shows "length (ts_blks t') = length (ts_blks t)" "indexingPolicy t' = indexingPolicy t" "ts_kind t' = ts_kind t"
    "i < length (ts_blks t) \<Longrightarrow> blk_core (ts_blks t' ! i) = blk_core (ts_blks t ! i)"
    "i < length (ts_blks t) \<Longrightarrow> regenerateBlkAddr t' i = regenerateBlkAddr t i"
    "i < length (ts_blks t) \<Longrightarrow> holds t' i a = holds t i a"
proof -
  note s = assms [unfolded same_lines_def]
  show l: "length (ts_blks t') = length (ts_blks t)" using s by (metis length_map)
  show "indexingPolicy t' = indexingPolicy t" "ts_kind t' = ts_kind t" using s by simp_all
  show c: "blk_core (ts_blks t' ! i) = blk_core (ts_blks t ! i)" if "i < length (ts_blks t)" for i
    using s that l by (metis nth_map)
  show "regenerateBlkAddr t' i = regenerateBlkAddr t i" "holds t' i a = holds t i a" if "i < length (ts_blks t)"
    using s c [OF that] by (simp_all add: regenerateBlkAddr_def holds_def blk_core_def Let_def)
qed

lemma same_lines_ok:
  assumes "same_lines t t'" "store_ok t"
  shows "store_ok t'"
proof -
  note s = same_lines_D [OF assms(1)]
  have c: "blk_set (ts_blks t' ! i) = blk_set (ts_blks t ! i)" "blk_way (ts_blks t' ! i) = blk_way (ts_blks t ! i)" "blk_valid (ts_blks t' ! i) = blk_valid (ts_blks t ! i)"
    "blk_secure (ts_blks t' ! i) = blk_secure (ts_blks t ! i)" if "i < length (ts_blks t)" for i
    using s(4) [OF that] by (simp_all add: blk_core_def)
  have "placed t'" using assms(2) s(1-3) c unfolding store_ok_def placed_def by simp
  moreover have "if blk_valid (ts_blks t' ! i) then \<exists>a. holds t' i a else \<not> blk_secure (ts_blks t' ! i)" if "i < length (ts_blks t')" for i
    using store_ok_D [OF assms(2), of i] that s(1,6) c by auto
  moreover have "i = j" if "i < length (ts_blks t')" "j < length (ts_blks t')" "blk_valid (ts_blks t' ! i)" "blk_valid (ts_blks t' ! j)"
      "regenerateBlkAddr t' i = regenerateBlkAddr t' j" "blk_secure (ts_blks t' ! i) = blk_secure (ts_blks t' ! j)" for i j
    using store_ok_unique [OF assms(2), of i j] that s(1,5) c by simp
  ultimately show ?thesis unfolding store_ok_def by blast
qed

lemma put_data_same: "same_lines t (t\<lparr>ts_blks := put_data is ds (ts_blks t)\<rparr>)"
proof (induction "is" ds "ts_blks t" arbitrary: t rule: put_data.induct)
  case (1 i "is" d ds)
  let ?t = "on_blk i ((ts_blks t ! i)\<lparr>replacementData := d\<rparr>) t"
  have "same_lines t ?t" by (rule same_lines_on_blk) (simp add: blk_core_def)
  also have "same_lines ?t (?t\<lparr>ts_blks := put_data is ds (ts_blks ?t)\<rparr>)" by (rule 1) simp
  finally show ?case by (simp add: on_blk_def)
qed simp_all

lemma accessBlock_same: "accessBlock now pkt t = Inr (r, t') \<Longrightarrow> same_lines t t'"
  by (auto simp: accessBlock_def bindR_Inr_iff Let_def blk_core_def split: option.splits intro!: same_lines_on_blk)

lemma victim_of_possible:
  assumes "victim_of pick a t = Inr (i, t')"
  shows "same_lines t t'" "Some i \<in> set (possible t a)" "replacementPolicy t' = replacementPolicy t"
proof -
  let ?is = "map the (possible t a)"
  obtain v ds where v: "None \<notin> set (possible t a)" "v < length ?is" "i = ?is ! v" "t' = t\<lparr>ts_blks := put_data ?is ds (ts_blks t)\<rparr>"
    using assms by (auto simp: victim_of_def bindR_Inr_iff Let_def)
  then show "same_lines t t'" "replacementPolicy t' = replacementPolicy t" using put_data_same by simp_all
  have "possible t a ! v \<in> set (possible t a)" using v(2) by simp
  moreover have "possible t a ! v = Some i" using v(1,2,3) calculation by (cases "possible t a ! v") auto
  ultimately show "Some i \<in> set (possible t a)" by simp
qed

text \<open>The lines that are in the cache.\<close>

definition resident :: "'d tag_store \<Rightarrow> (addr \<times> bool) set" where
  "resident t = {(regenerateBlkAddr t i, blk_secure (ts_blks t ! i)) | i. i < length (ts_blks t) \<and> blk_valid (ts_blks t ! i)}"

lemma same_lines_resident:
  assumes "same_lines t t'"
  shows "resident t' = resident t"
proof -
  have "(x = (regenerateBlkAddr t' i, blk_secure (ts_blks t' ! i)) \<and> i < length (ts_blks t') \<and> blk_valid (ts_blks t' ! i)) =
      (x = (regenerateBlkAddr t i, blk_secure (ts_blks t ! i)) \<and> i < length (ts_blks t) \<and> blk_valid (ts_blks t ! i))" for x i
    using same_lines_D(1) [OF assms] same_lines_D(4,5) [OF assms, of i] by (cases "i < length (ts_blks t)") (simp_all add: blk_core_def)
  then show ?thesis unfolding resident_def by simp
qed

lemma invalidate_ok:
  assumes t: "store_ok t" and i: "i < length (ts_blks t)" "blk_valid (ts_blks t ! i)" and b: "b = (blk_invalidate (ts_blks t ! i))\<lparr>replacementData := d\<rparr>"
  shows "store_ok (on_blk i b t)" "resident (on_blk i b t) = resident t - {(regenerateBlkAddr t i, blk_secure (ts_blks t ! i))}"
proof -
  have inv: "\<not> blk_valid b" "\<not> blk_secure b" "blk_set b = blk_set (ts_blks t ! i)" "blk_way b = blk_way (ts_blks t ! i)"
    by (simp_all add: b blk_invalidate_def)
  then show "store_ok (on_blk i b t)" using store_ok_on_blk [OF t i(1)] by blast
  have nth: "ts_blks (on_blk i b t) ! j = (if j = i then b else ts_blks t ! j)" if "j < length (ts_blks t)" for j using that i by simp
  show "resident (on_blk i b t) = resident t - {(regenerateBlkAddr t i, blk_secure (ts_blks t ! i))}" (is "?l = ?r")
  proof (intro set_eqI iffI)
    fix x
    assume "x \<in> ?l"
    then obtain j where j: "j < length (ts_blks t)" "x = (regenerateBlkAddr (on_blk i b t) j, blk_secure (ts_blks (on_blk i b t) ! j))" "blk_valid (ts_blks (on_blk i b t) ! j)"
      by (auto simp: resident_def)
    then have "j \<noteq> i" using inv i by auto
    then show "x \<in> ?r" using j store_ok_unique [OF t j(1) i(1)] i(2) by (auto simp: resident_def regenerate_other)
  next
    fix x
    assume "x \<in> ?r"
    then obtain j where j: "j < length (ts_blks t)" "x = (regenerateBlkAddr t j, blk_secure (ts_blks t ! j))" "blk_valid (ts_blks t ! j)" "j \<noteq> i"
      by (auto simp: resident_def)
    then show "x \<in> ?l" unfolding resident_def by (auto simp: regenerate_other intro!: exI [of _ j])
  qed
qed

lemma insert_ok:
  assumes t: "store_ok t" and i: "Some i \<in> set (possible t a)" "\<not> blk_valid (ts_blks t ! i)" and free: "(at_line t a, sec) \<notin> resident t"
    and b: "blk_valid b" "blk_secure b = sec" "blk_tag b = extractTag (indexingPolicy t) a" "blk_set b = blk_set (ts_blks t ! i)" "blk_way b = blk_way (ts_blks t ! i)"
  shows "store_ok (on_blk i b t)" "resident (on_blk i b t) = insert (at_line t a, sec) (resident t)" "regenerateBlkAddr (on_blk i b t) i = at_line t a"
proof -
  have p: "placed t" "placed (on_blk i b t)" using t placed_on_blk b by (auto simp: store_ok_def)
  have i': "i < length (ts_blks t)" and h: "holds (on_blk i b t) i a" using in_possible [OF p(1)] i(1) b by (auto simp: holds_def)
  show "store_ok (on_blk i b t)" 
  proof (rule store_ok_on_blk [OF t i' b(4,5)])
    show "\<exists>a. holds (on_blk i b t) i a \<and> (\<forall>j < length (ts_blks t). j \<noteq> i \<and> blk_valid (ts_blks t ! j) \<and> blk_secure (ts_blks t ! j) = blk_secure b \<longrightarrow> regenerateBlkAddr t j \<noteq> at_line t a)"
      using h free b(2) by (intro exI [of _ a]) (auto simp: resident_def)
  qed (use b(1) in simp)
  show r: "regenerateBlkAddr (on_blk i b t) i = at_line t a" using holds_line [OF p(2) _ h] i' by simp
  show "resident (on_blk i b t) = insert (at_line t a, sec) (resident t)" (is "?l = ?r")
  proof (intro set_eqI iffI)
    fix x
    assume "x \<in> ?l"
    then obtain j where j: "j < length (ts_blks t)" "x = (regenerateBlkAddr (on_blk i b t) j, blk_secure (ts_blks (on_blk i b t) ! j))" "blk_valid (ts_blks (on_blk i b t) ! j)"
      by (auto simp: resident_def)
    then show "x \<in> ?r" using r b(2) i' by (cases "j = i") (auto simp: resident_def regenerate_other)
  next
    fix x
    assume "x \<in> ?r"
    then consider "x = (at_line t a, sec)" | j where "j < length (ts_blks t)" "x = (regenerateBlkAddr t j, blk_secure (ts_blks t ! j))" "blk_valid (ts_blks t ! j)"
      by (auto simp: resident_def)
    then show "x \<in> ?l"
    proof cases
      case 1
      then show ?thesis unfolding resident_def using r b i' by (auto intro!: exI [of _ i])
    next
      case 2
      then have "j \<noteq> i" using i(2) by auto
      then show ?thesis unfolding resident_def using 2 by (auto simp: regenerate_other intro!: exI [of _ j])
    qed
  qed
qed


lemma findBlock_resident:
  assumes "store_ok t"
  shows "findBlock a sec t = Inr None \<longleftrightarrow> (at_line t a, sec) \<notin> resident t"
    "findBlock a sec t = Inr (Some i) \<longleftrightarrow> i < length (ts_blks t) \<and> blk_valid (ts_blks t ! i) \<and> blk_secure (ts_blks t ! i) = sec \<and> regenerateBlkAddr t i = at_line t a"
proof -
  obtain r where r: "findBlock a sec t = Inr r"
    "\<And>i. r = Some i \<longleftrightarrow> i < length (ts_blks t) \<and> blk_valid (ts_blks t ! i) \<and> blk_secure (ts_blks t ! i) = sec \<and> regenerateBlkAddr t i = at_line t a"
    using findBlock_exact [OF assms, of a sec] by (elim exE conjE) simp
  show "findBlock a sec t = Inr (Some i) \<longleftrightarrow> i < length (ts_blks t) \<and> blk_valid (ts_blks t ! i) \<and> blk_secure (ts_blks t ! i) = sec \<and> regenerateBlkAddr t i = at_line t a"
    using r by simp
  have "r = None \<longleftrightarrow> (\<forall>i. r \<noteq> Some i)" by (cases r) auto
  then have "r = None \<longleftrightarrow> (at_line t a, sec) \<notin> resident t" unfolding r(2) resident_def by auto
  then show "findBlock a sec t = Inr None \<longleftrightarrow> (at_line t a, sec) \<notin> resident t" using r(1) by simp
qed

lemma ts_invalidate_ok:
  assumes "store_ok t" "i < length (ts_blks t)" "ts_invalidate i t = Inr t' \<or> ts_invalidateDDIO i t = Inr t'"
  shows "store_ok t'" "resident t' = resident t - {(regenerateBlkAddr t i, blk_secure (ts_blks t ! i))}"
proof -
  obtain d where "blk_valid (ts_blks t ! i)" "t' = on_blk i ((blk_invalidate (ts_blks t ! i))\<lparr>replacementData := d\<rparr>) t"
    using assms(3) by (auto simp: ts_invalidate_def ts_invalidateDDIO_def Let_def)
  then show "store_ok t'" "resident t' = resident t - {(regenerateBlkAddr t i, blk_secure (ts_blks t ! i))}"
    using invalidate_ok [OF assms(1,2)] by simp_all
qed

lemma insertBlock_ok:
  assumes t: "store_ok t" and i: "Some i \<in> set (possible t a)" and free: "(at_line t a, sec) \<notin> resident t"
    and pkt: "getAddr pkt = Inr a" "isSecure pkt = Inr sec" and h: "insertBlock now pkt requestor task i t = Inr t'"
  shows "store_ok t'" "resident t' = insert (at_line t a, sec) (resident t)" "findBlock a sec t' = Inr (Some i)" "length (ts_blks t') = length (ts_blks t)" "indexingPolicy t' = indexingPolicy t"
proof -
  have i': "i < length (ts_blks t)" using in_possible i t by (auto simp: store_ok_def)
  have v: "\<not> blk_valid (ts_blks t ! i)" using h by (auto simp: insertBlock_def Let_def)
  then have "\<not> blk_secure (ts_blks t ! i)" using store_ok_D(2) [OF t i'] by simp
  then obtain b where b: "t' = on_blk i b t" "blk_valid b" "blk_secure b = sec" "blk_tag b = extractTag (indexingPolicy t) a"
      "blk_set b = blk_set (ts_blks t ! i)" "blk_way b = blk_way (ts_blks t ! i)"
    using h v pkt by (auto simp: insertBlock_def blk_insert_def entry_insert_def Let_def)
  note ok = insert_ok [OF t i v free b(2-6), folded b(1)]
  show "store_ok t'" "resident t' = insert (at_line t a, sec) (resident t)" by (fact ok)+
  show "length (ts_blks t') = length (ts_blks t)" "indexingPolicy t' = indexingPolicy t" by (simp_all add: b(1))
  show "findBlock a sec t' = Inr (Some i)" unfolding findBlock_resident(2) [OF ok(1)] using b i' ok(3) by simp
qed

lemma allocateBlock_ok:
  assumes t: "store_ok t" and pkt: "getAddr pkt = Inr a" "isSecure pkt = Inr sec" and miss: "findBlock a sec t = Inr None"
    and h: "allocateBlock now pkt part conflict requestor task t = Inr (r, ev, t')"
  shows "store_ok t'" "r = None \<Longrightarrow> ev = None \<and> resident t' = resident t"
    "r = Some i \<Longrightarrow> findBlock a sec t' = Inr (Some i) \<and> set_option ev \<subseteq> resident t \<and> resident t' = insert (at_line t a, sec) (resident t - set_option ev)"
proof -
  obtain i0 t1 pick where t1: "victim_of pick a t = Inr (i0, t1)" "(case part of Some part \<Rightarrow> findVictimWayPart a part t | None \<Rightarrow> findVictim a t) = Inr (i0, t1)"
    using h pkt by (fastforce simp: allocateBlock_def bindR_Inr_iff findVictim_def findVictimWayPart_def split: option.splits)
  note v = victim_of_possible [OF t1(1)]
  have ok1: "store_ok t1" using same_lines_ok [OF v(1) t] .
  have free: "(at_line t1 a, sec) \<notin> resident t1" using findBlock_resident(1) [OF t] miss same_lines_resident [OF v(1)] same_lines_D(2) [OF v(1)] by simp
  have i0: "Some i0 \<in> set (possible t1 a)" using v(2) same_lines_D(2,3) [OF v(1)] by (simp add: possible_def)
  then have len: "i0 < length (ts_blks t1)" using in_possible ok1 by (auto simp: store_ok_def)
  let ?b = "ts_blks t1 ! i0" and ?l = "(regenerateBlkAddr t1 i0, blk_secure (ts_blks t1 ! i0))"
  have res1: "resident t1 = resident t" "at_line t1 a = at_line t a" using same_lines_resident [OF v(1)] same_lines_D(2) [OF v(1)] by simp_all
  consider (refused) "r = None" "ev = None" "t' = t1"
    | (placed_at) t2 t3 where "(if blk_valid ?b then ts_invalidate i0 t1 else Inr t1) = Inr t2" "insertBlock now pkt requestor task i0 t2 = Inr t3"
        "r = Some i0" "ev = (if blk_valid ?b then Some ?l else None)" "t' = on_blk i0 ((ts_blks t3 ! i0)\<lparr>blk_ddio_destination := ddio_prefetch_destination pkt\<rparr>) t3"
    using h pkt t1(2) by (auto simp: allocateBlock_def bindR_Inr_iff Let_def split: if_splits prod.splits)
  then have "store_ok t' \<and> (r = None \<longrightarrow> ev = None \<and> resident t' = resident t) \<and> (\<forall>i. r = Some i \<longrightarrow>
      findBlock a sec t' = Inr (Some i) \<and> set_option ev \<subseteq> resident t \<and> resident t' = insert (at_line t a, sec) (resident t - set_option ev))"
  proof cases
    case refused
    then show ?thesis using ok1 res1 by simp
  next
    case (placed_at t2 t3)
    have t2: "store_ok t2 \<and> resident t2 = resident t1 - set_option ev \<and> indexingPolicy t2 = indexingPolicy t1 \<and> ts_kind t2 = ts_kind t1"
    proof (cases "blk_valid ?b")
      case True
      then have i: "ts_invalidate i0 t1 = Inr t2" "ev = Some ?l" using placed_at by simp_all
      have "indexingPolicy t2 = indexingPolicy t1" "ts_kind t2 = ts_kind t1" using i(1) by (auto simp: ts_invalidate_def Let_def)
      then show ?thesis using ts_invalidate_ok [OF ok1 len disjI1 [OF i(1)]] i(2) by simp
    qed (use placed_at ok1 in simp)
    have "(at_line t2 a, sec) \<notin> resident t2" "Some i0 \<in> set (possible t2 a)" using t2 free i0 by (simp_all add: possible_def)
    note ins = insertBlock_ok [OF conjunct1 [OF t2] this(2,1) pkt placed_at(2)]
    have same: "same_lines t3 t'" unfolding placed_at(5) by (rule same_lines_on_blk) (simp add: blk_core_def)
    have ok': "store_ok t'" using same_lines_ok [OF same ins(1)] .
    have "findBlock a sec t' = Inr (Some i0)"
      using ins(3) same_lines_D(1,2) [OF same] same_lines_D(4,5) [OF same, of i0] unfolding findBlock_resident(2) [OF ok'] findBlock_resident(2) [OF ins(1)]
      by (simp add: blk_core_def)
    moreover have "set_option ev \<subseteq> resident t" using placed_at(4) len unfolding res1(1) [symmetric] by (auto simp: resident_def)
    moreover have "resident t' = insert (at_line t a, sec) (resident t - set_option ev)" using same_lines_resident [OF same] ins(2) t2 res1 by simp
    ultimately show ?thesis using ok' placed_at(3) by auto
  qed
  then show "store_ok t'" "r = None \<Longrightarrow> ev = None \<and> resident t' = resident t"
    "r = Some i \<Longrightarrow> findBlock a sec t' = Inr (Some i) \<and> set_option ev \<subseteq> resident t \<and> resident t' = insert (at_line t a, sec) (resident t - set_option ev)"
    by blast+
qed

lemma line_line [simp]: "line p (line p a) = line p a"
  by (simp add: line_def [of p "line p a"] line_shift) (simp add: line_def)

lemma moveBlock_ok:
  assumes t: "store_ok t" and src: "src < length (ts_blks t)" and dest: "Some dest \<in> set (possible t (regenerateBlkAddr t src))"
    and h: "ts_moveBlock now src dest t = Inr t'"
  shows "store_ok t'" "resident t' = resident t"
proof -
  let ?l = "(regenerateBlkAddr t src, blk_secure (ts_blks t ! src))"
  have v: "\<not> blk_valid (ts_blks t ! dest)" "blk_valid (ts_blks t ! src)" using h by (auto simp: ts_moveBlock_def)
  have p: "placed t" using t by (simp add: store_ok_def)
  have dl: "dest < length (ts_blks t)" using in_possible [OF p] dest by blast
  obtain a where a: "holds t src a" using store_ok_D(1) [OF t src v(2)] by blast
  have line_src: "regenerateBlkAddr t src = at_line t a" using holds_line [OF p src a] .
  have "\<not> blk_secure (ts_blks t ! dest)" using store_ok_D(2) [OF t dl v(1)] .
  then obtain d e b where b: "t' = on_blk dest b (on_blk src ((blk_invalidate (ts_blks t ! src))\<lparr>replacementData := e\<rparr>) t)" "blk_valid b" "blk_secure b = blk_secure (ts_blks t ! src)"
      "blk_tag b = blk_tag (ts_blks t ! src)" "blk_set b = blk_set (ts_blks t ! dest)" "blk_way b = blk_way (ts_blks t ! dest)"
    using h v by (auto simp: ts_moveBlock_def blk_move_def entry_insert_def setCoherenceBits_def setWhenReady_def bindR_Inr_iff Let_def blk_invalidate_def)
  define t1 where "t1 = on_blk src ((blk_invalidate (ts_blks t ! src))\<lparr>replacementData := e\<rparr>) t"
  note inv = invalidate_ok [OF t src v(2) refl, of e, folded t1_def]
  have ne: "dest \<noteq> src" using v by auto
  have sel: "indexingPolicy t1 = indexingPolicy t" "ts_kind t1 = ts_kind t" "ts_blks t1 ! dest = ts_blks t ! dest" using ne by (simp_all add: t1_def)
  have tag: "blk_tag (ts_blks t ! src) = extractTag (indexingPolicy t1) (regenerateBlkAddr t src)"
    using a line_src line_tag ix.well_formed p unfolding holds_def placed_def sel by metis
  have at: "at_line t1 (regenerateBlkAddr t src) = regenerateBlkAddr t src" unfolding line_src sel by simp
  have "Some dest \<in> set (possible t1 (regenerateBlkAddr t src))" using dest by (simp add: possible_def sel)
  note ok = insert_ok [OF inv(1) this, where b = b and sec = "blk_secure (ts_blks t ! src)"]
  have "(at_line t1 (regenerateBlkAddr t src), blk_secure (ts_blks t ! src)) \<notin> resident t1" unfolding inv(2) at by simp
  from ok [OF _ this] show "store_ok t'" "resident t' = resident t"
    using v b tag sel unfolding inv(2) at b(1) t1_def [symmetric] by (auto simp: resident_def src)
qed


text \<open>The constructor gives every block its place.\<close>

definition filled :: "nat \<Rightarrow> 'd tag_store \<Rightarrow> bool" where
  "filled k t \<longleftrightarrow> ix_ok (ts_kind t) (indexingPolicy t) \<and> length (ts_blks t) = unat (numSets (indexingPolicy t)) * ways t \<and>
     (\<forall>i < k. sets (indexingPolicy t) ! (i div ways t) ! (i mod ways t) = Some i \<and> unat (blk_set (ts_blks t ! i)) = i div ways t \<and> unat (blk_way (ts_blks t ! i)) = i mod ways t) \<and>
     (\<forall>i < length (ts_blks t). \<not> blk_valid (ts_blks t ! i) \<and> \<not> blk_secure (ts_blks t ! i))"

lemma setEntry_place:
  assumes ok: "ix_ok kind p" and i: "i < unat (numSets p) * unat (ip_assoc p)"
  obtains s w p' where "setEntry i i p = Inr (s, w, p')" "unat s = i div unat (ip_assoc p)" "unat w = i mod unat (ip_assoc p)" "ix_ok kind p'"
    "numSets p' = numSets p" "ip_assoc p' = ip_assoc p" "sets p' ! (i div unat (ip_assoc p)) ! (i mod unat (ip_assoc p)) = Some i"
    "\<And>j. j \<noteq> i \<Longrightarrow> sets p' ! (j div unat (ip_assoc p)) ! (j mod unat (ip_assoc p)) = sets p ! (j div unat (ip_assoc p)) ! (j mod unat (ip_assoc p))"
proof -
  let ?A = "unat (ip_assoc p)" and ?s = "of_nat (i div unat (ip_assoc p)) :: u32" and ?w = "of_nat (i mod unat (ip_assoc p)) :: u32"
  note wf = ix.well_formed [OF ok, unfolded index_ok_def]
  have A: "0 < ?A" using wf by (simp add: word_less_nat_alt)
  have d: "i div ?A < unat (numSets p)" "i mod ?A < ?A" using i A by (simp_all add: less_mult_imp_div_less)
  have u: "unat ?s = i div ?A" "unat ?w = i mod ?A"
    using d unsigned_less [of "numSets p", where 'a = nat] unsigned_less [of "ip_assoc p", where 'a = nat] by (simp_all add: unat_of_nat take_bit_nat_eq_self)
  let ?t = "(sets p)[i div ?A := (sets p ! (i div ?A))[i mod ?A := Some i]]"
  have row: "length (sets p ! (i div ?A)) = ?A" "i div ?A < length (sets p)" using wf d(1) by auto
  have "length ?t = length (sets p)" "\<forall>row\<in>set ?t. length row = ?A" using wf row by (auto dest!: set_update_subset_insert')
  from ix.table [OF ok this] have ok': "ix_ok kind (p\<lparr>sets := ?t\<rparr>)" by simp
  have e: "setEntry i i p = Inr (?s, ?w, p\<lparr>sets := ?t\<rparr>)" using d(1) u by (simp add: setEntry_def word_less_nat_alt Let_def)
  have other: "?t ! (j div ?A) ! (j mod ?A) = sets p ! (j div ?A) ! (j mod ?A)" if "j \<noteq> i" for j
  proof (cases "j div ?A = i div ?A")
    case True
    then have "j mod ?A \<noteq> i mod ?A" using that by (metis div_mult_mod_eq)
    then show ?thesis using row True by simp
  qed simp
  show thesis by (rule that [OF e u ok']) (use row d(2) other in simp_all)
qed

lemma tagsInit_ok:
  assumes "filled k t" "k \<le> length (ts_blks t)"
  shows "\<exists>t'. tagsInit_from [k..<length (ts_blks t)] t = Inr t' \<and> filled (length (ts_blks t)) t' \<and> length (ts_blks t') = length (ts_blks t)"
  using assms
proof (induction "length (ts_blks t) - k" arbitrary: k t)
  case 0
  then show ?case by simp
next
  case (Suc n)
  then have k: "k < length (ts_blks t)" by simp
  note f = Suc.prems(1) [unfolded filled_def]
  let ?A = "ways t"
  obtain s w p' where e: "setEntry k k (indexingPolicy t) = Inr (s, w, p')" "unat s = k div ?A" "unat w = k mod ?A" "ix_ok (ts_kind t) p'"
      "numSets p' = numSets (indexingPolicy t)" "ip_assoc p' = ip_assoc (indexingPolicy t)" "sets p' ! (k div ?A) ! (k mod ?A) = Some k"
      "\<And>j. j \<noteq> k \<Longrightarrow> sets p' ! (j div ?A) ! (j mod ?A) = sets (indexingPolicy t) ! (j div ?A) ! (j mod ?A)"
    using setEntry_place [of "ts_kind t" "indexingPolicy t" k] f k by metis
  let ?t = "(on_blk k ((ts_blks t ! k)\<lparr>blk_set := s, blk_way := w, replacementData := instantiateEntry (replacementPolicy t)\<rparr>) t)\<lparr>indexingPolicy := p'\<rparr>"
  have "filled (Suc k) ?t" using f e k unfolding filled_def by (auto simp: less_Suc_eq nth_list_update_eq_if)
  moreover have "[k..<length (ts_blks t)] = k # [Suc k..<length (ts_blks t)]" using k by (rule upt_conv_Cons)
  ultimately show ?case using Suc.hyps(1) [of ?t "Suc k"] Suc.hyps(2) Suc.prems(2) e(1) by simp
qed

lemma filled_ok:
  assumes "filled (length (ts_blks t)) t"
  shows "store_ok t" "resident t = {}"
proof -
  note f = assms [unfolded filled_def]
  have A: "0 < ways t" using ix.well_formed [of "ts_kind t" "indexingPolicy t"] f by (simp add: index_ok_def word_less_nat_alt)
  have "sets (indexingPolicy t) ! s ! w = Some (s * ways t + w)" if "s < unat (numSets (indexingPolicy t))" "w < ways t" for s w
  proof -
    have "s * ways t + w < length (ts_blks t)" using f that place_bound by simp
    then have "sets (indexingPolicy t) ! ((s * ways t + w) div ways t) ! ((s * ways t + w) mod ways t) = Some (s * ways t + w)" using f by blast
    then show ?thesis using that(2) by simp
  qed
  then show "store_ok t" "resident t = {}" using f by (auto simp: store_ok_def placed_def resident_def)
qed

lemma tagsInit_frame:
  "tagsInit_from is t = Inr t' \<Longrightarrow> length (ts_blks t') = length (ts_blks t) \<and> numSets (indexingPolicy t') = numSets (indexingPolicy t) \<and>
    ip_assoc (indexingPolicy t') = ip_assoc (indexingPolicy t) \<and> tagShift (indexingPolicy t') = tagShift (indexingPolicy t)"
  by (induction "is" t rule: tagsInit_from.induct) (auto simp: bindR_Inr_iff setEntry_def Let_def)

text \<open>The capacity is a whole number of sets; a way of a plain cache spans at most four gigabytes.\<close>

lemma BaseSetAssoc_ok:
  assumes h: "BaseSetAssoc kind rp capacity block_size assoc = Inr t" and exact: "length (ts_blks t) = unat (numSets (indexingPolicy t)) * ways t"
    and small: "kind = Set_Associative \<longrightarrow> tagShift (indexingPolicy t) \<le> 32"
  shows "store_ok t" "resident t = {}"
proof -
  obtain p where p: "(case kind of Set_Associative \<Rightarrow> BaseIndexingPolicy capacity block_size assoc | Skewed_Associative \<Rightarrow> SkewedAssociative capacity block_size assoc) = Inr p"
    using h by (auto simp: BaseSetAssoc_def bindR_Inr_iff)
  define n where "n = unat (capacity div ucast block_size)"
  define t0 where "t0 = \<lparr>ts_kind = kind, indexingPolicy = p, replacementPolicy = rp, ts_blks = replicate n (CacheBlk (instantiateEntry rp))\<rparr>"
  have t: "tagsInit_from [0..<n] t0 = Inr t" using h p by (simp add: BaseSetAssoc_def Let_def n_def t0_def)
  have l: "length (ts_blks t0) = n" by (simp add: t0_def)
  note fr = tagsInit_frame [OF t]
  have ok: "ix_ok kind p"
  proof (cases kind)
    case Set_Associative
    then show ?thesis using p BaseIndexingPolicy_ok small fr by (auto simp: ix_ok_def sa_ok_def t0_def)
  next
    case Skewed_Associative
    then show ?thesis using p SkewedAssociative_ok by (auto simp: ix_ok_def)
  qed
  have "filled 0 t0" using ok exact fr unfolding filled_def by (auto simp: t0_def CacheBlk_def blk_invalidate_def)
  from tagsInit_ok [OF this] show "store_ok t" "resident t = {}" using t filled_ok [of t] fr unfolding l by auto
qed





section \<open>The life of a tag store\<close>

inductive tags_run :: "'d tag_store \<Rightarrow> bool" where
  init: "BaseSetAssoc kind rp capacity block_size assoc = Inr t \<Longrightarrow> length (ts_blks t) = unat (numSets (indexingPolicy t)) * ways t \<Longrightarrow>
    kind = Set_Associative \<longrightarrow> tagShift (indexingPolicy t) \<le> 32 \<Longrightarrow> tags_run t"
| accessed: "tags_run t \<Longrightarrow> accessBlock now pkt t = Inr (r, t') \<Longrightarrow> tags_run t'"
| allocated: "tags_run t \<Longrightarrow> getAddr pkt = Inr a \<Longrightarrow> isSecure pkt = Inr sec \<Longrightarrow> findBlock a sec t = Inr None \<Longrightarrow>
    allocateBlock now pkt part conflict requestor task t = Inr (r, ev, t') \<Longrightarrow> tags_run t'"
| invalidated: "tags_run t \<Longrightarrow> i < length (ts_blks t) \<Longrightarrow> ts_invalidate i t = Inr t' \<or> ts_invalidateDDIO i t = Inr t' \<Longrightarrow> tags_run t'"
| moved: "tags_run t \<Longrightarrow> src < length (ts_blks t) \<Longrightarrow> Some dest \<in> set (possible t (regenerateBlkAddr t src)) \<Longrightarrow> ts_moveBlock now src dest t = Inr t' \<Longrightarrow> tags_run t'"
| updated: "tags_run t \<Longrightarrow> blk_core b = blk_core (ts_blks t ! i) \<Longrightarrow> tags_run (on_blk i b t)"

lemma tags_run_ok: "tags_run t \<Longrightarrow> store_ok t"
proof (induction rule: tags_run.induct)
  case (init kind rp capacity block_size assoc t)
  then show ?case using BaseSetAssoc_ok(1) by blast
next
  case (accessed t now pkt r t')
  then show ?case using accessBlock_same same_lines_ok by blast
next
  case (allocated t pkt a sec now part conflict requestor task r ev t')
  then show ?case using allocateBlock_ok(1) by blast
next
  case (invalidated t i t')
  then show ?case using ts_invalidate_ok(1) by blast
next
  case (moved t src dest now t')
  then show ?case using moveBlock_ok(1) by blast
next
  case (updated t b i)
  then show ?case using same_lines_on_blk same_lines_ok by blast
qed

definition lock_packet :: "command \<Rightarrow> packet" where
  "lock_packet c = \<lparr>pkt_cmd = c, pkt_flags = 0x300, pkt_req = \<lparr>req_flags = LLSC, req_paddr = Some 0x1040, req_size = Some 8, req_masked = False\<rparr>,
     pkt_addr = 0x1040, pkt_secure = False, pkt_size = 8, pkt_data = None, bytesValid = [], is_prefetch_hint_pkt = False,
     ddio_prefetch_destination = - 1, is_block_io = False, is_ddio_pkt = False, is_ddio_header = False\<rparr>"

lemma lock_packet_place: "getAddr (lock_packet c) = Inr 0x1040" "isSecure (lock_packet c) = Inr False"
  by (simp_all add: lock_packet_def getAddr_def isSecure_def isSet_def VALID_ADDR_def)

text \<open>A cache of four sets and two ways.\<close>

lemma small_tags:
  obtains t :: "lru_data tag_store" where "tags_run t" "findBlock 0x1040 False t = Inr None"
    "case allocateBlock 5 (lock_packet ReadResp) None (\<lambda>_ _. None) 1 1 t of Inl _ \<Rightarrow> False | Inr (r, ev, t') \<Rightarrow> r = Some 2 \<and> findBlock 0x107f False t' = Inr (Some 2)"
proof -
  have "case BaseSetAssoc Set_Associative LRU 512 64 2 of Inl _ \<Rightarrow> False | Inr t \<Rightarrow>
      length (ts_blks t) = unat (numSets (indexingPolicy t)) * ways t \<and> tagShift (indexingPolicy t) \<le> 32 \<and> findBlock 0x1040 False t = Inr None \<and>
      (case allocateBlock 5 (lock_packet ReadResp) None (\<lambda>_ _. None) 1 1 t of Inl _ \<Rightarrow> False | Inr (r, ev, t') \<Rightarrow> r = Some 2 \<and> findBlock 0x107f False t' = Inr (Some 2))"
    by code_simp
  then obtain t where t: "BaseSetAssoc Set_Associative LRU 512 64 2 = Inr t" "length (ts_blks t) = unat (numSets (indexingPolicy t)) * ways t" "tagShift (indexingPolicy t) \<le> 32"
      "findBlock 0x1040 False t = Inr None"
      "case allocateBlock 5 (lock_packet ReadResp) None (\<lambda>_ _. None) 1 1 t of Inl _ \<Rightarrow> False | Inr (r, ev, t') \<Rightarrow> r = Some 2 \<and> findBlock 0x107f False t' = Inr (Some 2)"
    by (auto split: sum.splits)
  then show thesis using that init [OF t(1,2)] by simp
qed

text \<open>C20: a tag store finds exactly what it holds. In every state of a run a lookup succeeds, and it returns a block just when the block is valid,
  of the same security space, and the address computed back from its tag and its place is the line of the address; so no line is held twice, in
  plain and in skewed caches.\<close>

theorem tag_store_lookup:
  assumes "tags_run t"
  shows "\<exists>r. findBlock a sec t = Inr r \<and>
    (\<forall>i. r = Some i \<longleftrightarrow> i < length (ts_blks t) \<and> blk_valid (ts_blks t ! i) \<and> blk_secure (ts_blks t ! i) = sec \<and>
       regenerateBlkAddr t i = push_bit (setShift (indexingPolicy t)) (drop_bit (setShift (indexingPolicy t)) a))"
  using findBlock_exact [OF tags_run_ok [OF assms], of a sec] unfolding line_def .

theorem tag_store_lookup_witness:
  "\<exists>t :: lru_data tag_store. tags_run t \<and> findBlock 0x107f False t = Inr (Some 2) \<and> blk_valid (ts_blks t ! 2) \<and>
     regenerateBlkAddr t 2 = push_bit (setShift (indexingPolicy t)) (drop_bit (setShift (indexingPolicy t)) 0x107f)"
proof -
  obtain t :: "lru_data tag_store" where t: "tags_run t" "findBlock 0x1040 False t = Inr None"
      "case allocateBlock 5 (lock_packet ReadResp) None (\<lambda>_ _. None) 1 1 t of Inl _ \<Rightarrow> False | Inr (r, ev, t') \<Rightarrow> r = Some 2 \<and> findBlock 0x107f False t' = Inr (Some 2)"
    by (rule small_tags)
  then obtain ev t' where t': "allocateBlock 5 (lock_packet ReadResp) None (\<lambda>_ _. None) 1 1 t = Inr (Some 2, ev, t')" "findBlock 0x107f False t' = Inr (Some 2)"
    by (auto split: sum.splits)
  have r: "tags_run t'" using allocated [OF t(1) lock_packet_place(1) [of ReadResp] lock_packet_place(2) [of ReadResp] t(2) t'(1)] .
  obtain q where q: "findBlock 0x107f False t' = Inr q" "\<forall>i. q = Some i \<longleftrightarrow> i < length (ts_blks t') \<and> blk_valid (ts_blks t' ! i) \<and> blk_secure (ts_blks t' ! i) = False \<and>
       regenerateBlkAddr t' i = push_bit (setShift (indexingPolicy t')) (drop_bit (setShift (indexingPolicy t')) 0x107f)"
    using tag_store_lookup [OF r, of "0x107f" False] by (elim exE conjE)
  then have "q = Some 2" using t'(2) by simp
  then show ?thesis using q(2) [THEN spec, of 2] t'(2) r by (intro exI [of _ t']) simp
qed




section \<open>Load locks\<close>

text \<open>What happens to a block: a range is loaded with a lock, written, or written conditionally by a context, or the block is invalidated.\<close>

datatype lock_event = LoadLocked load_lock | Stored load_lock | StoreCond load_lock | Invalidated

definition overlap :: "load_lock \<Rightarrow> load_lock \<Rightarrow> bool" where
  "overlap w l \<longleftrightarrow> lowAddr w \<le> highAddr l \<and> lowAddr l \<le> highAddr w"

lemma overlap_sym: "overlap w l \<Longrightarrow> overlap l w"
  by (simp add: overlap_def)

definition inside :: "load_lock \<Rightarrow> load_lock \<Rightarrow> bool" where
  "inside w l \<longleftrightarrow> lock_contextId l = lock_contextId w \<and> lowAddr l \<le> lowAddr w \<and> highAddr w \<le> highAddr l"

text \<open>An event ends a lock: another lock or a write of another context in its range, a conditional write that uses it, an invalidation.\<close>

fun ends :: "lock_event \<Rightarrow> load_lock \<Rightarrow> bool" where
  "ends (LoadLocked w) l = overlap w l"
| "ends (Stored w) l = (overlap w l \<and> lock_contextId l \<noteq> lock_contextId w)"
| "ends (StoreCond w) l = (inside w l \<or> overlap w l \<and> lock_contextId l \<noteq> lock_contextId w)"
| "ends Invalidated l = True"

definition live :: "lock_event list \<Rightarrow> load_lock \<Rightarrow> bool" where
  "live es l \<longleftrightarrow> (\<exists>es1 es2. es = es1 @ LoadLocked l # es2 \<and> (\<forall>e\<in>set es2. \<not> ends e l))"

lemma live_snoc: "live (es @ [e]) l \<longleftrightarrow> live es l \<and> \<not> ends e l \<or> e = LoadLocked l"
proof
  assume "live (es @ [e]) l"
  then obtain es1 es2 where s: "es @ [e] = es1 @ LoadLocked l # es2" "\<forall>e\<in>set es2. \<not> ends e l" by (auto simp: live_def)
  show "live es l \<and> \<not> ends e l \<or> e = LoadLocked l"
  proof (cases es2 rule: rev_cases)
    case Nil
    then show ?thesis using s by simp
  next
    case (snoc es3 e')
    then have "es = es1 @ LoadLocked l # es3" "e = e'" using s(1) by (simp_all flip: append_Cons append_assoc)
    then show ?thesis using s(2) snoc unfolding live_def by auto
  qed
next
  assume "live es l \<and> \<not> ends e l \<or> e = LoadLocked l"
  then show "live (es @ [e]) l"
  proof
    assume "live es l \<and> \<not> ends e l"
    then obtain es1 es2 where "es = es1 @ LoadLocked l # es2" "\<forall>e\<in>set es2. \<not> ends e l" "\<not> ends e l" by (auto simp: live_def)
    then show ?thesis unfolding live_def by (intro exI [of _ es1] exI [of _ "es2 @ [e]"]) auto
  next
    assume "e = LoadLocked l"
    then show ?thesis unfolding live_def by (intro exI [of _ es] exI [of _ "[]"]) simp
  qed
qed

text \<open>A request of one byte or more does not wrap around.\<close>

inductive lock_run :: "lock_event list \<Rightarrow> 'd cache_blk \<Rightarrow> bool" where
  fresh: "lockList b = [] \<Longrightarrow> lock_run [] b"
| load: "lock_run es b \<Longrightarrow> Lock ctx (pkt_req pkt) = Inr w \<Longrightarrow> lowAddr w \<le> highAddr w \<Longrightarrow> trackLoadLocked ctx pkt b = Inr b' \<Longrightarrow> lock_run (es @ [LoadLocked w]) b'"
| store: "lock_run es b \<Longrightarrow> Lock ctx (pkt_req pkt) = Inr w \<Longrightarrow> lowAddr w \<le> highAddr w \<Longrightarrow> \<not> testCmdAttrib (pkt_cmd pkt) IsLlsc \<Longrightarrow>
    checkWrite ctx pkt b = Inr (ok, x, b') \<Longrightarrow> lock_run (es @ [Stored w]) b'"
| cond: "lock_run es b \<Longrightarrow> Lock ctx (pkt_req pkt) = Inr w \<Longrightarrow> lowAddr w \<le> highAddr w \<Longrightarrow> testCmdAttrib (pkt_cmd pkt) IsLlsc \<Longrightarrow>
    checkWrite ctx pkt b = Inr (ok, x, b') \<Longrightarrow> lock_run (es @ [StoreCond w]) b'"
| invalidate: "lock_run es b \<Longrightarrow> lock_run (es @ [Invalidated]) (blk_invalidate b)"
| other: "lock_run es b \<Longrightarrow> lockList b' = lockList b \<Longrightarrow> lock_run es b'"

definition locks_ok :: "lock_event list \<Rightarrow> load_lock list \<Rightarrow> bool" where
  "locks_ok es ls \<longleftrightarrow> distinct ls \<and> set ls = {l. live es l} \<and> (\<forall>l\<in>set ls. lowAddr l \<le> highAddr l) \<and> (\<forall>l\<in>set ls. \<forall>l'\<in>set ls. overlap l l' \<longrightarrow> l = l')"

lemma erase_if_filter: "(\<And>x. x \<in> set xs \<Longrightarrow> test x = Inr (p x)) \<Longrightarrow> erase_if test xs = Inr (filter (\<lambda>x. \<not> p x) xs)"
  by (induction xs) auto

lemma erase_match_filter:
  assumes "\<And>x. x \<in> set xs \<Longrightarrow> test x = Inr (p x)" "distinct xs" "\<And>x y. x \<in> set xs \<Longrightarrow> y \<in> set xs \<Longrightarrow> p x \<Longrightarrow> p y \<Longrightarrow> x = y"
  shows "erase_match test xs = Inr ((\<exists>x\<in>set xs. p x), filter (\<lambda>x. \<not> p x) xs)"
  using assms
proof (induction xs)
  case (Cons x xs)
  show ?case
  proof (cases "p x")
    case True
    then have "\<not> p y" if "y \<in> set xs" for y using Cons.prems(2) Cons.prems(3) [of x y] that by auto
    then show ?thesis using True Cons.prems(1) [of x] by (simp add: filter_id_conv)
  next
    case False
    have "erase_match test xs = Inr ((\<exists>x\<in>set xs. p x), filter (\<lambda>x. \<not> p x) xs)" using Cons.prems by (intro Cons.IH) auto
    then show ?thesis using False Cons.prems(1) [of x] by simp
  qed
qed simp

lemma Lock_tests:
  assumes "Lock ctx req = Inr w"
  shows "lock_intersects req l = Inr (overlap w l)" "lock_matches ctx req l = Inr (inside w l)" "req_context ctx = Inr (lock_contextId w)"
  using assms by (auto simp: Lock_def lock_intersects_def lock_matches_def bindR_Inr_iff overlap_def inside_def)

lemma clearLoadLocks_filter:
  assumes "Lock ctx req = Inr w"
  shows "clearLoadLocks ctx req b = Inr (b\<lparr>lockList := filter (\<lambda>l. \<not> (overlap w l \<and> lock_contextId l \<noteq> lock_contextId w)) (lockList b)\<rparr>)"
proof -
  have "erase_if (\<lambda>l. bindR (lock_intersects req l) (\<lambda>i. if i then bindR (req_context ctx) (\<lambda>c. Inr (lock_contextId l \<noteq> c)) else Inr False)) (lockList b) =
      Inr (filter (\<lambda>l. \<not> (overlap w l \<and> lock_contextId l \<noteq> lock_contextId w)) (lockList b))"
    by (rule erase_if_filter) (simp add: Lock_tests [OF assms])
  then show ?thesis by (simp add: clearLoadLocks_def)
qed

lemma locks_ok_filter: "locks_ok es ls \<Longrightarrow> (\<And>l. e \<noteq> LoadLocked l) \<Longrightarrow> locks_ok (es @ [e]) (filter (\<lambda>l. \<not> ends e l) ls)"
  by (auto simp: locks_ok_def live_snoc)

lemma checkWrite_ok:
  assumes ls: "locks_ok es (lockList b)" and w: "Lock ctx (pkt_req pkt) = Inr w" "lowAddr w \<le> highAddr w" and wr: "testCmdAttrib (pkt_cmd pkt) IsWrite"
  shows "testCmdAttrib (pkt_cmd pkt) IsLlsc \<Longrightarrow> checkWrite ctx pkt b =
      Inr (\<exists>l. live es l \<and> inside w l, Some (if \<exists>l. live es l \<and> inside w l then 1 else 0), b\<lparr>lockList := filter (\<lambda>l. \<not> ends (StoreCond w) l) (lockList b)\<rparr>)"
    "\<not> testCmdAttrib (pkt_cmd pkt) IsLlsc \<Longrightarrow> checkWrite ctx pkt b = Inr (True, None, b\<lparr>lockList := filter (\<lambda>l. \<not> ends (Stored w) l) (lockList b)\<rparr>)"
proof -
  have "x = y" if "x \<in> set (lockList b)" "y \<in> set (lockList b)" "inside w x" "inside w y" for x y
  proof -
    have "overlap x y" using that(3,4) w(2) unfolding inside_def overlap_def by (meson order_trans)
    then show ?thesis using ls that(1,2) by (simp add: locks_ok_def)
  qed
  then have m: "erase_match (lock_matches ctx (pkt_req pkt)) (lockList b) = Inr ((\<exists>l\<in>set (lockList b). inside w l), filter (\<lambda>l. \<not> inside w l) (lockList b))"
    using ls by (intro erase_match_filter) (auto simp: Lock_tests [OF w(1)] locks_ok_def)
  have ex: "(\<exists>l\<in>set (lockList b). inside w l) \<longleftrightarrow> (\<exists>l. live es l \<and> inside w l)" using ls by (auto simp: locks_ok_def)
  show "checkWrite ctx pkt b = Inr (\<exists>l. live es l \<and> inside w l, Some (if \<exists>l. live es l \<and> inside w l then 1 else 0), b\<lparr>lockList := filter (\<lambda>l. \<not> ends (StoreCond w) l) (lockList b)\<rparr>)"
    if "testCmdAttrib (pkt_cmd pkt) IsLlsc"
    using that wr m unfolding checkWrite_def by (simp add: clearLoadLocks_filter [OF w(1)] ex conj_commute)
  show "checkWrite ctx pkt b = Inr (True, None, b\<lparr>lockList := filter (\<lambda>l. \<not> ends (Stored w) l) (lockList b)\<rparr>)" if "\<not> testCmdAttrib (pkt_cmd pkt) IsLlsc"
    using that wr unfolding checkWrite_def by (simp add: clearLoadLocks_filter [OF w(1)])
qed

lemma trackLoadLocked_ok:
  assumes ls: "locks_ok es (lockList b)" and w: "Lock ctx (pkt_req pkt) = Inr w" "lowAddr w \<le> highAddr w" and h: "trackLoadLocked ctx pkt b = Inr b'"
  shows "locks_ok (es @ [LoadLocked w]) (lockList b')"
proof -
  have "erase_if (lock_intersects (pkt_req pkt)) (lockList b) = Inr (filter (\<lambda>l. \<not> overlap w l) (lockList b))"
    by (rule erase_if_filter) (simp add: Lock_tests [OF w(1)])
  then have b': "lockList b' = w # filter (\<lambda>l. \<not> overlap w l) (lockList b)" using h w(1) by (auto simp: trackLoadLocked_def)
  have "overlap w w" using w(2) by (simp add: overlap_def)
  then have "distinct (lockList b')" using ls unfolding b' locks_ok_def by simp
  moreover have "l = l'" if "l \<in> set (lockList b')" "l' \<in> set (lockList b')" "overlap l l'" for l l'
  proof (cases "l = w \<or> l' = w")
    case True
    then show ?thesis using that overlap_sym [OF that(3)] unfolding b' by auto
  next
    case False
    then show ?thesis using that ls unfolding b' locks_ok_def by simp
  qed
  moreover have "set (lockList b') = {l. live (es @ [LoadLocked w]) l}" using ls unfolding b' locks_ok_def by (auto simp: live_snoc)
  moreover have "\<forall>l\<in>set (lockList b'). lowAddr l \<le> highAddr l" using ls w(2) unfolding b' locks_ok_def by simp
  ultimately show ?thesis by (simp add: locks_ok_def)
qed

lemma lock_run_ok: "lock_run es b \<Longrightarrow> locks_ok es (lockList b)"
proof (induction rule: lock_run.induct)
  case (fresh b)
  then show ?case by (simp add: locks_ok_def live_def)
next
  case (load es b ctx pkt w b')
  then show ?case using trackLoadLocked_ok by blast
next
  case (store es b ctx pkt w ok x b')
  have wr: "testCmdAttrib (pkt_cmd pkt) IsWrite" using store.hyps(5) by (auto simp: checkWrite_def)
  have "lockList b' = filter (\<lambda>l. \<not> ends (Stored w) l) (lockList b)" using checkWrite_ok(2) [OF store.IH store.hyps(2,3) wr store.hyps(4)] store.hyps(5) by auto
  then show ?case using locks_ok_filter [OF store.IH, of "Stored w"] by simp
next
  case (cond es b ctx pkt w ok x b')
  have wr: "testCmdAttrib (pkt_cmd pkt) IsWrite" using cond.hyps(5) by (auto simp: checkWrite_def)
  have "lockList b' = filter (\<lambda>l. \<not> ends (StoreCond w) l) (lockList b)" using checkWrite_ok(1) [OF cond.IH cond.hyps(2,3) wr cond.hyps(4)] cond.hyps(5) by auto
  then show ?case using locks_ok_filter [OF cond.IH, of "StoreCond w"] by simp
next
  case (invalidate es b)
  then show ?case by (auto simp: locks_ok_def live_snoc blk_invalidate_def)
next
  case (other es b b')
  then show ?case by simp
qed


text \<open>C19: a store conditional succeeds exactly when its lock is intact. After any history of a block, the conditional write of a context proceeds if
  and only if the context loaded a range that contains the written one with a lock and nothing in between ended it: no write of another context and no
  other locked load in that range, no conditional write that already used the lock, no invalidation.\<close>

theorem store_conditional_exact:
  assumes "lock_run es b" "testCmdAttrib (pkt_cmd pkt) IsWrite" "testCmdAttrib (pkt_cmd pkt) IsLlsc" "Lock ctx (pkt_req pkt) = Inr w" "lowAddr w \<le> highAddr w"
  shows "\<exists>ok b'. checkWrite ctx pkt b = Inr (ok, Some (if ok then 1 else 0), b') \<and>
    (ok \<longleftrightarrow> (\<exists>es1 l es2. es = es1 @ LoadLocked l # es2 \<and> lock_contextId l = lock_contextId w \<and> lowAddr l \<le> lowAddr w \<and> highAddr w \<le> highAddr l \<and>
       (\<forall>e\<in>set es2. \<not> ends e l)))"
proof -
  have "(\<exists>l. live es l \<and> inside w l) \<longleftrightarrow> (\<exists>es1 l es2. es = es1 @ LoadLocked l # es2 \<and> lock_contextId l = lock_contextId w \<and> lowAddr l \<le> lowAddr w \<and>
      highAddr w \<le> highAddr l \<and> (\<forall>e\<in>set es2. \<not> ends e l))" unfolding live_def inside_def by blast
  then show ?thesis using checkWrite_ok(1) [OF lock_run_ok [OF assms(1)] assms(4,5,2,3)] by (intro exI conjI) simp_all
qed

theorem store_conditional_exact_witness:
  "\<exists>(b :: lru_data cache_blk) b'. lock_run [LoadLocked \<lparr>lock_contextId = 3, lowAddr = 0x1040, highAddr = 0x1047\<rparr>] b \<and>
     checkWrite (Some 3) (lock_packet StoreCondReq) b = Inr (True, Some 1, b')"
proof -
  let ?w = "\<lparr>lock_contextId = 3, lowAddr = 0x1040, highAddr = 0x1047\<rparr>" and ?b = "CacheBlk LRUReplData"
  have w: "Lock (Some 3) (pkt_req (lock_packet c)) = Inr ?w" for c by (simp add: Lock_def req_context_def req_bounds_def lock_packet_def)
  have l: "testCmdAttrib (pkt_cmd (lock_packet LoadLockedReq)) IsLlsc" "testCmdAttrib (pkt_cmd (lock_packet StoreCondReq)) IsLlsc"
    "testCmdAttrib (pkt_cmd (lock_packet StoreCondReq)) IsWrite" by code_simp+
  have b: "lockList ?b = []" by (simp add: CacheBlk_def blk_invalidate_def)
  then have "trackLoadLocked (Some 3) (lock_packet LoadLockedReq) ?b = Inr (?b\<lparr>lockList := [?w]\<rparr>)" by (simp add: trackLoadLocked_def l w)
  from load [OF fresh [OF b] w _ this] have r: "lock_run [LoadLocked ?w] (?b\<lparr>lockList := [?w]\<rparr>)" by simp
  obtain ok b' where "checkWrite (Some 3) (lock_packet StoreCondReq) (?b\<lparr>lockList := [?w]\<rparr>) = Inr (ok, Some (if ok then 1 else 0), b')" "ok"
    using store_conditional_exact [OF r l(3,2) w] by fastforce
  then show ?thesis using r by auto
qed

end
