(* ===== verification/Packet_Queue.thy ===== *)
theory Packet_Queue
  imports Mem_Packet "HOL-Library.Multiset"
begin

text \<open>
  \<^verbatim>\<open>src/gem5/src/mem/packet_queue.cc\<close> and \<^verbatim>\<open>packet_queue.hh\<close>: the queue in which a port keeps packets until their
  time, with its event and the retry protocol. The event manager is the time the event is armed for, if any. What
  the receiver of a packet does is an argument: whether it takes the packet, and what it sends
  into the queue meanwhile. \<open>pq_run\<close> is the life of a queue; its invariant shows that no packet is forgotten or
  overtakes one of its own address. The three kinds of queues differ only in the port they send to;
  labels of print requests are left out.
\<close>

section \<open>The queue\<close>

record deferred_packet =
  dp_tick :: tick
  dp_pkt :: packet

record packet_queue =
  transmitList :: "deferred_packet list"
  sendEvent :: "tick option"
  disableSanityCheck :: bool
  forceOrder :: bool
  waitingOnRetry :: bool
  pq_draining :: bool

definition PacketQueue :: "bool \<Rightarrow> bool \<Rightarrow> packet_queue" where
  "PacketQueue force_order disable_sanity_check =
     \<lparr>transmitList = [], sendEvent = None, disableSanityCheck = disable_sanity_check, forceOrder = force_order,
      waitingOnRetry = False, pq_draining = False\<rparr>"

abbreviation MaxTick :: tick where "MaxTick \<equiv> - 1"

definition pq_size :: "packet_queue \<Rightarrow> nat" where
  "pq_size q = length (transmitList q)"

definition deferredPacketReady :: "tick \<Rightarrow> packet_queue \<Rightarrow> bool" where
  "deferredPacketReady curTick q \<longleftrightarrow> transmitList q \<noteq> [] \<and> dp_tick (hd (transmitList q)) \<le> curTick"

definition deferredPacketReadyTime :: "packet_queue \<Rightarrow> tick" where
  "deferredPacketReadyTime q = (if transmitList q = [] then MaxTick else dp_tick (hd (transmitList q)))"

fun any_conflict :: "packet \<Rightarrow> u32 \<Rightarrow> deferred_packet list \<Rightarrow> bool result" where
  "any_conflict pkt blk_size [] = Inr False"
| "any_conflict pkt blk_size (d # ds) = bindR (matchBlockAddr_pkt (dp_pkt d) pkt blk_size) (\<lambda>b. if b then Inr True else any_conflict pkt blk_size ds)"

definition checkConflict :: "packet \<Rightarrow> u32 \<Rightarrow> packet_queue \<Rightarrow> bool result" where
  "checkConflict pkt blk_size q = any_conflict pkt blk_size (transmitList q)"

fun satisfy_deferred :: "deferred_packet list \<Rightarrow> packet \<Rightarrow> (bool \<times> packet \<times> deferred_packet list) result" where
  "satisfy_deferred [] pkt = Inr (False, pkt, [])"
| "satisfy_deferred (d # ds) pkt =
     bindR (trySatisfyFunctional_pkt pkt (dp_pkt d)) (\<lambda>(ok, pkt, p).
     if ok then Inr (True, pkt, d\<lparr>dp_pkt := p\<rparr> # ds)
     else bindR (satisfy_deferred ds pkt) (\<lambda>(ok, pkt, ds). Inr (ok, pkt, d\<lparr>dp_pkt := p\<rparr> # ds)))"

definition pq_trySatisfyFunctional :: "packet \<Rightarrow> packet_queue \<Rightarrow> (bool \<times> packet \<times> packet_queue) result" where
  "pq_trySatisfyFunctional pkt q = bindR (satisfy_deferred (transmitList q) pkt) (\<lambda>(ok, pkt, ds). Inr (ok, pkt, q\<lparr>transmitList := ds\<rparr>))"

text \<open>The result says whether the end of a drain is signalled. The event manager keeps at most one time for the event.\<close>

definition schedSendEvent :: "tick \<Rightarrow> tick \<Rightarrow> packet_queue \<Rightarrow> (bool \<times> packet_queue) result" where
  "schedSendEvent curTick when_ready q =
     (if waitingOnRetry q then guardR (sendEvent q = None) Assert_Failed (Inr (False, q))
      else if when_ready \<noteq> MaxTick
      then (let w = max when_ready (curTick + 1) in
            case sendEvent q of None \<Rightarrow> guardR (w \<ge> curTick) Assert_Failed (Inr (False, q\<lparr>sendEvent := Some w\<rparr>))
            | Some s \<Rightarrow> if w < s then guardR (w \<ge> curTick) Assert_Failed (Inr (False, q\<lparr>sendEvent := Some w\<rparr>)) else Inr (False, q))
      else if pq_draining q \<and> transmitList q = [] \<and> sendEvent q = None then Inr (True, q\<lparr>pq_draining := False\<rparr>) else Inr (False, q))"

text \<open>The search for the place runs from the end of the list: this is the reversed list.\<close>

fun place_back :: "bool \<Rightarrow> deferred_packet \<Rightarrow> deferred_packet list \<Rightarrow> deferred_packet list option result" where
  "place_back force d [] = Inr None"
| "place_back force d (e # es) =
     bindR (if force then matchAddr_pkt (dp_pkt e) (dp_pkt d) else Inr False) (\<lambda>m.
     if m \<or> dp_tick e \<le> dp_tick d then Inr (Some (d # e # es))
     else bindR (place_back force d es) (\<lambda>r. Inr (map_option ((#) e) r)))"

definition schedSendTiming :: "tick \<Rightarrow> packet \<Rightarrow> tick \<Rightarrow> packet_queue \<Rightarrow> (bool \<times> packet_queue) result" where
  "schedSendTiming curTick pkt when_ready q =
     guardR (when_ready \<ge> curTick) Assert_Failed
     (guardR (\<not> isExpressSnoop pkt) Assert_Failed
     (guardR (disableSanityCheck q \<or> length (transmitList q) \<le> 128) Panic_Error
     (let d = \<lparr>dp_tick = when_ready, dp_pkt = pkt\<rparr> in
      bindR (place_back (forceOrder q) d (rev (transmitList q))) (\<lambda>r.
      case r of Some l \<Rightarrow> Inr (False, q\<lparr>transmitList := rev l\<rparr>)
      | None \<Rightarrow> schedSendEvent curTick when_ready (q\<lparr>transmitList := d # transmitList q\<rparr>)))))"

text \<open>What the receiver does with a packet: whether it accepts it, and the packets it sends into this queue while it is called.\<close>

record reaction =
  accepted :: bool
  enqueued :: "(packet \<times> tick) list"

fun enqueue_all :: "tick \<Rightarrow> (packet \<times> tick) list \<Rightarrow> packet_queue \<Rightarrow> packet_queue result" where
  "enqueue_all curTick [] q = Inr q"
| "enqueue_all curTick ((p, w) # ps) q = bindR (schedSendTiming curTick p w q) (\<lambda>(_, q). enqueue_all curTick ps q)"

definition sendDeferredPacket :: "tick \<Rightarrow> reaction \<Rightarrow> packet_queue \<Rightarrow> (bool \<times> packet_queue) result" where
  "sendDeferredPacket curTick r q =
     guardR (\<not> waitingOnRetry q) Assert_Failed
     (guardR (deferredPacketReady curTick q) Assert_Failed
     (let dp = hd (transmitList q) in
      bindR (enqueue_all curTick (enqueued r) (q\<lparr>transmitList := tl (transmitList q)\<rparr>)) (\<lambda>q.
      let q = q\<lparr>waitingOnRetry := \<not> accepted r\<rparr> in
      if accepted r then schedSendEvent curTick (deferredPacketReadyTime q) q
      else Inr (False, q\<lparr>transmitList := dp # transmitList q\<rparr>))))"

definition processSendEvent :: "tick \<Rightarrow> reaction \<Rightarrow> packet_queue \<Rightarrow> (bool \<times> packet_queue) result" where
  "processSendEvent curTick r q = guardR (\<not> waitingOnRetry q) Assert_Failed (sendDeferredPacket curTick r q)"

definition pq_retry :: "tick \<Rightarrow> reaction \<Rightarrow> packet_queue \<Rightarrow> (bool \<times> packet_queue) result" where
  "pq_retry curTick r q = guardR (waitingOnRetry q) Assert_Failed (sendDeferredPacket curTick r (q\<lparr>waitingOnRetry := False\<rparr>))"

definition pq_drain :: "packet_queue \<Rightarrow> bool \<times> packet_queue" where
  "pq_drain q = (if transmitList q = [] then (True, q\<lparr>pq_draining := False\<rparr>) else (False, q\<lparr>pq_draining := True\<rparr>))"

section \<open>Where a packet is put\<close>

definition has_addr_ok :: "packet \<Rightarrow> bool" where
  "has_addr_ok p \<longleftrightarrow> isSet (pkt_flags p) VALID_ADDR"

definition same_addr :: "packet \<Rightarrow> packet \<Rightarrow> bool" where
  "same_addr p r \<longleftrightarrow> pkt_addr p = pkt_addr r \<and> pkt_secure p = pkt_secure r"

lemma matchAddr_pkt_eq: "has_addr_ok p \<Longrightarrow> has_addr_ok r \<Longrightarrow> matchAddr_pkt p r = Inr (same_addr p r)"
  by (auto simp: matchAddr_pkt_def matchAddr_def getAddr_def isSecure_def has_addr_ok_def same_addr_def)

text \<open>The packets that a new one may not overtake.\<close>

definition stays_before :: "bool \<Rightarrow> deferred_packet \<Rightarrow> deferred_packet \<Rightarrow> bool" where
  "stays_before force d e \<longleftrightarrow> force \<and> same_addr (dp_pkt e) (dp_pkt d) \<or> dp_tick e \<le> dp_tick d"

lemma place_back_eq:
  assumes "has_addr_ok (dp_pkt d)" "\<forall>e\<in>set es. has_addr_ok (dp_pkt e)"
  shows "place_back force d es = Inr (if \<exists>e\<in>set es. stays_before force d e
     then Some (takeWhile (\<lambda>e. \<not> stays_before force d e) es @ d # dropWhile (\<lambda>e. \<not> stays_before force d e) es) else None)"
  using assms(2) by (induction es) (auto simp: matchAddr_pkt_eq assms(1) stays_before_def)


text \<open>A packet is put behind the last one it may not overtake, and only in front of all others is the event touched.\<close>

definition may_enter :: "tick \<Rightarrow> packet \<Rightarrow> tick \<Rightarrow> bool" where
  "may_enter now p w \<longleftrightarrow> now \<le> w \<and> w \<noteq> MaxTick \<and> \<not> isExpressSnoop p \<and> has_addr_ok p"

definition addrs_ok :: "packet_queue \<Rightarrow> bool" where
  "addrs_ok q \<longleftrightarrow> (\<forall>e\<in>set (transmitList q). has_addr_ok (dp_pkt e))"

definition has_room_for :: "nat \<Rightarrow> packet_queue \<Rightarrow> bool" where
  "has_room_for n q \<longleftrightarrow> disableSanityCheck q \<or> length (transmitList q) + n \<le> 129"

lemma schedSendTiming_place:
  assumes "may_enter now p w" "addrs_ok q" "has_room_for 1 q"
  obtains pre suf where "transmitList q = pre @ suf" "\<forall>e\<in>set suf. \<not> stays_before (forceOrder q) \<lparr>dp_tick = w, dp_pkt = p\<rparr> e"
    "pre = [] \<or> stays_before (forceOrder q) \<lparr>dp_tick = w, dp_pkt = p\<rparr> (last pre)"
    "schedSendTiming now p w q = (if pre \<noteq> [] then Inr (False, q\<lparr>transmitList := pre @ \<lparr>dp_tick = w, dp_pkt = p\<rparr> # suf\<rparr>)
       else schedSendEvent now w (q\<lparr>transmitList := \<lparr>dp_tick = w, dp_pkt = p\<rparr> # suf\<rparr>))"
proof -
  let ?d = "\<lparr>dp_tick = w, dp_pkt = p\<rparr>"
  let ?sb = "stays_before (forceOrder q) ?d" and ?l = "transmitList q"
  define pre where "pre = rev (dropWhile (\<lambda>e. \<not> ?sb e) (rev ?l))"
  define suf where "suf = rev (takeWhile (\<lambda>e. \<not> ?sb e) (rev ?l))"
  have l: "?l = pre @ suf" unfolding pre_def suf_def by (metis rev_append rev_rev_ident takeWhile_dropWhile_id)
  have suf: "\<forall>e\<in>set suf. \<not> ?sb e" unfolding suf_def by (auto dest: set_takeWhileD)
  have pre: "pre = [] \<or> ?sb (last pre)" unfolding pre_def by (metis (mono_tags, lifting) hd_dropWhile last_rev rev_is_Nil_conv)
  have ex: "(\<exists>e\<in>set (rev ?l). ?sb e) \<longleftrightarrow> pre \<noteq> []"
    unfolding pre_def by (simp add: dropWhile_eq_Nil_conv)
  have "place_back (forceOrder q) ?d (rev ?l) = Inr (if \<exists>e\<in>set (rev ?l). ?sb e
      then Some (takeWhile (\<lambda>e. \<not> ?sb e) (rev ?l) @ ?d # dropWhile (\<lambda>e. \<not> ?sb e) (rev ?l)) else None)"
    using assms(1,2) by (intro place_back_eq) (auto simp: may_enter_def addrs_ok_def)
  then have pl: "place_back (forceOrder q) ?d (rev ?l) = Inr (if pre \<noteq> [] then Some (rev suf @ ?d # rev pre) else None)"
    unfolding ex by (simp only: pre_def suf_def rev_rev_ident)
  have "schedSendTiming now p w q = (if pre \<noteq> [] then Inr (False, q\<lparr>transmitList := pre @ ?d # suf\<rparr>)
       else schedSendEvent now w (q\<lparr>transmitList := ?d # suf\<rparr>))"
  proof (cases "pre = []")
    case True
    then show ?thesis using assms(1,3) pl l by (simp add: schedSendTiming_def may_enter_def has_room_for_def)
  next
    case False
    then show ?thesis using assms(1,3) pl by (simp add: schedSendTiming_def may_enter_def has_room_for_def)
  qed
  then show thesis using that l suf pre by blast
qed

section \<open>No packet is forgotten\<close>

text \<open>While a packet is out, the event is armed only for the front of the list and in time for it.\<close>

definition pq_mid :: "tick \<Rightarrow> packet_queue \<Rightarrow> bool" where
  "pq_mid now q \<longleftrightarrow> \<not> waitingOnRetry q \<and> addrs_ok q \<and> MaxTick \<notin> dp_tick ` set (transmitList q) \<and>
     (\<forall>s. sendEvent q = Some s \<longrightarrow> transmitList q \<noteq> [] \<and> now \<le> s \<and> dp_tick (hd (transmitList q)) \<le> s \<and> s \<le> max (dp_tick (hd (transmitList q))) (now + 1))"

definition pq_inv :: "tick \<Rightarrow> packet_queue \<Rightarrow> bool" where
  "pq_inv now q \<longleftrightarrow> (if waitingOnRetry q
     then sendEvent q = None \<and> deferredPacketReady now q \<and> addrs_ok q \<and> MaxTick \<notin> dp_tick ` set (transmitList q)
     else pq_mid now q \<and> (transmitList q \<noteq> [] \<longrightarrow> sendEvent q \<noteq> None))"

lemma tick_succ: "(now :: tick) \<noteq> MaxTick \<Longrightarrow> now < now + 1"
  by (metis add.commute inc_less_eq_self_iff_eq not_le)

text \<open>Arming the event for the front of the list.\<close>

lemma schedSendEvent_front:
  assumes "now \<noteq> MaxTick" "\<not> waitingOnRetry q" "addrs_ok q" "MaxTick \<notin> dp_tick ` set (transmitList q)" "transmitList q \<noteq> []"
    and "\<And>s. sendEvent q = Some s \<Longrightarrow> now \<le> s \<and> dp_tick (hd (transmitList q)) \<le> s"
  obtains s where "schedSendEvent now (dp_tick (hd (transmitList q))) q = Inr (False, q\<lparr>sendEvent := Some s\<rparr>)" "pq_mid now (q\<lparr>sendEvent := Some s\<rparr>)"
proof -
  let ?t = "dp_tick (hd (transmitList q))"
  let ?w = "max ?t (now + 1)"
  have t: "?t \<noteq> MaxTick" using assms(4,5) by (metis image_eqI list.set_sel(1))
  have w: "now \<le> ?w" using tick_succ [OF assms(1)] by (meson less_imp_le max.coboundedI2)
  define s where "s = (case sendEvent q of None \<Rightarrow> ?w | Some s \<Rightarrow> min ?w s)"
  have "schedSendEvent now ?t q = Inr (False, q\<lparr>sendEvent := Some s\<rparr>)"
    using t w assms(2) by (auto simp: schedSendEvent_def Let_def s_def min_def split: option.splits)
  moreover have "pq_mid now (q\<lparr>sendEvent := Some s\<rparr>)"
    using assms w by (auto simp: pq_mid_def s_def addrs_ok_def min_def le_max_iff_disj split: option.splits)
  ultimately show thesis using that by blast
qed


definition same_setup :: "packet_queue \<Rightarrow> packet_queue \<Rightarrow> bool" where
  "same_setup q q' \<longleftrightarrow> forceOrder q' = forceOrder q \<and> disableSanityCheck q' = disableSanityCheck q"

text \<open>What one entering packet does, whatever the state of the event.\<close>

definition entered :: "packet \<Rightarrow> tick \<Rightarrow> packet_queue \<Rightarrow> packet_queue \<Rightarrow> bool" where
  "entered p w q q' \<longleftrightarrow> same_setup q q' \<and> (\<exists>pre suf. transmitList q = pre @ suf \<and> transmitList q' = pre @ \<lparr>dp_tick = w, dp_pkt = p\<rparr> # suf \<and>
     (\<forall>e\<in>set suf. \<not> stays_before (forceOrder q) \<lparr>dp_tick = w, dp_pkt = p\<rparr> e) \<and>
     (pre = [] \<or> stays_before (forceOrder q) \<lparr>dp_tick = w, dp_pkt = p\<rparr> (last pre)))"

lemma enter_mid:
  assumes m: "pq_mid now q" and now: "now \<noteq> MaxTick" and e: "may_enter now p w" "has_room_for 1 q"
  obtains q' where "schedSendTiming now p w q = Inr (False, q')" "pq_mid now q'" "entered p w q q'"
    "transmitList q = [] \<or> sendEvent q \<noteq> None \<Longrightarrow> sendEvent q' \<noteq> None"
proof -
  let ?d = "\<lparr>dp_tick = w, dp_pkt = p\<rparr>"
  have a: "addrs_ok q" using m by (simp add: pq_mid_def)
  obtain pre suf where l: "transmitList q = pre @ suf" and suf: "\<forall>e\<in>set suf. \<not> stays_before (forceOrder q) ?d e"
      and pre: "pre = [] \<or> stays_before (forceOrder q) ?d (last pre)"
      and r: "schedSendTiming now p w q = (if pre \<noteq> [] then Inr (False, q\<lparr>transmitList := pre @ ?d # suf\<rparr>) else schedSendEvent now w (q\<lparr>transmitList := ?d # suf\<rparr>))"
    using schedSendTiming_place [OF e(1) a e(2)] by blast
  show thesis
  proof (cases "pre = []")
    case False
    then have "pq_mid now (q\<lparr>transmitList := pre @ ?d # suf\<rparr>)"
      using m e(1) l by (auto simp: pq_mid_def may_enter_def addrs_ok_def)
    moreover have "entered p w q (q\<lparr>transmitList := pre @ ?d # suf\<rparr>)"
      using l suf pre by (auto simp: entered_def same_setup_def)
    ultimately show thesis using that [of "q\<lparr>transmitList := pre @ ?d # suf\<rparr>"] r False l by simp
  next
    case True
    let ?q = "q\<lparr>transmitList := ?d # suf\<rparr>"
    have "w < dp_tick (hd suf)" if "suf \<noteq> []"
      using suf that by (metis deferred_packet.select_convs(1) list.set_sel(1) not_le stays_before_def)
    then have ev: "now \<le> s \<and> dp_tick (hd (transmitList ?q)) \<le> s" if "sendEvent ?q = Some s" for s
      using m that l True by (auto simp: pq_mid_def)
    have "\<not> waitingOnRetry ?q" "addrs_ok ?q" "MaxTick \<notin> dp_tick ` set (transmitList ?q)" "transmitList ?q \<noteq> []"
      using m e(1) l True by (auto simp: pq_mid_def addrs_ok_def may_enter_def)
    then obtain s where s: "schedSendEvent now (dp_tick (hd (transmitList ?q))) ?q = Inr (False, ?q\<lparr>sendEvent := Some s\<rparr>)" "pq_mid now (?q\<lparr>sendEvent := Some s\<rparr>)"
      using schedSendEvent_front [OF now _ _ _ _ ev] by metis
    have "entered p w q (?q\<lparr>sendEvent := Some s\<rparr>)" using l suf True by (auto simp: entered_def same_setup_def)
    then show thesis using that [of "?q\<lparr>sendEvent := Some s\<rparr>"] r s True by simp
  qed
qed

text \<open>While the queue waits for a retry nothing is put before the refused packet.\<close>

lemma enter_waiting:
  assumes i: "pq_inv now q" "waitingOnRetry q" and e: "may_enter now p w" "has_room_for 1 q"
  obtains q' where "schedSendTiming now p w q = Inr (False, q')" "pq_inv now q'" "entered p w q q'" "waitingOnRetry q'" "hd (transmitList q') = hd (transmitList q)"
proof -
  let ?d = "\<lparr>dp_tick = w, dp_pkt = p\<rparr>"
  have a: "addrs_ok q" and rdy: "deferredPacketReady now q" using i by (simp_all add: pq_inv_def)
  obtain pre suf where l: "transmitList q = pre @ suf" and suf: "\<forall>e\<in>set suf. \<not> stays_before (forceOrder q) ?d e"
      and pre: "pre = [] \<or> stays_before (forceOrder q) ?d (last pre)"
      and r: "schedSendTiming now p w q = (if pre \<noteq> [] then Inr (False, q\<lparr>transmitList := pre @ ?d # suf\<rparr>) else schedSendEvent now w (q\<lparr>transmitList := ?d # suf\<rparr>))"
    using schedSendTiming_place [OF e(1) a e(2)] by blast
  have "stays_before (forceOrder q) ?d (hd (transmitList q))"
    using rdy e(1) by (auto simp: deferredPacketReady_def stays_before_def may_enter_def)
  then have ne: "pre \<noteq> []" using suf l rdy by (auto simp: deferredPacketReady_def)
  let ?q = "q\<lparr>transmitList := pre @ ?d # suf\<rparr>"
  have "pq_inv now ?q" using i e(1) l ne by (auto simp: pq_inv_def deferredPacketReady_def addrs_ok_def may_enter_def)
  moreover have "entered p w q ?q" using l suf pre by (auto simp: entered_def same_setup_def)
  ultimately show thesis using that [of ?q] r ne i(2) l by simp
qed

lemma enter_inv:
  assumes "pq_inv now q" "now \<noteq> MaxTick" "may_enter now p w" "has_room_for 1 q"
  obtains q' where "schedSendTiming now p w q = Inr (False, q')" "pq_inv now q'" "entered p w q q'"
proof (cases "waitingOnRetry q")
  case True
  then show thesis using enter_waiting [OF assms(1) True assms(3,4)] that by metis
next
  case False
  then have m: "pq_mid now q" "transmitList q = [] \<or> sendEvent q \<noteq> None" using assms(1) by (auto simp: pq_inv_def)
  obtain q' where "schedSendTiming now p w q = Inr (False, q')" "pq_mid now q'" "entered p w q q'" "sendEvent q' \<noteq> None"
    using enter_mid [OF m(1) assms(2-4)] m(2) by metis
  moreover from this have "pq_inv now q'" by (auto simp: pq_inv_def pq_mid_def)
  ultimately show thesis using that by blast
qed


section \<open>The packets of an address keep their order\<close>

definition to_addr :: "addr \<Rightarrow> bool \<Rightarrow> packet list \<Rightarrow> packet list" where
  "to_addr a s ps = filter (\<lambda>p. pkt_addr p = a \<and> pkt_secure p = s) ps"

abbreviation queued :: "packet_queue \<Rightarrow> packet list" where
  "queued q \<equiv> map dp_pkt (transmitList q)"

text \<open>The log: packets that arrived are those sent and those in the queue; with forced order in sequence for each address, and without it
  the queue is ordered by time.\<close>

definition logged :: "packet list \<Rightarrow> packet list \<Rightarrow> packet_queue \<Rightarrow> bool" where
  "logged arrived sent q \<longleftrightarrow> mset sent + mset (queued q) = mset arrived \<and> (\<not> forceOrder q \<longrightarrow> sorted (map dp_tick (transmitList q))) \<and>
     (forceOrder q \<longrightarrow> (\<forall>a s. to_addr a s sent @ to_addr a s (queued q) = to_addr a s arrived))"

lemma logged_entered:
  assumes "logged arrived sent q" "entered p w q q'"
  shows "logged (arrived @ [p]) sent q'"
proof -
  let ?d = "\<lparr>dp_tick = w, dp_pkt = p\<rparr>"
  obtain pre suf where l: "transmitList q = pre @ suf" "transmitList q' = pre @ ?d # suf"
      and suf: "\<forall>e\<in>set suf. \<not> stays_before (forceOrder q) ?d e" and f: "forceOrder q' = forceOrder q"
      and pre: "pre = [] \<or> stays_before (forceOrder q) ?d (last pre)"
    using assms(2) by (auto simp: entered_def same_setup_def)
  have "sorted (map dp_tick (transmitList q'))" if nf: "\<not> forceOrder q"
  proof -
    have so: "sorted (map dp_tick pre)" "sorted (map dp_tick suf)" "\<forall>x\<in>set pre. \<forall>y\<in>set suf. dp_tick x \<le> dp_tick y"
      using assms(1) nf l(1) by (auto simp: logged_def sorted_append)
    have "\<forall>x\<in>set pre. dp_tick x \<le> w"
    proof (cases pre rule: rev_cases)
      case (snoc ys y)
      then have "\<forall>x\<in>set pre. dp_tick x \<le> dp_tick y" using so(1) by (simp add: sorted_append)
      moreover have "dp_tick y \<le> w" using pre snoc nf by (simp add: stays_before_def)
      ultimately show ?thesis by (meson order_trans)
    qed simp
    moreover have "\<forall>y\<in>set suf. w \<le> dp_tick y" using suf nf by (auto simp: stays_before_def)
    ultimately show ?thesis using so l(2) by (simp add: sorted_append)
  qed
  note sorted' = this
  have "to_addr a s (map dp_pkt suf) = []" if "forceOrder q" "pkt_addr p = a" "pkt_secure p = s" for a s
    using suf that by (auto simp: to_addr_def filter_empty_conv stays_before_def same_addr_def)
  then have "to_addr a s (queued q') = to_addr a s (queued q) @ to_addr a s [p]" if "forceOrder q" for a s
    using that by (auto simp: l to_addr_def)
  moreover have "to_addr a s (arrived @ [p]) = to_addr a s arrived @ to_addr a s [p]" for a s by (simp add: to_addr_def)
  ultimately show ?thesis using assms(1) f sorted' by (auto simp: logged_def l simp flip: append_assoc)
qed

fun entered_all :: "(packet \<times> tick) list \<Rightarrow> packet_queue \<Rightarrow> packet_queue \<Rightarrow> bool" where
  "entered_all [] q q' \<longleftrightarrow> transmitList q' = transmitList q \<and> same_setup q q'"
| "entered_all ((p, w) # ps) q q' \<longleftrightarrow> (\<exists>q1. entered p w q q1 \<and> entered_all ps q1 q')"

lemma logged_entered_all:
  "logged arrived sent q \<Longrightarrow> entered_all ps q q' \<Longrightarrow> logged (arrived @ map fst ps) sent q'"
proof (induction ps q q' arbitrary: arrived rule: entered_all.induct)
  case (1 q q')
  then show ?case by (simp add: logged_def same_setup_def)
next
  case (2 p w ps q q')
  then obtain q1 where "entered p w q q1" "entered_all ps q1 q'" by auto
  then show ?case using 2 logged_entered [of arrived sent q p w q1] by fastforce
qed

lemma entered_same_setup: "entered p w q q' \<Longrightarrow> same_setup q q'"
  by (simp add: entered_def)

lemma entered_length: "entered p w q q' \<Longrightarrow> length (transmitList q') = Suc (length (transmitList q))"
  by (auto simp: entered_def)

lemma entered_all_same_setup: "entered_all ps q q' \<Longrightarrow> same_setup q q'"
  by (induction ps q q' rule: entered_all.induct) (auto simp: same_setup_def dest: entered_same_setup)

lemma enqueue_all_mid:
  assumes "pq_mid now q" "now \<noteq> MaxTick" "\<forall>(p, w)\<in>set ps. may_enter now p w" "has_room_for (length ps) q"
  obtains q' where "enqueue_all now ps q = Inr q'" "pq_mid now q'" "entered_all ps q q'"
  using assms
proof (induction ps arbitrary: q thesis)
  case Nil
  then show ?case by (simp add: same_setup_def)
next
  case (Cons pw ps)
  obtain p w where pw: "pw = (p, w)" by fastforce
  have "has_room_for 1 q" using Cons.prems(5) by (auto simp: has_room_for_def)
  moreover have "may_enter now p w" using Cons.prems(4) pw by simp
  ultimately obtain q1 where q1: "schedSendTiming now p w q = Inr (False, q1)" "pq_mid now q1" "entered p w q q1"
    using enter_mid [OF Cons.prems(2,3)] by metis
  have "has_room_for (length ps) q1" using Cons.prems(5) entered_length [OF q1(3)] entered_same_setup [OF q1(3)]
    by (auto simp: has_room_for_def same_setup_def)
  then obtain q' where "enqueue_all now ps q1 = Inr q'" "pq_mid now q'" "entered_all ps q1 q'"
    using Cons.IH [OF _ q1(2) Cons.prems(3)] Cons.prems(4) by auto
  then show ?case using Cons.prems(1) q1 pw by auto
qed


text \<open>A receiver is polite when what it sends back may enter, and when it sends nothing into the queue while it refuses a packet.\<close>

definition polite :: "tick \<Rightarrow> reaction \<Rightarrow> bool" where
  "polite now r \<longleftrightarrow> (\<forall>(p, w)\<in>set (enqueued r). may_enter now p w) \<and> (accepted r \<or> enqueued r = [])"

lemma send_ok:
  assumes q: "\<not> waitingOnRetry q" "deferredPacketReady now q" "sendEvent q = None" "addrs_ok q" "MaxTick \<notin> dp_tick ` set (transmitList q)"
    and now: "now \<noteq> MaxTick" and r: "polite now r" "has_room_for (length (enqueued r)) q"
  obtains b q' q1 where "sendDeferredPacket now r q = Inr (b, q')" "pq_inv now q'"
    "entered_all (enqueued r) (q\<lparr>transmitList := tl (transmitList q)\<rparr>) q1" "same_setup q1 q'"
    "transmitList q' = (if accepted r then transmitList q1 else hd (transmitList q) # transmitList q1)"
proof -
  let ?q0 = "q\<lparr>transmitList := tl (transmitList q)\<rparr>"
  have ne: "transmitList q \<noteq> []" using q(2) by (simp add: deferredPacketReady_def)
  have sub: "set (tl (transmitList q)) \<subseteq> set (transmitList q)" by (cases "transmitList q") auto
  then have "pq_mid now ?q0" using q by (auto simp: pq_mid_def addrs_ok_def)
  moreover have "has_room_for (length (enqueued r)) ?q0" using r(2) by (auto simp: has_room_for_def)
  moreover have "\<forall>(p, w)\<in>set (enqueued r). may_enter now p w" using r(1) by (simp add: polite_def)
  ultimately obtain q1 where q1: "enqueue_all now (enqueued r) ?q0 = Inr q1" "pq_mid now q1" "entered_all (enqueued r) ?q0 q1"
    using enqueue_all_mid [OF _ now] by metis
  have send: "sendDeferredPacket now r q = (if accepted r then schedSendEvent now (deferredPacketReadyTime (q1\<lparr>waitingOnRetry := False\<rparr>)) (q1\<lparr>waitingOnRetry := False\<rparr>)
       else Inr (False, q1\<lparr>waitingOnRetry := True, transmitList := hd (transmitList q) # transmitList q1\<rparr>))"
    using q(1,2) q1(1) by (simp add: sendDeferredPacket_def Let_def)
  have w1: "q1\<lparr>waitingOnRetry := False\<rparr> = q1" using q1(2) by (simp add: pq_mid_def)
  consider "accepted r" "transmitList q1 = []" | "accepted r" "transmitList q1 \<noteq> []" | "\<not> accepted r" by blast
  then show thesis
  proof cases
    case 1
    then have ev: "sendEvent q1 = None" using q1(2) by (cases "sendEvent q1") (auto simp: pq_mid_def)
    have t: "deferredPacketReadyTime q1 = MaxTick" using 1 by (simp add: deferredPacketReadyTime_def)
    have nw: "\<not> waitingOnRetry q1" using q1(2) by (simp add: pq_mid_def)
    have "\<exists>b q'. schedSendEvent now MaxTick q1 = Inr (b, q') \<and> (q' = q1 \<or> q' = q1\<lparr>pq_draining := False\<rparr>)"
      using nw by (cases "pq_draining q1 \<and> transmitList q1 = [] \<and> sendEvent q1 = None") (auto simp: schedSendEvent_def)
    then obtain b q' where "schedSendEvent now MaxTick q1 = Inr (b, q')" "q' = q1 \<or> q' = q1\<lparr>pq_draining := False\<rparr>" by blast
    moreover from this(2) have "pq_inv now q'" "same_setup q1 q'" "transmitList q' = transmitList q1"
      using q1(2) 1(2) nw ev by (auto simp: pq_inv_def pq_mid_def addrs_ok_def same_setup_def)
    ultimately show thesis using that [of b q' q1] send w1 t 1(1) q1(3) by simp
  next
    case 2
    have pm: "\<not> waitingOnRetry q1" "addrs_ok q1" "MaxTick \<notin> dp_tick ` set (transmitList q1)" using q1(2) by (simp_all add: pq_mid_def)
    have ev: "now \<le> s \<and> dp_tick (hd (transmitList q1)) \<le> s" if "sendEvent q1 = Some s" for s using q1(2) that by (simp add: pq_mid_def)
    obtain s where s: "schedSendEvent now (dp_tick (hd (transmitList q1))) q1 = Inr (False, q1\<lparr>sendEvent := Some s\<rparr>)" "pq_mid now (q1\<lparr>sendEvent := Some s\<rparr>)"
      using schedSendEvent_front [OF now pm 2(2) ev] by metis
    have "pq_inv now (q1\<lparr>sendEvent := Some s\<rparr>)" using s(2) by (auto simp: pq_inv_def pq_mid_def)
    then show thesis using that [of False "q1\<lparr>sendEvent := Some s\<rparr>" q1] send w1 s(1) 2 q1(3) by (simp add: deferredPacketReadyTime_def same_setup_def)
  next
    case 3
    then have "enqueued r = []" using r(1) by (simp add: polite_def)
    then have "q1 = ?q0" using q1(1) by simp
    then have "pq_inv now (q1\<lparr>waitingOnRetry := True, transmitList := hd (transmitList q) # transmitList q1\<rparr>)"
      using q ne by (auto simp: pq_inv_def deferredPacketReady_def addrs_ok_def)
    then show thesis using that [of False _ q1] send 3 q1(3) by (simp add: same_setup_def)
  qed
qed

lemma logged_send:
  assumes l: "logged arrived sent q" and ne: "transmitList q \<noteq> []"
    and e: "entered_all ps (q\<lparr>transmitList := tl (transmitList q)\<rparr>) q1" "same_setup q1 q'"
    and t: "transmitList q' = (if acc then transmitList q1 else hd (transmitList q) # transmitList q1)" "acc \<or> ps = []"
  shows "logged (arrived @ map fst ps) (sent @ (if acc then [dp_pkt (hd (transmitList q))] else [])) q'"
proof (cases acc)
  case True
  obtain d ds where d: "transmitList q = d # ds" using ne by (cases "transmitList q") auto
  have "to_addr a s (sent @ [dp_pkt d]) @ to_addr a s (map dp_pkt ds) = to_addr a s sent @ to_addr a s (queued q)" for a s
    by (simp add: to_addr_def d)
  then have "logged arrived (sent @ [dp_pkt d]) (q\<lparr>transmitList := ds\<rparr>)"
    using l d by (simp add: logged_def)
  then have "logged (arrived @ map fst ps) (sent @ [dp_pkt d]) q1" using logged_entered_all e(1) d by simp
  then show ?thesis using True t(1) e(2) d by (simp add: logged_def same_setup_def)
next
  case False
  then have "transmitList q' = transmitList q" "same_setup q q'" "ps = []" using t e ne by (auto simp: same_setup_def)
  then show ?thesis using l False by (simp add: logged_def same_setup_def)
qed


section \<open>Runs of the queue\<close>

text \<open>Time passes up to the event that is armed; packets enter; the event fires or the receiver asks for a retry.
  \<open>arrived\<close> and \<open>sent\<close> list the packets that entered and those the receiver accepted.\<close>

inductive pq_run :: "bool \<Rightarrow> bool \<Rightarrow> tick \<Rightarrow> packet list \<Rightarrow> packet list \<Rightarrow> packet_queue \<Rightarrow> bool" for force dis where
  start: "pq_run force dis 0 [] [] (PacketQueue force dis)"
| time: "pq_run force dis now arrived sent q \<Longrightarrow> now \<le> now' \<Longrightarrow> now' \<noteq> MaxTick \<Longrightarrow> (\<And>s. sendEvent q = Some s \<Longrightarrow> now' \<le> s) \<Longrightarrow>
    pq_run force dis now' arrived sent q"
| enter: "pq_run force dis now arrived sent q \<Longrightarrow> may_enter now p w \<Longrightarrow> schedSendTiming now p w q = Inr (b, q') \<Longrightarrow>
    pq_run force dis now (arrived @ [p]) sent q'"
| fire: "pq_run force dis now arrived sent q \<Longrightarrow> sendEvent q = Some now \<Longrightarrow> polite now r \<Longrightarrow> has_room_for (length (enqueued r)) q \<Longrightarrow>
    processSendEvent now r (q\<lparr>sendEvent := None\<rparr>) = Inr (b, q') \<Longrightarrow>
    pq_run force dis now (arrived @ map fst (enqueued r)) (sent @ (if accepted r then [dp_pkt (hd (transmitList q))] else [])) q'"
| retry: "pq_run force dis now arrived sent q \<Longrightarrow> polite now r \<Longrightarrow> has_room_for (length (enqueued r)) q \<Longrightarrow> pq_retry now r q = Inr (b, q') \<Longrightarrow>
    pq_run force dis now (arrived @ map fst (enqueued r)) (sent @ (if accepted r then [dp_pkt (hd (transmitList q))] else [])) q'"
| drain: "pq_run force dis now arrived sent q \<Longrightarrow> pq_drain q = (b, q') \<Longrightarrow> pq_run force dis now arrived sent q'"

lemma schedSendTiming_room: "schedSendTiming now p w q = Inr (b, q') \<Longrightarrow> has_room_for 1 q"
  by (auto simp: schedSendTiming_def has_room_for_def)

lemma fire_ok:
  assumes "pq_inv now q" "now \<noteq> MaxTick" "sendEvent q = Some now" "polite now r" "has_room_for (length (enqueued r)) q"
  obtains b q' q1 where "processSendEvent now r (q\<lparr>sendEvent := None\<rparr>) = Inr (b, q')" "pq_inv now q'" "transmitList q \<noteq> []"
    "entered_all (enqueued r) (q\<lparr>sendEvent := None, transmitList := tl (transmitList q)\<rparr>) q1" "same_setup q1 q'"
    "transmitList q' = (if accepted r then transmitList q1 else hd (transmitList q) # transmitList q1)"
proof -
  let ?q = "q\<lparr>sendEvent := None\<rparr>"
  have m: "pq_mid now q" using assms(1,3) by (auto simp: pq_inv_def split: if_splits)
  then have "\<not> waitingOnRetry ?q" "deferredPacketReady now ?q" "sendEvent ?q = None" "addrs_ok ?q" "MaxTick \<notin> dp_tick ` set (transmitList ?q)"
    using assms(3) by (auto simp: pq_mid_def deferredPacketReady_def addrs_ok_def)
  note c = this
  have "has_room_for (length (enqueued r)) ?q" using assms(5) by (simp add: has_room_for_def)
  then obtain b q' q1 where o: "sendDeferredPacket now r ?q = Inr (b, q')" "pq_inv now q'"
      "entered_all (enqueued r) (?q\<lparr>transmitList := tl (transmitList ?q)\<rparr>) q1" "same_setup q1 q'"
      "transmitList q' = (if accepted r then transmitList q1 else hd (transmitList ?q) # transmitList q1)"
    by (rule send_ok [OF c assms(2,4)])
  show thesis using that [of b q' q1] o c(1,2) by (simp add: processSendEvent_def deferredPacketReady_def)
qed

lemma retry_ok:
  assumes "pq_inv now q" "now \<noteq> MaxTick" "waitingOnRetry q" "polite now r" "has_room_for (length (enqueued r)) q"
  obtains b q' q1 where "pq_retry now r q = Inr (b, q')" "pq_inv now q'" "transmitList q \<noteq> []"
    "entered_all (enqueued r) (q\<lparr>waitingOnRetry := False, transmitList := tl (transmitList q)\<rparr>) q1" "same_setup q1 q'"
    "transmitList q' = (if accepted r then transmitList q1 else hd (transmitList q) # transmitList q1)"
proof -
  let ?q = "q\<lparr>waitingOnRetry := False\<rparr>"
  have c: "\<not> waitingOnRetry ?q" "deferredPacketReady now ?q" "sendEvent ?q = None" "addrs_ok ?q" "MaxTick \<notin> dp_tick ` set (transmitList ?q)"
    using assms(1,3) by (auto simp: pq_inv_def deferredPacketReady_def addrs_ok_def)
  have "has_room_for (length (enqueued r)) ?q" using assms(5) by (simp add: has_room_for_def)
  then obtain b q' q1 where o: "sendDeferredPacket now r ?q = Inr (b, q')" "pq_inv now q'"
      "entered_all (enqueued r) (?q\<lparr>transmitList := tl (transmitList ?q)\<rparr>) q1" "same_setup q1 q'"
      "transmitList q' = (if accepted r then transmitList q1 else hd (transmitList ?q) # transmitList q1)"
    by (rule send_ok [OF c assms(2,4)])
  show thesis using that [of b q' q1] o c(2) assms(3) by (simp add: pq_retry_def deferredPacketReady_def)
qed

lemma pq_inv_time:
  assumes "pq_inv now q" "now \<le> now'" "now' \<noteq> MaxTick" "\<And>s. sendEvent q = Some s \<Longrightarrow> now' \<le> s"
  shows "pq_inv now' q"
proof -
  have "now + 1 \<le> now' + 1" using assms(2,3) by (metis inc_le inc_less_eq_iff le_less tick_succ order_le_less_trans)
  then have "pq_mid now q \<Longrightarrow> pq_mid now' q" using assms(4) by (fastforce simp: pq_mid_def le_max_iff_disj)
  then show ?thesis using assms(1,2) by (auto simp: pq_inv_def deferredPacketReady_def)
qed

lemma pq_inv_draining: "pq_inv now (q\<lparr>pq_draining := d\<rparr>) = pq_inv now q"
proof -
  have "deferredPacketReady now (q\<lparr>pq_draining := d\<rparr>) = deferredPacketReady now q" "addrs_ok (q\<lparr>pq_draining := d\<rparr>) = addrs_ok q"
    by (simp_all add: deferredPacketReady_def addrs_ok_def)
  moreover from this(2) have "pq_mid now (q\<lparr>pq_draining := d\<rparr>) = pq_mid now q" by (simp add: pq_mid_def)
  ultimately show ?thesis by (simp add: pq_inv_def)
qed

lemma pq_run_inv:
  "pq_run force dis now arrived sent q \<Longrightarrow> now \<noteq> MaxTick \<and> pq_inv now q \<and> logged arrived sent q \<and> forceOrder q = force \<and> disableSanityCheck q = dis"
proof (induction rule: pq_run.induct)
  case start
  then show ?case by (simp add: PacketQueue_def pq_inv_def pq_mid_def addrs_ok_def logged_def to_addr_def)
next
  case (time now arrived sent q now')
  then show ?case using pq_inv_time by blast
next
  case (enter now arrived sent q p w b q')
  then obtain q1 where "schedSendTiming now p w q = Inr (False, q1)" "pq_inv now q1" "entered p w q q1"
    using enter_inv [of now q p w] schedSendTiming_room by metis
  then show ?case using enter logged_entered entered_same_setup by (auto simp: same_setup_def)
next
  case (fire now arrived sent q r b q')
  then obtain q1 where o: "pq_inv now q'" "transmitList q \<noteq> []"
    "entered_all (enqueued r) (q\<lparr>sendEvent := None, transmitList := tl (transmitList q)\<rparr>) q1" "same_setup q1 q'"
    "transmitList q' = (if accepted r then transmitList q1 else hd (transmitList q) # transmitList q1)"
    using fire_ok [of now q r] by (metis Inr_inject prod.inject)
  have "logged arrived sent (q\<lparr>sendEvent := None\<rparr>)" using fire by (simp add: logged_def)
  then have "logged (arrived @ map fst (enqueued r)) (sent @ (if accepted r then [dp_pkt (hd (transmitList q))] else [])) q'"
    using logged_send [of arrived sent "q\<lparr>sendEvent := None\<rparr>" "enqueued r" q1 q' "accepted r"] o fire.hyps(3)
    by (cases "accepted r") (simp_all add: polite_def)
  then show ?case using fire o(1) entered_all_same_setup [OF o(3)] o(4) by (auto simp: same_setup_def)
next
  case (retry now arrived sent q r b q')
  then have w: "waitingOnRetry q" by (auto simp: pq_retry_def)
  with retry obtain q1 where o: "pq_inv now q'" "transmitList q \<noteq> []"
    "entered_all (enqueued r) (q\<lparr>waitingOnRetry := False, transmitList := tl (transmitList q)\<rparr>) q1" "same_setup q1 q'"
    "transmitList q' = (if accepted r then transmitList q1 else hd (transmitList q) # transmitList q1)"
    using retry_ok [of now q r] by (metis Inr_inject prod.inject)
  have "logged arrived sent (q\<lparr>waitingOnRetry := False\<rparr>)" using retry by (simp add: logged_def)
  then have "logged (arrived @ map fst (enqueued r)) (sent @ (if accepted r then [dp_pkt (hd (transmitList q))] else [])) q'"
    using logged_send [of arrived sent "q\<lparr>waitingOnRetry := False\<rparr>" "enqueued r" q1 q' "accepted r"] o retry.hyps(2)
    by (cases "accepted r") (simp_all add: polite_def)
  then show ?case using retry o(1) entered_all_same_setup [OF o(3)] o(4) by (auto simp: same_setup_def)
next
  case (drain now arrived sent q b q')
  then obtain d where "q' = q\<lparr>pq_draining := d\<rparr>" by (auto simp: pq_drain_def split: if_splits)
  then show ?case using drain.IH by (simp add: pq_inv_draining logged_def)
qed


text \<open>C24: A packet queue never forgets to send. In every state it can reach with receivers that send nothing into the queue while they refuse a
  packet, a queue that holds packets either waits for a retry or has its event armed, never both, and the event is due no later than the front packet
  or one tick from now. When the event fires, or the receiver asks for a retry, no assertion fails: the front
  packet is ready.\<close>

theorem packet_queue_wakes:
  assumes "pq_run force dis now arrived sent q"
  shows "(transmitList q \<noteq> [] \<longrightarrow> waitingOnRetry q \<noteq> (\<exists>s. sendEvent q = Some s \<and> now \<le> s \<and> s \<le> max (dp_tick (hd (transmitList q))) (now + 1))) \<and>
    (polite now r \<and> has_room_for (length (enqueued r)) q \<longrightarrow>
      (sendEvent q = Some now \<longrightarrow> (\<exists>b q'. processSendEvent now r (q\<lparr>sendEvent := None\<rparr>) = Inr (b, q'))) \<and>
      (waitingOnRetry q \<longrightarrow> (\<exists>b q'. pq_retry now r q = Inr (b, q'))))"
proof -
  have i: "now \<noteq> MaxTick" "pq_inv now q" using pq_run_inv [OF assms] by auto
  have "transmitList q \<noteq> [] \<longrightarrow> waitingOnRetry q \<noteq> (\<exists>s. sendEvent q = Some s \<and> now \<le> s \<and> s \<le> max (dp_tick (hd (transmitList q))) (now + 1))"
    using i(2) by (auto simp: pq_inv_def pq_mid_def split: if_splits)
  moreover have "\<exists>b q'. processSendEvent now r (q\<lparr>sendEvent := None\<rparr>) = Inr (b, q')"
    if "polite now r" "has_room_for (length (enqueued r)) q" "sendEvent q = Some now"
    using fire_ok [OF i(2,1) that(3,1,2)] by metis
  moreover have "\<exists>b q'. pq_retry now r q = Inr (b, q')" if "polite now r" "has_room_for (length (enqueued r)) q" "waitingOnRetry q"
    using retry_ok [OF i(2,1) that(3,1,2)] by metis
  ultimately show ?thesis by blast
qed

text \<open>C25: No packet is lost or sent twice, and a packet queue with forced order sends the packets of every address in the order in which they
  entered, whatever times they were given; without forced order the queue is always ordered by time.\<close>

theorem packet_queue_order:
  assumes "pq_run force dis now arrived sent q"
  shows "mset sent + mset (queued q) = mset arrived \<and>
    (if force then to_addr a s sent @ to_addr a s (queued q) = to_addr a s arrived else sorted (map dp_tick (transmitList q)))"
  using pq_run_inv [OF assms] by (auto simp: logged_def)

definition to_port :: "addr \<Rightarrow> command \<Rightarrow> packet" where
  "to_port a c = \<lparr>pkt_cmd = c, pkt_flags = 0x300, pkt_req = \<lparr>req_flags = 0, req_paddr = Some a, req_size = Some 64, req_masked = False\<rparr>,
     pkt_addr = a, pkt_secure = False, pkt_size = 64, pkt_data = None, bytesValid = [], is_prefetch_hint_pkt = False,
     ddio_prefetch_destination = -1, is_block_io = False, is_ddio_pkt = False, is_ddio_header = False\<rparr>"

text \<open>A write enters first but later in time than a read of the same address.\<close>

definition write_then_read :: "bool \<Rightarrow> packet_queue result" where
  "write_then_read force = bindR (schedSendTiming 0 (to_port 0x40 WriteReq) 20 (PacketQueue force False)) (\<lambda>(_, q).
     bindR (schedSendTiming 0 (to_port 0x40 ReadReq) 10 q) (\<lambda>(_, q). Inr q))"

lemma write_then_read_run:
  assumes "write_then_read force = Inr q"
  shows "pq_run force False 0 [to_port 0x40 WriteReq, to_port 0x40 ReadReq] [] q"
proof -
  obtain b1 q1 b2 where q: "schedSendTiming 0 (to_port 0x40 WriteReq) 20 (PacketQueue force False) = Inr (b1, q1)"
      "schedSendTiming 0 (to_port 0x40 ReadReq) 10 q1 = Inr (b2, q)"
    using assms by (auto simp: write_then_read_def bindR_Inr_iff)
  have "may_enter 0 (to_port 0x40 WriteReq) 20" "may_enter 0 (to_port 0x40 ReadReq) 10" by code_simp+
  then show ?thesis using pq_run.enter [OF pq_run.enter [OF pq_run.start _ q(1)] _ q(2)] by simp
qed

lemma write_then_read_forced: "case write_then_read True of Inl _ \<Rightarrow> False
   | Inr q \<Rightarrow> map (\<lambda>d. pkt_cmd (dp_pkt d)) (transmitList q) = [WriteReq, ReadReq] \<and> sendEvent q = Some 20 \<and> \<not> waitingOnRetry q"
  by code_simp

theorem packet_queue_wakes_witness:
  "\<exists>q b q'. pq_run True False 20 [to_port 0x40 WriteReq, to_port 0x40 ReadReq] [] q \<and> sendEvent q = Some 20 \<and>
     processSendEvent 20 \<lparr>accepted = True, enqueued = []\<rparr> (q\<lparr>sendEvent := None\<rparr>) = Inr (b, q')"
proof -
  obtain q where q: "write_then_read True = Inr q" "sendEvent q = Some 20" "map (\<lambda>d. pkt_cmd (dp_pkt d)) (transmitList q) = [WriteReq, ReadReq]"
    using write_then_read_forced by (auto split: sum.splits)
  have r: "pq_run True False 20 [to_port 0x40 WriteReq, to_port 0x40 ReadReq] [] q"
    using q(2) by (auto intro: pq_run.time [OF write_then_read_run [OF q(1)]])
  have "length (transmitList q) = 2" using arg_cong [OF q(3), of length] by simp
  then have "polite 20 \<lparr>accepted = True, enqueued = []\<rparr>" "has_room_for (length (enqueued \<lparr>accepted = True, enqueued = []\<rparr>)) q"
    by (simp_all add: polite_def has_room_for_def)
  note ok = mp [OF conjunct2 [OF packet_queue_wakes [OF r]] conjI [OF this]]
  have "\<exists>b q'. processSendEvent 20 \<lparr>accepted = True, enqueued = []\<rparr> (q\<lparr>sendEvent := None\<rparr>) = Inr (b, q')"
    using mp [OF conjunct1 [OF ok] q(2)] .
  then obtain b q' where "processSendEvent 20 \<lparr>accepted = True, enqueued = []\<rparr> (q\<lparr>sendEvent := None\<rparr>) = Inr (b, q')" by (elim exE)
  with r q(2) show ?thesis by (intro exI conjI)
qed

theorem packet_queue_order_witness:
  "\<exists>q. write_then_read True = Inr q \<and> queued q = [to_port 0x40 WriteReq, to_port 0x40 ReadReq]"
proof -
  obtain q where q: "write_then_read True = Inr q" "map (\<lambda>d. pkt_cmd (dp_pkt d)) (transmitList q) = [WriteReq, ReadReq]"
    using write_then_read_forced by (auto split: sum.splits)
  note o = packet_queue_order [OF write_then_read_run [OF q(1)]]
  let ?ps = "[to_port 0x40 WriteReq, to_port 0x40 ReadReq]"
  have "mset (queued q) = mset ?ps" using conjunct1 [OF o [of "0x40" False]] by simp
  then have "set (queued q) = set ?ps" by (metis set_mset_mset)
  then have all: "to_addr 0x40 False (queued q) = queued q" unfolding to_addr_def by (intro filter_True) (auto simp: to_port_def)
  have "to_addr 0x40 False (queued q) = to_addr 0x40 False ?ps" using conjunct2 [OF o [of "0x40" False]] by (simp add: to_addr_def)
  moreover have "to_addr 0x40 False ?ps = ?ps" by (simp add: to_addr_def to_port_def)
  ultimately have "queued q = ?ps" using all by simp
  with q(1) show ?thesis by (intro exI conjI)
qed

text \<open>A receiver that sends into an empty queue and then refuses the packet leaves the event armed while the queue waits for the retry, and the event aborts.\<close>

lemma impolite_refusal_aborts:
  "case bindR (schedSendTiming 0 (to_port 0x40 WriteReq) 10 (PacketQueue False False)) (\<lambda>(_, q).
      bindR (processSendEvent 10 \<lparr>accepted = False, enqueued = [(to_port 0x80 ReadReq, 15)]\<rparr> (q\<lparr>sendEvent := None\<rparr>)) (\<lambda>(_, q).
      Inr (sendEvent q, processSendEvent 15 \<lparr>accepted = True, enqueued = []\<rparr> (q\<lparr>sendEvent := None\<rparr>)))) of
     Inl _ \<Rightarrow> False | Inr (ev, res) \<Rightarrow> ev = Some 15 \<and> (case res of Inl e \<Rightarrow> e = Assert_Failed | Inr _ \<Rightarrow> False)"
  by code_simp

end
